(* ===== verification/Nosj_Prelude.thy ===== *)
theory Nosj_Prelude
  imports Main "HOL-Library.Word"
begin

text \<open>
  The vocabulary the components share.  Bytes are 8-bit words and a document is a list of
  them; a fallible Rust function returns \<open>'e + 'a\<close> with \<open>Inl\<close> for the error, and
  \<open>tryr\<close> is the \<open>?\<close> operator that passes an error on.  The slice and iterator
  operations of the Rust standard library that the code uses (\<open>position\<close>,
  \<open>rposition\<close>, \<open>windows(2)\<close>, sub-slices, \<open>clamp\<close>) are defined here with the lemmas
  the component proofs need, together with the classification of an \<open>f64\<close> by its bits.
\<close>

section \<open>Types and byte constants\<close>

type_synonym byte = "8 word"
type_synonym bytes = "byte list"
type_synonym u32 = "32 word"
type_synonym u64 = "64 word"

text \<open>An \<open>f64\<close> is carried as its IEEE 754 bit pattern.\<close>

type_synonym f64 = "64 word"

definition asc :: "string \<Rightarrow> bytes" where
  "asc s = map of_char s"

lemma asc_append: "asc (s @ t) = asc s @ asc t"
  by (simp add: asc_def)

lemma length_asc [simp]: "length (asc s) = length s"
  by (simp add: asc_def)

abbreviation b_quote :: byte where "b_quote \<equiv> 0x22"
abbreviation b_comma :: byte where "b_comma \<equiv> 0x2C"
abbreviation b_colon :: byte where "b_colon \<equiv> 0x3A"
abbreviation b_slash :: byte where "b_slash \<equiv> 0x2F"
abbreviation b_tilde :: byte where "b_tilde \<equiv> 0x7E"
abbreviation b_zero :: byte where "b_zero \<equiv> 0x30"
abbreviation b_one :: byte where "b_one \<equiv> 0x31"
abbreviation b_lbrace :: byte where "b_lbrace \<equiv> 0x7B"
abbreviation b_rbrace :: byte where "b_rbrace \<equiv> 0x7D"
abbreviation b_lbracket :: byte where "b_lbracket \<equiv> 0x5B"
abbreviation b_rbracket :: byte where "b_rbracket \<equiv> 0x5D"
abbreviation b_nl :: byte where "b_nl \<equiv> 0x0A"
abbreviation b_cr :: byte where "b_cr \<equiv> 0x0D"
abbreviation b_space :: byte where "b_space \<equiv> 0x20"
abbreviation b_tab :: byte where "b_tab \<equiv> 0x09"

text \<open>JSON's insignificant whitespace, the constant \<open>WS\<close> of patch.rs and lazy.rs.\<close>

definition json_ws :: bytes where
  "json_ws = [b_space, b_tab, b_nl, b_cr]"

abbreviation is_ws :: "byte \<Rightarrow> bool" where
  "is_ws b \<equiv> b \<in> set json_ws"

section \<open>Results\<close>

fun tryr :: "'e + 'a \<Rightarrow> ('a \<Rightarrow> 'e + 'b) \<Rightarrow> 'e + 'b" where
  "tryr (Inl e) k = Inl e"
| "tryr (Inr x) k = k x"

fun is_ok :: "'e + 'a \<Rightarrow> bool" where
  "is_ok (Inl e) = False"
| "is_ok (Inr x) = True"

fun map_ok :: "('a \<Rightarrow> 'b) \<Rightarrow> 'e + 'a \<Rightarrow> 'e + 'b" where
  "map_ok f (Inl e) = Inl e"
| "map_ok f (Inr x) = Inr (f x)"

fun map_err :: "('e \<Rightarrow> 'f) \<Rightarrow> 'e + 'a \<Rightarrow> 'f + 'a" where
  "map_err f (Inl e) = Inl (f e)"
| "map_err f (Inr x) = Inr x"

lemma tryr_Inr_iff: "tryr r k = Inr y \<longleftrightarrow> (\<exists>x. r = Inr x \<and> k x = Inr y)"
  by (cases r) auto

lemma tryr_Inl_iff: "tryr r k = Inl e \<longleftrightarrow> r = Inl e \<or> (\<exists>x. r = Inr x \<and> k x = Inl e)"
  by (cases r) auto

lemma tryr_assoc: "tryr (tryr r f) g = tryr r (\<lambda>x. tryr (f x) g)"
  by (cases r) auto

lemma tryr_right [simp]: "tryr r Inr = r"
  by (cases r) auto

lemma tryr_cong [fundef_cong]:
  "r = r' \<Longrightarrow> (\<And>x. r' = Inr x \<Longrightarrow> f x = g x) \<Longrightarrow> tryr r f = tryr r' g"
  by (cases r') auto

lemma is_ok_iff: "is_ok r \<longleftrightarrow> (\<exists>x. r = Inr x)"
  by (cases r) auto

lemma not_is_ok_iff: "\<not> is_ok r \<longleftrightarrow> (\<exists>e. r = Inl e)"
  by (cases r) auto

lemma is_ok_tryr: "is_ok (tryr r k) \<longleftrightarrow> (\<exists>x. r = Inr x \<and> is_ok (k x))"
  by (cases r) auto

lemma is_ok_map_ok [simp]: "is_ok (map_ok f r) = is_ok r"
  by (cases r) auto

lemma is_ok_map_err [simp]: "is_ok (map_err f r) = is_ok r"
  by (cases r) auto

lemma map_ok_tryr: "map_ok f r = tryr r (\<lambda>x. Inr (f x))"
  by (cases r) auto

named_theorems result_iffs "inversion of \<open>tryr\<close> and of the result maps"

lemmas [result_iffs] = tryr_Inr_iff tryr_Inl_iff is_ok_tryr

section \<open>Iterators over slices\<close>

fun position :: "('a \<Rightarrow> bool) \<Rightarrow> 'a list \<Rightarrow> nat option" where
  "position P [] = None"
| "position P (x # xs) = (if P x then Some 0 else map_option Suc (position P xs))"

definition rposition :: "('a \<Rightarrow> bool) \<Rightarrow> 'a list \<Rightarrow> nat option" where
  "rposition P xs = map_option (\<lambda>i. length xs - 1 - i) (position P (rev xs))"

lemma position_None: "position P xs = None \<longleftrightarrow> (\<forall>x \<in> set xs. \<not> P x)"
  by (induction xs) auto

lemma position_Some:
  "position P xs = Some i \<longleftrightarrow> i < length xs \<and> P (xs ! i) \<and> (\<forall>j<i. \<not> P (xs ! j))"
proof (induction xs arbitrary: i)
  case Nil
  then show ?case by simp
next
  case (Cons x xs)
  show ?case
  proof (cases "P x")
    case True
    then show ?thesis by (cases i) auto
  next
    case False
    then show ?thesis
      by (cases i) (auto simp: Cons.IH All_less_Suc2)
  qed
qed

lemma position_append_hit:
  "\<forall>x \<in> set xs. \<not> P x \<Longrightarrow> P y \<Longrightarrow> position P (xs @ y # ys) = Some (length xs)"
  by (induction xs) auto

lemma rposition_None: "rposition P xs = None \<longleftrightarrow> (\<forall>x \<in> set xs. \<not> P x)"
  by (simp add: rposition_def position_None)

lemma rposition_Some:
  "rposition P xs = Some i \<longleftrightarrow>
     i < length xs \<and> P (xs ! i) \<and> (\<forall>j. i < j \<longrightarrow> j < length xs \<longrightarrow> \<not> P (xs ! j))"
proof
  assume "rposition P xs = Some i"
  then obtain k where k: "position P (rev xs) = Some k" and i: "i = length xs - 1 - k"
    by (auto simp: rposition_def)
  from k have kl: "k < length xs" and hit: "P (rev xs ! k)"
    and before: "\<And>j. j < k \<Longrightarrow> \<not> P (rev xs ! j)"
    by (auto simp: position_Some)
  have "\<not> P (xs ! j)" if "i < j" "j < length xs" for j
    using before [of "length xs - 1 - j"] that i by (auto simp: rev_nth)
  with kl hit i show "i < length xs \<and> P (xs ! i) \<and> (\<forall>j. i < j \<longrightarrow> j < length xs \<longrightarrow> \<not> P (xs ! j))"
    by (auto simp: rev_nth)
next
  assume r: "i < length xs \<and> P (xs ! i) \<and> (\<forall>j. i < j \<longrightarrow> j < length xs \<longrightarrow> \<not> P (xs ! j))"
  then have "position P (rev xs) = Some (length xs - 1 - i)"
    unfolding position_Some by (auto simp: rev_nth)
  with r show "rposition P xs = Some i"
    by (auto simp: rposition_def)
qed

lemma rposition_append_hit:
  assumes "P y" and "\<forall>x \<in> set ys. \<not> P x"
  shows "rposition P (xs @ y # ys) = Some (length xs)"
proof -
  have "position P (rev ys @ y # rev xs) = Some (length ys)"
    using position_append_hit [of "rev ys" P y "rev xs"] assms by simp
  then show ?thesis by (simp add: rposition_def)
qed

text \<open>\<open>windows(2).any(\<dots>)\<close>: some two neighbours satisfy the predicate.\<close>

fun any_window :: "('a \<Rightarrow> 'a \<Rightarrow> bool) \<Rightarrow> 'a list \<Rightarrow> bool" where
  "any_window P (x # y # zs) = (P x y \<or> any_window P (y # zs))"
| "any_window P xs = False"

lemma any_window_sorted_eq:
  fixes xs :: "'a::linorder list"
  shows "sorted xs \<Longrightarrow> any_window (=) xs \<longleftrightarrow> \<not> distinct xs"
  by (induction "(=) :: 'a \<Rightarrow> 'a \<Rightarrow> bool" xs rule: any_window.induct) (auto simp: less_le)

section \<open>Sub-slices\<close>

text \<open>\<open>&xs[s..e]\<close> for bounds in range; \<open>slice_of\<close> is None where Rust panics.\<close>

definition sub :: "'a list \<Rightarrow> nat \<Rightarrow> nat \<Rightarrow> 'a list" where
  "sub xs s e = take (e - s) (drop s xs)"

definition slice_of :: "'a list \<Rightarrow> nat \<Rightarrow> nat \<Rightarrow> 'a list option" where
  "slice_of xs s e = (if s \<le> e \<and> e \<le> length xs then Some (sub xs s e) else None)"

lemma length_sub: "e \<le> length xs \<Longrightarrow> length (sub xs s e) = e - s"
  by (simp add: sub_def)

lemma sub_middle [simp]:
  "s = length a \<Longrightarrow> e = length a + length b \<Longrightarrow> sub (a @ b @ c) s e = b"
  by (simp add: sub_def)

lemma sub_all [simp]: "sub xs 0 (length xs) = xs"
  by (simp add: sub_def)

lemma sub_nth: "i < e - s \<Longrightarrow> e \<le> length xs \<Longrightarrow> sub xs s e ! i = xs ! (s + i)"
  by (simp add: sub_def)

lemma sub_sub: "j \<le> e - s \<Longrightarrow> sub (sub xs s e) i j = sub xs (s + i) (s + j)"
  by (simp add: sub_def drop_take min_def add.commute)

lemma take_sub_drop: "s \<le> e \<Longrightarrow> e \<le> length xs \<Longrightarrow> take s xs @ sub xs s e @ drop e xs = xs"
  by (metis append_assoc append_take_drop_id le_add_diff_inverse sub_def take_add)

lemma slice_Some: "slice_of xs s e = Some ys \<longleftrightarrow> s \<le> e \<and> e \<le> length xs \<and> ys = sub xs s e"
  by (auto simp: slice_of_def)

text \<open>Rust's \<open>Ord::clamp\<close>, which panics unless \<open>lo \<le> hi\<close>.\<close>

definition clamp :: "nat \<Rightarrow> nat \<Rightarrow> nat \<Rightarrow> nat" where
  "clamp x lo hi = (if x < lo then lo else if hi < x then hi else x)"

lemma clamp_bounds: "lo \<le> hi \<Longrightarrow> lo \<le> clamp x lo hi \<and> clamp x lo hi \<le> hi"
  by (simp add: clamp_def)

section \<open>Classifying floats\<close>

text \<open>
  \<open>is_finite\<close>, \<open>is_nan\<close> and \<open>> 0.0\<close> read the sign bit, the 11 exponent bits and the 52
  fraction bits.
\<close>

definition f64_exponent :: "f64 \<Rightarrow> nat" where
  "f64_exponent f = unat (drop_bit 52 f) mod 2048"

definition f64_fraction :: "f64 \<Rightarrow> nat" where
  "f64_fraction f = unat f mod 2 ^ 52"

definition f64_negative :: "f64 \<Rightarrow> bool" where
  "f64_negative f = bit f 63"

definition f64_is_finite :: "f64 \<Rightarrow> bool" where
  "f64_is_finite f \<longleftrightarrow> f64_exponent f \<noteq> 2047"

definition f64_is_nan :: "f64 \<Rightarrow> bool" where
  "f64_is_nan f \<longleftrightarrow> f64_exponent f = 2047 \<and> f64_fraction f \<noteq> 0"

definition f64_gt_zero :: "f64 \<Rightarrow> bool" where
  "f64_gt_zero f \<longleftrightarrow> \<not> f64_is_nan f \<and> \<not> f64_negative f \<and> (f64_exponent f \<noteq> 0 \<or> f64_fraction f \<noteq> 0)"

definition f64_infinity :: f64 where
  "f64_infinity = 0x7FF0000000000000"

definition f64_nan :: f64 where
  "f64_nan = 0x7FF8000000000000"

definition f64_one :: f64 where
  "f64_one = 0x3FF0000000000000"

end
