(* ===== verification/Rust_Str.thy ===== *)
theory Rust_Str
  imports Nosj_Prelude
begin

text \<open>
  The part of Rust's \<open>str\<close> the code uses.  A \<open>&str\<close> is the byte list of a valid UTF-8
  string; \<open>utf8_decode\<close> is \<open>std::str::from_utf8\<close> followed by \<open>chars()\<close>: the list of code
  points, or None for bytes that are not UTF-8 (shortest forms only, no surrogates, nothing
  above U+10FFFF).  The counting lemma says why counting non-continuation bytes counts
  characters.
\<close>

section \<open>Decoding\<close>

definition is_cont :: "byte \<Rightarrow> bool" where
  "is_cont b \<longleftrightarrow> and b 0xC0 = 0x80"

definition in_range :: "nat \<Rightarrow> nat \<Rightarrow> byte \<Rightarrow> bool" where
  "in_range lo hi b \<longleftrightarrow> lo \<le> unat b \<and> unat b \<le> hi"

lemma is_cont_iff: "is_cont b \<longleftrightarrow> in_range 0x80 0xBF b"
proof -
  have "\<forall>b :: byte. (and b 0xC0 = 0x80) = (0x80 \<le> b \<and> b \<le> 0xBF)"
    by code_simp
  then show ?thesis
    by (simp add: is_cont_def in_range_def word_le_nat_alt)
qed

lemma is_cont_nl [simp]: "\<not> is_cont 0x0A"
  by (simp add: is_cont_iff in_range_def)

definition cont_bits :: "byte \<Rightarrow> nat" where
  "cont_bits b = unat b mod 64"

text \<open>
  One encoded character at the front: its code point and its width in bytes
  (Unicode, table 3-7).
\<close>

definition lead3 :: "byte \<Rightarrow> byte \<Rightarrow> bool" where
  "lead3 b0 b1 \<longleftrightarrow> b0 = 0xE0 \<and> in_range 0xA0 0xBF b1 \<or> in_range 0xE1 0xEC b0 \<and> is_cont b1
     \<or> b0 = 0xED \<and> in_range 0x80 0x9F b1 \<or> in_range 0xEE 0xEF b0 \<and> is_cont b1"

definition lead4 :: "byte \<Rightarrow> byte \<Rightarrow> bool" where
  "lead4 b0 b1 \<longleftrightarrow> b0 = 0xF0 \<and> in_range 0x90 0xBF b1 \<or> in_range 0xF1 0xF3 b0 \<and> is_cont b1
     \<or> b0 = 0xF4 \<and> in_range 0x80 0x8F b1"

definition utf8_step :: "bytes \<Rightarrow> (nat \<times> nat) option" where
  "utf8_step bs =
     (if 1 \<le> length bs \<and> in_range 0 0x7F (bs ! 0) then Some (unat (bs ! 0), 1)
      else if 2 \<le> length bs \<and> in_range 0xC2 0xDF (bs ! 0) \<and> is_cont (bs ! 1)
      then Some (unat (bs ! 0) mod 32 * 64 + cont_bits (bs ! 1), 2)
      else if 3 \<le> length bs \<and> lead3 (bs ! 0) (bs ! 1) \<and> is_cont (bs ! 2)
      then Some ((unat (bs ! 0) mod 16 * 64 + cont_bits (bs ! 1)) * 64 + cont_bits (bs ! 2), 3)
      else if 4 \<le> length bs \<and> lead4 (bs ! 0) (bs ! 1) \<and> is_cont (bs ! 2) \<and> is_cont (bs ! 3)
      then Some (((unat (bs ! 0) mod 8 * 64 + cont_bits (bs ! 1)) * 64 + cont_bits (bs ! 2)) * 64
                 + cont_bits (bs ! 3), 4)
      else None)"

lemma in_range_not_cont: "in_range lo hi b \<Longrightarrow> hi < 0x80 \<or> 0xBF < lo \<Longrightarrow> \<not> is_cont b"
  by (auto simp: is_cont_iff in_range_def)

lemma lead3D: "lead3 b0 b1 \<Longrightarrow> \<not> is_cont b0 \<and> is_cont b1"
  by (auto simp: lead3_def is_cont_iff in_range_def)

lemma lead4D: "lead4 b0 b1 \<Longrightarrow> \<not> is_cont b0 \<and> is_cont b1"
  by (auto simp: lead4_def is_cont_iff in_range_def)

text \<open>A decoded character: a lead byte followed by continuation bytes only.\<close>

lemma utf8_step_facts:
  assumes "utf8_step bs = Some (c, w)"
  shows "0 < w \<and> w \<le> length bs \<and> \<not> is_cont (bs ! 0) \<and> (\<forall>i. 0 < i \<longrightarrow> i < w \<longrightarrow> is_cont (bs ! i))"
proof -
  have c2: "\<not> is_cont b" if "in_range 0 0x7F b \<or> in_range 0xC2 0xDF b" for b
    using that in_range_not_cont [of 0 "0x7F" b] in_range_not_cont [of "0xC2" "0xDF" b] by auto
  have less: "i < 2 \<Longrightarrow> 0 < i \<Longrightarrow> i = 1" "i < 3 \<Longrightarrow> 0 < i \<Longrightarrow> i = 1 \<or> i = 2"
    "i < 4 \<Longrightarrow> 0 < i \<Longrightarrow> i = 1 \<or> i = 2 \<or> i = 3" for i :: nat
    by auto
  show ?thesis
    using assms unfolding utf8_step_def
    by (auto split: if_splits dest!: less lead3D lead4D simp: c2)
qed

lemma utf8_step_shape:
  assumes "utf8_step bs = Some (c, w)"
  shows "\<exists>b cs rest. bs = b # cs @ rest \<and> w = Suc (length cs) \<and> \<not> is_cont b \<and> (\<forall>x \<in> set cs. is_cont x)"
proof -
  from utf8_step_facts [OF assms] obtain v where w: "w = Suc v" "w \<le> length bs" "\<not> is_cont (bs ! 0)"
    and cont: "\<And>i. 0 < i \<Longrightarrow> i < w \<Longrightarrow> is_cont (bs ! i)"
    by (auto simp: gr0_conv_Suc)
  then obtain b t where bs: "bs = b # t"
    by (cases bs) auto
  have "\<forall>x \<in> set (take v t). is_cont x"
    using cont [of "Suc _"] w(1) bs by (auto simp: in_set_conv_nth)
  with w bs show ?thesis
    by (intro exI [of _ b] exI [of _ "take v t"] exI [of _ "drop v t"]) auto
qed

lemma utf8_step_append: "utf8_step bs = Some (c, w) \<Longrightarrow> utf8_step (bs @ more) = Some (c, w)"
proof -
  assume a: "utf8_step bs = Some (c, w)"
  consider "bs = []" | x where "bs = [x]" | x y where "bs = [x, y]" | x y z where "bs = [x, y, z]"
    | x y z u r where "bs = x # y # z # u # r"
    by (metis list.exhaust)
  then show "utf8_step (bs @ more) = Some (c, w)"
    using a by cases (simp_all add: utf8_step_def split: if_split_asm)
qed

text \<open>Only the bytes of the character itself are looked at.\<close>

lemma utf8_step_take: "utf8_step bs = Some (c, w) \<Longrightarrow> utf8_step (take w bs) = Some (c, w)"
  unfolding utf8_step_def by (auto split: if_splits)

lemma utf8_step_width: "utf8_step bs = Some (c, w) \<Longrightarrow> 0 < w \<and> w \<le> length bs"
  by (drule utf8_step_shape) auto

function utf8_decode :: "bytes \<Rightarrow> nat list option" where
  "utf8_decode bs =
     (if bs = [] then Some []
      else (case utf8_step bs of None \<Rightarrow> None
            | Some (c, w) \<Rightarrow> map_option (\<lambda>cs. c # cs) (utf8_decode (drop w bs))))"
  by pat_completeness auto
termination
  by (relation "measure length") (auto dest!: utf8_step_width)

declare utf8_decode.simps [simp del]

lemma utf8_decode_Nil [simp]: "utf8_decode [] = Some []"
  by (simp add: utf8_decode.simps)

lemma utf8_decode_induct [consumes 1, case_names Nil Step]:
  assumes "utf8_decode bs = Some cs"
    and "P [] []"
    and "\<And>b tl rest c cs. utf8_step (b # tl @ rest) = Some (c, Suc (length tl)) \<Longrightarrow>
           \<not> is_cont b \<Longrightarrow> \<forall>x \<in> set tl. is_cont x \<Longrightarrow>
           utf8_decode rest = Some cs \<Longrightarrow> P rest cs \<Longrightarrow> P (b # tl @ rest) (c # cs)"
  shows "P bs cs"
  using assms(1)
proof (induction bs arbitrary: cs rule: utf8_decode.induct)
  case (1 bs)
  show ?case
  proof (cases "bs = []")
    case True
    with "1.prems" assms(2) show ?thesis by simp
  next
    case False
    with "1.prems" obtain c w ds where st: "utf8_step bs = Some (c, w)"
      and rec: "utf8_decode (drop w bs) = Some ds" and cs: "cs = c # ds"
      by (auto simp: utf8_decode.simps [of bs] split: option.splits)
    from utf8_step_shape [OF st] obtain b tl rest where
      sh: "bs = b # tl @ rest" "w = Suc (length tl)" "\<not> is_cont b" "\<forall>x \<in> set tl. is_cont x"
      by blast
    have "P (drop w bs) ds"
      using "1.IH" [OF False st] rec by blast
    with sh st rec cs show ?thesis
      using assms(3) by auto
  qed
qed

definition valid_utf8 :: "bytes \<Rightarrow> bool" where
  "valid_utf8 bs \<longleftrightarrow> utf8_decode bs \<noteq> None"

text \<open>\<open>chars()\<close> of a \<open>&str\<close>; the code only has valid strings in that type.\<close>

definition chars :: "bytes \<Rightarrow> nat list" where
  "chars bs = (case utf8_decode bs of Some cs \<Rightarrow> cs | None \<Rightarrow> [])"

section \<open>Boundaries\<close>

definition is_char_boundary :: "bytes \<Rightarrow> nat \<Rightarrow> bool" where
  "is_char_boundary bs i \<longleftrightarrow> i = 0 \<or> i = length bs \<or> i < length bs \<and> \<not> is_cont (bs ! i)"

text \<open>\<open>char::is_control\<close>: the code points of category Cc.\<close>

definition is_control :: "nat \<Rightarrow> bool" where
  "is_control c \<longleftrightarrow> c \<le> 0x1F \<or> 0x7F \<le> c \<and> c \<le> 0x9F"

text \<open>Decoding distributes over a valid prefix.\<close>

lemma utf8_decode_append:
  "utf8_decode xs = Some cs \<Longrightarrow> utf8_decode (xs @ ys) = map_option (\<lambda>ds. cs @ ds) (utf8_decode ys)"
proof (induction rule: utf8_decode_induct)
  case Nil
  then show ?case by (cases "utf8_decode ys") auto
next
  case (Step b tl rest c cs)
  have "utf8_step (b # tl @ rest @ ys) = Some (c, Suc (length tl))"
    using utf8_step_append [OF Step.hyps(1), of ys] by simp
  then show ?case
    using Step.IH by (subst utf8_decode.simps) (simp add: option.map_comp o_def fun_eq_iff cong: option.map_cong)
qed

text \<open>A valid string splits at every boundary into two valid strings.\<close>

lemma utf8_split:
  "utf8_decode bs = Some cs \<Longrightarrow> is_char_boundary bs i \<Longrightarrow>
     \<exists>ds es. utf8_decode (take i bs) = Some ds \<and> utf8_decode (drop i bs) = Some es \<and> cs = ds @ es"
proof (induction arbitrary: i rule: utf8_decode_induct)
  case Nil
  then show ?case by (auto simp: is_char_boundary_def)
next
  case (Step b tl rest c cs)
  show ?case
  proof (cases "i = 0")
    case True
    have "utf8_decode (b # tl @ rest) = Some (c # cs)"
      using Step.hyps by (subst utf8_decode.simps) simp
    with True show ?thesis by auto
  next
    case False
    let ?w = "Suc (length tl)"
    have ge: "?w \<le> i"
    proof (rule ccontr)
      assume "\<not> ?w \<le> i"
      then have "(b # tl @ rest) ! i \<in> set tl"
        using False by (cases i) (auto simp: nth_append)
      with Step.hyps(3) Step.prems False \<open>\<not> ?w \<le> i\<close> show False
        by (auto simp: is_char_boundary_def)
    qed
    then obtain j where i: "i = ?w + j"
      by (metis le_Suc_ex)
    have "is_char_boundary rest j"
      using Step.prems i by (auto simp: is_char_boundary_def nth_append)
    then obtain ds es where IH: "utf8_decode (take j rest) = Some ds"
        "utf8_decode (drop j rest) = Some es" "cs = ds @ es"
      using Step.IH by blast
    have "utf8_step (b # tl) = Some (c, ?w)"
      using utf8_step_take [OF Step.hyps(1)] by simp
    then have head: "utf8_decode (b # tl) = Some [c]"
      by (subst utf8_decode.simps) simp
    have "utf8_decode ((b # tl) @ take j rest) = Some (c # ds)"
      using utf8_decode_append [OF head, of "take j rest"] IH(1) by simp
    with i IH show ?thesis by simp
  qed
qed

lemma chars_split:
  assumes "valid_utf8 bs" and "is_char_boundary bs i"
  shows "chars bs = chars (take i bs) @ chars (drop i bs)"
    and "valid_utf8 (take i bs)" and "valid_utf8 (drop i bs)"
  using utf8_split [of bs _ i] assms by (auto simp: valid_utf8_def chars_def)

end
