(* ===== verification/Error_Positions.thy ===== *)
theory Error_Positions
  imports Rust_Str
begin

text \<open>
  The position part of src/ext/nosj/src/errors.rs: from a byte offset into the document to the
  1-based line, the 1-based character column and the caret snippet a \<open>ParserError\<close> carries.
  The lemmas show that the slices taken are in range, that line and column are what their
  names say, and that the caret stands under the character at the offset.
\<close>

section \<open>Definitions\<close>

record location =
  line :: nat
  column :: nat
  snippet :: "nat list option"

text \<open>The fields \<open>parser_error_at\<close> sets on the exception.\<close>

record error_position =
  at_byte_offset :: nat
  at_line :: nat
  at_column :: nat
  at_snippet :: "nat list option"

definition count_chars :: "bytes \<Rightarrow> nat" where
  "count_chars bs = length (filter (\<lambda>b. and b 0xC0 \<noteq> 0x80) bs)"

definition count_newlines :: "bytes \<Rightarrow> nat" where
  "count_newlines bs = length (filter (\<lambda>b. b = b_nl) bs)"

abbreviation SNIPPET_CHARS_BEFORE :: nat where "SNIPPET_CHARS_BEFORE \<equiv> 50"
abbreviation SNIPPET_CHARS_AFTER :: nat where "SNIPPET_CHARS_AFTER \<equiv> 30"
abbreviation SNIPPET_ELLIPSIS :: nat where "SNIPPET_ELLIPSIS \<equiv> 0x2026"

text \<open>The loop \<open>while !line.is_char_boundary(caret_byte) { caret_byte -= 1; }\<close>.\<close>

fun floor_char_boundary :: "bytes \<Rightarrow> nat \<Rightarrow> nat" where
  "floor_char_boundary bs 0 = 0"
| "floor_char_boundary bs (Suc i) =
     (if is_char_boundary bs (Suc i) then Suc i else floor_char_boundary bs i)"

text \<open>A control character prints as one space.\<close>

definition shown :: "nat \<Rightarrow> nat" where
  "shown ch = (if is_control ch then 0x20 else ch)"

definition build_snippet :: "bytes \<Rightarrow> nat \<Rightarrow> nat list option" where
  "build_snippet ln caret_byte0 =
     (if ln = [] then None
      else
        let caret_byte = floor_char_boundary ln (min caret_byte0 (length ln));
            caret_chars = length (chars (take caret_byte ln));
            total_chars = caret_chars + length (chars (drop caret_byte ln));
            window_first = caret_chars - SNIPPET_CHARS_BEFORE;
            window_last = min (caret_chars + SNIPPET_CHARS_AFTER) total_chars;
            caret_column = caret_chars - window_first;
            (lead, caret_column) =
              (if 0 < window_first then ([SNIPPET_ELLIPSIS], caret_column + 1) else ([], caret_column));
            body = map shown (take (window_last - window_first) (drop window_first (chars ln)));
            tail = (if window_last < total_chars then [SNIPPET_ELLIPSIS] else [])
        in Some (lead @ body @ tail @ [0x0A] @ replicate caret_column 0x20 @ [0x5E]))"

text \<open>Where the offending line starts and ends, and the caret within it.\<close>

definition line_start :: "bytes \<Rightarrow> nat \<Rightarrow> nat" where
  "line_start source off =
     (case rposition (\<lambda>b. b = b_nl) (take off source) of None \<Rightarrow> 0 | Some p \<Rightarrow> p + 1)"

definition line_end :: "bytes \<Rightarrow> nat \<Rightarrow> nat" where
  "line_end source off =
     (let le = (case position (\<lambda>b. b = b_nl) (drop off source) of
                  None \<Rightarrow> length source | Some p \<Rightarrow> off + p)
      in if line_start source off < le \<and> source ! (le - 1) = b_cr then le - 1 else le)"

definition locate :: "bytes \<Rightarrow> nat \<Rightarrow> location" where
  "locate source offset =
     (let off = min offset (length source);
          ln = 1 + count_newlines (take off source);
          ls = line_start source off;
          le = line_end source off;
          caret = clamp off ls le;
          col = 1 + count_chars (sub source ls caret);
          text = sub source ls le
      in \<lparr>line = ln, column = col,
          snippet = (if valid_utf8 text then build_snippet text (caret - ls) else None)\<rparr>)"

definition parser_error_at :: "bytes \<Rightarrow> nat \<Rightarrow> error_position" where
  "parser_error_at source offset =
     (let loc = locate source offset
      in \<lparr>at_byte_offset = min offset (length source), at_line = line loc,
          at_column = column loc, at_snippet = snippet loc\<rparr>)"

section \<open>Counting\<close>

lemma count_chars_simps [simp]:
  "count_chars [] = 0"
  "count_chars (b # bs) = (if is_cont b then 0 else 1) + count_chars bs"
  "count_chars (bs @ bs') = count_chars bs + count_chars bs'"
  by (auto simp: count_chars_def is_cont_def)

lemma count_chars_conts: "\<forall>x \<in> set bs. is_cont x \<Longrightarrow> count_chars bs = 0"
  by (induction bs) auto

lemma count_chars_decode: "utf8_decode bs = Some cs \<Longrightarrow> count_chars bs = length cs"
  by (induction rule: utf8_decode_induct) (auto simp: count_chars_conts)

lemma length_chars: "valid_utf8 bs \<Longrightarrow> length (chars bs) = count_chars bs"
  by (auto simp: valid_utf8_def chars_def count_chars_decode)

section \<open>The offending line\<close>

lemma rposition_nl_less: "rposition P (take n xs) = Some p \<Longrightarrow> p < n \<and> p < length xs \<and> P (xs ! p)"
  by (auto simp: rposition_Some)

lemma line_start_le: "line_start source off \<le> off" "line_start source off \<le> length source"
  by (auto simp: line_start_def split: option.splits dest!: rposition_nl_less)

lemma position_drop:
  "position P (drop off xs) = Some p \<Longrightarrow> off + p < length xs \<and> P (xs ! (off + p)) \<and>
     (\<forall>j. off \<le> j \<longrightarrow> j < off + p \<longrightarrow> \<not> P (xs ! j))"
  by (auto simp: position_Some) (metis add.commute le_Suc_ex less_diff_conv2 nat_add_left_cancel_less nth_drop le_add1 less_imp_le_nat order.trans)

lemma line_bounds:
  assumes "off \<le> length source"
  shows "line_start source off \<le> line_end source off" "line_end source off \<le> length source"
  using assms line_start_le [of source off]
  by (auto simp: line_end_def Let_def split: option.splits dest!: position_drop)

lemma line_start_append:
  assumes "before = [] \<or> last before = b_nl" and "b_nl \<notin> set cur"
  shows "line_start (before @ cur @ after) (length before + length cur) = length before"
proof (cases "before = []")
  case True
  then have "rposition (\<lambda>b. b = b_nl) (before @ cur) = None"
    using assms(2) by (auto simp: rposition_None)
  with True show ?thesis by (simp add: line_start_def)
next
  case False
  then obtain b where b: "before = b @ [b_nl]"
    using assms(1) by (metis append_butlast_last_id)
  have "rposition (\<lambda>x. x = b_nl) (b @ b_nl # cur) = Some (length b)"
    by (rule rposition_append_hit) (use assms(2) in auto)
  with b show ?thesis by (simp add: line_start_def)
qed

lemma line_end_ge:
  assumes "off \<le> length source" and "off = line_start source off \<or> source ! (off - 1) \<noteq> b_cr"
  shows "off \<le> line_end source off"
proof -
  let ?le = "case position (\<lambda>b. b = b_nl) (drop off source) of None \<Rightarrow> length source | Some p \<Rightarrow> off + p"
  have le: "off \<le> ?le" using assms(1) by (auto split: option.splits)
  show ?thesis
  proof (cases "off = ?le")
    case True
    then show ?thesis using assms(2) by (auto simp: line_end_def Let_def)
  next
    case False
    with le show ?thesis by (auto simp: line_end_def Let_def)
  qed
qed

text \<open>
  C29.  Line and column are exact: when the bytes before the offset are whole lines \<open>before\<close>
  followed by \<open>cur\<close> without a newline (and \<open>cur\<close> does not end in the carriage return of a
  CRLF terminator), the reported line is one more than the newlines in \<open>before\<close>, and the
  reported column is one more than the number of characters of \<open>cur\<close>.
\<close>

theorem locate_position:
  assumes "source = before @ cur @ after" and "before = [] \<or> last before = b_nl"
    and "b_nl \<notin> set cur" and "valid_utf8 cur" and "cur = [] \<or> last cur \<noteq> b_cr"
  shows "line (locate source (length before + length cur)) = 1 + count_newlines before
       \<and> column (locate source (length before + length cur)) = 1 + length (chars cur)"
proof -
  let ?off = "length before + length cur"
  have len: "?off \<le> length source" using assms(1) by simp
  have ls: "line_start source ?off = length before"
    using line_start_append [OF assms(2,3)] assms(1) by simp
  have "?off \<le> line_end source ?off"
  proof (rule line_end_ge [OF len], cases "cur = []")
    case True
    with ls show "?off = line_start source ?off \<or> source ! (?off - 1) \<noteq> b_cr" by simp
  next
    case False
    then obtain c x where "cur = c @ [x]" by (metis append_butlast_last_id)
    with assms(1,5) show "?off = line_start source ?off \<or> source ! (?off - 1) \<noteq> b_cr"
      by (simp add: nth_append)
  qed
  then have "clamp ?off (line_start source ?off) (line_end source ?off) = ?off"
    by (simp add: clamp_def ls)
  moreover have "count_newlines (take ?off source) = count_newlines before"
    using assms(1,3) by (simp add: count_newlines_def filter_empty_conv) auto
  moreover have "sub source (length before) ?off = cur"
    using assms(1) by simp
  ultimately show ?thesis
    using len assms(4) by (simp add: locate_def Let_def ls min_def length_chars)
qed

theorem locate_position_witness:
  "line (locate (asc ''{'' @ [b_nl] @ [0xC3, 0xA9] @ asc ''x'') 4) = 2
   \<and> column (locate (asc ''{'' @ [b_nl] @ [0xC3, 0xA9] @ asc ''x'') 4) = 2"
proof -
  have v: "valid_utf8 [0xC3, 0xA9]"
    by (simp add: valid_utf8_def utf8_decode.simps utf8_step_def in_range_def is_cont_iff)
  have c: "length (chars [0xC3, 0xA9]) = 1"
    using v by (simp add: length_chars is_cont_iff in_range_def)
  let ?before = "asc ''{'' @ [b_nl]" and ?cur = "[0xC3, 0xA9] :: bytes"
  have l: "length ?before + length ?cur = 4" by simp
  have n: "count_newlines ?before = 1" by (simp add: count_newlines_def asc_def)
  have "line (locate (?before @ ?cur @ asc ''x'') (length ?before + length ?cur)) = 1 + count_newlines ?before
      \<and> column (locate (?before @ ?cur @ asc ''x'') (length ?before + length ?cur)) = 1 + length (chars ?cur)"
    by (rule locate_position) (use v in simp_all)
  then show ?thesis unfolding l n c by simp
qed

text \<open>
  No slice or clamp of the error path can panic, whatever the document and the offset: the
  clamp bounds are ordered, and the slice bounds are ordered and inside the document.
\<close>

theorem locate_in_bounds:
  "let off = min offset (length source);
       ls = line_start source off; le = line_end source off
   in ls \<le> le \<and> le \<le> length source \<and> ls \<le> clamp off ls le \<and> clamp off ls le \<le> le
      \<and> slice_of source ls le \<noteq> None \<and> slice_of source ls (clamp off ls le) \<noteq> None"
  using line_bounds [of "min offset (length source)" source]
    clamp_bounds [of "line_start source (min offset (length source))"
      "line_end source (min offset (length source))"]
  by (auto simp: Let_def slice_of_def intro: order_trans)

section \<open>The snippet\<close>

lemma floor_char_boundary: "is_char_boundary bs (floor_char_boundary bs i)"
  by (induction i) (auto simp: is_char_boundary_def)

lemma floor_char_boundary_le: "floor_char_boundary bs i \<le> i"
  by (induction i) auto

lemma shown_not_nl: "shown c \<noteq> 0x0A"
  by (simp add: shown_def is_control_def)

definition caret_char :: "bytes \<Rightarrow> nat \<Rightarrow> nat" where
  "caret_char ln c = length (chars (take (floor_char_boundary ln (min c (length ln))) ln))"

lemma caret_char_split:
  assumes "valid_utf8 ln"
  shows "length (chars ln) =
     caret_char ln c + length (chars (drop (floor_char_boundary ln (min c (length ln))) ln))"
  using chars_split(1) [OF assms floor_char_boundary [of ln "min c (length ln)"]]
  by (simp add: caret_char_def)

text \<open>
  C30.  The snippet is one line of at most 82 characters, a newline, and a caret line; the caret
  stands under the printed form of the character at the error offset, or right after the last
  printed character when the offset is at the end of the line.
\<close>

theorem build_snippet_caret:
  assumes "valid_utf8 ln" and "build_snippet ln c = Some out"
  shows "\<exists>shown_line col. out = shown_line @ [0x0A] @ replicate col 0x20 @ [0x5E]
     \<and> 0x0A \<notin> set shown_line \<and> length shown_line \<le> 82 \<and> col \<le> length shown_line
     \<and> (if caret_char ln c < length (chars ln)
         then col < length shown_line \<and> shown_line ! col = shown (chars ln ! caret_char ln c)
         else col = length shown_line)"
proof -
  let ?k = "caret_char ln c"
  let ?n = "length (chars ln)"
  let ?f = "?k - 50"
  let ?l = "min (?k + 30) ?n"
  let ?lead = "if 0 < ?f then [SNIPPET_ELLIPSIS] else []"
  let ?col = "?k - ?f + (if 0 < ?f then 1 else 0)"
  let ?body = "map shown (take (?l - ?f) (drop ?f (chars ln)))"
  let ?tail = "if ?l < ?n then [SNIPPET_ELLIPSIS] else []"
  let ?shown = "?lead @ ?body @ ?tail"
  have kn: "?k \<le> ?n" using caret_char_split [OF assms(1), of c] by simp
  have out: "out = ?shown @ [0x0A] @ replicate ?col 0x20 @ [0x5E]"
    using assms(2) caret_char_split [OF assms(1), of c]
    by (auto simp: build_snippet_def Let_def caret_char_def [symmetric] split: if_splits)
  have nl: "0x0A \<notin> set ?shown"
    using shown_not_nl by (auto dest: in_set_takeD in_set_dropD)
  have body: "length ?body = ?l - ?f" using kn by simp
  have len: "length ?shown \<le> 82" "?col \<le> length ?shown"
    using kn body by (auto split: if_splits)
  have at: "if ?k < ?n then ?col < length ?shown \<and> ?shown ! ?col = shown (chars ln ! ?k)
            else ?col = length ?shown"
  proof (cases "?k < ?n")
    case True
    then have i: "?k - ?f < length ?body" using body kn by auto
    have "?shown ! ?col = ?body ! (?k - ?f)"
      using i by (auto simp: nth_append)
    also have "\<dots> = shown (chars ln ! ?k)"
      using i True by simp
    finally show ?thesis using True i by (auto split: if_splits)
  next
    case False
    then show ?thesis using kn body by auto
  qed
  show ?thesis
    using out nl len at by (intro exI [of _ ?shown] exI [of _ ?col]) blast
qed

theorem build_snippet_caret_witness:
  "build_snippet (asc ''ab'') 1 = Some [0x61, 0x62, 0x0A, 0x20, 0x5E]
   \<and> (\<exists>shown_line col. [0x61, 0x62, 0x0A, 0x20, 0x5E] = shown_line @ [0x0A] @ replicate col 0x20 @ [0x5E]
     \<and> 0x0A \<notin> set shown_line \<and> length shown_line \<le> 82 \<and> col \<le> length shown_line
     \<and> (if caret_char (asc ''ab'') 1 < length (chars (asc ''ab''))
         then col < length shown_line
            \<and> shown_line ! col = shown (chars (asc ''ab'') ! caret_char (asc ''ab'') 1)
         else col = length shown_line))"
proof -
  have d: "utf8_decode (asc ''ab'') = Some [0x61, 0x62]" "utf8_decode [0x61] = Some [0x61]"
    "utf8_decode [0x62] = Some [0x62]"
    by (simp_all add: asc_def utf8_decode.simps utf8_step_def in_range_def)
  then have v: "valid_utf8 (asc ''ab'')" by (simp add: valid_utf8_def)
  have r: "build_snippet (asc ''ab'') 1 = Some [0x61, 0x62, 0x0A, 0x20, 0x5E]"
    using d by (simp add: build_snippet_def asc_def chars_def is_char_boundary_def is_cont_iff
        in_range_def shown_def is_control_def)
  show ?thesis
    using r build_snippet_caret [OF v r] by blast
qed

end
