(* ===== verification/Ruby_Values.thy ===== *)
theory Ruby_Values
  imports Error_Positions
begin

text \<open>
  What crosses the Ruby boundary: the exceptions an entry point can raise, with their message
  as the format string of the source and its arguments, and the option values an options hash
  holds, seen through the magnus queries the decoders make (\<open>is_nil\<close>, \<open>to_bool\<close>,
  \<open>Integer::from_value\<close>, \<open>RString::from_value\<close>, \<open>TryConvert\<close> to \<open>i64\<close>).
\<close>

section \<open>Exceptions\<close>

datatype fmt_arg = ABytes bytes | ANat nat | AText string

datatype message = Fmt string "fmt_arg list"

abbreviation msg :: "string \<Rightarrow> message" where
  "msg s \<equiv> Fmt s []"

text \<open>
  \<open>Raised\<close> is an exception of the user's own code, re-raised unchanged; it is named by the
  identity of the exception object.  \<open>Panic\<close> is a Rust panic (the process aborts).  \<open>Hang\<close>
  is not an exception: it is the result of a call that does not return.
\<close>

datatype ruby_error =
    ArgumentError message
  | TypeError message
  | KeyError message
  | RuntimeError message
  | ParserError message "error_position option"
  | NestingError message
  | GeneratorError message
  | PatchError message
  | Raised nat
  | Panic
  | Hang

section \<open>Values of an options hash\<close>

text \<open>
  \<open>RInt\<close> is any Ruby Integer; \<open>ROther c\<close> is any other object, with \<open>c\<close> the \<open>i64\<close> it
  converts to implicitly, if it does.
\<close>

datatype rval = RNil | RTrue | RFalse | RInt int | RStr bytes | ROther "int option"

fun to_bool :: "rval \<Rightarrow> bool" where
  "to_bool RNil = False"
| "to_bool RFalse = False"
| "to_bool _ = True"

definition i64_range :: "int \<Rightarrow> bool" where
  "i64_range i \<longleftrightarrow> - (2 ^ 63) \<le> i \<and> i < 2 ^ 63"

text \<open>\<open>i64::try_convert\<close>: an Integer in range, or an object that converts.\<close>

fun try_i64 :: "rval \<Rightarrow> int option" where
  "try_i64 (RInt i) = (if i64_range i then Some i else None)"
| "try_i64 (ROther c) = (case c of Some i \<Rightarrow> if i64_range i then Some i else None | None \<Rightarrow> None)"
| "try_i64 _ = None"

text \<open>\<open>Integer::from_value(v).and_then(|i| i.to_u64().ok())\<close>.\<close>

fun to_u64 :: "int \<Rightarrow> nat option" where
  "to_u64 i = (if 0 \<le> i \<and> i < 2 ^ 64 then Some (nat i) else None)"

text \<open>Hash keys: a Symbol by name, any other key by its text.\<close>

datatype okey = KSym string | KOther string

fun okey_text :: "okey \<Rightarrow> string" where
  "okey_text (KSym s) = s"
| "okey_text (KOther s) = s"

text \<open>A Ruby Hash in iteration order; its keys are distinct (\<open>wf_hash\<close>).\<close>

type_synonym ohash = "(okey \<times> rval) list"

definition wf_hash :: "ohash \<Rightarrow> bool" where
  "wf_hash h \<longleftrightarrow> distinct (map fst h)"

text \<open>An options argument: nil, a Hash, or something else.\<close>

datatype options_arg = ONil | OHash ohash | ONotHash

abbreviation USIZE_MAX :: nat where
  "USIZE_MAX \<equiv> 2 ^ 64 - 1"

end
