(* ===== verification/Opt_Reader.thy ===== *)
theory Opt_Reader
  imports Ruby_Values
begin

unbundle bit_operations_syntax

text \<open>
  src/ext/nosj/src/opt_reader.rs: reading an options hash under json 3's unknown-key rule.  The
  masks \<open>found\<close> and \<open>tolerated\<close> are 64-bit words with one bit per option, as in the code.
  The invariant \<open>reader_inv\<close> says which options the masks stand for; under it a read returns
  what a plain hash lookup returns although it may skip the lookup, and \<open>finish\<close> accepts
  exactly the hashes whose keys were all read, or tolerated and falsy.
\<close>

section \<open>The options\<close>

datatype opt =
    SymbolizeNames | Freeze | MaxNesting | AllowNan | AllowTrailingComma | AllowDuplicateKey
  | ObjectClass | ArrayClass | DecimalClass | OnLoad | CreateAdditions | AllowComments
  | AllowControlCharacters | AllowInvalidEscape | Indent | Space | SpaceBefore | ObjectNl | ArrayNl
  | AsciiOnly | ScriptSafe | Strict | Depth | BufferInitialLength | SortKeys | AsJson

definition all_opts :: "opt list" where
  "all_opts =
    [SymbolizeNames, Freeze, MaxNesting, AllowNan, AllowTrailingComma, AllowDuplicateKey,
     ObjectClass, ArrayClass, DecimalClass, OnLoad, CreateAdditions, AllowComments,
     AllowControlCharacters, AllowInvalidEscape, Indent, Space, SpaceBefore, ObjectNl, ArrayNl,
     AsciiOnly, ScriptSafe, Strict, Depth, BufferInitialLength, SortKeys, AsJson]"

definition NAMES :: "string list" where
  "NAMES =
    [''symbolize_names'', ''freeze'', ''max_nesting'', ''allow_nan'', ''allow_trailing_comma'',
     ''allow_duplicate_key'', ''object_class'', ''array_class'', ''decimal_class'', ''on_load'',
     ''create_additions'', ''allow_comments'', ''allow_control_characters'',
     ''allow_invalid_escape'', ''indent'', ''space'', ''space_before'', ''object_nl'', ''array_nl'',
     ''ascii_only'', ''script_safe'', ''strict'', ''depth'', ''buffer_initial_length'',
     ''sort_keys'', ''as_json'']"

text \<open>The discriminant of an option.\<close>

fun opt_index :: "opt \<Rightarrow> nat" where
  "opt_index SymbolizeNames = 0" | "opt_index Freeze = 1" | "opt_index MaxNesting = 2"
| "opt_index AllowNan = 3" | "opt_index AllowTrailingComma = 4" | "opt_index AllowDuplicateKey = 5"
| "opt_index ObjectClass = 6" | "opt_index ArrayClass = 7" | "opt_index DecimalClass = 8"
| "opt_index OnLoad = 9" | "opt_index CreateAdditions = 10" | "opt_index AllowComments = 11"
| "opt_index AllowControlCharacters = 12" | "opt_index AllowInvalidEscape = 13"
| "opt_index Indent = 14" | "opt_index Space = 15" | "opt_index SpaceBefore = 16"
| "opt_index ObjectNl = 17" | "opt_index ArrayNl = 18" | "opt_index AsciiOnly = 19"
| "opt_index ScriptSafe = 20" | "opt_index Strict = 21" | "opt_index Depth = 22"
| "opt_index BufferInitialLength = 23" | "opt_index SortKeys = 24" | "opt_index AsJson = 25"

definition opt_bit :: "opt \<Rightarrow> u64" where
  "opt_bit opt = push_bit (opt_index opt) 1"

definition opt_name :: "opt \<Rightarrow> string" where
  "opt_name opt = NAMES ! opt_index opt"

section \<open>The reader\<close>

record opt_reader =
  or_hash :: ohash
  or_len :: nat
  or_found :: u64
  or_tolerated :: u64

definition opt_reader_new :: "ohash \<Rightarrow> opt_reader" where
  "opt_reader_new h = \<lparr>or_hash = h, or_len = length h, or_found = 0, or_tolerated = 0\<rparr>"

definition count_ones :: "u64 \<Rightarrow> nat" where
  "count_ones w = length (filter (bit w) [0..<64])"

definition all_found :: "opt_reader \<Rightarrow> bool" where
  "all_found r \<longleftrightarrow> count_ones (or_found r) = or_len r"

definition opt_get :: "opt \<Rightarrow> opt_reader \<Rightarrow> rval option \<times> opt_reader" where
  "opt_get opt r =
     (if all_found r \<and> or_found r AND opt_bit opt = 0 then (None, r)
      else
        let value = map_of (or_hash r) (KSym (opt_name opt))
        in (value,
            if value \<noteq> None then r\<lparr>or_found := or_found r OR opt_bit opt\<rparr> else r))"

definition truthy :: "opt \<Rightarrow> opt_reader \<Rightarrow> bool \<times> opt_reader" where
  "truthy opt r = (case opt_get opt r of (v, r') \<Rightarrow>
     ((case v of Some x \<Rightarrow> to_bool x | None \<Rightarrow> False), r'))"

definition tolerate :: "opt list \<Rightarrow> opt_reader \<Rightarrow> opt_reader" where
  "tolerate opts r = r\<lparr>or_tolerated := foldl (\<lambda>t opt. t OR opt_bit opt) (or_tolerated r) opts\<rparr>"

text \<open>The option a hash key names: only Symbol keys name one.\<close>

fun option_of :: "okey \<Rightarrow> nat option" where
  "option_of (KSym name) = position (\<lambda>known. known = name) NAMES"
| "option_of (KOther _) = None"

text \<open>
  The walk of \<open>leftover_keys\<close>: the tolerated option that is set, if the walk met one (it stops
  there), and the unknown keys met so far.
\<close>

fun leftover_walk :: "u64 \<Rightarrow> u64 \<Rightarrow> ohash \<Rightarrow> string list \<Rightarrow> string option \<times> string list" where
  "leftover_walk found tolerated [] unknown = (None, unknown)"
| "leftover_walk found tolerated ((key, value) # rest) unknown =
     (case option_of key of
        Some index \<Rightarrow>
          (let b = push_bit index 1 :: u64
           in if found AND b \<noteq> 0 then leftover_walk found tolerated rest unknown
              else if tolerated AND b \<noteq> 0
              then (if to_bool value then (Some (okey_text key), unknown)
                    else leftover_walk found tolerated rest unknown)
              else leftover_walk found tolerated rest (unknown @ [okey_text key]))
      | None \<Rightarrow> leftover_walk found tolerated rest (unknown @ [okey_text key]))"

definition leftover_keys :: "opt_reader \<Rightarrow> ruby_error + unit" where
  "leftover_keys r =
     (case leftover_walk (or_found r) (or_tolerated r) (or_hash r) [] of
        (Some name, _) \<Rightarrow>
          Inl (ArgumentError (Fmt ''NOSJ does not support the {} option'' [AText name]))
      | (None, []) \<Rightarrow> Inr ()
      | (None, [key]) \<Rightarrow> Inl (ArgumentError (Fmt ''unknown keyword: {}'' [AText key]))
      | (None, keys) \<Rightarrow> Inl (ArgumentError (Fmt ''unknown keywords: {}'' (map AText keys))))"

definition opt_finish :: "opt_reader \<Rightarrow> ruby_error + unit" where
  "opt_finish r = (if all_found r then Inr () else leftover_keys r)"

section \<open>Options and bits\<close>

lemma all_opts_nth [simp]: "all_opts ! opt_index opt = opt"
  by (cases opt) (simp_all add: all_opts_def)

lemma opt_index_less [simp]: "opt_index opt < 26"
  by (cases opt) simp_all

lemma opt_index_eq_iff [simp]: "opt_index a = opt_index b \<longleftrightarrow> a = b"
  by (metis all_opts_nth)

lemma length_NAMES [simp]: "length NAMES = 26"
  by (simp add: NAMES_def)

lemma distinct_NAMES: "distinct NAMES"
  by (simp add: NAMES_def)

lemma opt_name_eq_iff [simp]: "opt_name a = opt_name b \<longleftrightarrow> a = b"
  by (simp add: opt_name_def nth_eq_iff_index_eq [OF distinct_NAMES])

lemma option_of_iff: "option_of key = Some i \<longleftrightarrow> (\<exists>opt. i = opt_index opt \<and> key = KSym (opt_name opt))"
proof
  assume a: "option_of key = Some i"
  then obtain n where key: "key = KSym n" and i: "i < 26" "NAMES ! i = n"
    by (cases key) (auto simp: position_Some)
  have "opt_index (all_opts ! i) = i"
    using i(1) by (auto simp: all_opts_def less_Suc_eq numeral_eq_Suc)
  with key i show "\<exists>opt. i = opt_index opt \<and> key = KSym (opt_name opt)"
    by (metis opt_name_def)
next
  assume "\<exists>opt. i = opt_index opt \<and> key = KSym (opt_name opt)"
  then obtain opt where o: "i = opt_index opt" "key = KSym (opt_name opt)" by blast
  have "NAMES ! j \<noteq> opt_name opt" if "j < opt_index opt" for j
    using that less_trans [OF that opt_index_less] nth_eq_iff_index_eq [OF distinct_NAMES, of j "opt_index opt"]
    by (simp add: opt_name_def)
  with o show "option_of key = Some i"
    by (simp add: position_Some opt_name_def order.strict_trans [OF opt_index_less])
qed

lemma option_of_name [simp]: "option_of (KSym (opt_name opt)) = Some (opt_index opt)"
  by (auto simp: option_of_iff simp del: option_of.simps)

definition has_opt :: "u64 \<Rightarrow> opt \<Rightarrow> bool" where
  "has_opt w opt \<longleftrightarrow> bit w (opt_index opt)"

lemma opt_index_less_64 [simp]: "opt_index opt < 64"
  by (rule less_trans [OF opt_index_less]) simp

lemma bit_opt_bit [simp]: "bit (opt_bit opt) n \<longleftrightarrow> n = opt_index opt"
  by (auto simp: opt_bit_def bit_simps bit_1_iff)

lemma and_opt_bit: "w AND opt_bit opt = 0 \<longleftrightarrow> \<not> has_opt w opt"
proof
  assume "w AND opt_bit opt = 0"
  then have "\<not> bit (w AND opt_bit opt) (opt_index opt)" by simp
  then show "\<not> has_opt w opt" by (simp add: has_opt_def bit_and_iff)
next
  assume "\<not> has_opt w opt"
  then show "w AND opt_bit opt = 0"
    by (intro bit_word_eqI) (auto simp: has_opt_def bit_and_iff)
qed

lemma and_power: "w AND 2 ^ opt_index opt = 0 \<longleftrightarrow> \<not> has_opt w opt"
  using and_opt_bit [of w opt] by (simp add: opt_bit_def)

lemma bit_or_opt_bit: "bit (w OR opt_bit opt) n \<longleftrightarrow> bit w n \<or> n = opt_index opt"
  by (simp add: bit_or_iff)

lemma has_opt_or [simp]: "has_opt (w OR opt_bit a) b \<longleftrightarrow> has_opt w b \<or> a = b"
  by (auto simp: has_opt_def bit_or_opt_bit)

lemma has_opt_0 [simp]: "\<not> has_opt 0 opt"
  by (simp add: has_opt_def)

lemma has_opt_foldl: "has_opt (foldl (\<lambda>t opt. t OR opt_bit opt) w os) opt \<longleftrightarrow> has_opt w opt \<or> opt \<in> set os"
  by (induction os arbitrary: w) auto

text \<open>Only option bits are ever set, so the number of ones is the number of options.\<close>

definition opt_bits_only :: "u64 \<Rightarrow> bool" where
  "opt_bits_only w \<longleftrightarrow> (\<forall>n. bit w n \<longrightarrow> n < 26)"

lemma opt_of_index: "i < 26 \<Longrightarrow> \<exists>opt. i = opt_index opt"
  using option_of_iff [of "KSym (NAMES ! i)" i] position_Some [of "\<lambda>k. k = NAMES ! i" NAMES i]
    nth_eq_iff_index_eq [OF distinct_NAMES]
  by auto

lemma count_ones_card:
  assumes "opt_bits_only w"
  shows "count_ones w = card {opt. has_opt w opt}"
proof -
  have "count_ones w = card (set (filter (bit w) [0..<64]))"
    unfolding count_ones_def by (metis distinct_card distinct_filter distinct_upt)
  also have "set (filter (bit w) [0..<64]) = opt_index ` {opt. has_opt w opt}"
    using assms opt_of_index by (auto simp: opt_bits_only_def has_opt_def image_iff)
  also have "card \<dots> = card {opt. has_opt w opt}"
    by (rule card_image) (simp add: inj_on_def)
  finally show ?thesis .
qed

section \<open>What the reader knows\<close>

text \<open>
  \<open>R\<close> are the options asked for so far and \<open>T\<close> the tolerated ones: the found mask holds the
  options of \<open>R\<close> that are in the hash, except that an option whose lookup was skipped is
  absent anyway.
\<close>

definition present :: "ohash \<Rightarrow> opt \<Rightarrow> bool" where
  "present h opt \<longleftrightarrow> KSym (opt_name opt) \<in> fst ` set h"

definition reader_inv :: "ohash \<Rightarrow> opt set \<Rightarrow> opt set \<Rightarrow> opt_reader \<Rightarrow> bool" where
  "reader_inv h R T r \<longleftrightarrow>
     wf_hash h \<and> or_hash r = h \<and> or_len r = length h \<and> opt_bits_only (or_found r) \<and>
     (\<forall>opt. has_opt (or_found r) opt \<longleftrightarrow> opt \<in> R \<and> present h opt) \<and>
     (\<forall>opt. has_opt (or_tolerated r) opt \<longleftrightarrow> opt \<in> T)"

lemma reader_inv_new: "wf_hash h \<Longrightarrow> reader_inv h {} {} (opt_reader_new h)"
  by (simp add: reader_inv_def opt_reader_new_def opt_bits_only_def)

lemma finite_opts [simp]: "finite (S :: opt set)"
proof -
  have "S \<subseteq> set all_opts" by (auto simp: all_opts_def) (metis opt.exhaust)
  then show ?thesis by (rule finite_subset) simp
qed

text \<open>The keys already accounted for, and why a full count leaves none over.\<close>

lemma all_found_iff:
  assumes "reader_inv h R T r"
  shows "all_found r \<longleftrightarrow> (\<forall>key \<in> fst ` set h. \<exists>opt \<in> R. key = KSym (opt_name opt))"
proof -
  let ?F = "{opt. has_opt (or_found r) opt}"
  let ?K = "(\<lambda>opt. KSym (opt_name opt)) ` ?F"
  have sub: "?K \<subseteq> fst ` set h"
    using assms by (auto simp: reader_inv_def present_def)
  have "card ?K = card ?F"
    by (rule card_image) (simp add: inj_on_def)
  then have ones: "count_ones (or_found r) = card ?K"
    using assms by (simp add: count_ones_card reader_inv_def)
  have keys: "or_len r = card (fst ` set h)"
    using assms distinct_card [of "map fst h"] by (simp add: reader_inv_def wf_hash_def)
  have "all_found r \<longleftrightarrow> ?K = fst ` set h"
    unfolding all_found_def ones keys using sub by (metis card_subset_eq finite_imageI finite_set)
  also have "\<dots> \<longleftrightarrow> (\<forall>key \<in> fst ` set h. \<exists>opt \<in> R. key = KSym (opt_name opt))"
  proof
    assume "?K = fst ` set h"
    then show "\<forall>key \<in> fst ` set h. \<exists>opt \<in> R. key = KSym (opt_name opt)"
      using assms by (auto simp: reader_inv_def)
  next
    assume all: "\<forall>key \<in> fst ` set h. \<exists>opt \<in> R. key = KSym (opt_name opt)"
    have "key \<in> ?K" if key: "key \<in> fst ` set h" for key
    proof -
      from all key obtain opt where "opt \<in> R" "key = KSym (opt_name opt)" by blast
      with key assms show ?thesis by (auto simp: reader_inv_def present_def)
    qed
    with sub show "?K = fst ` set h" by blast
  qed
  finally show ?thesis .
qed

lemma present_lookup: "map_of h (KSym (opt_name opt)) \<noteq> None \<longleftrightarrow> present h opt"
  by (auto simp: present_def map_of_eq_None_iff)

lemma opt_get_value:
  assumes "reader_inv h R T r"
  shows "fst (opt_get opt r) = map_of h (KSym (opt_name opt))"
proof (cases "all_found r \<and> or_found r AND opt_bit opt = 0")
  case True
  then have "\<not> present h opt"
    using assms all_found_iff [OF assms] by (fastforce simp: and_opt_bit reader_inv_def present_def)
  with True show ?thesis using present_lookup [of h opt] by (simp add: opt_get_def)
next
  case False
  with assms show ?thesis by (auto simp: opt_get_def Let_def reader_inv_def)
qed

lemma opt_get_inv:
  assumes "reader_inv h R T r"
  shows "reader_inv h (insert opt R) T (snd (opt_get opt r))"
proof (cases "all_found r \<and> or_found r AND opt_bit opt = 0")
  case True
  then have "\<not> present h opt"
    using assms all_found_iff [OF assms] by (fastforce simp: and_opt_bit reader_inv_def present_def)
  with True assms show ?thesis by (auto simp: opt_get_def reader_inv_def)
next
  case False
  then show ?thesis
    using assms present_lookup [of h opt]
    by (auto simp: opt_get_def Let_def reader_inv_def opt_bits_only_def bit_or_opt_bit)
qed

lemma opt_get_eq:
  assumes "reader_inv h R T r"
  obtains r' where "opt_get opt r = (map_of h (KSym (opt_name opt)), r')" "reader_inv h (insert opt R) T r'"
  using opt_get_value [OF assms] opt_get_inv [OF assms] by (metis prod.collapse)

text \<open>The option's value read as a boolean, straight from the hash.\<close>

definition flag :: "ohash \<Rightarrow> opt \<Rightarrow> bool" where
  "flag h opt = (case map_of h (KSym (opt_name opt)) of Some v \<Rightarrow> to_bool v | None \<Rightarrow> False)"

lemma truthy_eq:
  assumes "reader_inv h R T r"
  obtains r' where "truthy opt r = (flag h opt, r')" "reader_inv h (insert opt R) T r'"
  by (rule opt_get_eq [OF assms, of opt]) (auto simp: truthy_def flag_def)

lemma tolerate_inv: "reader_inv h R T r \<Longrightarrow> reader_inv h R (T \<union> set os) (tolerate os r)"
  by (auto simp: reader_inv_def tolerate_def has_opt_foldl)

section \<open>The unknown-key rule\<close>

text \<open>A key is accepted when it was read, or is tolerated and falsy.\<close>

definition accepted :: "opt set \<Rightarrow> opt set \<Rightarrow> okey \<times> rval \<Rightarrow> bool" where
  "accepted R T kv \<longleftrightarrow>
     (\<exists>opt \<in> R. fst kv = KSym (opt_name opt)) \<or>
     (\<exists>opt \<in> T. fst kv = KSym (opt_name opt) \<and> \<not> to_bool (snd kv))"

lemma leftover_walk_accepts:
  assumes "\<forall>opt. has_opt found opt \<longleftrightarrow> opt \<in> R \<and> present h opt" and "\<forall>opt. has_opt tol opt \<longleftrightarrow> opt \<in> T"
    and "set kvs \<subseteq> set h"
  shows "leftover_walk found tol kvs unknown = (None, []) \<longleftrightarrow> unknown = [] \<and> (\<forall>kv \<in> set kvs. accepted R T kv)"
  using assms(3)
proof (induction kvs arbitrary: unknown)
  case Nil
  then show ?case by simp
next
  case (Cons kv kvs)
  obtain key val where kv: "kv = (key, val)" by (cases kv)
  show ?case
  proof (cases "\<exists>opt. key = KSym (opt_name opt)")
    case True
    then obtain opt where key: "key = KSym (opt_name opt)" ..
    have "present h opt" using Cons.prems kv key by (force simp: present_def)
    then show ?thesis
      using Cons kv key assms(1,2)
      by (auto simp: and_power accepted_def Let_def simp del: option_of.simps)
  next
    case False
    then have "option_of key = None"
      using option_of_iff by (metis option.exhaust)
    with False show ?thesis using Cons kv by (auto simp: accepted_def)
  qed
qed

lemma finish_accepts_read:
  assumes "reader_inv h R T r"
  shows "opt_finish r = Inr () \<longleftrightarrow> (\<forall>kv \<in> set h. accepted R T kv)"
proof (cases "all_found r")
  case True
  then show ?thesis
    using all_found_iff [OF assms] by (auto simp: opt_finish_def accepted_def)
next
  case False
  have "leftover_keys r = Inr () \<longleftrightarrow> leftover_walk (or_found r) (or_tolerated r) h [] = (None, [])"
    using assms by (auto simp: leftover_keys_def reader_inv_def split: prod.splits option.splits list.splits)
  also have "\<dots> \<longleftrightarrow> (\<forall>kv \<in> set h. accepted R T kv)"
    using leftover_walk_accepts [of "or_found r" R h "or_tolerated r" T h "[]"] assms
    by (auto simp: reader_inv_def)
  finally show ?thesis using False by (simp add: opt_finish_def)
qed

text \<open>
  C27.  \<open>finish\<close> implements the unknown-key rule although it usually only compares two counts: it
  accepts exactly the hashes all of whose keys were read by some decoder, or are tolerated
  options that are set to something falsy.
\<close>

theorem opt_finish_accepts:
  assumes "reader_inv h R T r"
  shows "opt_finish r = Inr () \<longleftrightarrow> (\<forall>kv \<in> set h. accepted R T kv)"
  by (rule finish_accepts_read [OF assms])

theorem opt_finish_accepts_witness:
  "opt_finish (snd (opt_get Freeze (tolerate [SortKeys]
       (opt_reader_new [(KSym ''freeze'', RTrue), (KSym ''sort_keys'', RFalse)])))) = Inr ()"
proof -
  let ?h = "[(KSym ''freeze'', RTrue), (KSym ''sort_keys'', RFalse)]"
  have "reader_inv ?h {} {} (opt_reader_new ?h)"
    by (rule reader_inv_new) (simp add: wf_hash_def)
  then have i: "reader_inv ?h (insert Freeze {}) ({} \<union> set [SortKeys])
      (snd (opt_get Freeze (tolerate [SortKeys] (opt_reader_new ?h))))"
    by (intro opt_get_inv tolerate_inv)
  show ?thesis
    using opt_finish_accepts [OF i] by (simp add: accepted_def opt_name_def NAMES_def)
qed

section \<open>The reader in canonical form\<close>

text \<open>
  The invariant determines the reader: \<open>reader_at h R T\<close> is the one reader it allows, and
  each operation is a rewrite rule on it, which is how the decoders are evaluated.
\<close>

definition mask :: "opt set \<Rightarrow> u64" where
  "mask S = foldl (\<lambda>w opt. w OR opt_bit opt) 0 (filter (\<lambda>opt. opt \<in> S) all_opts)"

definition reader_at :: "ohash \<Rightarrow> opt set \<Rightarrow> opt set \<Rightarrow> opt_reader" where
  "reader_at h R T =
     \<lparr>or_hash = h, or_len = length h, or_found = mask {opt \<in> R. present h opt}, or_tolerated = mask T\<rparr>"

lemma in_all_opts [simp]: "opt \<in> set all_opts"
  by (cases opt) (simp_all add: all_opts_def)

lemma bit_mask [simp]: "bit (mask S) n \<longleftrightarrow> (\<exists>opt \<in> S. n = opt_index opt)"
proof -
  have "bit (foldl (\<lambda>w opt. w OR opt_bit opt) w os) n \<longleftrightarrow> bit w n \<or> (\<exists>opt \<in> set os. n = opt_index opt)"
    for w os by (induction os arbitrary: w) (auto simp: bit_or_opt_bit)
  then show ?thesis by (auto simp: mask_def)
qed

lemma has_opt_mask [simp]: "has_opt (mask S) opt \<longleftrightarrow> opt \<in> S"
  by (simp add: has_opt_def)

lemma mask_or: "mask S OR opt_bit opt = mask (insert opt S)"
  by (rule bit_word_eqI) (auto simp: bit_or_opt_bit)

lemma mask_empty [simp]: "mask {} = 0"
  by (rule bit_word_eqI) simp

lemma reader_at_inv: "wf_hash h \<Longrightarrow> reader_inv h R T (reader_at h R T)"
  by (auto simp: reader_inv_def reader_at_def opt_bits_only_def)

lemma new_at: "opt_reader_new h = reader_at h {} {}"
  by (simp add: opt_reader_new_def reader_at_def)

lemma opt_get_at:
  assumes "wf_hash h"
  shows "opt_get opt (reader_at h R T) = (map_of h (KSym (opt_name opt)), reader_at h (insert opt R) T)"
proof -
  have v: "fst (opt_get opt (reader_at h R T)) = map_of h (KSym (opt_name opt))"
    by (rule opt_get_value [OF reader_at_inv [OF assms]])
  have absent: "{o' \<in> insert opt R. present h o'} = {o' \<in> R. present h o'}" if "\<not> present h opt"
    using that by auto
  have there: "{o' \<in> insert opt R. present h o'} = insert opt {o' \<in> R. present h o'}" if "present h opt"
    using that by auto
  have "snd (opt_get opt (reader_at h R T)) = reader_at h (insert opt R) T"
  proof (cases "present h opt")
    case True
    then have "map_of h (KSym (opt_name opt)) \<noteq> None" by (simp only: present_lookup)
    with v have "fst (opt_get opt (reader_at h R T)) \<noteq> None" by simp
    then show ?thesis
      using True there by (auto simp: opt_get_def Let_def reader_at_def mask_or split: if_splits)
  next
    case False
    then have "map_of h (KSym (opt_name opt)) = None" using present_lookup by blast
    then show ?thesis using absent [OF False] by (auto simp: opt_get_def Let_def reader_at_def)
  qed
  with v show ?thesis by (metis prod.collapse)
qed

lemma truthy_at:
  "wf_hash h \<Longrightarrow> truthy opt (reader_at h R T) = (flag h opt, reader_at h (insert opt R) T)"
  by (simp add: truthy_def opt_get_at flag_def)

lemma tolerate_at: "tolerate os (reader_at h R T) = reader_at h R (T \<union> set os)"
proof -
  have "foldl (\<lambda>t opt. t OR opt_bit opt) (mask T) os = mask (T \<union> set os)"
    by (induction os arbitrary: T) (auto simp: mask_or)
  then show ?thesis by (simp add: tolerate_def reader_at_def)
qed

lemma finish_at:
  assumes "wf_hash h"
  shows "opt_finish (reader_at h R T) = Inr () \<longleftrightarrow> (\<forall>kv \<in> set h. accepted R T kv)"
  using finish_accepts_read [OF reader_at_inv [OF assms]] .

lemmas reader_steps = new_at opt_get_at truthy_at tolerate_at

end
