(* ===== verification/Option_Decoders.thy ===== *)
theory Option_Decoders
  imports Opt_Reader
begin

text \<open>
  The option decoders: parse options (src/ext/nosj/src/parse.rs), generate options
  (src/ext/nosj/src/gen/opts.rs), the stats options (stats.rs) and the combined reformat options
  (reformat.rs).  Each is the code's sequence of reads on an \<open>opt_reader\<close>; the theorems give
  each decoder's result as a function of the hash alone.
\<close>

section \<open>Parse options\<close>

abbreviation MAX_NESTING :: nat where "MAX_NESTING \<equiv> 100"

text \<open>\<open>nosj::ParseOptions\<close>: the grammar extensions the crate's parser takes.\<close>

record popts =
  po_allow_nan :: bool
  po_allow_trailing_comma :: bool

definition popts_default :: popts where
  "popts_default = \<lparr>po_allow_nan = False, po_allow_trailing_comma = False\<rparr>"

record parse_opts =
  symbolize :: bool
  freeze :: bool
  max_nesting :: nat
  allow_duplicate_key :: bool
  popts :: popts

definition parse_opts_default :: parse_opts where
  "parse_opts_default =
     \<lparr>symbolize = False, freeze = False, max_nesting = MAX_NESTING,
      allow_duplicate_key = False, popts = popts_default\<rparr>"

fun is_integer :: "rval \<Rightarrow> bool" where
  "is_integer (RInt i) = True"
| "is_integer _ = False"

definition max_nesting_of :: "rval \<Rightarrow> nat" where
  "max_nesting_of value =
     (if value = RNil \<or> to_bool value \<and> \<not> is_integer value then MAX_NESTING
      else if \<not> to_bool value then USIZE_MAX
      else (case value of RInt i \<Rightarrow> (case to_u64 i of Some n \<Rightarrow> n | None \<Rightarrow> MAX_NESTING)
            | _ \<Rightarrow> MAX_NESTING))"

text \<open>nil and the empty hash are no options.\<close>

fun options_hash :: "options_arg \<Rightarrow> ruby_error + ohash option" where
  "options_hash ONil = Inr None"
| "options_hash ONotHash = Inl (ArgumentError (msg ''options must be a Hash''))"
| "options_hash (OHash h) = Inr (if h = [] then None else Some h)"

definition read_parse_opts :: "opt_reader \<Rightarrow> parse_opts \<times> opt_reader" where
  "read_parse_opts r =
     (let (sy, r) = truthy SymbolizeNames r;
          (fr, r) = truthy Freeze r;
          (dk, r) = truthy AllowDuplicateKey r;
          (an, r) = truthy AllowNan r;
          (tc, r) = truthy AllowTrailingComma r;
          (mn, r) = opt_get MaxNesting r;
          r = tolerate [ObjectClass, ArrayClass, DecimalClass, OnLoad, CreateAdditions,
                        AllowComments, AllowControlCharacters, AllowInvalidEscape] r
      in (\<lparr>symbolize = sy, freeze = fr,
           max_nesting = (case mn of Some v \<Rightarrow> max_nesting_of v | None \<Rightarrow> MAX_NESTING),
           allow_duplicate_key = dk,
           popts = \<lparr>po_allow_nan = an, po_allow_trailing_comma = tc\<rparr>\<rparr>, r))"

definition parse_native_opts :: "options_arg \<Rightarrow> ruby_error + parse_opts" where
  "parse_native_opts opts =
     tryr (options_hash opts) (\<lambda>oh. case oh of
       None \<Rightarrow> Inr parse_opts_default
     | Some h \<Rightarrow>
         (let (out, r) = read_parse_opts (opt_reader_new h)
          in tryr (opt_finish r) (\<lambda>_. Inr out)))"

text \<open>stats.rs: unlimited nesting by default, and no Hash-shaping options.\<close>

definition stats_opts :: "options_arg \<Rightarrow> ruby_error + parse_opts" where
  "stats_opts opts =
     tryr (options_hash opts) (\<lambda>oh.
       let o0 = parse_opts_default\<lparr>max_nesting := USIZE_MAX\<rparr>
       in case oh of
         None \<Rightarrow> Inr o0
       | Some h \<Rightarrow>
           (let r = opt_reader_new h;
                (mn, r) = opt_get MaxNesting r;
                o1 = (case mn of Some v \<Rightarrow> o0\<lparr>max_nesting := max_nesting_of v\<rparr> | None \<Rightarrow> o0);
                (an, r) = truthy AllowNan r;
                (tc, r) = truthy AllowTrailingComma r;
                o2 = o1\<lparr>popts := \<lparr>po_allow_nan = an, po_allow_trailing_comma = tc\<rparr>\<rparr>
            in tryr (opt_finish r) (\<lambda>_. Inr o2)))"

section \<open>Generate options\<close>

text \<open>The crate's escape modes.\<close>

datatype escape_mode = Standard | AsciiOnlyMode | ScriptSafeMode | HtmlSafe | HtmlEntities | JsSeparators

record gen_config =
  indent :: bytes
  space :: bytes
  space_before :: bytes
  object_nl :: bytes
  array_nl :: bytes
  gc_max_nesting :: nat
  start_depth :: nat
  gc_allow_nan :: bool
  strict :: bool
  rails :: bool
  gc_allow_duplicate_key :: bool
  mode :: escape_mode
  pretty :: bool

text \<open>The const fn \<open>defaults\<close> and the configurations built with it.\<close>

definition gen_defaults :: "bool \<Rightarrow> escape_mode \<Rightarrow> gen_config" where
  "gen_defaults rails_walk m =
     \<lparr>indent = [], space = [], space_before = [], object_nl = [], array_nl = [],
      gc_max_nesting = MAX_NESTING, start_depth = 0, gc_allow_nan = False, strict = False,
      rails = rails_walk, gc_allow_duplicate_key = rails_walk, mode = m, pretty = False\<rparr>"

definition DEFAULT_CONFIG :: gen_config where
  "DEFAULT_CONFIG = gen_defaults False Standard"

definition RAILS_HTML_SAFE_CONFIG :: gen_config where
  "RAILS_HTML_SAFE_CONFIG = gen_defaults True HtmlSafe"

definition RAILS_HTML_ENTITIES_CONFIG :: gen_config where
  "RAILS_HTML_ENTITIES_CONFIG = gen_defaults True HtmlEntities"

definition RAILS_JS_SEPARATORS_CONFIG :: gen_config where
  "RAILS_JS_SEPARATORS_CONFIG = gen_defaults True JsSeparators"

definition RAILS_CONFIG :: gen_config where
  "RAILS_CONFIG = gen_defaults True Standard"

definition opt_bytes :: "opt \<Rightarrow> opt_reader \<Rightarrow> ruby_error + bytes \<times> opt_reader" where
  "opt_bytes opt r =
     (let (v, r) = opt_get opt r
      in case v of
           None \<Rightarrow> Inr ([], r)
         | Some RNil \<Rightarrow> Inr ([], r)
         | Some (RStr s) \<Rightarrow> Inr (s, r)
         | Some _ \<Rightarrow> Inl (TypeError (Fmt ''{} must be a String'' [AText (opt_name opt)])))"

definition read_gen_opts :: "opt_reader \<Rightarrow> ruby_error + (gen_config \<times> nat) \<times> opt_reader" where
  "read_gen_opts r =
     tryr (opt_bytes Indent r) (\<lambda>(ind, r).
     tryr (opt_bytes Space r) (\<lambda>(sp, r).
     tryr (opt_bytes SpaceBefore r) (\<lambda>(sb, r).
     tryr (opt_bytes ObjectNl r) (\<lambda>(onl, r).
     tryr (opt_bytes ArrayNl r) (\<lambda>(anl, r).
       let (an, r) = truthy AllowNan r;
           (st, r) = truthy Strict r;
           (dk, r) = truthy AllowDuplicateKey r;
           r = tolerate [SortKeys, AsJson] r;
           (ascii, r) = truthy AsciiOnly r;
           (script, r) = truthy ScriptSafe r
       in if ascii \<and> script
          then Inl (ArgumentError (msg ''NOSJ.generate: ascii_only and script_safe cannot be combined''))
          else
            let m = (if ascii then AsciiOnlyMode else if script then ScriptSafeMode else Standard);
                (mnv, r) = opt_get MaxNesting r;
                mn = (case mnv of None \<Rightarrow> MAX_NESTING
                      | Some v \<Rightarrow> if \<not> to_bool v then 0
                                  else (case try_i64 v of Some n \<Rightarrow> if n \<le> 0 then 0 else nat n
                                        | None \<Rightarrow> MAX_NESTING));
                (dv, r) = opt_get Depth r;
                sd = (case dv of None \<Rightarrow> 0
                      | Some v \<Rightarrow> (case try_i64 v of Some n \<Rightarrow> if n \<le> 0 then 0 else nat n | None \<Rightarrow> 0));
                (bv, r) = opt_get BufferInitialLength r;
                hint = (case bv of None \<Rightarrow> 0
                        | Some v \<Rightarrow> (case try_i64 v of Some n \<Rightarrow> if 0 < n then nat n else 0 | None \<Rightarrow> 0));
                pr = (\<not> (ind = [] \<and> sp = [] \<and> sb = [] \<and> onl = [] \<and> anl = []))
            in Inr ((\<lparr>indent = ind, space = sp, space_before = sb, object_nl = onl, array_nl = anl,
                      gc_max_nesting = mn, start_depth = sd, gc_allow_nan = an, strict = st,
                      rails = False, gc_allow_duplicate_key = dk, mode = m, pretty = pr\<rparr>, hint), r))))))"

fun parse_gen_opts :: "options_arg \<Rightarrow> ruby_error + gen_config \<times> nat" where
  "parse_gen_opts ONil = Inr (DEFAULT_CONFIG, 0)"
| "parse_gen_opts ONotHash = Inl (TypeError (msg ''options must be a Hash or nil''))"
| "parse_gen_opts (OHash h) =
     tryr (read_gen_opts (opt_reader_new h)) (\<lambda>(decoded, r).
     tryr (opt_finish r) (\<lambda>_. Inr decoded))"

section \<open>Reformat options\<close>

record reformat_opts =
  ro_parse :: parse_opts
  ro_generate :: "gen_config option"

definition reformat_opts_decode :: "options_arg \<Rightarrow> ruby_error + reformat_opts" where
  "reformat_opts_decode opts =
     tryr (options_hash opts) (\<lambda>oh. case oh of
       None \<Rightarrow> Inr \<lparr>ro_parse = parse_opts_default, ro_generate = None\<rparr>
     | Some h \<Rightarrow>
         (let (po, r) = read_parse_opts (opt_reader_new h)
          in tryr (read_gen_opts r) (\<lambda>((g, _), r).
             tryr (opt_finish r) (\<lambda>_. Inr \<lparr>ro_parse = po, ro_generate = Some g\<rparr>))))"

section \<open>The decoders as functions of the hash\<close>

definition nesting_option :: "ohash \<Rightarrow> nat \<Rightarrow> nat" where
  "nesting_option h dflt =
     (case map_of h (KSym (opt_name MaxNesting)) of Some v \<Rightarrow> max_nesting_of v | None \<Rightarrow> dflt)"

definition parse_opts_of :: "ohash \<Rightarrow> parse_opts" where
  "parse_opts_of h =
     \<lparr>symbolize = flag h SymbolizeNames, freeze = flag h Freeze,
      max_nesting = nesting_option h MAX_NESTING,
      allow_duplicate_key = flag h AllowDuplicateKey,
      popts = \<lparr>po_allow_nan = flag h AllowNan, po_allow_trailing_comma = flag h AllowTrailingComma\<rparr>\<rparr>"

definition parse_read :: "opt set" where
  "parse_read = {SymbolizeNames, Freeze, AllowDuplicateKey, AllowNan, AllowTrailingComma, MaxNesting}"

definition parse_tolerated :: "opt set" where
  "parse_tolerated = {ObjectClass, ArrayClass, DecimalClass, OnLoad, CreateAdditions,
     AllowComments, AllowControlCharacters, AllowInvalidEscape}"

lemma read_parse_opts_at:
  "wf_hash h \<Longrightarrow> read_parse_opts (reader_at h R T) =
     (parse_opts_of h, reader_at h (R \<union> parse_read) (T \<union> parse_tolerated))"
  by (simp add: read_parse_opts_def reader_steps parse_opts_of_def nesting_option_def
      parse_read_def parse_tolerated_def Let_def insert_commute)

lemma finish_at_error:
  assumes "wf_hash h" and "\<not> (\<forall>kv \<in> set h. accepted R T kv)"
  shows "\<exists>m. opt_finish (reader_at h R T) = Inl (ArgumentError m)"
proof -
  have "opt_finish (reader_at h R T) \<noteq> Inr ()"
    using finish_at [OF assms(1), of R T] assms(2) by simp
  then show ?thesis
    by (auto simp: opt_finish_def leftover_keys_def split: if_splits prod.splits option.splits list.splits)
qed

lemma parse_opts_accepted:
  "wf_hash h \<Longrightarrow> h \<noteq> [] \<Longrightarrow> \<forall>kv \<in> set h. accepted parse_read parse_tolerated kv \<Longrightarrow>
     parse_native_opts (OHash h) = Inr (parse_opts_of h)"
  using finish_at [of h parse_read parse_tolerated]
  by (simp add: parse_native_opts_def read_parse_opts_at new_at)

lemma parse_opts_allow_duplicates:
  "parse_native_opts (OHash [(KSym ''allow_duplicate_key'', RTrue)])
     = Inr (parse_opts_default\<lparr>allow_duplicate_key := True\<rparr>)"
  by (subst parse_opts_accepted)
    (simp_all add: wf_hash_def accepted_def parse_read_def opt_name_def NAMES_def parse_opts_of_def
      parse_opts_default_def flag_def nesting_option_def popts_default_def)

text \<open>
  C28.  Decoding parse options: for any options hash (a Ruby hash, so its keys are distinct) the
  result is the options the hash spells out, each option's own default where it is absent; and
  a hash with an unknown key, or with an unsupported option switched on, raises ArgumentError.
\<close>

theorem parse_native_opts_spec:
  assumes "wf_hash h"
  shows "(\<forall>kv \<in> set h. accepted parse_read parse_tolerated kv)
           \<and> parse_native_opts (OHash h) = Inr (parse_opts_of h)
       \<or> (\<exists>kv \<in> set h. \<not> accepted parse_read parse_tolerated kv)
           \<and> (\<exists>m. parse_native_opts (OHash h) = Inl (ArgumentError m))"
proof (cases "h = []")
  case True
  then show ?thesis
    by (simp add: parse_native_opts_def parse_opts_of_def parse_opts_default_def flag_def
        nesting_option_def popts_default_def)
next
  case False
  have "parse_native_opts (OHash h) =
      tryr (opt_finish (reader_at h parse_read parse_tolerated)) (\<lambda>_. Inr (parse_opts_of h))"
    using False assms by (simp add: parse_native_opts_def read_parse_opts_at new_at)
  then show ?thesis
    using finish_at [OF assms, of parse_read parse_tolerated]
      finish_at_error [OF assms, of parse_read parse_tolerated] by fastforce
qed

theorem parse_native_opts_spec_witness:
  "parse_native_opts (OHash [(KSym ''freeze'', RTrue), (KSym ''max_nesting'', RFalse)])
     = Inr (parse_opts_default\<lparr>freeze := True, max_nesting := USIZE_MAX\<rparr>)"
proof -
  let ?h = "[(KSym ''freeze'', RTrue), (KSym ''max_nesting'', RFalse)]"
  have wf: "wf_hash ?h" by (simp add: wf_hash_def)
  have acc: "\<forall>kv \<in> set ?h. accepted parse_read parse_tolerated kv"
    by (simp add: accepted_def parse_read_def opt_name_def NAMES_def)
  have "parse_native_opts (OHash ?h) = Inr (parse_opts_of ?h)"
    using parse_native_opts_spec [OF wf] acc by blast
  then show ?thesis
    by (simp add: parse_opts_of_def parse_opts_default_def flag_def nesting_option_def opt_name_def
        NAMES_def popts_default_def max_nesting_of_def)
qed

section \<open>Generate options as a function of the hash\<close>

definition str_option :: "ohash \<Rightarrow> opt \<Rightarrow> ruby_error + bytes" where
  "str_option h opt =
     (case map_of h (KSym (opt_name opt)) of
        None \<Rightarrow> Inr []
      | Some RNil \<Rightarrow> Inr []
      | Some (RStr s) \<Rightarrow> Inr s
      | Some _ \<Rightarrow> Inl (TypeError (Fmt ''{} must be a String'' [AText (opt_name opt)])))"

definition positive_option :: "ohash \<Rightarrow> opt \<Rightarrow> nat" where
  "positive_option h opt =
     (case map_of h (KSym (opt_name opt)) of None \<Rightarrow> 0
      | Some v \<Rightarrow> (case try_i64 v of Some n \<Rightarrow> nat n | None \<Rightarrow> 0))"

definition gen_nesting_option :: "ohash \<Rightarrow> nat" where
  "gen_nesting_option h =
     (case map_of h (KSym (opt_name MaxNesting)) of
        None \<Rightarrow> MAX_NESTING
      | Some v \<Rightarrow> if \<not> to_bool v then 0
                  else (case try_i64 v of Some n \<Rightarrow> nat n | None \<Rightarrow> MAX_NESTING))"

definition gen_opts_of :: "ohash \<Rightarrow> ruby_error + gen_config \<times> nat" where
  "gen_opts_of h =
     tryr (str_option h Indent) (\<lambda>ind.
     tryr (str_option h Space) (\<lambda>sp.
     tryr (str_option h SpaceBefore) (\<lambda>sb.
     tryr (str_option h ObjectNl) (\<lambda>onl.
     tryr (str_option h ArrayNl) (\<lambda>anl.
       if flag h AsciiOnly \<and> flag h ScriptSafe
       then Inl (ArgumentError (msg ''NOSJ.generate: ascii_only and script_safe cannot be combined''))
       else Inr (\<lparr>indent = ind, space = sp, space_before = sb, object_nl = onl, array_nl = anl,
           gc_max_nesting = gen_nesting_option h, start_depth = positive_option h Depth,
           gc_allow_nan = flag h AllowNan, strict = flag h Strict, rails = False,
           gc_allow_duplicate_key = flag h AllowDuplicateKey,
           mode = (if flag h AsciiOnly then AsciiOnlyMode
                   else if flag h ScriptSafe then ScriptSafeMode else Standard),
           pretty = (ind @ sp @ sb @ onl @ anl \<noteq> [])\<rparr>, positive_option h BufferInitialLength))))))"

definition gen_read :: "opt set" where
  "gen_read = {Indent, Space, SpaceBefore, ObjectNl, ArrayNl, AllowNan, Strict, AllowDuplicateKey,
     AsciiOnly, ScriptSafe, MaxNesting, Depth, BufferInitialLength}"

definition gen_tolerated :: "opt set" where
  "gen_tolerated = {SortKeys, AsJson}"

lemma opt_bytes_at:
  "wf_hash h \<Longrightarrow> opt_bytes opt (reader_at h R T) =
     tryr (str_option h opt) (\<lambda>b. Inr (b, reader_at h (insert opt R) T))"
  by (auto simp: opt_bytes_def reader_steps str_option_def split: option.splits rval.splits)

lemma read_gen_opts_at:
  assumes "wf_hash h"
  shows "read_gen_opts (reader_at h R T) =
     tryr (gen_opts_of h) (\<lambda>c. Inr (c, reader_at h (R \<union> gen_read) (T \<union> gen_tolerated)))"
proof -
  have nat_if: "(if n \<le> 0 then 0 else nat n) = nat n" "(if 0 < n then nat n else 0) = nat n" for n :: int
    by auto
  have set_eq: "insert BufferInitialLength (insert Depth (insert MaxNesting (insert ScriptSafe
      (insert AsciiOnly (insert AllowDuplicateKey (insert Strict (insert AllowNan (insert ArrayNl
      (insert ObjectNl (insert SpaceBefore (insert Space (insert Indent R)))))))))))) = R \<union> gen_read"
    by (auto simp: gen_read_def)
  show ?thesis
    using assms
    by (cases "flag h ScriptSafe"; cases "flag h AsciiOnly")
       (simp_all add: read_gen_opts_def gen_opts_of_def opt_bytes_at reader_steps tryr_assoc Let_def
        nat_if set_eq gen_tolerated_def gen_nesting_option_def positive_option_def
        cong: tryr_cong if_cong option.case_cong)
qed

lemma reformat_decodes:
  assumes "wf_hash h" and "h \<noteq> []"
  shows "reformat_opts_decode (OHash h) =
    tryr (gen_opts_of h) (\<lambda>(g, _).
      tryr (opt_finish (reader_at h (parse_read \<union> gen_read) (parse_tolerated \<union> gen_tolerated)))
        (\<lambda>_. Inr \<lparr>ro_parse = parse_opts_of h, ro_generate = Some g\<rparr>))"
  using assms
  by (simp add: reformat_opts_decode_def new_at read_parse_opts_at read_gen_opts_at tryr_assoc
      case_prod_unfold)

lemma reformat_opts_allow_duplicates:
  "reformat_opts_decode (OHash [(KSym ''allow_duplicate_key'', RTrue)])
     = Inr \<lparr>ro_parse = parse_opts_default\<lparr>allow_duplicate_key := True\<rparr>,
            ro_generate = Some (DEFAULT_CONFIG\<lparr>gc_allow_duplicate_key := True\<rparr>)\<rparr>"
proof -
  let ?h = "[(KSym ''allow_duplicate_key'', RTrue)]"
  have wf: "wf_hash ?h" by (simp add: wf_hash_def)
  have fin: "opt_finish (reader_at ?h (parse_read \<union> gen_read) (parse_tolerated \<union> gen_tolerated)) = Inr ()"
    using finish_at [OF wf, of "parse_read \<union> gen_read" "parse_tolerated \<union> gen_tolerated"]
    by (simp add: accepted_def parse_read_def gen_read_def opt_name_def NAMES_def)
  have g: "gen_opts_of ?h = Inr (DEFAULT_CONFIG\<lparr>gc_allow_duplicate_key := True\<rparr>, 0)"
    by (simp add: gen_opts_of_def str_option_def flag_def gen_nesting_option_def positive_option_def
        opt_name_def NAMES_def DEFAULT_CONFIG_def gen_defaults_def i64_range_def)
  have p: "parse_opts_of ?h = parse_opts_default\<lparr>allow_duplicate_key := True\<rparr>"
    by (simp add: parse_opts_of_def parse_opts_default_def flag_def nesting_option_def opt_name_def
        NAMES_def popts_default_def max_nesting_of_def)
  show ?thesis using reformat_decodes [OF wf] fin g p by simp
qed

text \<open>
  Reformatting reads parse and generate options from one hash with one reader: an option
  that both decoders read counts once, a key is accepted when either decoder accepts it, and
  the two halves of the result are what each decoder makes of the whole hash.
\<close>

theorem reformat_opts_spec:
  assumes "wf_hash h" and "h \<noteq> []"
  shows "reformat_opts_decode (OHash h) = Inr o1 \<longleftrightarrow>
      (\<exists>g hint. gen_opts_of h = Inr (g, hint) \<and> o1 = \<lparr>ro_parse = parse_opts_of h, ro_generate = Some g\<rparr>)
      \<and> (\<forall>kv \<in> set h. accepted (parse_read \<union> gen_read) (parse_tolerated \<union> gen_tolerated) kv)"
  using finish_at [OF assms(1), of "parse_read \<union> gen_read" "parse_tolerated \<union> gen_tolerated"]
    reformat_decodes [OF assms]
  by (auto simp: tryr_Inr_iff)

theorem reformat_opts_spec_witness:
  "reformat_opts_decode (OHash [(KSym ''max_nesting'', RInt 5), (KSym ''space'', RStr [b_space])])
     = Inr \<lparr>ro_parse = parse_opts_default\<lparr>max_nesting := 5\<rparr>,
            ro_generate = Some (DEFAULT_CONFIG\<lparr>space := [b_space], gc_max_nesting := 5, pretty := True\<rparr>)\<rparr>"
proof -
  let ?h = "[(KSym ''max_nesting'', RInt 5), (KSym ''space'', RStr [b_space])]"
  have wf: "wf_hash ?h" by (simp add: wf_hash_def)
  have acc: "\<forall>kv \<in> set ?h. accepted (parse_read \<union> gen_read) (parse_tolerated \<union> gen_tolerated) kv"
    by (simp add: accepted_def parse_read_def gen_read_def opt_name_def NAMES_def)
  have g: "gen_opts_of ?h = Inr (DEFAULT_CONFIG\<lparr>space := [b_space], gc_max_nesting := 5, pretty := True\<rparr>, 0)"
    by (simp add: gen_opts_of_def str_option_def flag_def gen_nesting_option_def positive_option_def
        opt_name_def NAMES_def DEFAULT_CONFIG_def gen_defaults_def i64_range_def)
  have p: "parse_opts_of ?h = parse_opts_default\<lparr>max_nesting := 5\<rparr>"
    by (simp add: parse_opts_of_def parse_opts_default_def flag_def nesting_option_def opt_name_def
        NAMES_def popts_default_def max_nesting_of_def)
  show ?thesis
    using reformat_opts_spec [OF wf, of "\<lparr>ro_parse = parse_opts_of ?h,
        ro_generate = Some (DEFAULT_CONFIG\<lparr>space := [b_space], gc_max_nesting := 5, pretty := True\<rparr>)\<rparr>"]
      acc g p by auto
qed

end
