(* ===== verification/Sink_Drive.thy ===== *)
theory Sink_Drive
  imports Option_Decoders
begin

text \<open>
  The interface between the nosj crate's parser and the sinks of this repository.  The crate
  (not part of the repository) turns a document into events and calls one \<open>nosj::Sink\<close> method
  per event, handing every container's \<open>mark()\<close> back at its end, and stops at the first error
  a method returns; it appears here as a parameter, the \<open>scanner\<close>, that gives the events
  delivered and the parse error that ends them, if any.  A sink is the record of its trait
  methods.  For a document the parser accepts, the events are those of a document tree
  (\<open>events\<close>).  The locale \<open>depth_sink\<close> states the nesting contract all sinks share.
\<close>

section \<open>Events and documents\<close>

datatype sink_abort =
    Overflow | BadBigint | TooDeep | DuplicateKey | LoneSurrogate | NonFiniteFloat string
  | Diverged \<comment> \<open>not in the source: a sink method that never returns\<close>

datatype event =
    EvNull | EvBool bool | EvInt int | EvFloat f64 | EvBigInt bytes
  | EvStr bytes | EvStrBytes bytes | EvKey bytes | EvKeyBytes bytes
  | EvBeginArray | EvBeginObject | EvEndArray nat | EvEndObject nat

text \<open>A key or string that decodes to a lone surrogate arrives as raw bytes.\<close>

datatype dkey = DKey bytes | DKeyBytes bytes

datatype doc =
    DNull | DBool bool | DInt int | DFloat f64 | DBigInt bytes | DStr bytes | DStrBytes bytes
  | DArray "doc list" | DObject "(dkey \<times> doc) list"

fun key_event :: "dkey \<Rightarrow> event" where
  "key_event (DKey b) = EvKey b"
| "key_event (DKeyBytes b) = EvKeyBytes b"

fun key_text :: "dkey \<Rightarrow> bytes" where
  "key_text (DKey b) = b"
| "key_text (DKeyBytes b) = b"

fun events :: "doc \<Rightarrow> event list"
  and events_elems :: "doc list \<Rightarrow> event list"
  and events_members :: "(dkey \<times> doc) list \<Rightarrow> event list" where
  "events DNull = [EvNull]"
| "events (DBool b) = [EvBool b]"
| "events (DInt i) = [EvInt i]"
| "events (DFloat f) = [EvFloat f]"
| "events (DBigInt s) = [EvBigInt s]"
| "events (DStr s) = [EvStr s]"
| "events (DStrBytes s) = [EvStrBytes s]"
| "events (DArray ds) = EvBeginArray # events_elems ds @ [EvEndArray (length ds)]"
| "events (DObject kvs) = EvBeginObject # events_members kvs @ [EvEndObject (length kvs)]"
| "events_elems [] = []"
| "events_elems (d # ds) = events d @ events_elems ds"
| "events_members [] = []"
| "events_members ((k, d) # kvs) = key_event k # events d @ events_members kvs"

section \<open>Sinks and the drive\<close>

record 's sink =
  sk_null :: "'s \<Rightarrow> sink_abort + 's"
  sk_boolean :: "bool \<Rightarrow> 's \<Rightarrow> sink_abort + 's"
  sk_int :: "int \<Rightarrow> 's \<Rightarrow> sink_abort + 's"
  sk_float :: "f64 \<Rightarrow> 's \<Rightarrow> sink_abort + 's"
  sk_big_int :: "bytes \<Rightarrow> 's \<Rightarrow> sink_abort + 's"
  sk_str :: "bytes \<Rightarrow> 's \<Rightarrow> sink_abort + 's"
  sk_str_bytes :: "bytes \<Rightarrow> 's \<Rightarrow> sink_abort + 's"
  sk_key :: "bytes \<Rightarrow> 's \<Rightarrow> sink_abort + 's"
  sk_key_bytes :: "bytes \<Rightarrow> 's \<Rightarrow> sink_abort + 's"
  sk_begin_array :: "'s \<Rightarrow> sink_abort + 's"
  sk_begin_object :: "'s \<Rightarrow> sink_abort + 's"
  sk_mark :: "'s \<Rightarrow> nat"
  sk_end_array :: "nat \<Rightarrow> nat \<Rightarrow> 's \<Rightarrow> sink_abort + 's"
  sk_end_object :: "nat \<Rightarrow> nat \<Rightarrow> 's \<Rightarrow> sink_abort + 's"

text \<open>Delivering one event: the second component holds the marks of the open containers.\<close>

fun feed :: "'s sink \<Rightarrow> event \<Rightarrow> 's \<times> nat list \<Rightarrow> sink_abort + 's \<times> nat list" where
  "feed k EvNull (s, ms) = map_ok (\<lambda>s. (s, ms)) (sk_null k s)"
| "feed k (EvBool b) (s, ms) = map_ok (\<lambda>s. (s, ms)) (sk_boolean k b s)"
| "feed k (EvInt i) (s, ms) = map_ok (\<lambda>s. (s, ms)) (sk_int k i s)"
| "feed k (EvFloat f) (s, ms) = map_ok (\<lambda>s. (s, ms)) (sk_float k f s)"
| "feed k (EvBigInt b) (s, ms) = map_ok (\<lambda>s. (s, ms)) (sk_big_int k b s)"
| "feed k (EvStr b) (s, ms) = map_ok (\<lambda>s. (s, ms)) (sk_str k b s)"
| "feed k (EvStrBytes b) (s, ms) = map_ok (\<lambda>s. (s, ms)) (sk_str_bytes k b s)"
| "feed k (EvKey b) (s, ms) = map_ok (\<lambda>s. (s, ms)) (sk_key k b s)"
| "feed k (EvKeyBytes b) (s, ms) = map_ok (\<lambda>s. (s, ms)) (sk_key_bytes k b s)"
| "feed k EvBeginArray (s, ms) = map_ok (\<lambda>s. (s, sk_mark k s # ms)) (sk_begin_array k s)"
| "feed k EvBeginObject (s, ms) = map_ok (\<lambda>s. (s, sk_mark k s # ms)) (sk_begin_object k s)"
| "feed k (EvEndArray n) (s, m # ms) = map_ok (\<lambda>s. (s, ms)) (sk_end_array k m n s)"
| "feed k (EvEndObject n) (s, m # ms) = map_ok (\<lambda>s. (s, ms)) (sk_end_object k m n s)"
| "feed k _ (s, []) = Inr (s, [])"

fun run :: "'s sink \<Rightarrow> event list \<Rightarrow> 's \<times> nat list \<Rightarrow> sink_abort + 's \<times> nat list" where
  "run k [] st = Inr st"
| "run k (e # es) st = tryr (feed k e st) (run k es)"

datatype error_kind = InvalidPointer | OtherKind string

record parse_error =
  pe_offset :: nat
  pe_kind :: error_kind

datatype drive_error = SinkErr sink_abort | ParseErr parse_error

type_synonym scanner = "bytes \<Rightarrow> popts \<Rightarrow> event list \<times> parse_error option"

text \<open>\<open>nosj::parse_utf8_unchecked_with(input, bufs, &mut sink, popts)\<close>.\<close>

definition drive :: "scanner \<Rightarrow> 's sink \<Rightarrow> bytes \<Rightarrow> popts \<Rightarrow> 's \<Rightarrow> drive_error + 's" where
  "drive scan k input po s =
     (case scan input po of (evs, ending) \<Rightarrow>
        tryr (map_err SinkErr (run k evs (s, []))) (\<lambda>(s, _).
          case ending of None \<Rightarrow> Inr s | Some e \<Rightarrow> Inl (ParseErr e)))"

text \<open>The parser read the whole of \<open>input\<close> as the document \<open>d\<close>.\<close>

definition scans_as :: "scanner \<Rightarrow> bytes \<Rightarrow> popts \<Rightarrow> doc \<Rightarrow> bool" where
  "scans_as scan input po d \<longleftrightarrow> scan input po = (events d, None)"

lemma run_append: "run k (xs @ ys) st = tryr (run k xs st) (run k ys)"
proof (induction xs arbitrary: st)
  case (Cons e xs)
  then have "run k (xs @ ys) = (\<lambda>st. tryr (run k xs st) (run k ys))" by blast
  then show ?case by (simp add: tryr_assoc)
qed simp

lemma drive_scans:
  "scans_as scan input po d \<Longrightarrow>
     drive scan k input po s = tryr (map_err SinkErr (run k (events d) (s, []))) (\<lambda>(s, _). Inr s)"
  by (simp add: drive_def scans_as_def)

lemma drive_failed:
  "scan input po = (evs, Some e) \<Longrightarrow> \<exists>err. drive scan k input po s = Inl err"
  by (cases "run k evs (s, [])") (auto simp: drive_def)

lemma key_event_inj: "key_event k = key_event k' \<longleftrightarrow> k = k'"
  by (cases k; cases k') auto

lemma events_start: "\<exists>e es. events d = e # es \<and> (\<forall>n. e \<noteq> EvEndArray n \<and> e \<noteq> EvEndObject n)"
  by (cases d) auto

lemma key_event_start: "key_event k \<noteq> EvEndObject n"
  by (cases k) auto

lemma events_prefix:
  "events d @ xs = events d' @ ys \<Longrightarrow> d = d' \<and> xs = ys"
  "events_elems ds @ EvEndArray n # xs = events_elems ds' @ EvEndArray n' # ys \<Longrightarrow> ds = ds' \<and> n = n' \<and> xs = ys"
  "events_members kvs @ EvEndObject n # xs = events_members kvs' @ EvEndObject n' # ys \<Longrightarrow>
     kvs = kvs' \<and> n = n' \<and> xs = ys"
proof (induction d and ds and kvs arbitrary: d' xs ys and ds' n n' xs ys and kvs' n n' xs ys
    rule: events_events_elems_events_members.induct)
  case (8 ds)
  from "8.prems" obtain es where d': "d' = DArray es" by (cases d') simp_all
  with "8.prems" "8.IH" [of "length ds" xs es "length es" ys] show ?case by simp
next
  case (9 kvs)
  from "9.prems" obtain es where d': "d' = DObject es" by (cases d') simp_all
  with "9.prems" "9.IH" [of "length kvs" xs es "length es" ys] show ?case by simp
next
  case 10
  then show ?case
  proof (cases ds')
    case (Cons d ds)
    with 10 events_start [of d] show ?thesis by auto
  qed simp
next
  case (11 d ds)
  show ?case
  proof (cases ds')
    case Nil
    with "11.prems" events_start [of d] show ?thesis by auto
  next
    case (Cons e es)
    with "11.prems" "11.IH"(1) [of "events_elems ds @ EvEndArray n # xs" e "events_elems es @ EvEndArray n' # ys"]
      "11.IH"(2) [of n xs es n' ys] show ?thesis by auto
  qed
next
  case 12
  then show ?case
  proof (cases kvs')
    case (Cons kv rest)
    with 12 show ?thesis by (cases kv) (auto simp: key_event_start dest: sym)
  qed simp
next
  case (13 k d kvs)
  show ?case
  proof (cases kvs')
    case Nil
    with "13.prems" show ?thesis by (simp add: key_event_start)
  next
    case (Cons kv rest)
    obtain k' e where kv: "kv = (k', e)" by (cases kv)
    with Cons "13.prems" "13.IH"(1) [of "events_members kvs @ EvEndObject n # xs" e "events_members rest @ EvEndObject n' # ys"]
      "13.IH"(2) [of n xs rest n' ys] show ?thesis by (auto simp: key_event_inj)
  qed
next
  case (1 d' xs ys) then show ?case by (cases d') simp_all
next
  case (2 b d' xs ys) then show ?case by (cases d') simp_all
next
  case (3 b d' xs ys) then show ?case by (cases d') simp_all
next
  case (4 b d' xs ys) then show ?case by (cases d') simp_all
next
  case (5 b d' xs ys) then show ?case by (cases d') simp_all
next
  case (6 b d' xs ys) then show ?case by (cases d') simp_all
next
  case (7 b d' xs ys) then show ?case by (cases d') simp_all
qed

text \<open>The events determine the document.\<close>

lemma scans_as_unique: "scans_as scan input po d \<Longrightarrow> scans_as scan input po d' \<Longrightarrow> d = d'"
  using events_prefix(1) [of d "[]" d' "[]"] by (simp add: scans_as_def)

section \<open>Nesting\<close>

fun nesting :: "doc \<Rightarrow> nat"
  and nesting_elems :: "doc list \<Rightarrow> nat"
  and nesting_members :: "(dkey \<times> doc) list \<Rightarrow> nat" where
  "nesting (DArray ds) = Suc (nesting_elems ds)"
| "nesting (DObject kvs) = Suc (nesting_members kvs)"
| "nesting _ = 0"
| "nesting_elems [] = 0"
| "nesting_elems (d # ds) = max (nesting d) (nesting_elems ds)"
| "nesting_members [] = 0"
| "nesting_members ((k, d) # kvs) = max (nesting d) (nesting_members kvs)"

text \<open>
  The contract: a container start is refused exactly when it would exceed the limit, and every
  other method leaves the depth of its successful result where the bracket structure says.
\<close>

locale depth_sink =
  fixes k :: "'s sink" and depth :: "'s \<Rightarrow> nat" and limit :: "'s \<Rightarrow> nat"
  assumes null_depth: "sk_null k s = Inr s' \<Longrightarrow> depth s' = depth s \<and> limit s' = limit s"
    and boolean_depth: "sk_boolean k b s = Inr s' \<Longrightarrow> depth s' = depth s \<and> limit s' = limit s"
    and int_depth: "sk_int k i s = Inr s' \<Longrightarrow> depth s' = depth s \<and> limit s' = limit s"
    and float_depth: "sk_float k f s = Inr s' \<Longrightarrow> depth s' = depth s \<and> limit s' = limit s"
    and big_int_depth: "sk_big_int k t s = Inr s' \<Longrightarrow> depth s' = depth s \<and> limit s' = limit s"
    and str_depth: "sk_str k t s = Inr s' \<Longrightarrow> depth s' = depth s \<and> limit s' = limit s"
    and str_bytes_depth: "sk_str_bytes k t s = Inr s' \<Longrightarrow> depth s' = depth s \<and> limit s' = limit s"
    and key_depth: "sk_key k t s = Inr s' \<Longrightarrow> depth s' = depth s \<and> limit s' = limit s"
    and key_bytes_depth: "sk_key_bytes k t s = Inr s' \<Longrightarrow> depth s' = depth s \<and> limit s' = limit s"
    and begin_array_depth: "sk_begin_array k s = Inr s' \<Longrightarrow>
          depth s' = Suc (depth s) \<and> limit s' = limit s \<and> depth s' \<le> limit s"
    and begin_object_depth: "sk_begin_object k s = Inr s' \<Longrightarrow>
          depth s' = Suc (depth s) \<and> limit s' = limit s \<and> depth s' \<le> limit s"
    and end_array_depth: "sk_end_array k m n s = Inr s' \<Longrightarrow> depth s' = depth s - 1 \<and> limit s' = limit s"
    and end_object_depth: "sk_end_object k m n s = Inr s' \<Longrightarrow> depth s' = depth s - 1 \<and> limit s' = limit s"
begin

lemma run_depth:
  "run k (events d) (s, ms) = Inr st \<Longrightarrow> depth s \<le> limit s \<Longrightarrow>
     \<exists>s'. st = (s', ms) \<and> depth s' = depth s \<and> limit s' = limit s \<and> depth s + nesting d \<le> limit s"
  "run k (events_elems ds) (s, ms) = Inr st \<Longrightarrow> depth s \<le> limit s \<Longrightarrow>
     \<exists>s'. st = (s', ms) \<and> depth s' = depth s \<and> limit s' = limit s \<and> depth s + nesting_elems ds \<le> limit s"
  "run k (events_members kvs) (s, ms) = Inr st \<Longrightarrow> depth s \<le> limit s \<Longrightarrow>
     \<exists>s'. st = (s', ms) \<and> depth s' = depth s \<and> limit s' = limit s \<and> depth s + nesting_members kvs \<le> limit s"
proof (induction d and ds and kvs arbitrary: s ms st and s ms st and s ms st
    rule: events_events_elems_events_members.induct)
  case (8 ds)
  from "8.prems" obtain s1 s2 s3 where
    b: "sk_begin_array k s = Inr s1" and r: "run k (events_elems ds) (s1, sk_mark k s1 # ms) = Inr s2"
    and e: "feed k (EvEndArray (length ds)) s2 = Inr s3" and st: "st = s3"
    by (auto simp: run_append map_ok_tryr tryr_Inr_iff)
  from begin_array_depth [OF b] "8.IH" [OF r] obtain t where
    "s2 = (t, sk_mark k s1 # ms)" "depth t = Suc (depth s)" "limit t = limit s"
    "Suc (depth s) + nesting_elems ds \<le> limit s"
    by auto
  with e st show ?case
    by (auto simp: map_ok_tryr tryr_Inr_iff dest!: end_array_depth)
next
  case (9 kvs)
  from "9.prems" obtain s1 s2 s3 where
    b: "sk_begin_object k s = Inr s1" and r: "run k (events_members kvs) (s1, sk_mark k s1 # ms) = Inr s2"
    and e: "feed k (EvEndObject (length kvs)) s2 = Inr s3" and st: "st = s3"
    by (auto simp: run_append map_ok_tryr tryr_Inr_iff)
  from begin_object_depth [OF b] "9.IH" [OF r] obtain t where
    "s2 = (t, sk_mark k s1 # ms)" "depth t = Suc (depth s)" "limit t = limit s"
    "Suc (depth s) + nesting_members kvs \<le> limit s"
    by auto
  with e st show ?case
    by (auto simp: map_ok_tryr tryr_Inr_iff dest!: end_object_depth)
next
  case (11 d ds)
  from "11.prems"(1) obtain s1 where r1: "run k (events d) (s, ms) = Inr s1"
    and r2: "run k (events_elems ds) s1 = Inr st"
    by (auto simp: run_append tryr_Inr_iff)
  from "11.IH"(1) [OF r1 "11.prems"(2)] obtain t where
    t: "s1 = (t, ms)" "depth t = depth s" "limit t = limit s" "depth s + nesting d \<le> limit s" by blast
  from "11.IH"(2) [of t ms st] r2 t "11.prems"(2) show ?case by auto
next
  case (13 key d kvs)
  from "13.prems"(1) obtain s0 s1 where r0: "feed k (key_event key) (s, ms) = Inr s0"
    and r1: "run k (events d) s0 = Inr s1" and r2: "run k (events_members kvs) s1 = Inr st"
    by (auto simp: run_append tryr_Inr_iff)
  from r0 obtain u where u: "s0 = (u, ms)" "depth u = depth s" "limit u = limit s"
    by (cases key) (auto simp: map_ok_tryr tryr_Inr_iff dest: key_depth key_bytes_depth)
  from "13.IH"(1) [of u ms s1] r1 u "13.prems"(2) obtain t where
    t: "s1 = (t, ms)" "depth t = depth s" "limit t = limit s" "depth s + nesting d \<le> limit s" by auto
  from "13.IH"(2) [of t ms st] r2 t "13.prems"(2) show ?case by auto
qed (auto simp: map_ok_tryr tryr_Inr_iff dest: null_depth boolean_depth int_depth float_depth
      big_int_depth str_depth str_bytes_depth)

text \<open>A document whose drive succeeds from the start is no deeper than the limit.\<close>

lemma drive_depth:
  assumes "scans_as scan input po d" and "depth s = 0" and "drive scan k input po s = Inr s'"
  shows "nesting d \<le> limit s \<and> depth s' = 0"
proof -
  from assms(1,3) obtain st where "run k (events d) (s, []) = Inr st" "s' = fst st"
    by (cases "run k (events d) (s, [])") (auto simp: drive_scans)
  with run_depth(1) [of d s "[]" st] assms(2) show ?thesis by auto
qed

end

end
