(* ===== verification/Dup_Keys.thy ===== *)
theory Dup_Keys
  imports Sink_Drive
begin

text \<open>
  The duplicate-key detector of src/ext/nosj/src/sink.rs: \<open>SeenTable\<close>, an open-addressing set
  whose slots carry a 32-bit epoch so that nothing is cleared between objects, and \<open>DupKeys\<close>,
  which keeps one 64-bit fingerprint per key of every open object and checks an object's own
  fingerprints when it closes: pairwise, through the table or by sorting, by size.  The hash is
  a parameter.  The theorems show that the three methods agree with \<open>distinct\<close>, for every
  state the pooled table can be in, the wrap of its epoch included; the locale
  \<open>dup_detector\<close> is what the sinks rely on.
\<close>

section \<open>SeenTable\<close>

abbreviation PAIRWISE_MAX :: nat where "PAIRWISE_MAX \<equiv> 8"
abbreviation TABLE_SLOTS :: nat where "TABLE_SLOTS \<equiv> 256"
abbreviation TABLE_MAX_KEYS :: nat where "TABLE_MAX_KEYS \<equiv> 128"
abbreviation MASK :: nat where "MASK \<equiv> 255"

type_synonym slots = "(u64 \<times> u32) list"

record seen_table =
  st_slots :: slots
  st_epoch :: u32

definition seen_table_default :: seen_table where
  "seen_table_default = \<lparr>st_slots = replicate TABLE_SLOTS (0, 0), st_epoch = 0\<rparr>"

text \<open>
  The inner loop of \<open>any_repeat\<close> for one fingerprint: True and the slots unchanged when it is
  found, False and the slots with the claimed one.  After \<open>TABLE_SLOTS\<close> steps the loop is back
  at its first slot and would never end; then the result is None.
\<close>

fun probe :: "nat \<Rightarrow> u32 \<Rightarrow> u64 \<Rightarrow> nat \<Rightarrow> slots \<Rightarrow> (bool \<times> slots) option" where
  "probe 0 epoch fp at slots = None"
| "probe (Suc fuel) epoch fp at slots =
     (if snd (slots ! at) \<noteq> epoch then Some (False, slots[at := (fp, epoch)])
      else if fst (slots ! at) = fp then Some (True, slots)
      else probe fuel epoch fp (and (at + 1) MASK) slots)"

fun claim_all :: "u32 \<Rightarrow> u64 list \<Rightarrow> slots \<Rightarrow> (bool \<times> slots) option" where
  "claim_all epoch [] slots = Some (False, slots)"
| "claim_all epoch (fp # keys) slots =
     (case probe TABLE_SLOTS epoch fp (and (unat fp) MASK) slots of
        None \<Rightarrow> None
      | Some (True, slots') \<Rightarrow> Some (True, slots')
      | Some (False, slots') \<Rightarrow> claim_all epoch keys slots')"

definition next_epoch :: "seen_table \<Rightarrow> seen_table" where
  "next_epoch t =
     (let e = st_epoch t + 1
      in if e = 0 then \<lparr>st_slots = replicate (length (st_slots t)) (0, 0), st_epoch = 1\<rparr>
         else t\<lparr>st_epoch := e\<rparr>)"

definition any_repeat :: "u64 list \<Rightarrow> seen_table \<Rightarrow> (bool \<times> seen_table) option" where
  "any_repeat keys t =
     (let t = next_epoch t
      in map_option (\<lambda>(b, slots). (b, t\<lparr>st_slots := slots\<rparr>)) (claim_all (st_epoch t) keys (st_slots t)))"

section \<open>DupKeys\<close>

record dup_keys =
  dk_fingerprints :: "u64 list"
  dk_table :: seen_table
  dk_enabled :: bool

text \<open>\<open>DupKeys::new\<close> on the pooled scratch, whose table is kept.\<close>

definition dup_new :: "seen_table \<Rightarrow> bool \<Rightarrow> dup_keys" where
  "dup_new table enabled = \<lparr>dk_fingerprints = [], dk_table = table, dk_enabled = enabled\<rparr>"

definition dup_mark :: "dup_keys \<Rightarrow> nat" where
  "dup_mark d = length (dk_fingerprints d)"

definition dup_key :: "(bytes \<Rightarrow> u64) \<Rightarrow> bytes \<Rightarrow> dup_keys \<Rightarrow> dup_keys" where
  "dup_key fingerprint key d =
     (if dk_enabled d then d\<lparr>dk_fingerprints := dk_fingerprints d @ [fingerprint key]\<rparr> else d)"

text \<open>The three checks, by the number of keys.\<close>

definition pairwise_repeat :: "u64 list \<Rightarrow> bool" where
  "pairwise_repeat keys = list_ex (\<lambda>i. keys ! i \<in> set (take i keys)) [1..<length keys]"

definition repeated :: "u64 list \<Rightarrow> seen_table \<Rightarrow> (bool \<times> seen_table) option" where
  "repeated keys t =
     (if length keys \<le> PAIRWISE_MAX then Some (pairwise_repeat keys, t)
      else if length keys \<le> TABLE_MAX_KEYS then any_repeat keys t
      else Some (any_window (=) (sort keys), t))"

text \<open>The state after \<open>close\<close> and whether the object repeats a fingerprint.\<close>

definition dup_close_full :: "nat \<Rightarrow> dup_keys \<Rightarrow> (bool \<times> dup_keys) option" where
  "dup_close_full mark d =
     (if \<not> dk_enabled d then Some (False, d)
      else map_option
        (\<lambda>(b, t). (b, d\<lparr>dk_fingerprints := take mark (dk_fingerprints d), dk_table := t\<rparr>))
        (repeated (drop mark (dk_fingerprints d)) (dk_table d)))"

definition dup_close :: "nat \<Rightarrow> dup_keys \<Rightarrow> sink_abort + dup_keys" where
  "dup_close mark d =
     (case dup_close_full mark d of
        None \<Rightarrow> Inl Diverged
      | Some (True, _) \<Rightarrow> Inl DuplicateKey
      | Some (False, d') \<Rightarrow> Inr d')"

section \<open>Probing\<close>

lemma and_mask [simp]: "and n MASK = n mod TABLE_SLOTS"
  using take_bit_eq_mask [of 8 n] by (simp add: take_bit_eq_mod mask_eq_exp_minus_1)

definition busy :: "u32 \<Rightarrow> u64 \<Rightarrow> slots \<Rightarrow> nat \<Rightarrow> bool" where
  "busy e fp sl i \<longleftrightarrow> snd (sl ! (i mod TABLE_SLOTS)) = e \<and> fst (sl ! (i mod TABLE_SLOTS)) \<noteq> fp"

lemma probe_reaches:
  assumes "j < fuel" and "\<forall>i<j. busy e fp sl (at + i)" and "at < TABLE_SLOTS"
  shows "probe fuel e fp at sl = probe (fuel - j) e fp ((at + j) mod TABLE_SLOTS) sl"
  using assms
proof (induction j arbitrary: fuel at)
  case 0
  then show ?case by simp
next
  case (Suc j)
  from Suc.prems obtain f where f: "fuel = Suc f" by (cases fuel) auto
  from Suc.prems(2) have "busy e fp sl at" by force
  then have "probe fuel e fp at sl = probe f e fp ((at + 1) mod TABLE_SLOTS) sl"
    using f Suc.prems(3) by (simp add: busy_def)
  also have "\<dots> = probe (f - j) e fp (((at + 1) mod TABLE_SLOTS + j) mod TABLE_SLOTS) sl"
  proof (rule Suc.IH)
    show "j < f" using Suc.prems f by simp
    show "\<forall>i<j. busy e fp sl ((at + 1) mod TABLE_SLOTS + i)"
    proof (intro allI impI)
      fix i assume "i < j"
      then have "busy e fp sl (at + Suc i)" using Suc.prems(2) by blast
      moreover have "((at + 1) mod TABLE_SLOTS + i) mod TABLE_SLOTS = (at + Suc i) mod TABLE_SLOTS"
        by (simp add: mod_add_left_eq)
      ultimately show "busy e fp sl ((at + 1) mod TABLE_SLOTS + i)" by (simp add: busy_def)
    qed
  qed simp
  also have "((at + 1) mod TABLE_SLOTS + j) mod TABLE_SLOTS = (at + Suc j) mod TABLE_SLOTS"
    by (simp add: mod_add_left_eq)
  finally show ?case using f by simp
qed

lemma probe_free:
  assumes "j < fuel" "\<forall>i<j. busy e fp sl (at + i)" "at < TABLE_SLOTS"
    and "snd (sl ! ((at + j) mod TABLE_SLOTS)) \<noteq> e"
  shows "probe fuel e fp at sl = Some (False, sl[(at + j) mod TABLE_SLOTS := (fp, e)])"
proof -
  obtain f where "fuel - j = Suc f" using assms(1) by (cases "fuel - j") auto
  with probe_reaches [OF assms(1-3)] assms(4) show ?thesis by simp
qed

lemma probe_hit:
  assumes "j < fuel" "\<forall>i<j. busy e fp sl (at + i)" "at < TABLE_SLOTS"
    and "sl ! ((at + j) mod TABLE_SLOTS) = (fp, e)"
  shows "probe fuel e fp at sl = Some (True, sl)"
proof -
  obtain f where "fuel - j = Suc f" using assms(1) by (cases "fuel - j") auto
  with probe_reaches [OF assms(1-3)] assms(4) show ?thesis by simp
qed

text \<open>
  The slots of the current epoch hold exactly the set \<open>S\<close>, each member on its own probe path
  with no gap before it, and they are no more than the members.
\<close>

abbreviation home :: "u64 \<Rightarrow> nat" where
  "home v \<equiv> unat v mod TABLE_SLOTS"

definition taken :: "u32 \<Rightarrow> slots \<Rightarrow> nat set" where
  "taken e sl = {i. i < TABLE_SLOTS \<and> snd (sl ! i) = e}"

definition holds :: "u32 \<Rightarrow> slots \<Rightarrow> u64 set \<Rightarrow> bool" where
  "holds e sl S \<longleftrightarrow>
     length sl = TABLE_SLOTS \<and> finite S \<and> card (taken e sl) \<le> card S \<and>
     (\<forall>i \<in> taken e sl. fst (sl ! i) \<in> S) \<and>
     (\<forall>v \<in> S. \<exists>j<TABLE_SLOTS. sl ! ((home v + j) mod TABLE_SLOTS) = (v, e) \<and>
        (\<forall>i<j. busy e v sl (home v + i)))"

lemma finite_taken [simp]: "finite (taken e sl)"
  by (simp add: taken_def)

lemma offset_to: "i < TABLE_SLOTS \<Longrightarrow> a < TABLE_SLOTS \<Longrightarrow> \<exists>j<TABLE_SLOTS. (a + j) mod TABLE_SLOTS = i"
  by (rule exI [of _ "(i + TABLE_SLOTS - a) mod TABLE_SLOTS"]) (auto simp: mod_add_right_eq)

lemma free_slot:
  assumes "holds e sl S" and "card S < TABLE_SLOTS"
  shows "\<exists>j<TABLE_SLOTS. snd (sl ! ((a mod TABLE_SLOTS + j) mod TABLE_SLOTS)) \<noteq> e"
proof -
  have "card (taken e sl) < card {..<TABLE_SLOTS}"
    using assms by (simp add: holds_def)
  then have "taken e sl \<noteq> {..<TABLE_SLOTS}" by (metis less_irrefl)
  then obtain i where i: "i < TABLE_SLOTS" "snd (sl ! i) \<noteq> e"
    by (auto simp: taken_def)
  from offset_to [OF i(1), of "a mod TABLE_SLOTS"] obtain j
    where "j < TABLE_SLOTS" "(a mod TABLE_SLOTS + j) mod TABLE_SLOTS = i" by auto
  with i show ?thesis by blast
qed

lemma probe_member:
  assumes "holds e sl S" and "fp \<in> S"
  shows "probe TABLE_SLOTS e fp (home fp) sl = Some (True, sl)"
proof -
  from assms obtain j where "j < TABLE_SLOTS" "sl ! ((home fp + j) mod TABLE_SLOTS) = (fp, e)"
      "\<forall>i<j. busy e fp sl (home fp + i)"
    by (auto simp: holds_def)
  then show ?thesis by (intro probe_hit) auto
qed

lemma probe_new:
  assumes "holds e sl S" and "fp \<notin> S" and "card S < TABLE_SLOTS"
  shows "\<exists>sl'. probe TABLE_SLOTS e fp (home fp) sl = Some (False, sl') \<and> holds e sl' (insert fp S)"
proof -
  let ?free = "\<lambda>j. snd (sl ! ((home fp + j) mod TABLE_SLOTS)) \<noteq> e"
  from free_slot [OF assms(1,3)] obtain j0 where j0: "j0 < TABLE_SLOTS" "?free j0" by blast
  define j where "j = (LEAST j. ?free j)"
  have jf: "?free j" "j \<le> j0"
    unfolding j_def using j0(2) by (rule LeastI, rule Least_le)
  have before: "\<not> ?free i" if "i < j" for i
    using that unfolding j_def by (rule not_less_Least)
  let ?p = "(home fp + j) mod TABLE_SLOTS"
  let ?sl = "sl[?p := (fp, e)]"
  have len: "length sl = TABLE_SLOTS" using assms(1) by (simp add: holds_def)
  have busy: "\<forall>i<j. busy e fp sl (home fp + i)"
  proof (intro allI impI)
    fix i assume i: "i < j"
    then have "(home fp + i) mod TABLE_SLOTS \<in> taken e sl"
      using before [OF i] by (simp add: taken_def)
    then have "snd (sl ! ((home fp + i) mod TABLE_SLOTS)) = e" "fst (sl ! ((home fp + i) mod TABLE_SLOTS)) \<in> S"
      using assms(1) by (simp add: taken_def, simp add: holds_def)
    then show "busy e fp sl (home fp + i)"
      using assms(2) by (auto simp: busy_def)
  qed
  have pr: "probe TABLE_SLOTS e fp (home fp) sl = Some (False, ?sl)"
    using busy jf j0 by (intro probe_free) auto
  have old: "?sl ! i = sl ! i" if "snd (sl ! i) = e" for i
    using that jf by (cases "i = ?p") auto
  have taken': "taken e ?sl = insert ?p (taken e sl)"
    using len old by (auto simp: taken_def nth_list_update)
  have keep: "busy e v sl i \<Longrightarrow> busy e v ?sl i" for v i
    using old [of "i mod TABLE_SLOTS"] by (simp add: busy_def)
  have "holds e ?sl (insert fp S)"
    unfolding holds_def
  proof (intro conjI)
    show "card (taken e ?sl) \<le> card (insert fp S)"
    proof -
      have "card (taken e ?sl) \<le> Suc (card (taken e sl))"
        unfolding taken' by (simp add: card_insert_if)
      with assms(1,2) show ?thesis by (simp add: holds_def)
    qed
    show "\<forall>i \<in> taken e ?sl. fst (?sl ! i) \<in> insert fp S"
      using assms(1) len by (auto simp: taken' holds_def nth_list_update)
    show "\<forall>v \<in> insert fp S. \<exists>j<TABLE_SLOTS. ?sl ! ((home v + j) mod TABLE_SLOTS) = (v, e) \<and>
        (\<forall>i<j. busy e v ?sl (home v + i))"
    proof
      fix v assume "v \<in> insert fp S"
      then consider "v = fp" | "v \<in> S" by blast
      then show "\<exists>j<TABLE_SLOTS. ?sl ! ((home v + j) mod TABLE_SLOTS) = (v, e) \<and>
        (\<forall>i<j. busy e v ?sl (home v + i))"
      proof cases
        case 1
        with busy keep jf j0 len show ?thesis by (intro exI [of _ j]) auto
      next
        case 2
        with assms(1) obtain m where "m < TABLE_SLOTS" "sl ! ((home v + m) mod TABLE_SLOTS) = (v, e)"
            "\<forall>i<m. busy e v sl (home v + i)" by (auto simp: holds_def)
        with keep old show ?thesis by (intro exI [of _ m]) auto
      qed
    qed
  qed (use assms len in \<open>auto simp: holds_def\<close>)
  with pr show ?thesis by blast
qed

section \<open>The table's answer\<close>

text \<open>What survives from one use to the next: no slot is ahead of the table's epoch.\<close>

definition table_ok :: "seen_table \<Rightarrow> bool" where
  "table_ok t \<longleftrightarrow> length (st_slots t) = TABLE_SLOTS \<and> (\<forall>x \<in> set (st_slots t). snd x \<le> st_epoch t)"

lemma table_ok_default: "table_ok seen_table_default"
  by (simp add: table_ok_def seen_table_default_def)

lemma next_epoch_fresh:
  assumes "table_ok t"
  shows "table_ok (next_epoch t) \<and> holds (st_epoch (next_epoch t)) (st_slots (next_epoch t)) {}"
proof -
  have fresh: "\<forall>x \<in> set (st_slots (next_epoch t)). snd x < st_epoch (next_epoch t)"
  proof (cases "st_epoch t + 1 = 0")
    case True
    then show ?thesis by (simp add: next_epoch_def)
  next
    case False
    then have "st_epoch t < st_epoch t + 1"
      using inc_less_eq_triv_imp [of "st_epoch t"] by (auto simp: not_le [symmetric])
    with assms False show ?thesis by (auto simp: next_epoch_def table_ok_def)
  qed
  have len: "length (st_slots (next_epoch t)) = TABLE_SLOTS"
    using assms by (simp add: next_epoch_def Let_def table_ok_def)
  have "taken (st_epoch (next_epoch t)) (st_slots (next_epoch t)) = {}"
    using fresh len by (auto simp: taken_def) (metis less_irrefl nth_mem)
  with fresh len show ?thesis by (auto simp: table_ok_def holds_def)
qed

lemma probe_epochs:
  "probe fuel e fp at sl = Some (b, sl') \<Longrightarrow> \<forall>x \<in> set sl. snd x \<le> e \<Longrightarrow>
     length sl' = length sl \<and> (\<forall>x \<in> set sl'. snd x \<le> e)"
  by (induction fuel e fp at sl rule: probe.induct)
    (auto split: if_splits dest!: subsetD [OF set_update_subset_insert])

lemma claim_all_epochs:
  "claim_all e keys sl = Some (b, sl') \<Longrightarrow> \<forall>x \<in> set sl. snd x \<le> e \<Longrightarrow>
     length sl' = length sl \<and> (\<forall>x \<in> set sl'. snd x \<le> e)"
proof (induction keys arbitrary: sl)
  case (Cons fp keys)
  then obtain c sl1 where p: "probe TABLE_SLOTS e fp (and (unat fp) MASK) sl = Some (c, sl1)"
    by (auto split: option.splits)
  with probe_epochs [OF p] Cons show ?case by (cases c) auto
qed simp

lemma claim_all_correct:
  assumes "holds e sl S" and "card S + length keys \<le> TABLE_SLOTS"
  shows "\<exists>sl'. claim_all e keys sl = Some (\<not> (distinct keys \<and> set keys \<inter> S = {}), sl')"
  using assms
proof (induction keys arbitrary: sl S)
  case (Cons fp keys)
  show ?case
  proof (cases "fp \<in> S")
    case True
    with probe_member [OF Cons.prems(1)] show ?thesis by simp
  next
    case False
    from probe_new [OF Cons.prems(1) False] Cons.prems(2) obtain sl1 where
      p: "probe TABLE_SLOTS e fp (home fp) sl = Some (False, sl1)" and h: "holds e sl1 (insert fp S)"
      by auto
    have "card (insert fp S) + length keys \<le> TABLE_SLOTS"
      using Cons.prems False by (simp add: holds_def)
    from Cons.IH [OF h this] p False show ?thesis by auto
  qed
qed simp

lemma any_repeat_correct:
  assumes "table_ok t" and "length keys \<le> TABLE_SLOTS"
  shows "\<exists>t'. any_repeat keys t = Some (\<not> distinct keys, t') \<and> table_ok t'"
proof -
  let ?t = "next_epoch t"
  have ok: "table_ok ?t" and h: "holds (st_epoch ?t) (st_slots ?t) {}"
    using next_epoch_fresh [OF assms(1)] by auto
  from claim_all_correct [OF h] assms(2) obtain sl where
    c: "claim_all (st_epoch ?t) keys (st_slots ?t) = Some (\<not> distinct keys, sl)" by auto
  have "table_ok (?t\<lparr>st_slots := sl\<rparr>)"
    using claim_all_epochs [OF c] ok by (simp add: table_ok_def)
  with c show ?thesis by (simp add: any_repeat_def Let_def)
qed

section \<open>DupKeys is a duplicate detector\<close>

lemma pairwise_repeat_iff: "pairwise_repeat keys \<longleftrightarrow> \<not> distinct keys"
proof
  assume "pairwise_repeat keys"
  then obtain i where i: "i < length keys" "keys ! i \<in> set (take i keys)"
    by (auto simp: pairwise_repeat_def list_ex_iff)
  then obtain j where "j < i" "keys ! j = keys ! i"
    by (auto simp: in_set_conv_nth)
  with i show "\<not> distinct keys"
    by (metis distinct_conv_nth less_trans less_irrefl)
next
  assume "\<not> distinct keys"
  then obtain i j where ij: "i < length keys" "j < i" "keys ! i = keys ! j"
    by (metis distinct_conv_nth linorder_neqE_nat)
  then have "keys ! i \<in> set (take i keys)"
    by (metis in_set_conv_nth length_take min.absorb4 nth_take)
  with ij show "pairwise_repeat keys"
    by (auto simp: pairwise_repeat_def list_ex_iff intro!: bexI [of _ i])
qed

lemma repeated_correct:
  assumes "table_ok t"
  shows "\<exists>t'. repeated keys t = Some (\<not> distinct keys, t') \<and> table_ok t'"
proof -
  consider "length keys \<le> PAIRWISE_MAX"
    | "PAIRWISE_MAX < length keys" "length keys \<le> TABLE_MAX_KEYS" | "TABLE_MAX_KEYS < length keys"
    by linarith
  then show ?thesis
  proof cases
    case 1
    with assms show ?thesis by (simp add: repeated_def pairwise_repeat_iff)
  next
    case 2
    with any_repeat_correct [OF assms, of keys] show ?thesis by (auto simp: repeated_def)
  next
    case 3
    with assms any_window_sorted_eq [of "sort keys"] show ?thesis by (simp add: repeated_def)
  qed
qed

definition dup_inv :: "dup_keys \<Rightarrow> bool" where
  "dup_inv d \<longleftrightarrow> table_ok (dk_table d) \<and> (\<not> dk_enabled d \<longrightarrow> dk_fingerprints d = [])"

lemma dup_close_full_correct:
  assumes "dup_inv d" and "dk_enabled d"
  shows "\<exists>t'. dup_close_full mark d =
      Some (\<not> distinct (drop mark (dk_fingerprints d)),
            d\<lparr>dk_fingerprints := take mark (dk_fingerprints d), dk_table := t'\<rparr>) \<and> table_ok t'"
proof -
  from repeated_correct [of "dk_table d" "drop mark (dk_fingerprints d)"] assms(1) obtain t' where
    "repeated (drop mark (dk_fingerprints d)) (dk_table d) = Some (\<not> distinct (drop mark (dk_fingerprints d)), t')"
    "table_ok t'" by (auto simp: dup_inv_def)
  with assms(2) show ?thesis by (auto simp: dup_close_full_def)
qed

text \<open>
  C15.  Closing an object answers exactly whether its keys repeat a fingerprint, whichever of the
  three methods the number of keys selects and whatever earlier documents left in the pooled
  table (its epoch wrapped to zero included): the loop always ends, and the table it leaves is
  again usable, after a hit as well.
\<close>

theorem dup_close_exact:
  assumes "table_ok (dk_table d)" and "dk_enabled d"
  shows "\<exists>d'. dup_close_full mark d = Some (\<not> distinct (drop mark (dk_fingerprints d)), d')
      \<and> dk_fingerprints d' = take mark (dk_fingerprints d) \<and> table_ok (dk_table d')"
proof -
  have "dup_inv d" using assms by (simp add: dup_inv_def)
  from dup_close_full_correct [OF this assms(2), of mark] show ?thesis by force
qed

theorem dup_close_exact_witness:
  "\<exists>d'. dup_close_full 1 \<lparr>dk_fingerprints = [7, 5, 9, 5], dk_table = seen_table_default, dk_enabled = True\<rparr>
     = Some (True, d') \<and> dk_fingerprints d' = [7] \<and> table_ok (dk_table d')"
proof -
  let ?d = "\<lparr>dk_fingerprints = [7, 5, 9, 5], dk_table = seen_table_default, dk_enabled = True\<rparr>"
  have "table_ok (dk_table ?d)" "dk_enabled ?d"
    by (simp_all add: table_ok_default)
  from dup_close_exact [OF this, of 1] show ?thesis by simp
qed

text \<open>
  The interface of the detector for its clients: \<open>fps\<close> are the fingerprints of the open
  objects, \<open>active\<close> whether duplicates are looked for at all.
\<close>

locale dup_detector =
  fixes fingerprint :: "bytes \<Rightarrow> u64" and mark :: "'d \<Rightarrow> nat" and push :: "bytes \<Rightarrow> 'd \<Rightarrow> 'd"
    and close :: "nat \<Rightarrow> 'd \<Rightarrow> sink_abort + 'd" and fps :: "'d \<Rightarrow> u64 list"
    and active :: "'d \<Rightarrow> bool" and inv :: "'d \<Rightarrow> bool"
  assumes mark_fps: "mark d = length (fps d)"
    and push_inv: "inv d \<Longrightarrow> inv (push key d) \<and> active (push key d) = active d"
    and push_fps: "inv d \<Longrightarrow> fps (push key d) = fps d @ (if active d then [fingerprint key] else [])"
    and close_ok: "inv d \<Longrightarrow> m \<le> length (fps d) \<Longrightarrow> distinct (drop m (fps d)) \<Longrightarrow>
          \<exists>d'. close m d = Inr d' \<and> inv d' \<and> active d' = active d \<and> fps d' = take m (fps d)"
    and close_repeat: "inv d \<Longrightarrow> m \<le> length (fps d) \<Longrightarrow> \<not> distinct (drop m (fps d)) \<Longrightarrow>
          close m d = Inl DuplicateKey"

interpretation dk: dup_detector fingerprint dup_mark "dup_key fingerprint" dup_close
  dk_fingerprints dk_enabled dup_inv for fingerprint
proof unfold_locales
  fix m d
  assume d: "dup_inv d" "m \<le> length (dk_fingerprints d)"
  show "\<exists>d'. dup_close m d = Inr d' \<and> dup_inv d' \<and> dk_enabled d' = dk_enabled d
      \<and> dk_fingerprints d' = take m (dk_fingerprints d)" if "distinct (drop m (dk_fingerprints d))"
  proof (cases "dk_enabled d")
    case True
    from dup_close_full_correct [OF d(1) True, of m] that True show ?thesis
      by (auto simp: dup_close_def dup_inv_def)
  next
    case False
    with d show ?thesis by (auto simp: dup_close_def dup_close_full_def dup_inv_def)
  qed
  show "dup_close m d = Inl DuplicateKey" if "\<not> distinct (drop m (dk_fingerprints d))"
  proof -
    have "dk_enabled d" using that d by (auto simp: dup_inv_def)
    from dup_close_full_correct [OF d(1) this, of m] that show ?thesis
      by (auto simp: dup_close_def)
  qed
qed (auto simp: dup_mark_def dup_key_def dup_inv_def)

lemma dup_new_inv: "table_ok table \<Longrightarrow> dup_inv (dup_new table on)"
  by (simp add: dup_inv_def dup_new_def)

end
