(* ===== verification/Hashless_Sinks.thy ===== *)
theory Hashless_Sinks
  imports Dup_Keys
begin

text \<open>
  Sinks that build no Hash: the \<open>NullSink\<close> behind \<open>NOSJ.valid?\<close> (src/ext/nosj/src/sink.rs)
  and, in its own theory, the reformat pipe.  The locale \<open>hashless_sink\<close> is their shared
  contract on top of the duplicate detector; inside it the documents such a sink accepts are
  determined exactly.
\<close>

section \<open>Document predicates\<close>

fun doc_all :: "(doc \<Rightarrow> bool) \<Rightarrow> doc \<Rightarrow> bool"
  and doc_all_elems :: "(doc \<Rightarrow> bool) \<Rightarrow> doc list \<Rightarrow> bool"
  and doc_all_members :: "(doc \<Rightarrow> bool) \<Rightarrow> (dkey \<times> doc) list \<Rightarrow> bool" where
  "doc_all P (DArray ds) = (P (DArray ds) \<and> doc_all_elems P ds)"
| "doc_all P (DObject kvs) = (P (DObject kvs) \<and> doc_all_members P kvs)"
| "doc_all P d = P d"
| "doc_all_elems P [] = True"
| "doc_all_elems P (d # ds) = (doc_all P d \<and> doc_all_elems P ds)"
| "doc_all_members P [] = True"
| "doc_all_members P ((k, d) # kvs) = (doc_all P d \<and> doc_all_members P kvs)"

lemma doc_all_mono:
  "doc_all P d \<Longrightarrow> (\<And>n. P n \<Longrightarrow> Q n) \<Longrightarrow> doc_all Q d"
  "doc_all_elems P ds \<Longrightarrow> (\<And>n. P n \<Longrightarrow> Q n) \<Longrightarrow> doc_all_elems Q ds"
  "doc_all_members P kvs \<Longrightarrow> (\<And>n. P n \<Longrightarrow> Q n) \<Longrightarrow> doc_all_members Q kvs"
  by (induction d and ds and kvs rule: events_events_elems_events_members.induct) auto

fun text_key :: "dkey \<Rightarrow> bool" where
  "text_key (DKey b) = True"
| "text_key (DKeyBytes b) = False"

definition texts :: "(dkey \<times> doc) list \<Rightarrow> bytes list" where
  "texts kvs = map (\<lambda>kv. key_text (fst kv)) kvs"

lemma texts_simps [simp]: "texts [] = []" "texts ((k, d) # kvs) = key_text k # texts kvs"
  by (simp_all add: texts_def)

lemma length_texts [simp]: "length (texts kvs) = length kvs"
  by (simp add: texts_def)

text \<open>
  A node a sink can take: floats by \<open>fl\<close>, no lone surrogates, and per object the list of its
  keys by \<open>ks\<close>.
\<close>

fun node_ok :: "(f64 \<Rightarrow> bool) \<Rightarrow> (bytes list \<Rightarrow> bool) \<Rightarrow> doc \<Rightarrow> bool" where
  "node_ok fl ks (DFloat f) = fl f"
| "node_ok fl ks (DStrBytes b) = False"
| "node_ok fl ks (DObject kvs) = ((\<forall>kv \<in> set kvs. text_key (fst kv)) \<and> ks (texts kvs))"
| "node_ok fl ks _ = True"

fun plain_event :: "event \<Rightarrow> bool" where
  "plain_event EvNull = True"
| "plain_event (EvBool _) = True"
| "plain_event (EvInt _) = True"
| "plain_event (EvBigInt _) = True"
| "plain_event (EvStr _) = True"
| "plain_event _ = False"

section \<open>The contract\<close>

locale hashless_sink = dup_detector fingerprint mark push close fps active inv
  for fingerprint :: "bytes \<Rightarrow> u64" and mark :: "'d \<Rightarrow> nat" and push :: "bytes \<Rightarrow> 'd \<Rightarrow> 'd"
    and close :: "nat \<Rightarrow> 'd \<Rightarrow> sink_abort + 'd" and fps :: "'d \<Rightarrow> u64 list"
    and active :: "'d \<Rightarrow> bool" and inv :: "'d \<Rightarrow> bool" +
  fixes k :: "'s sink" and det :: "'s \<Rightarrow> 'd" and depth :: "'s \<Rightarrow> nat" and limit :: "'s \<Rightarrow> nat"
    and float_ok :: "'s \<Rightarrow> f64 \<Rightarrow> bool"
  assumes plain_fed: "plain_event e \<Longrightarrow> \<exists>s'. feed k e (s, ms) = Inr (s', ms) \<and>
          det s' = det s \<and> depth s' = depth s \<and> limit s' = limit s \<and> float_ok s' = float_ok s"
    and float_fed: "float_ok s f \<Longrightarrow> \<exists>s'. sk_float k f s = Inr s' \<and>
          det s' = det s \<and> depth s' = depth s \<and> limit s' = limit s \<and> float_ok s' = float_ok s"
    and float_refused: "\<not> float_ok s f \<Longrightarrow> \<exists>a. sk_float k f s = Inl a"
    and surrogate_string: "sk_str_bytes k b s = Inl LoneSurrogate"
    and surrogate_key: "sk_key_bytes k b s = Inl LoneSurrogate"
    and key_fed: "\<exists>s'. sk_key k b s = Inr s' \<and>
          det s' = push b (det s) \<and> depth s' = depth s \<and> limit s' = limit s \<and> float_ok s' = float_ok s"
    and begin_array_fits: "depth s < limit s \<Longrightarrow> \<exists>s'. sk_begin_array k s = Inr s' \<and>
          det s' = det s \<and> depth s' = Suc (depth s) \<and> limit s' = limit s \<and> float_ok s' = float_ok s"
    and begin_array_deep: "\<not> depth s < limit s \<Longrightarrow> sk_begin_array k s = Inl TooDeep"
    and begin_object_fits: "depth s < limit s \<Longrightarrow> \<exists>s'. sk_begin_object k s = Inr s' \<and>
          det s' = det s \<and> depth s' = Suc (depth s) \<and> limit s' = limit s \<and> float_ok s' = float_ok s"
    and begin_object_deep: "\<not> depth s < limit s \<Longrightarrow> sk_begin_object k s = Inl TooDeep"
    and mark_is: "sk_mark k s = mark (det s)"
    and end_array_fed: "\<exists>s'. sk_end_array k m n s = Inr s' \<and>
          det s' = det s \<and> depth s' = depth s - 1 \<and> limit s' = limit s \<and> float_ok s' = float_ok s"
    and end_object_fed: "close m (det s) = Inr d' \<Longrightarrow> \<exists>s'. sk_end_object k m n s = Inr s' \<and>
          det s' = d' \<and> depth s' = depth s - 1 \<and> limit s' = limit s \<and> float_ok s' = float_ok s"
    and end_object_refused: "close m (det s) = Inl a \<Longrightarrow> sk_end_object k m n s = Inl a"
begin

definition keeps :: "'s \<Rightarrow> 's \<Rightarrow> u64 list \<Rightarrow> bool" where
  "keeps s s' extra \<longleftrightarrow> inv (det s') \<and> active (det s') = active (det s) \<and>
     fps (det s') = fps (det s) @ extra \<and> depth s' = depth s \<and> limit s' = limit s \<and> float_ok s' = float_ok s"

definition takes :: "'s \<Rightarrow> doc \<Rightarrow> bool" where
  "takes s = node_ok (float_ok s) (\<lambda>ks. active (det s) \<longrightarrow> distinct (map fingerprint ks))"

definition key_prints :: "'s \<Rightarrow> (dkey \<times> doc) list \<Rightarrow> u64 list" where
  "key_prints s kvs = (if active (det s) then map fingerprint (texts kvs) else [])"

lemma keeps_takes: "keeps s s' extra \<Longrightarrow> takes s' = takes s"
  by (simp add: keeps_def takes_def)

lemma end_object_iff:
  assumes "inv (det s)" and "m \<le> length (fps (det s))"
  shows "is_ok (sk_end_object k m n s) \<longleftrightarrow> distinct (drop m (fps (det s)))"
proof (cases "distinct (drop m (fps (det s)))")
  case True
  with close_ok [OF assms] obtain d' where "close m (det s) = Inr d'" by blast
  from end_object_fed [OF this, of n] True show ?thesis by auto
next
  case False
  with close_repeat [OF assms] end_object_refused show ?thesis by simp
qed

lemma end_object_state:
  assumes "inv (det s)" and "m \<le> length (fps (det s))" and "sk_end_object k m n s = Inr s'"
  shows "inv (det s') \<and> active (det s') = active (det s) \<and> fps (det s') = take m (fps (det s))
     \<and> depth s' = depth s - 1 \<and> limit s' = limit s \<and> float_ok s' = float_ok s"
proof -
  have "distinct (drop m (fps (det s)))"
    using end_object_iff [OF assms(1,2)] assms(3) by (metis is_ok.simps(2))
  from close_ok [OF assms(1,2) this] obtain d' where
    d: "close m (det s) = Inr d'" "inv d'" "active d' = active (det s)" "fps d' = take m (fps (det s))"
    by blast
  from end_object_fed [OF d(1)] obtain s'' where s'': "sk_end_object k m n s = Inr s''"
    "det s'' = d'" "depth s'' = depth s - 1" "limit s'' = limit s" "float_ok s'' = float_ok s" by blast
  with assms(3) d show ?thesis by auto
qed

lemma key_step:
  assumes "inv (det s)" and "feed k (key_event key) (s, ms) = Inr st"
  shows "\<exists>s'. st = (s', ms) \<and> text_key key \<and>
     keeps s s' (if active (det s) then [fingerprint (key_text key)] else [])"
proof (cases key)
  case (DKey b)
  from key_fed [of b s] obtain s' where "sk_key k b s = Inr s'" "det s' = push b (det s)"
    "depth s' = depth s" "limit s' = limit s" "float_ok s' = float_ok s" by blast
  with assms DKey show ?thesis
    by (auto simp: keeps_def push_inv push_fps)
next
  case (DKeyBytes b)
  with assms(2) show ?thesis by (simp add: surrogate_key)
qed

lemma plain_step:
  "plain_event e \<Longrightarrow> inv (det s) \<Longrightarrow> run k [e] (s, ms) = Inr st \<Longrightarrow> \<exists>s'. st = (s', ms) \<and> keeps s s' []"
  using plain_fed [of e s ms] by (auto simp: keeps_def)

text \<open>What a successful run says of the document and of the state.\<close>

lemma run_sound:
  "run k (events d) (s, ms) = Inr st \<Longrightarrow> inv (det s) \<Longrightarrow> depth s \<le> limit s \<Longrightarrow>
     (\<exists>s'. st = (s', ms) \<and> keeps s s' []) \<and> doc_all (takes s) d \<and> depth s + nesting d \<le> limit s"
  "run k (events_elems ds) (s, ms) = Inr st \<Longrightarrow> inv (det s) \<Longrightarrow> depth s \<le> limit s \<Longrightarrow>
     (\<exists>s'. st = (s', ms) \<and> keeps s s' []) \<and> doc_all_elems (takes s) ds
     \<and> depth s + nesting_elems ds \<le> limit s"
  "run k (events_members kvs) (s, ms) = Inr st \<Longrightarrow> inv (det s) \<Longrightarrow> depth s \<le> limit s \<Longrightarrow>
     (\<exists>s'. st = (s', ms) \<and> keeps s s' (key_prints s kvs)) \<and> doc_all_members (takes s) kvs
     \<and> (\<forall>kv \<in> set kvs. text_key (fst kv)) \<and> depth s + nesting_members kvs \<le> limit s"
proof (induction d and ds and kvs arbitrary: s ms st and s ms st and s ms st
    rule: events_events_elems_events_members.induct)
  case (8 ds)
  from "8.prems"(1) obtain s1 s2 where b: "sk_begin_array k s = Inr s1"
    and r: "run k (events_elems ds) (s1, sk_mark k s1 # ms) = Inr s2"
    and e: "feed k (EvEndArray (length ds)) s2 = Inr st"
    by (auto simp: run_append map_ok_tryr tryr_Inr_iff)
  have fits: "depth s < limit s" using begin_array_deep [of s] b by (cases "depth s < limit s") auto
  with begin_array_fits [OF fits] b have s1: "det s1 = det s" "depth s1 = Suc (depth s)"
    "limit s1 = limit s" "float_ok s1 = float_ok s" by auto
  from "8.IH" [OF r] s1 "8.prems" fits obtain t where t: "s2 = (t, sk_mark k s1 # ms)" "keeps s1 t []"
    and d: "doc_all_elems (takes s1) ds" "depth s1 + nesting_elems ds \<le> limit s1" by auto
  from e t(1) end_array_fed [of "sk_mark k s1" "length ds" t] obtain s' where s': "st = (s', ms)"
    "det s' = det t" "depth s' = depth t - 1" "limit s' = limit t" "float_ok s' = float_ok t" by auto
  with s1 t(2) d show ?case by (auto simp: keeps_def takes_def)
next
  case (9 kvs)
  from "9.prems"(1) obtain s1 s2 where b: "sk_begin_object k s = Inr s1"
    and r: "run k (events_members kvs) (s1, sk_mark k s1 # ms) = Inr s2"
    and e: "feed k (EvEndObject (length kvs)) s2 = Inr st"
    by (auto simp: run_append map_ok_tryr tryr_Inr_iff)
  have fits: "depth s < limit s" using begin_object_deep [of s] b by (cases "depth s < limit s") auto
  with begin_object_fits [OF fits] b have s1: "det s1 = det s" "depth s1 = Suc (depth s)"
    "limit s1 = limit s" "float_ok s1 = float_ok s" by auto
  have m: "sk_mark k s1 = length (fps (det s))" by (simp add: mark_is mark_fps s1)
  from "9.IH" [OF r] s1 "9.prems" fits obtain t where
    t: "s2 = (t, sk_mark k s1 # ms)" "keeps s1 t (key_prints s1 kvs)"
    and d: "doc_all_members (takes s1) kvs" "\<forall>kv \<in> set kvs. text_key (fst kv)"
      "depth s1 + nesting_members kvs \<le> limit s1" by auto
  from e t(1) obtain s' where st: "st = (s', ms)" and c: "sk_end_object k (sk_mark k s1) (length kvs) t = Inr s'"
    by (auto simp: map_ok_tryr tryr_Inr_iff)
  have pre: "inv (det t)" "sk_mark k s1 \<le> length (fps (det t))"
    using t(2) m s1 by (auto simp: keeps_def)
  have "distinct (key_prints s1 kvs)"
    using end_object_iff [OF pre, of "length kvs"] c t(2) m s1 by (simp add: keeps_def)
  with end_object_state [OF pre c] st s1 t(2) d m show ?case
    by (auto simp: keeps_def takes_def key_prints_def)
next
  case (11 d ds)
  from "11.prems"(1) obtain s1 where r1: "run k (events d) (s, ms) = Inr s1"
    and r2: "run k (events_elems ds) s1 = Inr st"
    by (auto simp: run_append tryr_Inr_iff)
  from "11.IH"(1) [OF r1 "11.prems"(2,3)] obtain t where
    t: "s1 = (t, ms)" "keeps s t []" "doc_all (takes s) d" "depth s + nesting d \<le> limit s" by blast
  from "11.IH"(2) [of t ms st] r2 t "11.prems"(2,3) show ?case
    by (auto simp: keeps_def takes_def)
next
  case (13 key d kvs)
  from "13.prems"(1) obtain s0 s1 where r0: "feed k (key_event key) (s, ms) = Inr s0"
    and r1: "run k (events d) s0 = Inr s1" and r2: "run k (events_members kvs) s1 = Inr st"
    by (auto simp: run_append tryr_Inr_iff)
  from key_step [OF "13.prems"(2) r0] obtain u where u: "s0 = (u, ms)" "text_key key"
    "keeps s u (if active (det s) then [fingerprint (key_text key)] else [])" by blast
  from "13.IH"(1) [of u ms s1] r1 u "13.prems"(2,3) obtain t where
    t: "s1 = (t, ms)" "keeps u t []" "doc_all (takes u) d" "depth u + nesting d \<le> limit u"
    by (auto simp: keeps_def)
  from "13.IH"(2) [of t ms st] r2 t u "13.prems"(2,3) show ?case
    by (auto simp: keeps_def takes_def key_prints_def)
next
  case (4 f)
  then show ?case
    using float_fed [of s f] float_refused [of s f]
    by (cases "float_ok s f") (auto simp: keeps_def takes_def map_ok_tryr tryr_Inr_iff)
next
  case 12
  then show ?case by (auto simp: keeps_def key_prints_def)
next
  case 1
  then show ?case using plain_step [of EvNull s ms st] by (simp add: takes_def)
next
  case (2 b)
  then show ?case using plain_step [of "EvBool b" s ms st] by (simp add: takes_def)
next
  case (3 i)
  then show ?case using plain_step [of "EvInt i" s ms st] by (simp add: takes_def)
next
  case (5 b)
  then show ?case using plain_step [of "EvBigInt b" s ms st] by (simp add: takes_def)
next
  case (6 b)
  then show ?case using plain_step [of "EvStr b" s ms st] by (simp add: takes_def)
next
  case (7 b)
  then show ?case by (simp add: surrogate_string)
next
  case 10
  then show ?case by (auto simp: keeps_def)
qed

text \<open>Such a document is always taken.\<close>

lemma plain_runs: "plain_event e \<Longrightarrow> is_ok (run k [e] (s, ms))"
  using plain_fed [of e s ms] by auto

lemma run_complete:
  "doc_all (takes s) d \<Longrightarrow> depth s + nesting d \<le> limit s \<Longrightarrow> inv (det s) \<Longrightarrow>
     is_ok (run k (events d) (s, ms))"
  "doc_all_elems (takes s) ds \<Longrightarrow> depth s + nesting_elems ds \<le> limit s \<Longrightarrow> inv (det s) \<Longrightarrow>
     is_ok (run k (events_elems ds) (s, ms))"
  "doc_all_members (takes s) kvs \<Longrightarrow> depth s + nesting_members kvs \<le> limit s \<Longrightarrow> inv (det s) \<Longrightarrow>
     \<forall>kv \<in> set kvs. text_key (fst kv) \<Longrightarrow> is_ok (run k (events_members kvs) (s, ms))"
proof (induction d and ds and kvs arbitrary: s ms and s ms and s ms
    rule: events_events_elems_events_members.induct)
  case (4 f)
  then show ?case using float_fed [of s f] by (auto simp: takes_def)
next
  case (7 b)
  then show ?case by (simp add: takes_def)
next
  case (8 ds)
  then have fits: "depth s < limit s" by simp
  from begin_array_fits [OF this] obtain s1 where b: "sk_begin_array k s = Inr s1" "det s1 = det s"
    "depth s1 = Suc (depth s)" "limit s1 = limit s" "float_ok s1 = float_ok s" by blast
  have "is_ok (run k (events_elems ds) (s1, sk_mark k s1 # ms))"
    by (rule "8.IH") (use "8.prems" b in \<open>auto simp: takes_def\<close>)
  then obtain s2 where r: "run k (events_elems ds) (s1, sk_mark k s1 # ms) = Inr s2"
    by (auto simp: is_ok_iff)
  from run_sound(2) [OF r] "8.prems" b fits obtain t where "s2 = (t, sk_mark k s1 # ms)" by auto
  with b r end_array_fed [of "sk_mark k s1" "length ds" t] show ?case
    by (auto simp: run_append)
next
  case (9 kvs)
  then have fits: "depth s < limit s" by simp
  from begin_object_fits [OF this] obtain s1 where b: "sk_begin_object k s = Inr s1" "det s1 = det s"
    "depth s1 = Suc (depth s)" "limit s1 = limit s" "float_ok s1 = float_ok s" by blast
  have "is_ok (run k (events_members kvs) (s1, sk_mark k s1 # ms))"
    by (rule "9.IH") (use "9.prems" b in \<open>auto simp: takes_def\<close>)
  then obtain s2 where r: "run k (events_members kvs) (s1, sk_mark k s1 # ms) = Inr s2"
    by (auto simp: is_ok_iff)
  from run_sound(3) [OF r] "9.prems" b fits obtain t where
    t: "s2 = (t, sk_mark k s1 # ms)" "keeps s1 t (key_prints s1 kvs)" by auto
  have m: "sk_mark k s1 = length (fps (det s))" by (simp add: mark_is mark_fps b)
  have "is_ok (sk_end_object k (sk_mark k s1) (length kvs) t)"
    using t m b "9.prems"(1)
    by (subst end_object_iff) (auto simp: keeps_def key_prints_def takes_def)
  with b r t show ?case by (auto simp: run_append is_ok_iff)
next
  case (11 d ds)
  then have "is_ok (run k (events d) (s, ms))" by simp
  then obtain s1 where r: "run k (events d) (s, ms) = Inr s1" by (auto simp: is_ok_iff)
  from run_sound(1) [OF r] "11.prems" obtain t where t: "s1 = (t, ms)" "keeps s t []" by auto
  have "is_ok (run k (events_elems ds) (t, ms))"
    by (rule "11.IH"(2)) (use "11.prems" t in \<open>auto simp: keeps_def takes_def\<close>)
  with r t show ?case by (simp add: run_append)
next
  case (13 key d kvs)
  then obtain b where key: "key = DKey b" by (cases key) auto
  from key_fed [of b s] obtain s0 where u: "sk_key k b s = Inr s0" "det s0 = push b (det s)"
    "depth s0 = depth s" "limit s0 = limit s" "float_ok s0 = float_ok s" by blast
  have u2: "inv (det s0)" "takes s0 = takes s"
    using push_inv [OF "13.prems"(3), of b] u by (auto simp: takes_def)
  have "is_ok (run k (events d) (s0, ms))"
    by (rule "13.IH"(1)) (use "13.prems" u u2 in auto)
  then obtain s1 where r: "run k (events d) (s0, ms) = Inr s1" by (auto simp: is_ok_iff)
  from run_sound(1) [OF r] "13.prems" u u2 obtain t where t: "s1 = (t, ms)" "keeps s0 t []" by auto
  have "takes t = takes s" using t(2) u2(2) by (simp add: keeps_def takes_def)
  then have "is_ok (run k (events_members kvs) (t, ms))"
    by (intro "13.IH"(2)) (use "13.prems" t u u2 in \<open>auto simp: keeps_def\<close>)
  with r t u key show ?case by (simp add: run_append)
qed (simp_all add: plain_runs del: run.simps(2))

text \<open>
  A document that only its keys can disqualify is refused, if at all, as a duplicate key.
\<close>

lemma plain_never: "plain_event e \<Longrightarrow> run k [e] (s, ms) \<noteq> Inl a"
  using plain_runs [of e s ms] by (metis is_ok.simps(1))

lemma run_refusal:
  "run k (events d) (s, ms) = Inl a \<Longrightarrow> doc_all (node_ok (float_ok s) (\<lambda>_. True)) d \<Longrightarrow>
     depth s + nesting d \<le> limit s \<Longrightarrow> inv (det s) \<Longrightarrow> a = DuplicateKey"
  "run k (events_elems ds) (s, ms) = Inl a \<Longrightarrow> doc_all_elems (node_ok (float_ok s) (\<lambda>_. True)) ds \<Longrightarrow>
     depth s + nesting_elems ds \<le> limit s \<Longrightarrow> inv (det s) \<Longrightarrow> a = DuplicateKey"
  "run k (events_members kvs) (s, ms) = Inl a \<Longrightarrow> doc_all_members (node_ok (float_ok s) (\<lambda>_. True)) kvs \<Longrightarrow>
     depth s + nesting_members kvs \<le> limit s \<Longrightarrow> inv (det s) \<Longrightarrow> \<forall>kv \<in> set kvs. text_key (fst kv) \<Longrightarrow>
     a = DuplicateKey"
proof (induction d and ds and kvs arbitrary: s ms and s ms and s ms
    rule: events_events_elems_events_members.induct)
  case (4 f)
  then show ?case using float_fed [of s f] by (auto simp: map_ok_tryr tryr_Inl_iff)
next
  case (8 ds)
  then have fits: "depth s < limit s" by simp
  from begin_array_fits [OF this] obtain s1 where b: "sk_begin_array k s = Inr s1" "det s1 = det s"
    "depth s1 = Suc (depth s)" "limit s1 = limit s" "float_ok s1 = float_ok s" by blast
  have "feed k (EvEndArray n) (t, m # ms) \<noteq> Inl a" for n t m
    using end_array_fed [of m n t] by auto
  then show ?case
    using "8.prems" b run_sound(2) [of ds s1 "sk_mark k s1 # ms"] fits
    by (auto simp: run_append tryr_Inl_iff simp del: feed.simps(12) intro!: "8.IH" [of s1 "sk_mark k s1 # ms"])
next
  case (9 kvs)
  then have fits: "depth s < limit s" by simp
  from begin_object_fits [OF this] obtain s1 where b: "sk_begin_object k s = Inr s1" "det s1 = det s"
    "depth s1 = Suc (depth s)" "limit s1 = limit s" "float_ok s1 = float_ok s" by blast
  from "9.prems"(1) b consider
      "run k (events_members kvs) (s1, sk_mark k s1 # ms) = Inl a"
    | s2 where "run k (events_members kvs) (s1, sk_mark k s1 # ms) = Inr s2"
        "feed k (EvEndObject (length kvs)) s2 = Inl a"
    by (auto simp: run_append tryr_Inl_iff)
  then show ?case
  proof cases
    case 1
    then show ?thesis using "9.prems" b by (intro "9.IH" [OF 1]) auto
  next
    case 2
    from run_sound(3) [OF 2(1)] "9.prems" b fits obtain t where
      t: "s2 = (t, sk_mark k s1 # ms)" "keeps s1 t (key_prints s1 kvs)" by auto
    have pre: "inv (det t)" "sk_mark k s1 \<le> length (fps (det t))"
      using t(2) by (auto simp: keeps_def mark_is mark_fps)
    have r: "sk_end_object k (sk_mark k s1) (length kvs) t = Inl a" using 2(2) t(1)
      by (auto simp: map_ok_tryr tryr_Inl_iff)
    then have "\<not> distinct (drop (sk_mark k s1) (fps (det t)))"
      using end_object_iff [OF pre, of "length kvs"] by simp
    with close_repeat [OF pre] end_object_refused r show ?thesis by fastforce
  qed
next
  case (11 d ds)
  from "11.prems"(1) consider "run k (events d) (s, ms) = Inl a"
    | s1 where "run k (events d) (s, ms) = Inr s1" "run k (events_elems ds) s1 = Inl a"
    by (auto simp: run_append tryr_Inl_iff)
  then show ?case
  proof cases
    case 1
    then show ?thesis using "11.prems" by (intro "11.IH"(1) [OF 1]) auto
  next
    case 2
    from run_sound(1) [OF 2(1)] "11.prems" obtain t where t: "s1 = (t, ms)" "keeps s t []" by auto
    with 2(2) "11.prems" show ?thesis by (intro "11.IH"(2) [of t ms]) (auto simp: keeps_def)
  qed
next
  case (13 key d kvs)
  then obtain b where key: "key = DKey b" by (cases key) auto
  from key_fed [of b s] obtain s0 where u: "sk_key k b s = Inr s0" "det s0 = push b (det s)"
    "depth s0 = depth s" "limit s0 = limit s" "float_ok s0 = float_ok s" by blast
  have i0: "inv (det s0)" using push_inv [OF "13.prems"(4), of b] u by simp
  from "13.prems"(1) key u consider "run k (events d) (s0, ms) = Inl a"
    | s1 where "run k (events d) (s0, ms) = Inr s1" "run k (events_members kvs) s1 = Inl a"
    by (auto simp: run_append tryr_Inl_iff)
  then show ?case
  proof cases
    case 1
    then show ?thesis using "13.prems" u i0 by (intro "13.IH"(1) [OF 1]) auto
  next
    case 2
    from run_sound(1) [OF 2(1) i0] "13.prems" u obtain t where t: "s1 = (t, ms)" "keeps s0 t []" by auto
    with 2(2) "13.prems" u show ?thesis by (intro "13.IH"(2) [of t ms]) (auto simp: keeps_def)
  qed
next
  case (7 b)
  then show ?case by simp
qed (simp_all add: plain_never del: run.simps(2))

text \<open>Acceptance, from the start of a drive.\<close>

lemma drive_accepts:
  assumes "scans_as scan input po d" and "inv (det s)" and "depth s = 0"
  shows "is_ok (drive scan k input po s) \<longleftrightarrow> doc_all (takes s) d \<and> nesting d \<le> limit s"
proof -
  have "is_ok (drive scan k input po s) = is_ok (run k (events d) (s, []))"
    using assms(1) by (cases "run k (events d) (s, [])") (auto simp: drive_scans)
  also have "\<dots> \<longleftrightarrow> doc_all (takes s) d \<and> nesting d \<le> limit s"
    using run_complete(1) [of s d "[]"] run_sound(1) [of d s "[]"] assms(2,3)
    by (auto simp: is_ok_iff)
  finally show ?thesis .
qed

lemma drive_refusal:
  assumes "scans_as scan input po d" and "inv (det s)" and "depth s = 0"
    and "doc_all (node_ok (float_ok s) (\<lambda>_. True)) d" and "nesting d \<le> limit s"
    and "drive scan k input po s = Inl err"
  shows "err = SinkErr DuplicateKey"
  using assms run_refusal(1) [of d s "[]"]
  by (cases "run k (events d) (s, [])") (auto simp: drive_scans)

end

section \<open>NullSink\<close>

record null_sink =
  ns_depth :: nat
  ns_max_nesting :: nat
  ns_dup_keys :: dup_keys

definition null_enter :: "null_sink \<Rightarrow> sink_abort + null_sink" where
  "null_enter s =
     (let s = s\<lparr>ns_depth := ns_depth s + 1\<rparr>
      in if ns_max_nesting s < ns_depth s then Inl TooDeep else Inr s)"

definition NullSink :: "(bytes \<Rightarrow> u64) \<Rightarrow> null_sink sink" where
  "NullSink fingerprint =
     \<lparr>sk_null = Inr, sk_boolean = (\<lambda>_. Inr), sk_int = (\<lambda>_. Inr), sk_float = (\<lambda>_. Inr),
      sk_big_int = (\<lambda>_. Inr), sk_str = (\<lambda>_. Inr),
      sk_str_bytes = (\<lambda>_ _. Inl LoneSurrogate),
      sk_key = (\<lambda>key s. Inr (s\<lparr>ns_dup_keys := dup_key fingerprint key (ns_dup_keys s)\<rparr>)),
      sk_key_bytes = (\<lambda>_ _. Inl LoneSurrogate),
      sk_begin_array = null_enter,
      sk_begin_object = null_enter,
      sk_mark = (\<lambda>s. dup_mark (ns_dup_keys s)),
      sk_end_array = (\<lambda>_ _ s. Inr (s\<lparr>ns_depth := ns_depth s - 1\<rparr>)),
      sk_end_object = (\<lambda>m _ s.
        let s = s\<lparr>ns_depth := ns_depth s - 1\<rparr>
        in map_ok (\<lambda>d. s\<lparr>ns_dup_keys := d\<rparr>) (dup_close m (ns_dup_keys s)))\<rparr>"

definition null_sink_new :: "nat \<Rightarrow> seen_table \<Rightarrow> bool \<Rightarrow> null_sink" where
  "null_sink_new limit table check_dups =
     \<lparr>ns_depth = 0, ns_max_nesting = limit, ns_dup_keys = dup_new table check_dups\<rparr>"

interpretation null: hashless_sink fingerprint dup_mark "dup_key fingerprint" dup_close
  dk_fingerprints dk_enabled dup_inv "NullSink fingerprint" ns_dup_keys ns_depth ns_max_nesting
  "\<lambda>_ _. True" for fingerprint
proof unfold_locales
  show "\<exists>s'. feed (NullSink fingerprint) e (s, ms) = Inr (s', ms) \<and> ns_dup_keys s' = ns_dup_keys s \<and>
      ns_depth s' = ns_depth s \<and> ns_max_nesting s' = ns_max_nesting s \<and> (\<lambda>_. True) = (\<lambda>_. True)"
    if "plain_event e" for fingerprint e s ms
    using that by (cases e) (auto simp: NullSink_def)
qed (auto simp: NullSink_def null_enter_def Let_def)

interpretation null_depth: depth_sink "NullSink fingerprint" ns_depth ns_max_nesting for fingerprint
  by unfold_locales (auto simp: NullSink_def null_enter_def Let_def map_ok_tryr tryr_Inr_iff split: if_splits)

end
