(* ===== verification/Pull_Reader.thy ===== *)
theory Pull_Reader
  imports Hashless_Sinks
begin

text \<open>
  The crate's pull \<open>Reader\<close>, the cursor behind the cold-path walks (locate.rs), the container
  walks of patch.rs and the lazy listings.  It is not part of the repository: the record
  \<open>reader\<close> is a parameter of the model, one field per method the code calls, and
  \<open>at_value R p r r'\<close> states its documented behaviour on a well-formed value: from the
  cursor \<open>r\<close> it walks the value \<open>p\<close>, keys and members in order, and stands at \<open>r'\<close> after
  it, by stepping through it as well as by skipping it.
\<close>

section \<open>The interface\<close>

datatype node = ObjectStart | ArrayStart | ScalarNode

text \<open>A slice of the document is its offset and its length.\<close>

record 'r reader =
  rd_open :: "bytes \<Rightarrow> popts \<Rightarrow> 'r"
  rd_next_node :: "'r \<Rightarrow> parse_error + node \<times> 'r"
  rd_object_first_key :: "'r \<Rightarrow> parse_error + bytes option \<times> 'r"
  rd_object_next_key :: "'r \<Rightarrow> parse_error + bytes option \<times> 'r"
  rd_array_first :: "'r \<Rightarrow> parse_error + bool \<times> 'r"
  rd_array_next :: "'r \<Rightarrow> parse_error + bool \<times> 'r"
  rd_skip_value :: "'r \<Rightarrow> parse_error + (nat \<times> nat) \<times> 'r"

text \<open>A value with the slices of the document it and its parts occupy.\<close>

datatype pdoc =
    PLeaf "nat \<times> nat" doc
  | PArray "nat \<times> nat" "pdoc list"
  | PObject "nat \<times> nat" "(bytes \<times> pdoc) list"

fun slice_at :: "pdoc \<Rightarrow> nat \<times> nat" where
  "slice_at (PLeaf sl d) = sl"
| "slice_at (PArray sl ps) = sl"
| "slice_at (PObject sl kvs) = sl"

fun strip :: "pdoc \<Rightarrow> doc"
  and strip_elems :: "pdoc list \<Rightarrow> doc list"
  and strip_members :: "(bytes \<times> pdoc) list \<Rightarrow> (dkey \<times> doc) list" where
  "strip (PLeaf sl d) = d"
| "strip (PArray sl ps) = DArray (strip_elems ps)"
| "strip (PObject sl kvs) = DObject (strip_members kvs)"
| "strip_elems [] = []"
| "strip_elems (p # ps) = strip p # strip_elems ps"
| "strip_members [] = []"
| "strip_members ((k, p) # kvs) = (DKey k, strip p) # strip_members kvs"

fun leaf_doc :: "doc \<Rightarrow> bool" where
  "leaf_doc (DArray ds) = False"
| "leaf_doc (DObject kvs) = False"
| "leaf_doc d = True"

fun first_key :: "(bytes \<times> pdoc) list \<Rightarrow> bytes option" where
  "first_key [] = None"
| "first_key ((k, p) # kvs) = Some k"

fun at_value :: "'r reader \<Rightarrow> pdoc \<Rightarrow> 'r \<Rightarrow> 'r \<Rightarrow> bool"
  and at_elems :: "'r reader \<Rightarrow> pdoc list \<Rightarrow> 'r \<Rightarrow> 'r \<Rightarrow> bool"
  and at_members :: "'r reader \<Rightarrow> (bytes \<times> pdoc) list \<Rightarrow> 'r \<Rightarrow> 'r \<Rightarrow> bool" where
  "at_value R (PLeaf sl d) r r' \<longleftrightarrow>
     leaf_doc d \<and> rd_skip_value R r = Inr (sl, r') \<and> rd_next_node R r = Inr (ScalarNode, r')"
| "at_value R (PArray sl ps) r r' \<longleftrightarrow>
     rd_skip_value R r = Inr (sl, r') \<and>
     (\<exists>r1 r2. rd_next_node R r = Inr (ArrayStart, r1) \<and>
        rd_array_first R r1 = Inr (ps \<noteq> [], r2) \<and> at_elems R ps r2 r')"
| "at_value R (PObject sl kvs) r r' \<longleftrightarrow>
     rd_skip_value R r = Inr (sl, r') \<and>
     (\<exists>r1 r2. rd_next_node R r = Inr (ObjectStart, r1) \<and>
        rd_object_first_key R r1 = Inr (first_key kvs, r2) \<and> at_members R kvs r2 r')"
| "at_elems R [] r r' \<longleftrightarrow> r = r'"
| "at_elems R (p # ps) r r' \<longleftrightarrow>
     (\<exists>r1 r2. at_value R p r r1 \<and> rd_array_next R r1 = Inr (ps \<noteq> [], r2) \<and> at_elems R ps r2 r')"
| "at_members R [] r r' \<longleftrightarrow> r = r'"
| "at_members R ((k, p) # kvs) r r' \<longleftrightarrow>
     (\<exists>r1 r2. at_value R p r r1 \<and> rd_object_next_key R r1 = Inr (first_key kvs, r2) \<and>
        at_members R kvs r2 r')"

text \<open>The Reader, opened on \<open>input\<close>, walks it as the value \<open>p\<close>.\<close>

definition reads :: "'r reader \<Rightarrow> bytes \<Rightarrow> popts \<Rightarrow> pdoc \<Rightarrow> bool" where
  "reads R input po p \<longleftrightarrow> (\<exists>r'. at_value R p (rd_open R input po) r')"

lemma at_value_skips: "at_value R p r r' \<Longrightarrow> rd_skip_value R r = Inr (slice_at p, r')"
  by (cases p) auto

lemma length_strip_elems [simp]: "length (strip_elems ps) = length ps"
  by (induction ps) auto

lemma texts_strip [simp]: "texts (strip_members kvs) = map fst kvs"
  by (induction kvs) (auto simp: texts_def)

text \<open>Only childless documents are leaves.\<close>

fun wf_pdoc :: "pdoc \<Rightarrow> bool"
  and wf_elems :: "pdoc list \<Rightarrow> bool"
  and wf_members :: "(bytes \<times> pdoc) list \<Rightarrow> bool" where
  "wf_pdoc (PLeaf sl d) = leaf_doc d"
| "wf_pdoc (PArray sl ps) = wf_elems ps"
| "wf_pdoc (PObject sl kvs) = wf_members kvs"
| "wf_elems [] = True"
| "wf_elems (p # ps) = (wf_pdoc p \<and> wf_elems ps)"
| "wf_members [] = True"
| "wf_members ((k, p) # kvs) = (wf_pdoc p \<and> wf_members kvs)"

lemma at_value_wf:
  "at_value R p r r' \<Longrightarrow> wf_pdoc p"
  "at_elems R ps r r' \<Longrightarrow> wf_elems ps"
  "at_members R kvs r r' \<Longrightarrow> wf_members kvs"
  by (induction p and ps and kvs arbitrary: r r' and r r' and r r'
      rule: strip_strip_elems_strip_members.induct) auto

section \<open>Sub-values\<close>

text \<open>The sub-value at a path of member and element indices.\<close>

fun pdoc_at :: "nat list \<Rightarrow> pdoc \<Rightarrow> pdoc option" where
  "pdoc_at [] p = Some p"
| "pdoc_at (i # path) (PArray sl ps) = (if i < length ps then pdoc_at path (ps ! i) else None)"
| "pdoc_at (i # path) (PObject sl kvs) = (if i < length kvs then pdoc_at path (snd (kvs ! i)) else None)"
| "pdoc_at (i # path) (PLeaf sl d) = None"

text \<open>The objects of a value in the order they close, each with its offset and its keys.\<close>

fun closings :: "pdoc \<Rightarrow> (nat \<times> bytes list) list"
  and closings_elems :: "pdoc list \<Rightarrow> (nat \<times> bytes list) list"
  and closings_members :: "(bytes \<times> pdoc) list \<Rightarrow> (nat \<times> bytes list) list" where
  "closings (PLeaf sl d) = []"
| "closings (PArray sl ps) = closings_elems ps"
| "closings (PObject sl kvs) = closings_members kvs @ [(fst sl, map fst kvs)]"
| "closings_elems [] = []"
| "closings_elems (p # ps) = closings p @ closings_elems ps"
| "closings_members [] = []"
| "closings_members ((k, p) # kvs) = closings p @ closings_members kvs"


text \<open>
  A predicate on the key lists of a document's objects, and the same on the closings.
\<close>

fun keys_all :: "(bytes list \<Rightarrow> bool) \<Rightarrow> doc \<Rightarrow> bool" where
  "keys_all P (DObject kvs) = P (texts kvs)"
| "keys_all P d = True"

lemma keys_all_closings:
  "wf_pdoc p \<Longrightarrow> doc_all (keys_all P) (strip p) \<longleftrightarrow> (\<forall>c \<in> set (closings p). P (snd c))"
  "wf_elems ps \<Longrightarrow> doc_all_elems (keys_all P) (strip_elems ps) \<longleftrightarrow>
     (\<forall>c \<in> set (closings_elems ps). P (snd c))"
  "wf_members kvs \<Longrightarrow> doc_all_members (keys_all P) (strip_members kvs) \<longleftrightarrow>
     (\<forall>c \<in> set (closings_members kvs). P (snd c))"
proof (induction p and ps and kvs rule: strip_strip_elems_strip_members.induct)
  case (1 sl d)
  then show ?case by (cases d) auto
qed (simp_all add: ball_Un conj_commute)

end
