(* ===== verification/Locate.thy ===== *)
theory Locate
  imports Pull_Reader
begin

text \<open>
  src/ext/nosj/src/locate.rs: the cold-path walks that find the position of a refusal a sink
  reported without one.  \<open>scan_loop\<close> is the iterative walk of \<open>scan\<close> over the Reader with
  its explicit stack of frames; it is a \<open>partial_function\<close>, so that it returns at all is part
  of what is proved.  The theorems determine \<open>duplicate_key\<close> exactly.
\<close>

section \<open>Definitions\<close>

datatype repeat = Found nat bytes | Absent | Undecided

record frame =
  fr_object :: bool
  fr_index :: nat
  fr_seen :: "bytes set"
  fr_repeated :: "bytes option"

definition frame_open :: "bool \<Rightarrow> frame" where
  "frame_open object = \<lparr>fr_object = object, fr_index = 0, fr_seen = {}, fr_repeated = None\<rparr>"

text \<open>\<open>seen.insert(key)\<close> is only reached while no repeat is known; it is false for a member.\<close>

definition note_key :: "bytes \<Rightarrow> frame \<Rightarrow> frame" where
  "note_key key f =
     (if fr_repeated f = None
      then if key \<in> fr_seen f then f\<lparr>fr_repeated := Some key\<rparr>
           else f\<lparr>fr_seen := insert key (fr_seen f)\<rparr>
      else f)"

definition noted :: "bool \<Rightarrow> bytes \<Rightarrow> frame \<Rightarrow> frame" where
  "noted find_repeats key f = (if find_repeats then note_key key f else f)"

text \<open>The value at the cursor: the frame of a non-empty container it opens, or None past it.\<close>

definition open_node :: "'r reader \<Rightarrow> bool \<Rightarrow> 'r \<Rightarrow> parse_error + frame option \<times> 'r" where
  "open_node R find_repeats r =
     tryr (rd_next_node R r) (\<lambda>(n, r).
       case n of
         ObjectStart \<Rightarrow>
           map_ok (\<lambda>(k, r). (map_option (\<lambda>key. noted find_repeats key (frame_open True)) k, r))
             (rd_object_first_key R r)
       | ArrayStart \<Rightarrow>
           map_ok (\<lambda>(any, r). (if any then Some (frame_open False) else None, r)) (rd_array_first R r)
       | ScalarNode \<Rightarrow> Inr (None, r))"

text \<open>Advancing the innermost container: its frame with the next index, or None at its end.\<close>

definition advance :: "'r reader \<Rightarrow> bool \<Rightarrow> frame \<Rightarrow> 'r \<Rightarrow> parse_error + frame option \<times> 'r" where
  "advance R find_repeats inner r =
     (let bump = (\<lambda>f. f\<lparr>fr_index := fr_index f + 1\<rparr>)
      in if fr_object inner
         then map_ok (\<lambda>(k, r). (map_option (\<lambda>key. bump (noted find_repeats key inner)) k, r))
                (rd_object_next_key R r)
         else map_ok (\<lambda>(any, r). (if any then Some (bump inner) else None, r)) (rd_array_next R r))"

datatype cursor = AtValue | Complete

partial_function (option) scan_loop ::
  "'r reader \<Rightarrow> bool \<Rightarrow> cursor \<Rightarrow> 'r \<Rightarrow> frame list \<Rightarrow> (parse_error + (nat list \<times> bytes) option) option"
where
  "scan_loop R find_repeats c r stack =
     (case c of
        AtValue \<Rightarrow>
          (case open_node R find_repeats r of
             Inl e \<Rightarrow> Some (Inl e)
           | Inr (Some frame, r) \<Rightarrow> scan_loop R find_repeats AtValue r (frame # stack)
           | Inr (None, r) \<Rightarrow> scan_loop R find_repeats Complete r stack)
      | Complete \<Rightarrow>
          (case stack of
             [] \<Rightarrow> Some (Inr None)
           | inner # rest \<Rightarrow>
               (case advance R find_repeats inner r of
                  Inl e \<Rightarrow> Some (Inl e)
                | Inr (Some inner', r) \<Rightarrow> scan_loop R find_repeats AtValue r (inner' # rest)
                | Inr (None, r) \<Rightarrow>
                    (case fr_repeated inner of
                       Some key \<Rightarrow> Some (Inr (Some (rev (map fr_index rest), key)))
                     | None \<Rightarrow> scan_loop R find_repeats Complete r rest))))"

definition scan :: "'r reader \<Rightarrow> bytes \<Rightarrow> popts \<Rightarrow> bool \<Rightarrow> (parse_error + (nat list \<times> bytes) option) option" where
  "scan R doc po find_repeats = scan_loop R find_repeats AtValue (rd_open R doc po) []"

fun skip_siblings :: "'r reader \<Rightarrow> bool \<Rightarrow> nat \<Rightarrow> 'r \<Rightarrow> parse_error + 'r" where
  "skip_siblings R object 0 r = Inr r"
| "skip_siblings R object (Suc n) r =
     tryr (rd_skip_value R r) (\<lambda>(_, r).
     tryr (if object then map_ok snd (rd_object_next_key R r) else map_ok snd (rd_array_next R r)) (\<lambda>r.
     skip_siblings R object n r))"

fun descend :: "'r reader \<Rightarrow> nat list \<Rightarrow> 'r \<Rightarrow> parse_error + 'r" where
  "descend R [] r = Inr r"
| "descend R (index # path) r =
     tryr (rd_next_node R r) (\<lambda>(n, r).
     let object = (n = ObjectStart) in
     tryr (if object then map_ok snd (rd_object_first_key R r) else map_ok snd (rd_array_first R r)) (\<lambda>r.
     tryr (skip_siblings R object index r) (descend R path)))"

definition container_offset :: "'r reader \<Rightarrow> bytes \<Rightarrow> nat list \<Rightarrow> popts \<Rightarrow> parse_error + nat" where
  "container_offset R doc path po =
     tryr (descend R path (rd_open R doc po)) (\<lambda>r.
     map_ok (\<lambda>((start, _), _). start) (rd_skip_value R r))"

text \<open>The outer \<open>option\<close> is None when the walk does not return.\<close>

definition duplicate_key :: "'r reader \<Rightarrow> bytes \<Rightarrow> popts \<Rightarrow> repeat option" where
  "duplicate_key R doc po =
     map_option (\<lambda>res.
       case res of
         Inr None \<Rightarrow> Absent
       | Inr (Some (path, key)) \<Rightarrow>
           (case container_offset R doc path po of Inr at \<Rightarrow> Found at key | Inl _ \<Rightarrow> Undecided)
       | Inl _ \<Rightarrow> Undecided) (scan R doc po True)"

definition first_walk_error :: "'r reader \<Rightarrow> bytes \<Rightarrow> popts \<Rightarrow> parse_error option option" where
  "first_walk_error R doc po =
     map_option (\<lambda>res. case res of Inl e \<Rightarrow> Some e | Inr _ \<Rightarrow> None) (scan R doc po False)"

section \<open>Noting keys\<close>

text \<open>The first key of a list that occurred before it.\<close>

fun first_dup :: "bytes set \<Rightarrow> bytes list \<Rightarrow> bytes option" where
  "first_dup seen [] = None"
| "first_dup seen (k # ks) = (if k \<in> seen then Some k else first_dup (insert k seen) ks)"

lemma first_dup_None: "first_dup seen ks = None \<longleftrightarrow> distinct ks \<and> set ks \<inter> seen = {}"
  by (induction ks arbitrary: seen) auto

fun note_all :: "bytes list \<Rightarrow> frame \<Rightarrow> frame" where
  "note_all [] f = f"
| "note_all (k # ks) f = note_all ks (note_key k f)"

lemma note_all_repeated:
  "fr_repeated (note_all ks f) =
     (case fr_repeated f of Some k \<Rightarrow> Some k | None \<Rightarrow> first_dup (fr_seen f) ks)"
proof (induction ks arbitrary: f)
  case (Cons k ks)
  then show ?case by (auto simp: note_key_def split: option.splits)
qed (simp split: option.splits)

lemma note_all_open: "fr_repeated (note_all ks (frame_open True)) = first_dup {} ks"
  by (simp add: note_all_repeated frame_open_def)

lemma note_key_fields [simp]:
  "fr_object (note_key k f) = fr_object f" "fr_index (note_key k f) = fr_index f"
  by (simp_all add: note_key_def)

lemma note_all_bump:
  "fr_repeated (note_all ks (f\<lparr>fr_index := i\<rparr>)) = fr_repeated (note_all ks f)"
  by (simp add: note_all_repeated split: option.split)

section \<open>What the walk finds\<close>

text \<open>
  The first object to close with a repeated key: the path to it and the key.  \<open>off\<close> is the
  index of the first of the remaining elements or members.
\<close>

fun repeat_in :: "pdoc \<Rightarrow> (nat list \<times> bytes) option"
  and repeat_elems :: "nat \<Rightarrow> pdoc list \<Rightarrow> (nat list \<times> bytes) option"
  and repeat_members :: "nat \<Rightarrow> (bytes \<times> pdoc) list \<Rightarrow> (nat list \<times> bytes) option" where
  "repeat_in (PLeaf sl d) = None"
| "repeat_in (PArray sl ps) = repeat_elems 0 ps"
| "repeat_in (PObject sl kvs) =
     (case repeat_members 0 kvs of
        Some x \<Rightarrow> Some x
      | None \<Rightarrow> map_option (\<lambda>k. ([], k)) (first_dup {} (map fst kvs)))"
| "repeat_elems i [] = None"
| "repeat_elems i (p # ps) =
     (case repeat_in p of
        Some (path, k) \<Rightarrow> Some (i # path, k) | None \<Rightarrow> repeat_elems (Suc i) ps)"
| "repeat_members i [] = None"
| "repeat_members i ((k0, p) # kvs) =
     (case repeat_in p of
        Some (path, k) \<Rightarrow> Some (i # path, k) | None \<Rightarrow> repeat_members (Suc i) kvs)"

text \<open>Where a stack of open frames points.\<close>

definition stack_path :: "frame list \<Rightarrow> nat list" where
  "stack_path stack = rev (map fr_index stack)"

lemma stack_path_Cons: "stack_path (f # stack) = stack_path stack @ [fr_index f]"
  by (simp add: stack_path_def)

lemma scan_loop_value:
  "at_value R p r r' \<Longrightarrow>
     scan_loop R True AtValue r stack =
       (case repeat_in p of
          Some (path, k) \<Rightarrow> Some (Inr (Some (stack_path stack @ path, k)))
        | None \<Rightarrow> scan_loop R True Complete r' stack)"
  "at_elems R ps r r' \<Longrightarrow> ps \<noteq> [] \<Longrightarrow> \<not> fr_object f \<Longrightarrow> fr_repeated f = None \<Longrightarrow>
     scan_loop R True AtValue r (f # stack) =
       (case repeat_elems (fr_index f) ps of
          Some (path, k) \<Rightarrow> Some (Inr (Some (stack_path stack @ path, k)))
        | None \<Rightarrow> scan_loop R True Complete r' stack)"
  "at_members R kvs r r' \<Longrightarrow> kvs \<noteq> [] \<Longrightarrow> fr_object f \<Longrightarrow>
     scan_loop R True AtValue r (f # stack) =
       (case repeat_members (fr_index f) kvs of
          Some (path, k) \<Rightarrow> Some (Inr (Some (stack_path stack @ path, k)))
        | None \<Rightarrow>
            (case fr_repeated (note_all (tl (map fst kvs)) f) of
               Some k \<Rightarrow> Some (Inr (Some (stack_path stack, k)))
             | None \<Rightarrow> scan_loop R True Complete r' stack))"
proof (induction p and ps and kvs arbitrary: r r' stack and r r' f stack and r r' f stack
    rule: strip_strip_elems_strip_members.induct)
  case (1 sl d)
  then show ?case by (subst scan_loop.simps) (simp add: open_node_def)
next
  case (2 sl ps)
  from "2.prems" obtain r1 r2 where n: "rd_next_node R r = Inr (ArrayStart, r1)"
    and a: "rd_array_first R r1 = Inr (ps \<noteq> [], r2)" and e: "at_elems R ps r2 r'" by auto
  show ?case
  proof (cases "ps = []")
    case True
    with n a e show ?thesis by (subst scan_loop.simps) (simp add: open_node_def)
  next
    case False
    with n a "2.IH" [OF e False, of "frame_open False" stack] show ?thesis
      by (subst scan_loop.simps) (simp add: open_node_def, simp add: frame_open_def)
  qed
next
  case (3 sl kvs)
  from "3.prems" obtain r1 r2 where n: "rd_next_node R r = Inr (ObjectStart, r1)"
    and a: "rd_object_first_key R r1 = Inr (first_key kvs, r2)" and e: "at_members R kvs r2 r'" by auto
  show ?case
  proof (cases kvs)
    case Nil
    with n a e show ?thesis by (subst scan_loop.simps) (simp add: open_node_def)
  next
    case (Cons kv kvs')
    obtain k p where kv: "kv = (k, p)" by (cases kv)
    let ?f = "note_key k (frame_open True)"
    have f: "fr_object ?f" "fr_index ?f = 0" by (simp_all add: frame_open_def)
    have rep: "fr_repeated (note_all (tl (map fst kvs)) ?f) = first_dup {} (map fst kvs)"
      using note_all_open [of "map fst kvs"] Cons kv by simp
    have "scan_loop R True AtValue r stack = scan_loop R True AtValue r2 (?f # stack)"
      using n a Cons kv by (subst scan_loop.simps) (simp add: open_node_def noted_def)
    with "3.IH" [OF e _ f(1), of stack] Cons f rep show ?thesis
      by (auto split: option.splits)
  qed
next
  case (5 p ps)
  from "5.prems"(1) obtain r1 r2 where v: "at_value R p r r1"
    and a: "rd_array_next R r1 = Inr (ps \<noteq> [], r2)" and e: "at_elems R ps r2 r'" by auto
  let ?f = "f\<lparr>fr_index := Suc (fr_index f)\<rparr>"
  have step: "scan_loop R True Complete r1 (f # stack) =
      (if ps = [] then scan_loop R True Complete r' stack else scan_loop R True AtValue r2 (?f # stack))"
    using a e "5.prems"(3,4) by (subst scan_loop.simps) (auto simp: advance_def Let_def)
  show ?case
  proof (cases "ps = []")
    case True
    with "5.IH"(1) [OF v, of "f # stack"] step show ?thesis
      by (auto simp: stack_path_Cons split: option.splits)
  next
    case False
    with "5.IH"(1) [OF v, of "f # stack"] step "5.IH"(2) [OF e False, of ?f stack] "5.prems"(3,4)
    show ?thesis by (auto simp: stack_path_Cons split: option.splits)
  qed
next
  case (7 k0 p kvs)
  from "7.prems"(1) obtain r1 r2 where v: "at_value R p r r1"
    and a: "rd_object_next_key R r1 = Inr (first_key kvs, r2)" and e: "at_members R kvs r2 r'" by auto
  show ?case
  proof (cases kvs)
    case Nil
    have "scan_loop R True Complete r1 (f # stack) =
        (case fr_repeated f of Some k \<Rightarrow> Some (Inr (Some (stack_path stack, k)))
         | None \<Rightarrow> scan_loop R True Complete r' stack)"
      using a e Nil "7.prems"(3)
      by (subst scan_loop.simps) (auto simp: advance_def Let_def stack_path_def split: option.splits)
    with "7.IH"(1) [OF v, of "f # stack"] Nil show ?thesis
      by (auto simp: stack_path_Cons split: option.splits)
  next
    case (Cons kv kvs')
    obtain k q where kv: "kv = (k, q)" by (cases kv)
    let ?f = "(note_key k f)\<lparr>fr_index := Suc (fr_index f)\<rparr>"
    have step: "scan_loop R True Complete r1 (f # stack) = scan_loop R True AtValue r2 (?f # stack)"
      using a Cons kv "7.prems"(3)
      by (subst scan_loop.simps) (auto simp: advance_def Let_def noted_def)
    have rep: "fr_repeated (note_all (tl (map fst kvs)) ?f) = fr_repeated (note_all (map fst kvs) f)"
      using Cons kv by (simp add: note_all_bump)
    have "fr_object ?f" using "7.prems"(3) by simp
    with "7.IH"(1) [OF v, of "f # stack"] step "7.IH"(2) [OF e _, of ?f stack] Cons rep
    show ?thesis by (auto simp: stack_path_Cons split: option.splits)
  qed
qed simp_all

text \<open>The path found leads to the first closing object that repeats a key.\<close>

abbreviation repeats :: "nat \<times> bytes list \<Rightarrow> bool" where
  "repeats c \<equiv> \<not> distinct (snd c)"

lemma find_append:
  "List.find P (xs @ ys) = (case List.find P xs of Some x \<Rightarrow> Some x | None \<Rightarrow> List.find P ys)"
  by (induction xs) auto

lemma repeat_closings:
  "(case List.find repeats (closings p) of
      None \<Rightarrow> repeat_in p = None
    | Some (at, ks) \<Rightarrow> \<exists>path q. repeat_in p = Some (path, the (first_dup {} ks)) \<and>
        pdoc_at path p = Some q \<and> fst (slice_at q) = at)"
  "(case List.find repeats (closings_elems ps) of
      None \<Rightarrow> repeat_elems i ps = None
    | Some (at, ks) \<Rightarrow> \<exists>j path q. repeat_elems i ps = Some ((i + j) # path, the (first_dup {} ks)) \<and>
        j < length ps \<and> pdoc_at path (ps ! j) = Some q \<and> fst (slice_at q) = at)"
  "(case List.find repeats (closings_members kvs) of
      None \<Rightarrow> repeat_members i kvs = None
    | Some (at, ks) \<Rightarrow> \<exists>j path q. repeat_members i kvs = Some ((i + j) # path, the (first_dup {} ks)) \<and>
        j < length kvs \<and> pdoc_at path (snd (kvs ! j)) = Some q \<and> fst (slice_at q) = at)"
proof (induction p and ps and kvs arbitrary: and i and i rule: strip_strip_elems_strip_members.induct)
  case (2 sl ps)
  from "2.IH" [of 0] show ?case by (fastforce split: option.splits)
next
  case (3 sl kvs)
  show ?case
  proof (cases "List.find repeats (closings_members kvs)")
    case None
    with "3.IH" [of 0] show ?thesis
      by (auto simp: find_append first_dup_None split: option.splits)
  next
    case (Some c)
    obtain at ks where c: "c = (at, ks)" by (cases c)
    from "3.IH" [of 0] Some c show ?thesis by (fastforce simp: find_append)
  qed
next
  case (5 p ps)
  show ?case
  proof (cases "List.find repeats (closings p)")
    case None
    with "5.IH"(1) have "repeat_in p = None" by simp
    with None "5.IH"(2) [of "Suc i"] show ?thesis
      by (fastforce simp: find_append split: option.splits intro: exI [of _ "Suc _"])
  next
    case (Some c)
    obtain at ks where c: "c = (at, ks)" by (cases c)
    with Some "5.IH"(1) obtain path q where "repeat_in p = Some (path, the (first_dup {} ks))"
      "pdoc_at path p = Some q" "fst (slice_at q) = at" by auto
    with Some c show ?thesis by (auto simp: find_append intro!: exI [of _ 0])
  qed
next
  case (7 k0 p kvs)
  show ?case
  proof (cases "List.find repeats (closings p)")
    case None
    with "7.IH"(1) have "repeat_in p = None" by simp
    with None "7.IH"(2) [of "Suc i"] show ?thesis
      by (fastforce simp: find_append split: option.splits intro: exI [of _ "Suc _"])
  next
    case (Some c)
    obtain at ks where c: "c = (at, ks)" by (cases c)
    with Some "7.IH"(1) obtain path q where "repeat_in p = Some (path, the (first_dup {} ks))"
      "pdoc_at path p = Some q" "fst (slice_at q) = at" by auto
    with Some c show ?thesis by (auto simp: find_append intro!: exI [of _ 0])
  qed
qed simp_all

section \<open>The position of a container\<close>

lemma skip_elems:
  "at_elems R ps r r' \<Longrightarrow> i < length ps \<Longrightarrow>
     \<exists>r1 r2. skip_siblings R False i r = Inr r1 \<and> at_value R (ps ! i) r1 r2"
proof (induction i arbitrary: ps r)
  case 0
  then show ?case by (cases ps) auto
next
  case (Suc i)
  then show ?case by (cases ps) (fastforce dest: at_value_skips)+
qed

lemma skip_members:
  "at_members R kvs r r' \<Longrightarrow> i < length kvs \<Longrightarrow>
     \<exists>r1 r2. skip_siblings R True i r = Inr r1 \<and> at_value R (snd (kvs ! i)) r1 r2"
proof (induction i arbitrary: kvs r)
  case 0
  then show ?case by (cases kvs) auto
next
  case (Suc i)
  then show ?case by (cases kvs) (fastforce dest: at_value_skips)+
qed

lemma descend_reaches:
  "at_value R p r r' \<Longrightarrow> pdoc_at path p = Some q \<Longrightarrow>
     \<exists>r1 r2. descend R path r = Inr r1 \<and> at_value R q r1 r2"
proof (induction path p arbitrary: r r' rule: pdoc_at.induct)
  case (2 i path sl ps)
  from "2.prems"(2) have i: "i < length ps" and q: "pdoc_at path (ps ! i) = Some q"
    by (auto split: if_splits)
  from "2.prems"(1) obtain r1 r2 where n: "rd_next_node R r = Inr (ArrayStart, r1)"
    "rd_array_first R r1 = Inr (ps \<noteq> [], r2)" and e: "at_elems R ps r2 r'" by auto
  from skip_elems [OF e i] obtain r3 r4 where "skip_siblings R False i r2 = Inr r3"
    "at_value R (ps ! i) r3 r4" by blast
  with "2.IH" [OF i _ q] n show ?case by auto
next
  case (3 i path sl kvs)
  from "3.prems"(2) have i: "i < length kvs" and q: "pdoc_at path (snd (kvs ! i)) = Some q"
    by (auto split: if_splits)
  from "3.prems"(1) obtain r1 r2 where n: "rd_next_node R r = Inr (ObjectStart, r1)"
    "rd_object_first_key R r1 = Inr (first_key kvs, r2)" and e: "at_members R kvs r2 r'" by auto
  from skip_members [OF e i] obtain r3 r4 where "skip_siblings R True i r2 = Inr r3"
    "at_value R (snd (kvs ! i)) r3 r4" by blast
  with "3.IH" [OF i _ q] n show ?case by auto
qed auto

lemma container_offset_at:
  assumes "reads R doc po p" and "pdoc_at path p = Some q"
  shows "container_offset R doc path po = Inr (fst (slice_at q))"
proof -
  from assms(1) obtain r' where "at_value R p (rd_open R doc po) r'" by (auto simp: reads_def)
  from descend_reaches [OF this assms(2)] obtain r1 r2 where
    "descend R path (rd_open R doc po) = Inr r1" "at_value R q r1 r2" by blast
  then show ?thesis
    by (cases "slice_at q") (auto simp: container_offset_def dest: at_value_skips)
qed

section \<open>The exact check\<close>

definition repeat_of :: "pdoc \<Rightarrow> repeat" where
  "repeat_of p =
     (case List.find repeats (closings p) of
        None \<Rightarrow> Absent | Some (at, ks) \<Rightarrow> Found at (the (first_dup {} ks)))"

lemma duplicate_key_reads:
  assumes "reads R doc po p"
  shows "duplicate_key R doc po = Some (repeat_of p)"
proof -
  from assms obtain r' where v: "at_value R p (rd_open R doc po) r'" by (auto simp: reads_def)
  have fin: "scan_loop R True Complete r' [] = Some (Inr None)"
    by (subst scan_loop.simps) simp
  have scanned: "scan R doc po True =
      (case repeat_in p of Some (path, k) \<Rightarrow> Some (Inr (Some (path, k))) | None \<Rightarrow> Some (Inr None))"
    using scan_loop_value(1) [OF v, of "[]"] fin by (simp add: scan_def stack_path_def split: option.splits)
  show ?thesis
    using repeat_closings(1) [of p] scanned container_offset_at [OF assms]
    by (auto simp: duplicate_key_def repeat_of_def split: option.splits)
qed

text \<open>
  C14.  The exact duplicate-key check always returns, and on a document the Reader walks it
  returns the offset of the first object, in the order objects close, that repeats a key, with
  the first key of it that repeats, or that no object repeats one; no nesting depth, key order
  or empty container makes it undecided.
\<close>

theorem duplicate_key_exact:
  assumes "reads R doc po p"
  shows "duplicate_key R doc po = Some (repeat_of p)"
  by (rule duplicate_key_reads [OF assms])

text \<open>A Reader that knows one document, \<open>[{"a":1,"a":2}]\<close>; its cursors are numbers.\<close>

definition sample_reader :: "nat reader" where
  "sample_reader =
     \<lparr>rd_open = (\<lambda>_ _. 0),
      rd_next_node = (\<lambda>r. Inr (if r = 0 then ArrayStart else if r = 2 then ObjectStart else ScalarNode, r + 1)),
      rd_object_first_key = (\<lambda>r. Inr (Some (asc ''a''), 4)),
      rd_object_next_key = (\<lambda>r. Inr (if r = 5 then Some (asc ''a'') else None, r + 1)),
      rd_array_first = (\<lambda>r. Inr (True, 2)),
      rd_array_next = (\<lambda>r. Inr (False, 9)),
      rd_skip_value = (\<lambda>r.
        if r = 0 then Inr ((0, 15), 9) else if r = 2 then Inr ((1, 13), 8)
        else Inr ((if r = 4 then 6 else 12, 1), r + 1))\<rparr>"

definition sample_pdoc :: pdoc where
  "sample_pdoc = PArray (0, 15) [PObject (1, 13)
     [(asc ''a'', PLeaf (6, 1) (DInt 1)), (asc ''a'', PLeaf (12, 1) (DInt 2))]]"

lemma sample_reads: "reads sample_reader input po sample_pdoc"
  by (simp add: reads_def sample_reader_def sample_pdoc_def)

theorem duplicate_key_exact_witness:
  "duplicate_key sample_reader [] popts_default = Some (Found 1 (asc ''a''))"
  using duplicate_key_exact [OF sample_reads, of "[]" popts_default]
  by (simp add: repeat_of_def sample_pdoc_def)

lemma repeat_of_absent: "repeat_of p = Absent \<longleftrightarrow> (\<forall>c \<in> set (closings p). distinct (snd c))"
  by (auto simp: repeat_of_def find_None_iff find_Some_iff split: option.splits)

end
