(* ===== verification/Ruby_Sink.thy ===== *)
theory Ruby_Sink
  imports Locate
begin

text \<open>
  \<open>RubyValueSink\<close> of src/ext/nosj/src/sink.rs: the sink behind \<open>NOSJ.parse\<close>, which builds
  Ruby values on a stack, with the interned-key caches.  The Ruby VM functions it calls are the
  fields of the parameter \<open>vm\<close>; of the VM only \<open>vm_law\<close> is assumed, that a Hash filled
  from a list of pairs has one entry per distinct key.  The lemmas determine which documents
  the sink takes and show that the value left on the stack is \<open>value_of\<close> the document,
  whatever the pooled caches hold.
\<close>

section \<open>The VM and the state\<close>

record 'v vm =
  vm_nil :: 'v
  vm_true :: 'v
  vm_false :: 'v
  vm_long_bits :: nat
  vm_long2num :: "int \<Rightarrow> 'v"
  vm_ll2inum :: "int \<Rightarrow> 'v"
  vm_float :: "f64 \<Rightarrow> 'v"
  vm_cstr2inum :: "bytes \<Rightarrow> 'v"
  vm_utf8_str :: "bytes \<Rightarrow> 'v"
  vm_interned_str :: "bytes \<Rightarrow> 'v"
  vm_symbol :: "bytes \<Rightarrow> 'v"
  vm_array :: "'v list \<Rightarrow> 'v"
  vm_hash :: "'v list \<Rightarrow> 'v"
  vm_freeze :: "'v \<Rightarrow> 'v"
  vm_hash_size :: "'v \<Rightarrow> nat"

text \<open>
  An Integer through the header macro for a C \<open>long\<close> (32 bits on Windows), through the function
  for a \<open>long long\<close> beyond it; strings from the bytes of a slice.
\<close>

definition fits_long :: "'v vm \<Rightarrow> int \<Rightarrow> bool" where
  "fits_long vm i \<longleftrightarrow> - (2 ^ (vm_long_bits vm - 1)) \<le> i \<and> i < 2 ^ (vm_long_bits vm - 1)"

definition int_to_raw :: "'v vm \<Rightarrow> int \<Rightarrow> 'v" where
  "int_to_raw vm i = (if fits_long vm i then vm_long2num vm i else vm_ll2inum vm i)"

abbreviation str_to_raw :: "'v vm \<Rightarrow> bytes \<Rightarrow> 'v" where
  "str_to_raw vm s \<equiv> vm_utf8_str vm s"

abbreviation interned_str_raw :: "'v vm \<Rightarrow> bytes \<Rightarrow> 'v" where
  "interned_str_raw vm s \<equiv> vm_interned_str vm s"

abbreviation SINK_STACK_MAX :: nat where "SINK_STACK_MAX \<equiv> 2 ^ 26"
abbreviation KEY_CACHE_CAP :: nat where "KEY_CACHE_CAP \<equiv> 2048"

type_synonym 'v key_cache = "(bytes \<times> 'v) list"

record 'v ruby_sink =
  rs_stack :: "'v list"
  rs_keys :: "'v key_cache"
  rs_key_shadow :: "'v list"
  rs_depth :: nat
  rs_symbolize :: bool
  rs_freeze :: bool
  rs_max_nesting :: nat
  rs_allow_duplicate_key :: bool

text \<open>
  The result is the value, the cache and its GC shadow; an inserted entry goes to the front of
  the list that stands for the hash map.
\<close>

definition intern_key_cached ::
  "'v vm \<Rightarrow> bytes \<Rightarrow> 'v key_cache \<Rightarrow> 'v list \<Rightarrow> 'v \<times> 'v key_cache \<times> 'v list" where
  "intern_key_cached vm key m shadow =
     (if key = [] \<or> 64 < length key then (interned_str_raw vm key, m, shadow)
      else case map_of m key of
        Some v \<Rightarrow> (v, m, shadow)
      | None \<Rightarrow>
          let raw = interned_str_raw vm key;
              (m, shadow) = (if KEY_CACHE_CAP \<le> length m then ([], []) else (m, shadow))
          in (raw, (key, raw) # m, shadow @ [raw]))"

definition intern_symbol_cached :: "'v vm \<Rightarrow> bytes \<Rightarrow> 'v key_cache \<Rightarrow> 'v \<times> 'v key_cache" where
  "intern_symbol_cached vm key m =
     (if key = [] \<or> 64 < length key then (vm_symbol vm key, m)
      else case map_of m key of
        Some v \<Rightarrow> (v, m)
      | None \<Rightarrow>
          let raw = vm_symbol vm key;
              m = (if KEY_CACHE_CAP \<le> length m then [] else m)
          in (raw, (key, raw) # m))"

definition push_raw :: "'v \<Rightarrow> 'v ruby_sink \<Rightarrow> sink_abort + 'v ruby_sink" where
  "push_raw raw s =
     (if SINK_STACK_MAX \<le> length (rs_stack s) then Inl Overflow
      else Inr (s\<lparr>rs_stack := rs_stack s @ [raw]\<rparr>))"

definition enter_container :: "'v ruby_sink \<Rightarrow> sink_abort + 'v ruby_sink" where
  "enter_container s =
     (let s = s\<lparr>rs_depth := rs_depth s + 1\<rparr>
      in if rs_max_nesting s < rs_depth s then Inl TooDeep else Inr s)"

definition ruby_big_int :: "'v vm \<Rightarrow> bytes \<Rightarrow> 'v ruby_sink \<Rightarrow> sink_abort + 'v ruby_sink" where
  "ruby_big_int vm digits s =
     (if 0 \<in> set digits then Inl BadBigint else push_raw (vm_cstr2inum vm digits) s)"

definition ruby_str :: "'v vm \<Rightarrow> bytes \<Rightarrow> 'v ruby_sink \<Rightarrow> sink_abort + 'v ruby_sink" where
  "ruby_str vm text s =
     push_raw (if rs_freeze s then interned_str_raw vm text else str_to_raw vm text) s"

definition ruby_key :: "'v vm \<Rightarrow> bytes \<Rightarrow> 'v ruby_sink \<Rightarrow> sink_abort + 'v ruby_sink" where
  "ruby_key vm key s =
     (if rs_symbolize s
      then let (raw, m) = intern_symbol_cached vm key (rs_keys s)
           in push_raw raw (s\<lparr>rs_keys := m\<rparr>)
      else let (raw, m, shadow) = intern_key_cached vm key (rs_keys s) (rs_key_shadow s)
           in push_raw raw (s\<lparr>rs_keys := m, rs_key_shadow := shadow\<rparr>))"

definition frozen :: "'v vm \<Rightarrow> bool \<Rightarrow> 'v \<Rightarrow> 'v" where
  "frozen vm frz v = (if frz then vm_freeze vm v else v)"

definition ruby_end_array :: "'v vm \<Rightarrow> nat \<Rightarrow> nat \<Rightarrow> 'v ruby_sink \<Rightarrow> sink_abort + 'v ruby_sink" where
  "ruby_end_array vm m len s =
     (let s = s\<lparr>rs_depth := rs_depth s - 1\<rparr>;
          raw = frozen vm (rs_freeze s) (vm_array vm (drop m (rs_stack s)))
      in push_raw raw (s\<lparr>rs_stack := take m (rs_stack s)\<rparr>))"

definition ruby_end_object :: "'v vm \<Rightarrow> nat \<Rightarrow> nat \<Rightarrow> 'v ruby_sink \<Rightarrow> sink_abort + 'v ruby_sink" where
  "ruby_end_object vm m pairs s =
     (let s = s\<lparr>rs_depth := rs_depth s - 1\<rparr>;
          raw = frozen vm (rs_freeze s) (vm_hash vm (drop m (rs_stack s)));
          s = s\<lparr>rs_stack := take m (rs_stack s)\<rparr>
      in if \<not> rs_allow_duplicate_key s \<and> vm_hash_size vm raw < pairs then Inl DuplicateKey
         else push_raw raw s)"

definition RubyValueSink :: "'v vm \<Rightarrow> 'v ruby_sink sink" where
  "RubyValueSink vm =
     \<lparr>sk_null = push_raw (vm_nil vm),
      sk_boolean = (\<lambda>b. push_raw (if b then vm_true vm else vm_false vm)),
      sk_int = (\<lambda>i. push_raw (int_to_raw vm i)),
      sk_float = (\<lambda>f. push_raw (vm_float vm f)),
      sk_big_int = ruby_big_int vm,
      sk_str = ruby_str vm,
      sk_str_bytes = (\<lambda>_ _. Inl LoneSurrogate),
      sk_key = ruby_key vm,
      sk_key_bytes = (\<lambda>_ _. Inl LoneSurrogate),
      sk_begin_array = enter_container,
      sk_begin_object = enter_container,
      sk_mark = (\<lambda>s. length (rs_stack s)),
      sk_end_array = ruby_end_array vm,
      sk_end_object = ruby_end_object vm\<rparr>"

interpretation ruby_depth: depth_sink "RubyValueSink vm" rs_depth rs_max_nesting for vm
  by unfold_locales
    (auto simp: RubyValueSink_def push_raw_def enter_container_def ruby_big_int_def ruby_str_def
      ruby_key_def ruby_end_array_def ruby_end_object_def Let_def split: if_splits prod.splits)

section \<open>The value of a document\<close>

definition key_value :: "'v vm \<Rightarrow> bool \<Rightarrow> bytes \<Rightarrow> 'v" where
  "key_value vm sy key = (if sy then vm_symbol vm key else vm_interned_str vm key)"

text \<open>The sinks refuse lone surrogates, so the line for them is never met.\<close>

fun value_of :: "'v vm \<Rightarrow> bool \<Rightarrow> bool \<Rightarrow> doc \<Rightarrow> 'v"
  and values_of :: "'v vm \<Rightarrow> bool \<Rightarrow> bool \<Rightarrow> doc list \<Rightarrow> 'v list"
  and pairs_of :: "'v vm \<Rightarrow> bool \<Rightarrow> bool \<Rightarrow> (dkey \<times> doc) list \<Rightarrow> 'v list" where
  "value_of vm sy frz DNull = vm_nil vm"
| "value_of vm sy frz (DBool b) = (if b then vm_true vm else vm_false vm)"
| "value_of vm sy frz (DInt i) = vm_ll2inum vm i"
| "value_of vm sy frz (DFloat f) = vm_float vm f"
| "value_of vm sy frz (DBigInt s) = vm_cstr2inum vm s"
| "value_of vm sy frz (DStr s) = (if frz then vm_interned_str vm s else vm_utf8_str vm s)"
| "value_of vm sy frz (DStrBytes s) = vm_nil vm"
| "value_of vm sy frz (DArray ds) = frozen vm frz (vm_array vm (values_of vm sy frz ds))"
| "value_of vm sy frz (DObject kvs) = frozen vm frz (vm_hash vm (pairs_of vm sy frz kvs))"
| "values_of vm sy frz [] = []"
| "values_of vm sy frz (d # ds) = value_of vm sy frz d # values_of vm sy frz ds"
| "pairs_of vm sy frz [] = []"
| "pairs_of vm sy frz ((k, d) # kvs) =
     key_value vm sy (key_text k) # value_of vm sy frz d # pairs_of vm sy frz kvs"

text \<open>
  The law of the VM: both ways to an Integer agree where both apply, and the size of a Hash,
  frozen or not, is the number of distinct keys.
\<close>

definition vm_law :: "'v vm \<Rightarrow> bool" where
  "vm_law vm \<longleftrightarrow>
     (\<forall>i. fits_long vm i \<longrightarrow> vm_long2num vm i = vm_ll2inum vm i) \<and>
     (\<forall>sy frz kvs.
        vm_hash_size vm (frozen vm frz (vm_hash vm (concat (map (\<lambda>(k, v). [key_value vm sy k, v]) kvs))))
          = card (set (map fst kvs)))"

lemma int_to_raw_law: "vm_law vm \<Longrightarrow> int_to_raw vm i = vm_ll2inum vm i"
  by (simp add: vm_law_def int_to_raw_def)

lemma pairs_of_concat:
  "pairs_of vm sy frz kvs =
     concat (map (\<lambda>(k, v). [key_value vm sy k, v]) (map (\<lambda>(k, d). (key_text k, value_of vm sy frz d)) kvs))"
  by (induction kvs) auto

lemma hash_size_pairs:
  assumes "vm_law vm"
  shows "vm_hash_size vm (frozen vm frz (vm_hash vm (pairs_of vm sy frz kvs))) < length kvs
     \<longleftrightarrow> \<not> distinct (texts kvs)"
proof -
  have "map fst (map (\<lambda>(k, d). (key_text k, value_of vm sy frz d)) kvs) = texts kvs"
    by (auto simp: texts_def)
  then have "vm_hash_size vm (frozen vm frz (vm_hash vm (pairs_of vm sy frz kvs))) = card (set (texts kvs))"
    using assms unfolding vm_law_def pairs_of_concat by metis
  moreover have "card (set (texts kvs)) \<le> length kvs" using card_length [of "texts kvs"] by simp
  ultimately show ?thesis by (metis card_distinct distinct_card length_texts less_le)
qed

section \<open>The key caches\<close>

text \<open>
  Every entry is what interning its key would give, the size stays within the cap, and in
  string mode the shadow the GC marks holds exactly the cached values.
\<close>

definition cache_ok :: "'v vm \<Rightarrow> 'v ruby_sink \<Rightarrow> bool" where
  "cache_ok vm s \<longleftrightarrow>
     (\<forall>(k, v) \<in> set (rs_keys s). v = key_value vm (rs_symbolize s) k) \<and>
     length (rs_keys s) \<le> KEY_CACHE_CAP \<and>
     (\<not> rs_symbolize s \<longrightarrow> rs_key_shadow s = rev (map snd (rs_keys s)))"

lemma cache_hit: "cache_ok vm s \<Longrightarrow> map_of (rs_keys s) key = Some v \<Longrightarrow> v = key_value vm (rs_symbolize s) key"
  by (auto simp: cache_ok_def dest!: map_of_SomeD)

text \<open>Looking a key up gives what interning it gives, and the cache stays good.\<close>

lemma ruby_key_push:
  assumes "cache_ok vm s"
  shows "\<exists>m shadow. ruby_key vm key s =
      push_raw (key_value vm (rs_symbolize s) key) (s\<lparr>rs_keys := m, rs_key_shadow := shadow\<rparr>) \<and>
      cache_ok vm (s\<lparr>rs_keys := m, rs_key_shadow := shadow\<rparr>) \<and>
      (rs_symbolize s \<longrightarrow> shadow = rs_key_shadow s)"
proof (cases "rs_symbolize s")
  case True
  obtain raw m where im: "intern_symbol_cached vm key (rs_keys s) = (raw, m)" by fastforce
  have "raw = key_value vm True key" "cache_ok vm (s\<lparr>rs_keys := m\<rparr>)"
    using im True assms cache_hit [OF assms]
    by (auto simp: intern_symbol_cached_def Let_def key_value_def cache_ok_def split: if_splits option.splits)
  with im True show ?thesis
    by (intro exI [of _ m] exI [of _ "rs_key_shadow s"]) (simp add: ruby_key_def)
next
  case False
  obtain raw m sh where im: "intern_key_cached vm key (rs_keys s) (rs_key_shadow s) = (raw, m, sh)"
    by (metis prod_cases3)
  have "raw = key_value vm False key" "cache_ok vm (s\<lparr>rs_keys := m, rs_key_shadow := sh\<rparr>)"
    using im False assms cache_hit [OF assms]
    by (auto simp: intern_key_cached_def Let_def key_value_def cache_ok_def split: if_splits option.splits)
  with im False show ?thesis
    by (intro exI [of _ m] exI [of _ sh]) (simp add: ruby_key_def)
qed

section \<open>The documents it takes\<close>

text \<open>How many stack slots a document needs while it is built.\<close>

fun need :: "doc \<Rightarrow> nat"
  and need_elems :: "doc list \<Rightarrow> nat"
  and need_members :: "(dkey \<times> doc) list \<Rightarrow> nat" where
  "need (DArray ds) = max 1 (need_elems ds)"
| "need (DObject kvs) = max 1 (need_members kvs)"
| "need _ = 1"
| "need_elems [] = 0"
| "need_elems (d # ds) = max (need d) (Suc (need_elems ds))"
| "need_members [] = 0"
| "need_members ((k, d) # kvs) = max (Suc (need d)) (Suc (Suc (need_members kvs)))"

lemma need_pos: "0 < need d"
  by (cases d) auto

fun big_int_ok :: "doc \<Rightarrow> bool" where
  "big_int_ok (DBigInt digits) = (0 \<notin> set digits)"
| "big_int_ok _ = True"

definition ruby_takes :: "bool \<Rightarrow> doc \<Rightarrow> bool" where
  "ruby_takes allow_dup n \<longleftrightarrow>
     node_ok (\<lambda>_. True) (\<lambda>ks. allow_dup \<or> distinct ks) n \<and> big_int_ok n"

lemma ruby_takes_simps [simp]:
  "leaf_doc d \<Longrightarrow> ruby_takes a d = (case d of DStrBytes b \<Rightarrow> False | DBigInt b \<Rightarrow> 0 \<notin> set b | _ \<Rightarrow> True)"
  "ruby_takes a (DArray ds)"
  "ruby_takes a (DObject kvs) = ((\<forall>kv \<in> set kvs. text_key (fst kv)) \<and> (a \<or> distinct (texts kvs)))"
  by (cases d; simp add: ruby_takes_def) (simp_all add: ruby_takes_def)

text \<open>The state after a value: the built values on top, the rest kept.\<close>

definition kept :: "'v vm \<Rightarrow> 'v ruby_sink \<Rightarrow> 'v ruby_sink \<Rightarrow> 'v list \<Rightarrow> bool" where
  "kept vm s s' vs \<longleftrightarrow> rs_stack s' = rs_stack s @ vs \<and> rs_depth s' = rs_depth s \<and>
     rs_symbolize s' = rs_symbolize s \<and> rs_freeze s' = rs_freeze s \<and>
     rs_max_nesting s' = rs_max_nesting s \<and>
     rs_allow_duplicate_key s' = rs_allow_duplicate_key s \<and> cache_ok vm s' \<and>
     (rs_symbolize s \<longrightarrow> rs_key_shadow s' = rs_key_shadow s)"

lemma cache_ok_cong:
  "rs_keys s' = rs_keys s \<Longrightarrow> rs_key_shadow s' = rs_key_shadow s \<Longrightarrow> rs_symbolize s' = rs_symbolize s \<Longrightarrow>
     cache_ok vm s' = cache_ok vm s"
  by (simp add: cache_ok_def)

lemma cache_ok_fields [simp]:
  "cache_ok vm (s\<lparr>rs_stack := st\<rparr>) = cache_ok vm s"
  "cache_ok vm (s\<lparr>rs_depth := dp\<rparr>) = cache_ok vm s"
  by (simp_all add: cache_ok_def)

lemma push_kept: "cache_ok vm s \<Longrightarrow> push_raw v s = Inr s' \<Longrightarrow>
    kept vm s s' [v] \<and> Suc (length (rs_stack s)) \<le> SINK_STACK_MAX"
  by (auto simp: push_raw_def kept_def split: if_splits)

lemma push_fits: "length (rs_stack s) < SINK_STACK_MAX \<Longrightarrow> is_ok (push_raw v s)"
  by (simp add: push_raw_def)

lemma ruby_key_kept:
  assumes "cache_ok vm s" and "feed (RubyValueSink vm) (key_event key) (s, ms) = Inr st"
  shows "\<exists>s'. st = (s', ms) \<and> text_key key \<and>
    kept vm s s' [key_value vm (rs_symbolize s) (key_text key)] \<and> Suc (length (rs_stack s)) \<le> SINK_STACK_MAX"
proof (cases key)
  case (DKey b)
  from ruby_key_push [OF assms(1), of b] obtain m sh where
    "ruby_key vm b s = push_raw (key_value vm (rs_symbolize s) b) (s\<lparr>rs_keys := m, rs_key_shadow := sh\<rparr>)"
    and c: "cache_ok vm (s\<lparr>rs_keys := m, rs_key_shadow := sh\<rparr>)"
      "rs_symbolize s \<longrightarrow> sh = rs_key_shadow s" by blast
  with assms(2) DKey push_kept [OF c(1)] show ?thesis
    by (auto simp: RubyValueSink_def map_ok_tryr tryr_Inr_iff kept_def)
next
  case (DKeyBytes b)
  with assms(2) show ?thesis by (simp add: RubyValueSink_def)
qed

lemma ruby_key_fits:
  assumes "cache_ok vm s" and "length (rs_stack s) < SINK_STACK_MAX"
  shows "is_ok (ruby_key vm b s)"
proof -
  from ruby_key_push [OF assms(1), of b] obtain m sh where
    "ruby_key vm b s = push_raw (key_value vm (rs_symbolize s) b) (s\<lparr>rs_keys := m, rs_key_shadow := sh\<rparr>)" by blast
  with assms(2) show ?thesis by (simp add: push_raw_def)
qed

abbreviation val :: "'v vm \<Rightarrow> 'v ruby_sink \<Rightarrow> doc \<Rightarrow> 'v" where
  "val vm s d \<equiv> value_of vm (rs_symbolize s) (rs_freeze s) d"

definition room :: "'v ruby_sink \<Rightarrow> nat \<Rightarrow> nat \<Rightarrow> bool" where
  "room s deep slots \<longleftrightarrow> rs_depth s + deep \<le> rs_max_nesting s \<and> length (rs_stack s) + slots \<le> SINK_STACK_MAX"

lemmas room_simps = room_def nat_add_max_right

lemma leaf_step:
  assumes "feed (RubyValueSink vm) e (s, ms) = map_ok (\<lambda>s. (s, ms)) (push_raw v s)"
    and "run (RubyValueSink vm) [e] (s, ms) = Inr st" and "cache_ok vm s"
  shows "\<exists>s'. st = (s', ms) \<and> kept vm s s' [v] \<and> Suc (length (rs_stack s)) \<le> SINK_STACK_MAX"
  using assms push_kept [OF assms(3), of v] by (auto simp: map_ok_tryr tryr_Inr_iff)

lemma ruby_sound:
  assumes "vm_law vm"
  shows
  "run (RubyValueSink vm) (events d) (s, ms) = Inr st \<Longrightarrow> cache_ok vm s \<Longrightarrow> rs_depth s \<le> rs_max_nesting s \<Longrightarrow>
     length (rs_stack s) \<le> SINK_STACK_MAX \<Longrightarrow>
     (\<exists>s'. st = (s', ms) \<and> kept vm s s' [val vm s d]) \<and>
     doc_all (ruby_takes (rs_allow_duplicate_key s)) d \<and> room s (nesting d) (need d)"
  "run (RubyValueSink vm) (events_elems ds) (s, ms) = Inr st \<Longrightarrow> cache_ok vm s \<Longrightarrow> rs_depth s \<le> rs_max_nesting s \<Longrightarrow>
     length (rs_stack s) \<le> SINK_STACK_MAX \<Longrightarrow>
     (\<exists>s'. st = (s', ms) \<and> kept vm s s' (values_of vm (rs_symbolize s) (rs_freeze s) ds)) \<and>
     doc_all_elems (ruby_takes (rs_allow_duplicate_key s)) ds \<and> room s (nesting_elems ds) (need_elems ds)"
  "run (RubyValueSink vm) (events_members kvs) (s, ms) = Inr st \<Longrightarrow> cache_ok vm s \<Longrightarrow> rs_depth s \<le> rs_max_nesting s \<Longrightarrow>
     length (rs_stack s) \<le> SINK_STACK_MAX \<Longrightarrow>
     (\<exists>s'. st = (s', ms) \<and> kept vm s s' (pairs_of vm (rs_symbolize s) (rs_freeze s) kvs)) \<and>
     doc_all_members (ruby_takes (rs_allow_duplicate_key s)) kvs \<and> (\<forall>kv \<in> set kvs. text_key (fst kv)) \<and>
     room s (nesting_members kvs) (need_members kvs)"
proof (induction d and ds and kvs arbitrary: s ms st and s ms st and s ms st
    rule: events_events_elems_events_members.induct)
  case 1
  then show ?case using leaf_step [of vm EvNull s ms "vm_nil vm" st]
    by (auto simp: RubyValueSink_def room_simps)
next
  case (2 b)
  then show ?case using leaf_step [of vm "EvBool b" s ms "if b then vm_true vm else vm_false vm" st]
    by (auto simp: RubyValueSink_def room_simps)
next
  case (3 i)
  then show ?case using leaf_step [of vm "EvInt i" s ms "vm_ll2inum vm i" st] int_to_raw_law [OF assms]
    by (auto simp: RubyValueSink_def room_simps)
next
  case (4 f)
  then show ?case using leaf_step [of vm "EvFloat f" s ms "vm_float vm f" st]
    by (auto simp: RubyValueSink_def room_simps)
next
  case (5 b)
  then have "0 \<notin> set b" by (auto simp: RubyValueSink_def ruby_big_int_def split: if_splits)
  with 5 show ?case using leaf_step [of vm "EvBigInt b" s ms "vm_cstr2inum vm b" st]
    by (auto simp: RubyValueSink_def ruby_big_int_def room_simps)
next
  case (6 b)
  then show ?case
    using leaf_step [of vm "EvStr b" s ms "if rs_freeze s then vm_interned_str vm b else vm_utf8_str vm b" st]
    by (auto simp: RubyValueSink_def ruby_str_def room_simps)
next
  case (7 b)
  then show ?case by (simp add: RubyValueSink_def)
next
  case (8 ds)
  from "8.prems"(1) obtain s1 s2 where b: "enter_container s = Inr s1"
    and r: "run (RubyValueSink vm) (events_elems ds) (s1, length (rs_stack s1) # ms) = Inr s2"
    and e: "feed (RubyValueSink vm) (EvEndArray (length ds)) s2 = Inr st"
    by (auto simp: run_append map_ok_tryr tryr_Inr_iff RubyValueSink_def)
  have s1: "s1 = s\<lparr>rs_depth := Suc (rs_depth s)\<rparr>" "rs_depth s < rs_max_nesting s"
    using b by (auto simp: enter_container_def Let_def split: if_splits)
  from "8.IH" [OF r] s1 "8.prems" obtain t where t: "s2 = (t, length (rs_stack s) # ms)"
      "kept vm s1 t (values_of vm (rs_symbolize s) (rs_freeze s) ds)"
    and d: "doc_all_elems (ruby_takes (rs_allow_duplicate_key s)) ds" "room s1 (nesting_elems ds) (need_elems ds)"
    by auto
  let ?t = "t\<lparr>rs_depth := rs_depth t - 1, rs_stack := take (length (rs_stack s)) (rs_stack t)\<rparr>"
  let ?v = "frozen vm (rs_freeze s) (vm_array vm (values_of vm (rs_symbolize s) (rs_freeze s) ds))"
  from e t(1) obtain s' where st: "st = (s', ms)" and p: "push_raw ?v ?t = Inr s'"
    using t(2) s1 by (auto simp: RubyValueSink_def ruby_end_array_def Let_def map_ok_tryr tryr_Inr_iff kept_def)
  have "cache_ok vm ?t" using t(2) by (simp add: kept_def)
  from push_kept [OF this p] t(2) s1 d st show ?case
    by (simp add: kept_def room_simps)
next
  case (9 kvs)
  from "9.prems"(1) obtain s1 s2 where b: "enter_container s = Inr s1"
    and r: "run (RubyValueSink vm) (events_members kvs) (s1, length (rs_stack s1) # ms) = Inr s2"
    and e: "feed (RubyValueSink vm) (EvEndObject (length kvs)) s2 = Inr st"
    by (auto simp: run_append map_ok_tryr tryr_Inr_iff RubyValueSink_def)
  have s1: "s1 = s\<lparr>rs_depth := Suc (rs_depth s)\<rparr>" "rs_depth s < rs_max_nesting s"
    using b by (auto simp: enter_container_def Let_def split: if_splits)
  from "9.IH" [OF r] s1 "9.prems" obtain t where t: "s2 = (t, length (rs_stack s) # ms)"
      "kept vm s1 t (pairs_of vm (rs_symbolize s) (rs_freeze s) kvs)"
    and d: "doc_all_members (ruby_takes (rs_allow_duplicate_key s)) kvs" "\<forall>kv \<in> set kvs. text_key (fst kv)"
      "room s1 (nesting_members kvs) (need_members kvs)"
    by auto
  let ?t = "t\<lparr>rs_depth := rs_depth t - 1, rs_stack := take (length (rs_stack s)) (rs_stack t)\<rparr>"
  let ?v = "frozen vm (rs_freeze s) (vm_hash vm (pairs_of vm (rs_symbolize s) (rs_freeze s) kvs))"
  have drp: "drop (length (rs_stack s)) (rs_stack t) = pairs_of vm (rs_symbolize s) (rs_freeze s) kvs"
    and fr: "rs_freeze t = rs_freeze s" "rs_allow_duplicate_key t = rs_allow_duplicate_key s"
    using t(2) s1 by (simp_all add: kept_def)
  have size: "(vm_hash_size vm ?v < length kvs) = (\<not> distinct (texts kvs))"
    by (rule hash_size_pairs [OF assms])
  from e t(1) obtain s' where st: "st = (s', ms)" and p: "push_raw ?v ?t = Inr s'"
    and dup: "rs_allow_duplicate_key s \<or> distinct (texts kvs)"
    by (auto simp: RubyValueSink_def ruby_end_object_def Let_def map_ok_tryr tryr_Inr_iff drp fr size
        split: if_splits)
  have "cache_ok vm ?t" using t(2) by (simp add: kept_def)
  from push_kept [OF this p] t(2) s1 d st dup show ?case
    by (simp add: kept_def room_simps)
next
  case (11 d ds)
  from "11.prems"(1) obtain s1 where r1: "run (RubyValueSink vm) (events d) (s, ms) = Inr s1"
    and r2: "run (RubyValueSink vm) (events_elems ds) s1 = Inr st"
    by (auto simp: run_append tryr_Inr_iff)
  from "11.IH"(1) [OF r1 "11.prems"(2,3,4)] obtain t where
    t: "s1 = (t, ms)" "kept vm s t [val vm s d]" "doc_all (ruby_takes (rs_allow_duplicate_key s)) d"
      "room s (nesting d) (need d)" by blast
  have "length (rs_stack t) \<le> SINK_STACK_MAX"
    using t(2,4) need_pos [of d] by (auto simp: kept_def room_simps)
  with "11.IH"(2) [of t ms st] r2 t "11.prems"(2,3) show ?case
    by (auto simp: kept_def room_simps)
next
  case (13 key d kvs)
  from "13.prems"(1) obtain s0 s1 where r0: "feed (RubyValueSink vm) (key_event key) (s, ms) = Inr s0"
    and r1: "run (RubyValueSink vm) (events d) s0 = Inr s1"
    and r2: "run (RubyValueSink vm) (events_members kvs) s1 = Inr st"
    by (auto simp: run_append tryr_Inr_iff)
  from ruby_key_kept [OF "13.prems"(2) r0] obtain u where u: "s0 = (u, ms)" "text_key key"
    "kept vm s u [key_value vm (rs_symbolize s) (key_text key)]" "Suc (length (rs_stack s)) \<le> SINK_STACK_MAX"
    by blast
  from u(3,4) "13.prems"(3) have u': "cache_ok vm u" "rs_depth u \<le> rs_max_nesting u"
    "length (rs_stack u) \<le> SINK_STACK_MAX" by (simp_all add: kept_def)
  from "13.IH"(1) [OF _ u', of ms s1] r1 u(1) obtain t where
    t: "s1 = (t, ms)" "kept vm u t [val vm u d]" "doc_all (ruby_takes (rs_allow_duplicate_key u)) d"
      "room u (nesting d) (need d)" by blast
  have k: "kept vm s t [key_value vm (rs_symbolize s) (key_text key), val vm s d]"
    and a: "rs_allow_duplicate_key u = rs_allow_duplicate_key s"
    using u(3) t(2) by (simp_all add: kept_def)
  have t': "cache_ok vm t" "rs_depth t \<le> rs_max_nesting t" "length (rs_stack t) \<le> SINK_STACK_MAX"
    using k t(4) u(3) need_pos [of d] "13.prems"(3) by (simp_all add: kept_def room_simps)
  from "13.IH"(2) [OF _ t', of ms st] r2 t(1) obtain w where
    w: "st = (w, ms)" "kept vm t w (pairs_of vm (rs_symbolize t) (rs_freeze t) kvs)"
      "doc_all_members (ruby_takes (rs_allow_duplicate_key t)) kvs" "\<forall>kv \<in> set kvs. text_key (fst kv)"
      "room t (nesting_members kvs) (need_members kvs)" by blast
  show ?case
    using k w t(3,4) u(2,3) a by (simp add: kept_def room_simps)
qed (auto simp: kept_def room_simps)

lemma ruby_complete:
  assumes "vm_law vm"
  shows
  "doc_all (ruby_takes (rs_allow_duplicate_key s)) d \<Longrightarrow> room s (nesting d) (need d) \<Longrightarrow> cache_ok vm s \<Longrightarrow>
     is_ok (run (RubyValueSink vm) (events d) (s, ms))"
  "doc_all_elems (ruby_takes (rs_allow_duplicate_key s)) ds \<Longrightarrow> room s (nesting_elems ds) (need_elems ds) \<Longrightarrow>
     cache_ok vm s \<Longrightarrow> is_ok (run (RubyValueSink vm) (events_elems ds) (s, ms))"
  "doc_all_members (ruby_takes (rs_allow_duplicate_key s)) kvs \<Longrightarrow> room s (nesting_members kvs) (need_members kvs) \<Longrightarrow>
     cache_ok vm s \<Longrightarrow> \<forall>kv \<in> set kvs. text_key (fst kv) \<Longrightarrow>
     is_ok (run (RubyValueSink vm) (events_members kvs) (s, ms))"
proof (induction d and ds and kvs arbitrary: s ms and s ms and s ms
    rule: events_events_elems_events_members.induct)
  case (8 ds)
  let ?s = "s\<lparr>rs_depth := Suc (rs_depth s)\<rparr>"
  have b: "enter_container s = Inr ?s" using "8.prems"(2) by (simp add: enter_container_def room_simps)
  have rm: "room ?s (nesting_elems ds) (need_elems ds)" using "8.prems"(2) by (simp add: room_simps)
  have "is_ok (run (RubyValueSink vm) (events_elems ds) (?s, length (rs_stack ?s) # ms))"
    by (rule "8.IH") (use "8.prems"(1,3) rm in auto)
  then obtain s2 where r: "run (RubyValueSink vm) (events_elems ds) (?s, length (rs_stack ?s) # ms) = Inr s2"
    by (auto simp: is_ok_iff)
  from ruby_sound(2) [OF assms r] "8.prems" rm obtain t where t: "s2 = (t, length (rs_stack s) # ms)"
    "kept vm ?s t (values_of vm (rs_symbolize s) (rs_freeze s) ds)" by (auto simp: room_simps)
  have "length (rs_stack s) < SINK_STACK_MAX" using "8.prems"(2) by (simp add: room_simps)
  with b r t show ?case
    by (simp add: run_append RubyValueSink_def ruby_end_array_def Let_def push_raw_def kept_def)
next
  case (9 kvs)
  let ?s = "s\<lparr>rs_depth := Suc (rs_depth s)\<rparr>"
  have b: "enter_container s = Inr ?s" using "9.prems"(2) by (simp add: enter_container_def room_simps)
  have rm: "room ?s (nesting_members kvs) (need_members kvs)" using "9.prems"(2) by (simp add: room_simps)
  have "is_ok (run (RubyValueSink vm) (events_members kvs) (?s, length (rs_stack ?s) # ms))"
    by (rule "9.IH") (use "9.prems"(1,3) rm in auto)
  then obtain s2 where r: "run (RubyValueSink vm) (events_members kvs) (?s, length (rs_stack ?s) # ms) = Inr s2"
    by (auto simp: is_ok_iff)
  from ruby_sound(3) [OF assms r] "9.prems" rm obtain t where t: "s2 = (t, length (rs_stack s) # ms)"
    "kept vm ?s t (pairs_of vm (rs_symbolize s) (rs_freeze s) kvs)" by (auto simp: room_simps)
  have "length (rs_stack s) < SINK_STACK_MAX" using "9.prems"(2) by (simp add: room_simps)
  with b r t "9.prems"(1) show ?case
    by (auto simp: run_append RubyValueSink_def ruby_end_object_def Let_def push_raw_def kept_def
        hash_size_pairs [OF assms])
next
  case (11 d ds)
  then have "is_ok (run (RubyValueSink vm) (events d) (s, ms))" by (simp add: room_simps)
  then obtain s1 where r: "run (RubyValueSink vm) (events d) (s, ms) = Inr s1" by (auto simp: is_ok_iff)
  from ruby_sound(1) [OF assms r] "11.prems" obtain t where t: "s1 = (t, ms)" "kept vm s t [val vm s d]"
    by (auto simp: room_simps)
  have "is_ok (run (RubyValueSink vm) (events_elems ds) (t, ms))"
    by (rule "11.IH"(2)) (use "11.prems" t in \<open>auto simp: kept_def room_simps\<close>)
  with r t show ?case by (simp add: run_append)
next
  case (13 key d kvs)
  then obtain b where key: "key = DKey b" by (cases key) auto
  have "length (rs_stack s) < SINK_STACK_MAX" using "13.prems"(2) by (simp add: room_simps)
  from ruby_key_fits [OF "13.prems"(3) this, of b] obtain u where u: "ruby_key vm b s = Inr u"
    by (auto simp: is_ok_iff)
  then have f: "feed (RubyValueSink vm) (key_event key) (s, ms) = Inr (u, ms)"
    using key by (simp add: RubyValueSink_def)
  from ruby_key_kept [OF "13.prems"(3) f] key
  have k: "kept vm s u [key_value vm (rs_symbolize s) b]" by simp
  have u': "room u (nesting d) (need d)" "cache_ok vm u" "rs_allow_duplicate_key u = rs_allow_duplicate_key s"
    using k "13.prems"(2) by (auto simp: kept_def room_simps)
  then have "is_ok (run (RubyValueSink vm) (events d) (u, ms))"
    by (intro "13.IH"(1)) (use "13.prems" in auto)
  then obtain s1 where r: "run (RubyValueSink vm) (events d) (u, ms) = Inr s1" by (auto simp: is_ok_iff)
  from ruby_sound(1) [OF assms r] u' obtain t where t: "s1 = (t, ms)" "kept vm u t [val vm u d]"
    by (auto simp: room_simps)
  have "rs_allow_duplicate_key t = rs_allow_duplicate_key s" "room t (nesting_members kvs) (need_members kvs)"
    "cache_ok vm t"
    using k t(2) "13.prems"(2) by (auto simp: kept_def room_simps)
  then have "is_ok (run (RubyValueSink vm) (events_members kvs) (t, ms))"
    by (intro "13.IH"(2)) (use "13.prems" in auto)
  with r t f show ?case by (simp add: run_append)
qed (auto simp: RubyValueSink_def push_raw_def ruby_big_int_def ruby_str_def room_simps)

text \<open>A document that only its keys can disqualify is refused, if at all, as a duplicate key.\<close>

lemma push_never: "length (rs_stack s) < SINK_STACK_MAX \<Longrightarrow> push_raw v s \<noteq> Inl a"
  by (simp add: push_raw_def)

lemma ruby_refusal:
  assumes "vm_law vm"
  shows
  "run (RubyValueSink vm) (events d) (s, ms) = Inl a \<Longrightarrow> doc_all (ruby_takes True) d \<Longrightarrow>
     room s (nesting d) (need d) \<Longrightarrow> cache_ok vm s \<Longrightarrow> a = DuplicateKey"
  "run (RubyValueSink vm) (events_elems ds) (s, ms) = Inl a \<Longrightarrow> doc_all_elems (ruby_takes True) ds \<Longrightarrow>
     room s (nesting_elems ds) (need_elems ds) \<Longrightarrow> cache_ok vm s \<Longrightarrow> a = DuplicateKey"
  "run (RubyValueSink vm) (events_members kvs) (s, ms) = Inl a \<Longrightarrow> doc_all_members (ruby_takes True) kvs \<Longrightarrow>
     room s (nesting_members kvs) (need_members kvs) \<Longrightarrow> cache_ok vm s \<Longrightarrow>
     \<forall>kv \<in> set kvs. text_key (fst kv) \<Longrightarrow> a = DuplicateKey"
proof (induction d and ds and kvs arbitrary: s ms and s ms and s ms
    rule: events_events_elems_events_members.induct)
  case (8 ds)
  let ?s = "s\<lparr>rs_depth := Suc (rs_depth s)\<rparr>"
  have b: "enter_container s = Inr ?s" using "8.prems"(3) by (simp add: enter_container_def room_def)
  have rm: "room ?s (nesting_elems ds) (need_elems ds)" using "8.prems"(3) by (simp add: room_simps)
  from "8.prems"(1) b consider
      "run (RubyValueSink vm) (events_elems ds) (?s, length (rs_stack s) # ms) = Inl a"
    | s2 where "run (RubyValueSink vm) (events_elems ds) (?s, length (rs_stack s) # ms) = Inr s2"
        "feed (RubyValueSink vm) (EvEndArray (length ds)) s2 = Inl a"
    by (auto simp: run_append tryr_Inl_iff RubyValueSink_def)
  then show ?case
  proof cases
    case 1
    then show ?thesis using "8.prems" rm by (intro "8.IH" [OF 1]) auto
  next
    case 2
    from ruby_sound(2) [OF assms 2(1)] "8.prems" rm obtain t where t: "s2 = (t, length (rs_stack s) # ms)"
      "kept vm ?s t (values_of vm (rs_symbolize s) (rs_freeze s) ds)" by (auto simp: room_simps)
    have "length (rs_stack s) < SINK_STACK_MAX" using "8.prems"(3) by (simp add: room_simps)
    with 2(2) t show ?thesis
      by (simp add: RubyValueSink_def ruby_end_array_def Let_def push_raw_def kept_def)
  qed
next
  case (9 kvs)
  let ?s = "s\<lparr>rs_depth := Suc (rs_depth s)\<rparr>"
  have b: "enter_container s = Inr ?s" using "9.prems"(3) by (simp add: enter_container_def room_def)
  have rm: "room ?s (nesting_members kvs) (need_members kvs)" using "9.prems"(3) by (simp add: room_simps)
  from "9.prems"(1) b consider
      "run (RubyValueSink vm) (events_members kvs) (?s, length (rs_stack s) # ms) = Inl a"
    | s2 where "run (RubyValueSink vm) (events_members kvs) (?s, length (rs_stack s) # ms) = Inr s2"
        "feed (RubyValueSink vm) (EvEndObject (length kvs)) s2 = Inl a"
    by (auto simp: run_append tryr_Inl_iff RubyValueSink_def)
  then show ?case
  proof cases
    case 1
    then show ?thesis using "9.prems" rm by (intro "9.IH" [OF 1]) auto
  next
    case 2
    from ruby_sound(3) [OF assms 2(1)] "9.prems" rm obtain t where t: "s2 = (t, length (rs_stack s) # ms)"
      "kept vm ?s t (pairs_of vm (rs_symbolize s) (rs_freeze s) kvs)" by (auto simp: room_simps)
    have "length (rs_stack s) < SINK_STACK_MAX" using "9.prems"(3) by (simp add: room_simps)
    with 2(2) t show ?thesis
      by (auto simp: RubyValueSink_def ruby_end_object_def Let_def push_raw_def kept_def split: if_splits)
  qed
next
  case (11 d ds)
  from "11.prems"(1) consider "run (RubyValueSink vm) (events d) (s, ms) = Inl a"
    | s1 where "run (RubyValueSink vm) (events d) (s, ms) = Inr s1" "run (RubyValueSink vm) (events_elems ds) s1 = Inl a"
    by (auto simp: run_append tryr_Inl_iff)
  then show ?case
  proof cases
    case 1
    then show ?thesis using "11.prems" by (intro "11.IH"(1) [OF 1]) (auto simp: room_simps)
  next
    case 2
    from ruby_sound(1) [OF assms 2(1)] "11.prems" obtain t where t: "s1 = (t, ms)" "kept vm s t [val vm s d]"
      by (auto simp: room_simps)
    with 2(2) "11.prems" show ?thesis by (intro "11.IH"(2) [of t ms]) (auto simp: kept_def room_simps)
  qed
next
  case (13 key d kvs)
  then obtain b where key: "key = DKey b" by (cases key) auto
  have "length (rs_stack s) < SINK_STACK_MAX" using "13.prems"(3) by (simp add: room_simps)
  from ruby_key_fits [OF "13.prems"(4) this, of b] obtain u where u: "ruby_key vm b s = Inr u"
    by (auto simp: is_ok_iff)
  then have f: "feed (RubyValueSink vm) (key_event key) (s, ms) = Inr (u, ms)"
    using key by (simp add: RubyValueSink_def)
  from ruby_key_kept [OF "13.prems"(4) f] key
  have k: "kept vm s u [key_value vm (rs_symbolize s) b]" by simp
  have u': "room u (nesting d) (need d)" "cache_ok vm u"
    using k "13.prems"(3) by (auto simp: kept_def room_simps)
  from "13.prems"(1) f consider "run (RubyValueSink vm) (events d) (u, ms) = Inl a"
    | s1 where "run (RubyValueSink vm) (events d) (u, ms) = Inr s1" "run (RubyValueSink vm) (events_members kvs) s1 = Inl a"
    by (auto simp: run_append tryr_Inl_iff)
  then show ?case
  proof cases
    case 1
    then show ?thesis using "13.prems" u' by (intro "13.IH"(1) [OF 1]) auto
  next
    case 2
    from ruby_sound(1) [OF assms 2(1)] u' obtain t where t: "s1 = (t, ms)" "kept vm u t [val vm u d]"
      by (auto simp: room_simps)
    have "room t (nesting_members kvs) (need_members kvs)" "cache_ok vm t"
      using k t(2) "13.prems"(3) by (auto simp: kept_def room_simps)
    with 2(2) t "13.prems" show ?thesis by (intro "13.IH"(2) [of t ms]) auto
  qed
qed (auto simp: RubyValueSink_def push_raw_def ruby_big_int_def ruby_str_def room_simps)

text \<open>
  A drive from an empty stack with good caches: the documents taken, and the stack and caches
  it leaves.
\<close>

lemma ruby_drive:
  assumes "vm_law vm" and "scans_as prs input po d" and "cache_ok vm s"
    and "rs_stack s = []" and "rs_depth s = 0"
  shows "is_ok (drive prs (RubyValueSink vm) input po s) \<longleftrightarrow>
      doc_all (ruby_takes (rs_allow_duplicate_key s)) d \<and> room s (nesting d) (need d)"
    and "drive prs (RubyValueSink vm) input po s = Inr s' \<Longrightarrow> kept vm s s' [val vm s d]"
proof -
  have ok: "is_ok (drive prs (RubyValueSink vm) input po s) = is_ok (run (RubyValueSink vm) (events d) (s, []))"
    using assms(2) by (cases "run (RubyValueSink vm) (events d) (s, [])") (auto simp: drive_scans)
  have room0: "rs_depth s \<le> rs_max_nesting s" "length (rs_stack s) \<le> SINK_STACK_MAX"
    using assms(4,5) by simp_all
  show "is_ok (drive prs (RubyValueSink vm) input po s) \<longleftrightarrow>
      doc_all (ruby_takes (rs_allow_duplicate_key s)) d \<and> room s (nesting d) (need d)"
    using ok ruby_sound(1) [OF assms(1) _ assms(3) room0] ruby_complete(1) [OF assms(1) _ _ assms(3)]
    by (auto simp: is_ok_iff)
  assume "drive prs (RubyValueSink vm) input po s = Inr s'"
  then obtain st where "run (RubyValueSink vm) (events d) (s, []) = Inr st" "s' = fst st"
    using assms(2) by (cases "run (RubyValueSink vm) (events d) (s, [])") (auto simp: drive_scans)
  with ruby_sound(1) [OF assms(1) _ assms(3) room0] show "kept vm s s' [val vm s d]" by fastforce
qed

lemma ruby_drive_refusal:
  assumes "vm_law vm" and "scans_as prs input po d" and "cache_ok vm s"
    and "doc_all (ruby_takes True) d" and "room s (nesting d) (need d)"
    and "drive prs (RubyValueSink vm) input po s = Inl err"
  shows "err = SinkErr DuplicateKey"
  using assms ruby_refusal(1) [OF assms(1), of d s "[]"]
  by (cases "run (RubyValueSink vm) (events d) (s, [])") (auto simp: drive_scans)

end
