(* ===== verification/Samples.thy ===== *)
theory Samples
  imports Ruby_Sink
begin

text \<open>
  Concrete instances of the parameters of the model, for the theorems that apply a property to
  a particular input: a Ruby VM whose values are terms, with its law proved, and a parser that
  knows one document.
\<close>

section \<open>A VM of terms\<close>

datatype term_value =
    TNil | TTrue | TFalse | TInt int | TFloat f64 | TBig bytes | TStr bytes | TInterned bytes
  | TSymbol bytes | TArray "term_value list" | THash "term_value list" | TFrozen term_value

fun evens :: "'a list \<Rightarrow> 'a list" where
  "evens (x # y # zs) = x # evens zs"
| "evens [x] = [x]"
| "evens [] = []"

fun term_hash_size :: "term_value \<Rightarrow> nat" where
  "term_hash_size (THash vs) = card (set (evens vs))"
| "term_hash_size (TFrozen v) = term_hash_size v"
| "term_hash_size _ = 0"

definition term_vm :: "term_value vm" where
  "term_vm =
     \<lparr>vm_nil = TNil, vm_true = TTrue, vm_false = TFalse, vm_long_bits = 64, vm_long2num = TInt, vm_ll2inum = TInt, vm_float = TFloat,
      vm_cstr2inum = TBig, vm_utf8_str = TStr, vm_interned_str = TInterned, vm_symbol = TSymbol,
      vm_array = TArray, vm_hash = THash, vm_freeze = TFrozen, vm_hash_size = term_hash_size\<rparr>"

lemma evens_pairs: "evens (concat (map (\<lambda>(k, v). [f k, v]) kvs)) = map (\<lambda>(k, v). f k) kvs"
  by (induction kvs) auto

lemma term_vm_law: "vm_law term_vm"
proof -
  have inj: "inj (key_value term_vm sy)" for sy
    by (rule injI) (auto simp: key_value_def term_vm_def split: if_splits)
  have "card (set (map (\<lambda>(k, v). key_value term_vm sy k) kvs)) = card (set (map fst kvs))"
    for sy and kvs :: "(bytes \<times> term_value) list"
  proof -
    have "set (map (\<lambda>(k, v). key_value term_vm sy k) kvs) = key_value term_vm sy ` set (map fst kvs)"
      by (force simp: image_iff)
    then show ?thesis using card_image [OF inj_on_subset [OF inj subset_UNIV]] by metis
  qed
  then show ?thesis
    by (auto simp: vm_law_def frozen_def evens_pairs) (simp_all add: term_vm_def evens_pairs)
qed

section \<open>One document\<close>

definition sample_text :: bytes where
  "sample_text = asc ''[{'' @ [b_quote, 0x61, b_quote] @ asc '':1,'' @ [b_quote, 0x61, b_quote] @ asc '':2}]''"

definition sample_scan :: scanner where
  "sample_scan = (\<lambda>input gr.
     if input = sample_text then (events (strip sample_pdoc), None)
     else ([], Some \<lparr>pe_offset = 0, pe_kind = OtherKind ''unexpected byte''\<rparr>))"

lemma sample_scans: "scans_as sample_scan sample_text gr (strip sample_pdoc)"
  by (simp add: scans_as_def sample_scan_def)

lemma sample_scans_only: "scans_as sample_scan input gr d \<Longrightarrow> d = strip sample_pdoc \<and> input = sample_text"
  using scans_as_unique [OF _ sample_scans]
  by (auto simp: scans_as_def sample_scan_def split: if_splits)

end
