(* ===== verification/Parse.thy ===== *)
theory Parse
  imports Samples
begin

text \<open>
  The whole-document entry points of src/ext/nosj/src/parse.rs: \<open>parse_native\<close> (behind
  \<open>NOSJ.parse\<close>) and \<open>valid_native\<close> (behind \<open>NOSJ.valid?\<close>), with the input gate, the mapping
  of a drive's failure to the exception raised and the drive of the sinks that build no Hash.
  Everything outside the repository is the record \<open>env\<close>: the crate's parser and Reader, the
  Ruby VM, the fingerprint hash and the crate's text of a parse error.  The theorems say what
  \<open>parse\<close> returns, what it raises on a duplicate key, and that \<open>valid?\<close> is true exactly when
  \<open>parse\<close> succeeds.
\<close>

section \<open>Input\<close>

datatype encoding = Utf8 | UsAscii | OtherEncoding

record rstring =
  str_encoding :: encoding
  str_bytes :: bytes

text \<open>\<open>ENC_CODERANGE_BROKEN\<close>: the bytes are not valid in the string's encoding.\<close>

fun coderange_broken :: "rstring \<Rightarrow> bool" where
  "coderange_broken data =
     (case str_encoding data of
        Utf8 \<Rightarrow> \<not> valid_utf8 (str_bytes data)
      | UsAscii \<Rightarrow> \<not> list_all (\<lambda>b. b < 0x80) (str_bytes data)
      | OtherEncoding \<Rightarrow> False)"

definition parser_error :: "string \<Rightarrow> ruby_error" where
  "parser_error s = ParserError (msg s) None"

definition utf8_input :: "rstring \<Rightarrow> ruby_error + bytes" where
  "utf8_input data =
     (if str_encoding data \<noteq> Utf8 \<and> str_encoding data \<noteq> UsAscii
      then Inl (parser_error ''input must be UTF-8 encoded'')
      else if coderange_broken data then Inl (parser_error ''input is not valid UTF-8'')
      else Inr (str_bytes data))"

section \<open>Drives and their failures\<close>

record ('v, 'r) env =
  env_scan :: scanner
  env_reader :: "'r reader"
  env_vm :: "'v vm"
  env_fingerprint :: "bytes \<Rightarrow> u64"
  env_show :: "parse_error \<Rightarrow> message"

definition raised_at :: "bytes \<Rightarrow> nat \<Rightarrow> message \<Rightarrow> ruby_error" where
  "raised_at source offset m = ParserError m (Some (parser_error_at source offset))"

definition drive_error ::
  "('v, 'r) env \<Rightarrow> drive_error \<Rightarrow> parse_opts \<Rightarrow> bytes \<Rightarrow> nat \<times> nat \<Rightarrow> ruby_error" where
  "drive_error env failure po source = (\<lambda>(start, end).
     let driven = sub source start end
     in case failure of
       SinkErr Overflow \<Rightarrow> parser_error ''document too large''
     | SinkErr BadBigint \<Rightarrow> parser_error ''invalid bignum''
     | SinkErr TooDeep \<Rightarrow>
         NestingError (Fmt ''nesting of {} is too deep'' [ANat (min USIZE_MAX (max_nesting po + 1))])
     | SinkErr DuplicateKey \<Rightarrow>
         (case duplicate_key (env_reader env) driven (popts po) of
            Some (Found at key) \<Rightarrow>
              raised_at source (start + at) (Fmt ''duplicate key {} at byte {}'' [ABytes key, ANat at])
          | Some _ \<Rightarrow> parser_error ''duplicate key''
          | None \<Rightarrow> Hang)
     | SinkErr LoneSurrogate \<Rightarrow>
         (case first_walk_error (env_reader env) driven (popts po) of
            Some (Some e) \<Rightarrow> raised_at source (start + pe_offset e) (env_show env e)
          | Some None \<Rightarrow> parser_error ''lone UTF-16 surrogate''
          | None \<Rightarrow> Hang)
     | SinkErr (NonFiniteFloat spelling) \<Rightarrow>
         GeneratorError (Fmt ''{} not allowed in JSON'' [AText spelling])
     | SinkErr Diverged \<Rightarrow> Hang
     | ParseErr e \<Rightarrow> raised_at source (start + pe_offset e) (env_show env e))"

text \<open>
  The two drives of a document with the check on and off; with it off the table is not read.
\<close>

definition drive_hashless ::
  "('v, 'r) env \<Rightarrow> bytes \<Rightarrow> parse_opts \<Rightarrow> (bool \<Rightarrow> drive_error + 's) \<Rightarrow> drive_error + 's" where
  "drive_hashless env input po drv =
     (let result = drv (\<not> allow_duplicate_key po)
      in case result of
        Inl (SinkErr DuplicateKey) \<Rightarrow>
          (case duplicate_key (env_reader env) input (popts po) of
             None \<Rightarrow> Inl (SinkErr Diverged)
           | Some Absent \<Rightarrow> drv False
           | Some _ \<Rightarrow> result)
      | _ \<Rightarrow> result)"

section \<open>Entry points\<close>

text \<open>The pooled state a parse finds and leaves: both key caches, their shadow, the table.\<close>

record 'v pull_state =
  pl_keys :: "'v key_cache"
  pl_sym_keys :: "'v key_cache"
  pl_key_shadow :: "'v list"
  pl_table :: seen_table

definition finish_drive ::
  "('v, 'r) env \<Rightarrow> drive_error + 'v ruby_sink \<Rightarrow> parse_opts \<Rightarrow> bytes \<Rightarrow> nat \<times> nat \<Rightarrow> ruby_error + 'v" where
  "finish_drive env result po source span =
     map_ok (\<lambda>s. if rs_stack s = [] then vm_nil (env_vm env) else last (rs_stack s))
       (map_err (\<lambda>failure. drive_error env failure po source span) result)"

definition ruby_sink_for :: "'v pull_state \<Rightarrow> parse_opts \<Rightarrow> 'v ruby_sink" where
  "ruby_sink_for st po =
     \<lparr>rs_stack = [], rs_keys = (if symbolize po then pl_sym_keys st else pl_keys st),
      rs_key_shadow = pl_key_shadow st, rs_depth = 0, rs_symbolize = symbolize po,
      rs_freeze = freeze po, rs_max_nesting = max_nesting po,
      rs_allow_duplicate_key = allow_duplicate_key po\<rparr>"

definition store_caches :: "parse_opts \<Rightarrow> 'v ruby_sink \<Rightarrow> 'v pull_state \<Rightarrow> 'v pull_state" where
  "store_caches po s st =
     (if symbolize po then st\<lparr>pl_sym_keys := rs_keys s, pl_key_shadow := rs_key_shadow s\<rparr>
      else st\<lparr>pl_keys := rs_keys s, pl_key_shadow := rs_key_shadow s\<rparr>)"

definition materialize_at ::
  "('v, 'r) env \<Rightarrow> 'v pull_state \<Rightarrow> bytes \<Rightarrow> nat \<Rightarrow> nat \<Rightarrow> parse_opts \<Rightarrow> ruby_error + 'v \<times> 'v pull_state" where
  "materialize_at env st source start end po =
     (let result = drive (env_scan env) (RubyValueSink (env_vm env)) (sub source start end) (popts po)
                     (ruby_sink_for st po)
      in map_ok (\<lambda>v. (v, case result of Inr s \<Rightarrow> store_caches po s st | Inl _ \<Rightarrow> st))
           (finish_drive env result po source (start, end)))"

definition materialize ::
  "('v, 'r) env \<Rightarrow> 'v pull_state \<Rightarrow> bytes \<Rightarrow> parse_opts \<Rightarrow> ruby_error + 'v \<times> 'v pull_state" where
  "materialize env st source po = materialize_at env st source 0 (length source) po"

definition parse_native ::
  "('v, 'r) env \<Rightarrow> 'v pull_state \<Rightarrow> rstring \<Rightarrow> options_arg \<Rightarrow> ruby_error + 'v \<times> 'v pull_state" where
  "parse_native env st data opts =
     tryr (parse_native_opts opts) (\<lambda>po.
     tryr (utf8_input data) (\<lambda>input.
     materialize env st input po))"

definition valid_drive ::
  "('v, 'r) env \<Rightarrow> 'v pull_state \<Rightarrow> bytes \<Rightarrow> parse_opts \<Rightarrow> bool \<Rightarrow> drive_error + null_sink" where
  "valid_drive env st input po check_dups =
     drive (env_scan env) (NullSink (env_fingerprint env)) input (popts po)
       (null_sink_new (max_nesting po) (pl_table st) check_dups)"

definition valid_native ::
  "('v, 'r) env \<Rightarrow> 'v pull_state \<Rightarrow> rstring \<Rightarrow> options_arg \<Rightarrow> ruby_error + bool" where
  "valid_native env st data opts =
     tryr (parse_native_opts opts) (\<lambda>po.
     case utf8_input data of
       Inl _ \<Rightarrow> Inr False
     | Inr input \<Rightarrow> Inr (is_ok (drive_hashless env input po (valid_drive env st input po))))"

section \<open>The pooled state\<close>

definition pool_ok :: "'v vm \<Rightarrow> 'v pull_state \<Rightarrow> bool" where
  "pool_ok vm st \<longleftrightarrow>
     (\<forall>(k, v) \<in> set (pl_keys st). v = key_value vm False k) \<and> length (pl_keys st) \<le> KEY_CACHE_CAP \<and>
     (\<forall>(k, v) \<in> set (pl_sym_keys st). v = key_value vm True k) \<and> length (pl_sym_keys st) \<le> KEY_CACHE_CAP \<and>
     pl_key_shadow st = rev (map snd (pl_keys st)) \<and> table_ok (pl_table st)"

lemma pool_cache_ok: "pool_ok vm st \<Longrightarrow> cache_ok vm (ruby_sink_for st po)"
  by (auto simp: pool_ok_def cache_ok_def ruby_sink_for_def)

lemma store_caches_ok:
  "pool_ok vm st \<Longrightarrow> kept vm (ruby_sink_for st po) s' vs \<Longrightarrow> pool_ok vm (store_caches po s' st)"
  by (auto simp: pool_ok_def kept_def cache_ok_def ruby_sink_for_def store_caches_def)

section \<open>What parse returns\<close>

text \<open>The documents that \<open>parse\<close> takes under given options.\<close>

definition parse_accepts :: "parse_opts \<Rightarrow> doc \<Rightarrow> bool" where
  "parse_accepts po d \<longleftrightarrow> doc_all (ruby_takes (allow_duplicate_key po)) d \<and>
     nesting d \<le> max_nesting po \<and> need d \<le> SINK_STACK_MAX"

lemma room_start: "room (ruby_sink_for st po) n k \<longleftrightarrow> n \<le> max_nesting po \<and> k \<le> SINK_STACK_MAX"
  by (simp add: room_def ruby_sink_for_def)

lemma ruby_sink_for_fields [simp]:
  "rs_allow_duplicate_key (ruby_sink_for st po) = allow_duplicate_key po"
  "rs_symbolize (ruby_sink_for st po) = symbolize po" "rs_freeze (ruby_sink_for st po) = freeze po"
  "rs_stack (ruby_sink_for st po) = []" "rs_depth (ruby_sink_for st po) = 0"
  by (simp_all add: ruby_sink_for_def)

lemma materialize_accepted:
  assumes "vm_law (env_vm env)" and "pool_ok (env_vm env) st"
    and "scans_as (env_scan env) (sub source start end) (popts po) d" and "parse_accepts po d"
  shows "\<exists>st'. materialize_at env st source start end po =
      Inr (value_of (env_vm env) (symbolize po) (freeze po) d, st') \<and> pool_ok (env_vm env) st'"
proof -
  let ?s = "ruby_sink_for st po" and ?drive = "drive (env_scan env) (RubyValueSink (env_vm env))
    (sub source start end) (popts po) (ruby_sink_for st po)"
  have start: "rs_stack ?s = []" "rs_depth ?s = 0" by simp_all
  note rd = ruby_drive [OF assms(1,3) pool_cache_ok [OF assms(2)] start]
  have "is_ok ?drive" using rd(1) assms(4) by (simp add: parse_accepts_def room_start)
  then obtain s' where s': "?drive = Inr s'" by (auto simp: is_ok_iff)
  from rd(2) [OF s'] store_caches_ok [OF assms(2) rd(2) [OF s']] s' show ?thesis
    by (simp add: materialize_at_def finish_drive_def kept_def Let_def)
qed

lemma materialize_refused:
  assumes "vm_law (env_vm env)" and "pool_ok (env_vm env) st"
    and "scans_as (env_scan env) (sub source start end) (popts po) d" and "\<not> parse_accepts po d"
  shows "\<exists>failure. drive (env_scan env) (RubyValueSink (env_vm env)) (sub source start end) (popts po)
      (ruby_sink_for st po) = Inl failure \<and>
    materialize_at env st source start end po = Inl (drive_error env failure po source (start, end))"
proof -
  let ?s = "ruby_sink_for st po" and ?drive = "drive (env_scan env) (RubyValueSink (env_vm env))
    (sub source start end) (popts po) (ruby_sink_for st po)"
  have start: "rs_stack ?s = []" "rs_depth ?s = 0" by simp_all
  note rd = ruby_drive [OF assms(1,3) pool_cache_ok [OF assms(2)] start]
  have "\<not> is_ok ?drive" using rd(1) assms(4) by (simp add: parse_accepts_def room_start)
  then obtain failure where "?drive = Inl failure" by (auto simp: not_is_ok_iff)
  then show ?thesis by (simp add: materialize_at_def finish_drive_def Let_def)
qed

text \<open>
  C2.  On a document the crate's parser reads as \<open>d\<close>, \<open>parse\<close> returns the value of \<open>d\<close>
  (built compositionally, keys interned or symbolized, everything frozen with \<open>freeze\<close>) when
  the options and the limits admit \<open>d\<close>, and raises otherwise; the caches it finds do not
  influence the value, and it leaves them sound, bounded and shadowed for the GC.
\<close>

theorem parse_value:
  assumes "vm_law (env_vm env)" and "pool_ok (env_vm env) st"
    and "parse_native_opts opts = Inr po" and "utf8_input data = Inr input"
    and "scans_as (env_scan env) input (popts po) d"
  shows "if parse_accepts po d
    then \<exists>st'. parse_native env st data opts =
           Inr (value_of (env_vm env) (symbolize po) (freeze po) d, st') \<and> pool_ok (env_vm env) st'
    else \<not> is_ok (parse_native env st data opts)"
proof -
  have whole: "sub input 0 (length input) = input" by (simp add: sub_def)
  have p: "parse_native env st data opts = materialize_at env st input 0 (length input) po"
    using assms(3,4) by (simp add: parse_native_def materialize_def)
  have "scans_as (env_scan env) (sub input 0 (length input)) (popts po) d"
    using assms(5) by (simp add: whole)
  from materialize_accepted [OF assms(1,2) this] materialize_refused [OF assms(1,2) this] p
  show ?thesis by fastforce
qed

definition sample_env :: "(term_value, nat) env" where
  "sample_env =
     \<lparr>env_scan = sample_scan, env_reader = sample_reader, env_vm = term_vm,
      env_fingerprint = (\<lambda>_. 0), env_show = (\<lambda>e. msg ''parse error'')\<rparr>"

definition fresh_pull_state :: "'v pull_state" where
  "fresh_pull_state = \<lparr>pl_keys = [], pl_sym_keys = [], pl_key_shadow = [], pl_table = seen_table_default\<rparr>"

lemma fresh_pool_ok: "pool_ok vm fresh_pull_state"
  by (simp add: pool_ok_def fresh_pull_state_def table_ok_default)

lemma sample_env_fields [simp]:
  "env_scan sample_env = sample_scan" "env_reader sample_env = sample_reader"
  "env_vm sample_env = term_vm"
  by (simp_all add: sample_env_def)

abbreviation sample_string :: rstring where
  "sample_string \<equiv> \<lparr>str_encoding = UsAscii, str_bytes = sample_text\<rparr>"

lemma sample_input: "utf8_input sample_string = Inr sample_text"
  by (simp add: utf8_input_def sample_text_def asc_def)

lemma sample_strip: "strip sample_pdoc =
    DArray [DObject [(DKey (asc ''a''), DInt 1), (DKey (asc ''a''), DInt 2)]]"
  by (simp add: sample_pdoc_def)

theorem parse_value_witness:
  "\<exists>st'. parse_native sample_env fresh_pull_state sample_string
       (OHash [(KSym ''allow_duplicate_key'', RTrue)]) =
     Inr (TArray [THash [TInterned (asc ''a''), TInt 1, TInterned (asc ''a''), TInt 2]], st') \<and>
     pool_ok term_vm st'"
proof -
  let ?po = "parse_opts_default\<lparr>allow_duplicate_key := True\<rparr>"
  have acc: "parse_accepts ?po (strip sample_pdoc)"
    by (simp add: parse_accepts_def sample_strip parse_opts_default_def)
  have v: "value_of term_vm (symbolize ?po) (freeze ?po) (strip sample_pdoc)
      = TArray [THash [TInterned (asc ''a''), TInt 1, TInterned (asc ''a''), TInt 2]]"
    by (simp add: sample_strip parse_opts_default_def frozen_def key_value_def, simp add: term_vm_def)
  have law: "vm_law (env_vm sample_env)" "pool_ok (env_vm sample_env) fresh_pull_state"
    "scans_as (env_scan sample_env) sample_text (popts ?po) (strip sample_pdoc)"
    by (simp_all add: term_vm_law fresh_pool_ok sample_scans)
  show ?thesis
    using parse_value [OF law(1,2) parse_opts_allow_duplicates sample_input law(3)] acc v by simp
qed

section \<open>valid? and parse\<close>

text \<open>
  The documented behaviour of the crate on one input, under one grammar: its parser fails, or
  delivers the events of a document, with digits in its big integers; and then the Reader walks
  the same document, unless it has a lone surrogate (which it refuses).
\<close>

definition clean :: "doc \<Rightarrow> bool" where
  "clean d \<longleftrightarrow> doc_all (node_ok (\<lambda>_. True) (\<lambda>_. True)) d"

definition parser_law :: "('v, 'r) env \<Rightarrow> bytes \<Rightarrow> popts \<Rightarrow> bool" where
  "parser_law env input gr \<longleftrightarrow>
     (\<exists>evs e. env_scan env input gr = (evs, Some e)) \<or> (\<exists>d. scans_as (env_scan env) input gr d)"

definition reader_law :: "('v, 'r) env \<Rightarrow> bytes \<Rightarrow> popts \<Rightarrow> bool" where
  "reader_law env input gr \<longleftrightarrow>
     (\<forall>d. scans_as (env_scan env) input gr d \<and> clean d \<longrightarrow>
        (\<exists>p. strip p = d \<and> reads (env_reader env) input gr p))"

lemma doc_all_conj:
  "doc_all (\<lambda>n. P n \<and> Q n) d \<longleftrightarrow> doc_all P d \<and> doc_all Q d"
  "doc_all_elems (\<lambda>n. P n \<and> Q n) ds \<longleftrightarrow> doc_all_elems P ds \<and> doc_all_elems Q ds"
  "doc_all_members (\<lambda>n. P n \<and> Q n) kvs \<longleftrightarrow> doc_all_members P kvs \<and> doc_all_members Q kvs"
  by (induction d and ds and kvs rule: events_events_elems_events_members.induct) auto

lemma node_ok_split:
  "node_ok fl ks n \<longleftrightarrow> node_ok fl (\<lambda>_. True) n \<and> keys_all ks n"
  by (cases n) auto

lemma doc_all_node_ok: "doc_all (node_ok fl ks) d \<longleftrightarrow> doc_all (node_ok fl (\<lambda>_. True)) d \<and> doc_all (keys_all ks) d"
  using doc_all_conj(1) [of "node_ok fl (\<lambda>_. True)" "keys_all ks" d] node_ok_split [of fl ks] by presburger

lemma doc_all_True:
  "doc_all (\<lambda>_. True) d" "doc_all_elems (\<lambda>_. True) ds" "doc_all_members (\<lambda>_. True) kvs"
  by (induction d and ds and kvs rule: events_events_elems_events_members.induct) auto

lemma keys_all_True [simp]: "keys_all (\<lambda>_. True) = (\<lambda>_. True)"
proof
  show "keys_all (\<lambda>_. True) n = True" for n by (cases n) auto
qed

text \<open>What each sink takes, by the same three conditions.\<close>

lemma ruby_takes_split:
  "doc_all (ruby_takes a) d \<longleftrightarrow>
     clean d \<and> (a \<or> doc_all (keys_all distinct) d) \<and> doc_all big_int_ok d"
proof -
  have "ruby_takes a = (\<lambda>n. node_ok (\<lambda>_. True) (\<lambda>ks. a \<or> distinct ks) n \<and> big_int_ok n)"
    by (auto simp: ruby_takes_def)
  then show ?thesis
    using doc_all_node_ok [of "\<lambda>_. True" "\<lambda>ks. a \<or> distinct ks" d]
    by (cases a) (auto simp: doc_all_conj clean_def doc_all_True)
qed

lemma null_accepts:
  assumes "table_ok (pl_table st)" and "scans_as (env_scan env) input (popts po) d"
  shows "is_ok (valid_drive env st input po check) \<longleftrightarrow> clean d \<and> nesting d \<le> max_nesting po \<and>
     (check \<longrightarrow> doc_all (keys_all (\<lambda>ks. distinct (map (env_fingerprint env) ks))) d)"
proof -
  let ?s = "null_sink_new (max_nesting po) (pl_table st) check"
  have "dup_inv (ns_dup_keys ?s)" "ns_depth ?s = 0"
    using assms(1) by (simp_all add: null_sink_new_def dup_new_inv)
  from null.drive_accepts [OF assms(2) this, where fingerprint = "env_fingerprint env"]
  have "is_ok (valid_drive env st input po check) \<longleftrightarrow>
      doc_all (null.takes (env_fingerprint env) ?s) d \<and> nesting d \<le> max_nesting po"
    by (simp add: valid_drive_def null_sink_new_def)
  moreover have "null.takes (env_fingerprint env) ?s =
      node_ok (\<lambda>_. True) (\<lambda>ks. check \<longrightarrow> distinct (map (env_fingerprint env) ks))"
    by (simp add: null.takes_def null_sink_new_def dup_new_def)
  ultimately show ?thesis
    using doc_all_node_ok [of "\<lambda>_. True" "\<lambda>ks. check \<longrightarrow> distinct (map (env_fingerprint env) ks)" d]
    by (cases check) (auto simp: clean_def doc_all_True)
qed

lemma null_refusal:
  assumes "table_ok (pl_table st)" and "scans_as (env_scan env) input (popts po) d"
    and "clean d" and "nesting d \<le> max_nesting po" and "valid_drive env st input po check = Inl err"
  shows "err = SinkErr DuplicateKey"
proof -
  let ?s = "null_sink_new (max_nesting po) (pl_table st) check"
  have "dup_inv (ns_dup_keys ?s)" "ns_depth ?s = 0" "nesting d \<le> ns_max_nesting ?s"
    using assms(1,4) by (simp_all add: null_sink_new_def dup_new_inv)
  then show ?thesis
    using null.drive_refusal [OF assms(2), where s = ?s and fingerprint = "env_fingerprint env"] assms(3,5)
    by (simp add: valid_drive_def clean_def)
qed

lemma distinct_prints: "doc_all (keys_all (\<lambda>ks. distinct (map f ks))) d \<Longrightarrow> doc_all (keys_all distinct) d"
proof (rule doc_all_mono(1) [of "keys_all (\<lambda>ks. distinct (map f ks))"])
  show "keys_all (\<lambda>ks. distinct (map f ks)) n \<Longrightarrow> keys_all distinct n" for n
    by (cases n) (auto simp: distinct_map)
qed

text \<open>The exact check answers whether keys repeat.\<close>

lemma duplicate_key_absent:
  assumes "reads R input gr p"
  shows "duplicate_key R input gr = Some (repeat_of p)"
    and "repeat_of p = Absent \<longleftrightarrow> doc_all (keys_all distinct) (strip p)"
proof -
  from assms obtain r' where v: "at_value R p (rd_open R input gr) r'" by (auto simp: reads_def)
  show "duplicate_key R input gr = Some (repeat_of p)"
    by (rule duplicate_key_reads [OF assms])
  show "repeat_of p = Absent \<longleftrightarrow> doc_all (keys_all distinct) (strip p)"
    using keys_all_closings(1) [OF at_value_wf(1) [OF v], of distinct]
    by (simp add: repeat_of_absent)
qed

lemma drive_hashless_fails:
  assumes "\<And>check. \<not> is_ok (drv check)"
  shows "\<not> is_ok (drive_hashless env input po drv)"
  using assms [of "\<not> allow_duplicate_key po"] assms [of False]
  by (cases "drv (\<not> allow_duplicate_key po)")
    (auto simp: drive_hashless_def Let_def split: drive_error.splits sink_abort.splits option.splits repeat.splits)

text \<open>
  A drive under \<open>drive_hashless\<close> decides duplicate keys exactly: \<open>base\<close> is what the sink asks
  of the document besides.
\<close>

lemma drive_hashless_exact:
  assumes "\<And>check. is_ok (drv check) \<longleftrightarrow>
        base \<and> (check \<longrightarrow> doc_all (keys_all (\<lambda>ks. distinct (map (env_fingerprint env) ks))) d)"
    and "\<And>check err. base \<Longrightarrow> drv check = Inl err \<Longrightarrow> err = SinkErr DuplicateKey"
    and "base \<Longrightarrow> clean d"
    and "reader_law env input (popts po)" and "scans_as (env_scan env) input (popts po) d"
  shows "is_ok (drive_hashless env input po drv) \<longleftrightarrow>
    base \<and> (allow_duplicate_key po \<or> doc_all (keys_all distinct) d)"
proof -
  note acc = assms(1)
  have law: "\<exists>p. strip p = d \<and> reads (env_reader env) input (popts po) p" if "clean d"
    using assms(4,5) that by (simp add: reader_law_def)
  show ?thesis
  proof (cases "drv (\<not> allow_duplicate_key po)")
    case (Inr s)
    then have "is_ok (drv (\<not> allow_duplicate_key po))" by simp
    with acc [of "\<not> allow_duplicate_key po"] distinct_prints [of "env_fingerprint env" d] Inr
    show ?thesis by (auto simp: drive_hashless_def Let_def)
  next
    case (Inl err)
    then have no: "\<not> is_ok (drv (\<not> allow_duplicate_key po))" by simp
    show ?thesis
    proof (cases base)
      case False
      with acc drive_hashless_fails [of drv] show ?thesis by auto
    next
      case True
      with assms(2) [OF _ Inl] have err: "err = SinkErr DuplicateKey" by blast
      from True assms(3) law obtain p where
        p: "strip p = d" "reads (env_reader env) input (popts po) p" by blast
      have "\<not> allow_duplicate_key po" using no acc [of "\<not> allow_duplicate_key po"] True by auto
      with True err Inl acc [of False] duplicate_key_absent [OF p(2)] p(1) show ?thesis
        by (auto simp: drive_hashless_def Let_def split: repeat.splits)
    qed
  qed
qed

lemma drive_hashless_result:
  "drive_hashless env input po drv = Inr s \<Longrightarrow> \<exists>check. drv check = Inr s"
  by (cases "drv (\<not> allow_duplicate_key po)")
    (auto simp: drive_hashless_def Let_def
      split: drive_error.splits sink_abort.splits option.splits repeat.splits)

lemma valid_drive_exact:
  assumes "table_ok (pl_table st)" and "reader_law env input (popts po)"
    and "scans_as (env_scan env) input (popts po) d"
  shows "is_ok (drive_hashless env input po (valid_drive env st input po)) \<longleftrightarrow>
    clean d \<and> nesting d \<le> max_nesting po \<and> (allow_duplicate_key po \<or> doc_all (keys_all distinct) d)"
  using drive_hashless_exact [where base = "clean d \<and> nesting d \<le> max_nesting po" and
      drv = "valid_drive env st input po", OF _ _ _ assms(2,3)]
    null_accepts [OF assms(1,3)] null_refusal [OF assms(1,3)] by blast

text \<open>
  C1.  \<open>valid?\<close> is true exactly when \<open>parse\<close> would succeed under the same options, whatever
  the hash behind the fingerprints collides on, for every document that needs at most
  \<open>SINK_STACK_MAX\<close> pending values; an option error raises the same from both.
\<close>

theorem valid_iff_parse:
  assumes "vm_law (env_vm env)" and "pool_ok (env_vm env) st"
    and "\<And>input gr. utf8_input data = Inr input \<Longrightarrow> parser_law env input gr \<and> reader_law env input gr"
    and "\<And>input gr d. utf8_input data = Inr input \<Longrightarrow> scans_as (env_scan env) input gr d \<Longrightarrow>
           doc_all big_int_ok d \<and> need d \<le> SINK_STACK_MAX"
  shows "valid_native env st data opts =
    (case parse_native_opts opts of
       Inl e \<Rightarrow> Inl e
     | Inr _ \<Rightarrow> Inr (is_ok (parse_native env st data opts)))"
proof (cases "parse_native_opts opts")
  case (Inl e)
  then show ?thesis by (simp add: valid_native_def)
next
  case o: (Inr po)
  show ?thesis
  proof (cases "utf8_input data")
    case (Inl e)
    with o show ?thesis by (simp add: valid_native_def parse_native_def)
  next
    case u: (Inr input)
    have table: "table_ok (pl_table st)" using assms(2) by (simp add: pool_ok_def)
    have p: "parse_native env st data opts = materialize_at env st input 0 (length input) po"
      using o u by (simp add: parse_native_def materialize_def)
    have whole: "sub input 0 (length input) = input" by (simp add: sub_def)
    have "is_ok (drive_hashless env input po (valid_drive env st input po)) = is_ok (parse_native env st data opts)"
    proof (cases "\<exists>d. scans_as (env_scan env) input (popts po) d")
      case True
      then obtain d where d: "scans_as (env_scan env) input (popts po) d" by blast
      from assms(4) [OF u d] have admits: "parse_accepts po d \<longleftrightarrow> clean d \<and> nesting d \<le> max_nesting po \<and>
          (allow_duplicate_key po \<or> doc_all (keys_all distinct) d)"
        by (auto simp: parse_accepts_def ruby_takes_split)
      have "is_ok (materialize_at env st input 0 (length input) po) \<longleftrightarrow> parse_accepts po d"
        using materialize_accepted [OF assms(1,2), of input 0 "length input" po d]
          materialize_refused [OF assms(1,2), of input 0 "length input" po d] d
        by (cases "parse_accepts po d") (auto simp: whole)
      with valid_drive_exact [OF table _ d] assms(3) [OF u] admits p show ?thesis by simp
    next
      case False
      with assms(3) [OF u, of "popts po"] obtain evs e where "env_scan env input (popts po) = (evs, Some e)"
        by (auto simp: parser_law_def)
      note failed = drive_failed [where scan = "env_scan env" and input = input and po = "popts po", OF this]
      from failed [where k = "RubyValueSink (env_vm env)" and s = "ruby_sink_for st po"] p
      have "\<not> is_ok (parse_native env st data opts)"
        by (auto simp: materialize_at_def finish_drive_def whole Let_def)
      moreover have "\<not> is_ok (valid_drive env st input po check)" for check
        using failed [where k = "NullSink (env_fingerprint env)"] unfolding valid_drive_def by (metis is_ok.simps(1))
      ultimately show ?thesis using drive_hashless_fails [of "valid_drive env st input po"] by simp
    qed
    with o u show ?thesis by (simp add: valid_native_def)
  qed
qed

theorem valid_iff_parse_witness:
  "valid_native sample_env fresh_pull_state sample_string ONil =
     Inr (is_ok (parse_native sample_env fresh_pull_state sample_string ONil))"
proof -
  have "parser_law sample_env input gr \<and> reader_law sample_env input gr"
    if "utf8_input sample_string = Inr input" for input gr
    using that sample_scans [of gr] sample_reads [of sample_text gr]
    by (auto simp: sample_input parser_law_def reader_law_def dest: sample_scans_only)
  moreover have "doc_all big_int_ok d \<and> need d \<le> SINK_STACK_MAX"
    if "scans_as (env_scan sample_env) input gr d" for input gr d
    using that by (auto simp: sample_strip dest!: sample_scans_only)
  ultimately show ?thesis
    using valid_iff_parse [of sample_env fresh_pull_state sample_string ONil]
    by (simp add: term_vm_law fresh_pool_ok parse_native_opts_def)
qed

text \<open>
  C24.  A document that only a repeated key disqualifies raises \<open>ParserError\<close> positioned at the
  opening brace of the first object, in the order objects close, that repeats a key, and names
  the first key it repeats.
\<close>

theorem parse_duplicate_key:
  assumes "vm_law (env_vm env)" and "pool_ok (env_vm env) st"
    and "parse_native_opts opts = Inr po" and "utf8_input data = Inr input"
    and "scans_as (env_scan env) input (popts po) (strip p)" and "reads (env_reader env) input (popts po) p"
    and "parse_accepts (po\<lparr>allow_duplicate_key := True\<rparr>) (strip p)" and "\<not> allow_duplicate_key po"
    and "List.find repeats (closings p) = Some (at, ks)"
  shows "parse_native env st data opts =
    Inl (raised_at input at
      (Fmt ''duplicate key {} at byte {}'' [ABytes (the (first_dup {} ks)), ANat at]))"
proof -
  have whole: "sub input 0 (length input) = input" by (simp add: sub_def)
  have scanned: "scans_as (env_scan env) (sub input 0 (length input)) (popts po) (strip p)"
    using assms(5) by (simp add: whole)
  have found: "repeat_of p = Found at (the (first_dup {} ks))"
    using assms(9) by (simp add: repeat_of_def)
  have "\<not> parse_accepts po (strip p)"
    using assms(8) duplicate_key_absent(2) [OF assms(6)] found
    by (auto simp: parse_accepts_def ruby_takes_split)
  from materialize_refused [OF assms(1,2) scanned this] obtain failure where
    f: "drive (env_scan env) (RubyValueSink (env_vm env)) (sub input 0 (length input)) (popts po)
          (ruby_sink_for st po) = Inl failure"
    and m: "materialize_at env st input 0 (length input) po = Inl (drive_error env failure po input (0, length input))"
    by blast
  have fits: "doc_all (ruby_takes True) (strip p)"
    "room (ruby_sink_for st po) (nesting (strip p)) (need (strip p))"
    using assms(7) by (simp_all add: parse_accepts_def room_start)
  have "failure = SinkErr DuplicateKey"
    by (rule ruby_drive_refusal [OF assms(1) scanned pool_cache_ok [OF assms(2)] fits f])
  with m duplicate_key_absent(1) [OF assms(6)] found assms(3,4) show ?thesis
    by (simp add: parse_native_def materialize_def drive_error_def Let_def whole raised_at_def)
qed

theorem parse_duplicate_key_witness:
  "parse_native sample_env fresh_pull_state sample_string ONil =
     Inl (raised_at sample_text 1 (Fmt ''duplicate key {} at byte {}'' [ABytes (asc ''a''), ANat 1]))"
proof -
  have o: "parse_native_opts ONil = Inr parse_opts_default" by (simp add: parse_native_opts_def)
  have acc: "parse_accepts (parse_opts_default\<lparr>allow_duplicate_key := True\<rparr>) (strip sample_pdoc)"
    by (simp add: parse_accepts_def sample_strip parse_opts_default_def)
  have hit: "List.find repeats (closings sample_pdoc) = Some (1, [asc ''a'', asc ''a''])"
    by (simp add: sample_pdoc_def)
  show ?thesis
    using parse_duplicate_key [where env = sample_env, OF _ _ o sample_input _ _ acc _ hit, of fresh_pull_state]
    by (simp add: term_vm_law fresh_pool_ok sample_scans sample_reads parse_opts_default_def)
qed

section \<open>The ceiling on pending values\<close>

lemma nulls_overflow:
  "length (rs_stack s) \<le> SINK_STACK_MAX \<Longrightarrow> SINK_STACK_MAX < length (rs_stack s) + n \<Longrightarrow>
     run (RubyValueSink vm) (events_elems (replicate n DNull) @ es) (s, ms) = Inl Overflow"
proof (induction n arbitrary: s)
  case (Suc n)
  show ?case
  proof (cases "length (rs_stack s) = SINK_STACK_MAX")
    case True
    then show ?thesis by (simp add: RubyValueSink_def push_raw_def)
  next
    case False
    let ?s = "s\<lparr>rs_stack := rs_stack s @ [vm_nil vm]\<rparr>"
    have "run (RubyValueSink vm) (events_elems (replicate n DNull) @ es) (?s, ms) = Inl Overflow"
      by (rule Suc.IH) (use Suc.prems False in simp_all)
    with Suc.prems False show ?thesis by (simp add: RubyValueSink_def push_raw_def)
  qed
qed simp

lemma nulls_plain:
  "nesting_elems (replicate n DNull) = 0" "doc_all_elems P (replicate n DNull) \<longleftrightarrow> n = 0 \<or> P DNull"
  by (induction n) auto

text \<open>
  C31.  The ceiling of \<open>RubyValueSink\<close> is the one place where \<open>valid?\<close> and \<open>parse\<close> part: a flat
  array of more than \<open>SINK_STACK_MAX\<close> nulls is valid, and \<open>parse\<close> refuses it as
  "document too large".
\<close>

theorem valid_beyond_ceiling:
  assumes "utf8_input data = Inr input" and "SINK_STACK_MAX < n"
    and "scans_as (env_scan env) input popts_default (DArray (replicate n DNull))"
    and "table_ok (pl_table st)"
  shows "valid_native env st data ONil = Inr True \<and>
    parse_native env st data ONil = Inl (ParserError (msg ''document too large'') None)"
proof -
  let ?po = parse_opts_default
  have o: "parse_native_opts ONil = Inr ?po" by (simp add: parse_native_opts_def)
  have d: "scans_as (env_scan env) input (popts ?po) (DArray (replicate n DNull))"
    using assms(3) by (simp add: parse_opts_default_def)
  have "is_ok (valid_drive env st input ?po True)"
    unfolding null_accepts [OF assms(4) d]
    by (simp add: clean_def nulls_plain parse_opts_default_def)
  then have valid: "valid_native env st data ONil = Inr True"
    using o assms(1) by (auto simp: valid_native_def drive_hashless_def Let_def is_ok_iff parse_opts_default_def)
  have "run (RubyValueSink (env_vm env)) (events (DArray (replicate n DNull))) (ruby_sink_for st ?po, []) = Inl Overflow"
    using nulls_overflow [of "ruby_sink_for st ?po\<lparr>rs_depth := 1\<rparr>" n "env_vm env" "[EvEndArray n]" "[0]"] assms(2)
    by (simp add: RubyValueSink_def enter_container_def ruby_sink_for_def parse_opts_default_def)
  then have "drive (env_scan env) (RubyValueSink (env_vm env)) (sub input 0 (length input)) (popts ?po)
      (ruby_sink_for st ?po) = Inl (SinkErr Overflow)"
    using d by (simp add: drive_scans sub_def)
  then show ?thesis
    using valid o assms(1)
    by (simp add: parse_native_def materialize_def materialize_at_def finish_drive_def drive_error_def
        Let_def parser_error_def)
qed

theorem valid_beyond_ceiling_witness:
  "\<exists>n env st. n = SINK_STACK_MAX + 1 \<and>
     env = sample_env\<lparr>env_scan := (\<lambda>_ _. (events (DArray (replicate n DNull)), None))\<rparr> \<and>
     st = fresh_pull_state \<and>
     valid_native env st sample_string ONil = Inr True \<and>
     parse_native env st sample_string ONil = Inl (ParserError (msg ''document too large'') None)"
proof -
  define n :: nat where "n = SINK_STACK_MAX + 1"
  define env where "env = sample_env\<lparr>env_scan := (\<lambda>_ _. (events (DArray (replicate n DNull)), None))\<rparr>"
  have n: "SINK_STACK_MAX < n" by (simp add: n_def)
  have d: "scans_as (env_scan env) sample_text popts_default (DArray (replicate n DNull))"
    by (simp add: env_def scans_as_def)
  have t: "table_ok (pl_table fresh_pull_state)" by (simp add: fresh_pull_state_def table_ok_default)
  from valid_beyond_ceiling [OF sample_input n d t] n_def env_def show ?thesis by blast
qed

end
