(* ===== verification/Pointer.thy ===== *)
theory Pointer
  imports Parse
begin

text \<open>
  JSON Pointers: src/ext/nosj/src/pointer.rs (partial parsing by pointer or dig path, single
  and batch) with the pointer syntax the extension itself handles there and in patch.rs
  (\<open>push_escaped_token\<close>, \<open>path_to_pointer\<close>, \<open>split_pointer\<close>, \<open>parse_index\<close>).  Resolving a
  pointer against a document is the crate's work: \<open>resolver\<close> is a parameter.  Texts are
  UTF-8 byte lists; the special characters are ASCII, so working by bytes and by characters
  is the same.
\<close>

section \<open>Tokens\<close>

text \<open>\<open>str::replace\<close> with a two-byte pattern: left to right, without overlap.\<close>

fun replace2 :: "byte \<Rightarrow> byte \<Rightarrow> byte \<Rightarrow> bytes \<Rightarrow> bytes" where
  "replace2 p q r (x # y # xs) =
     (if x = p \<and> y = q then r # replace2 p q r xs else x # replace2 p q r (y # xs))"
| "replace2 p q r xs = xs"

fun escaped :: "bytes \<Rightarrow> bytes" where
  "escaped [] = []"
| "escaped (c # cs) =
     (if c = b_tilde then [b_tilde, b_zero] else if c = b_slash then [b_tilde, b_one] else [c]) @ escaped cs"

definition push_escaped_token :: "bytes \<Rightarrow> bytes \<Rightarrow> bytes" where
  "push_escaped_token ptr key = ptr @ [b_slash] @ escaped key"

definition unescape :: "bytes \<Rightarrow> bytes" where
  "unescape token = replace2 b_tilde b_zero b_tilde (replace2 b_tilde b_one b_slash token)"

text \<open>Decimal digits, as \<open>i64::to_string\<close> writes and \<open>usize::from_str\<close> reads them.\<close>

definition digit :: "nat \<Rightarrow> byte" where
  "digit n = b_zero + of_nat n"

fun dec :: "nat \<Rightarrow> bytes" where
  "dec n = (if n < 10 then [digit n] else dec (n div 10) @ [digit (n mod 10)])"

declare dec.simps [simp del]

definition is_digit :: "byte \<Rightarrow> bool" where
  "is_digit b \<longleftrightarrow> b_zero \<le> b \<and> b \<le> 0x39"

definition read_dec :: "bytes \<Rightarrow> nat" where
  "read_dec bs = foldl (\<lambda>n b. 10 * n + unat (b - b_zero)) 0 bs"

definition parse_index :: "bytes \<Rightarrow> nat option" where
  "parse_index token =
     (if token = [] \<or> 1 < length token \<and> hd token = b_zero then None
      else if \<not> list_all is_digit token then None
      else if read_dec token \<le> USIZE_MAX then Some (read_dec token) else None)"

text \<open>
  \<open>None\<close> for the root pointer only; the message of the error is the crate's text for an
  invalid pointer at offset 0.
\<close>

definition split_pointer :: "(parse_error \<Rightarrow> message) \<Rightarrow> bytes \<Rightarrow> ruby_error + (bytes \<times> bytes) option" where
  "split_pointer shw pointer =
     (if pointer = [] then Inr None
      else if hd pointer \<noteq> b_slash
      then Inl (ArgumentError (shw \<lparr>pe_offset = 0, pe_kind = InvalidPointer\<rparr>))
      else let cut = (case rposition (\<lambda>b. b = b_slash) pointer of Some i \<Rightarrow> i | None \<Rightarrow> 0)
           in Inr (Some (take cut pointer, unescape (drop (cut + 1) pointer))))"

section \<open>Dig paths\<close>

text \<open>
  A path element by the magnus queries made on it, in their order: an Integer with the outcome of
  \<open>to_i64\<close>, a String or Symbol with the outcome of reading its text.
\<close>

datatype path_elem = PeInt "ruby_error + 64 word" | PeStr "ruby_error + bytes" | PeSym "ruby_error + bytes" | PeOther

fun path_to_pointer_from :: "bytes \<Rightarrow> path_elem list \<Rightarrow> ruby_error + bytes option" where
  "path_to_pointer_from ptr [] = Inr (Some ptr)"
| "path_to_pointer_from ptr (PeInt t # path) =
     tryr t (\<lambda>idx.
     if sint idx < 0 then Inr None
     else path_to_pointer_from (ptr @ [b_slash] @ dec (nat (sint idx))) path)"
| "path_to_pointer_from ptr (PeStr t # path) =
     tryr t (\<lambda>s. path_to_pointer_from (push_escaped_token ptr s) path)"
| "path_to_pointer_from ptr (PeSym t # path) =
     tryr t (\<lambda>s. path_to_pointer_from (push_escaped_token ptr s) path)"
| "path_to_pointer_from ptr (PeOther # path) =
     Inl (ArgumentError (msg ''path elements must be Strings, Symbols, or Integers''))"

definition path_to_pointer :: "path_elem list \<Rightarrow> ruby_error + bytes option" where
  "path_to_pointer path = path_to_pointer_from [] path"

section \<open>Lookups\<close>

text \<open>
  The crate's resolvers: one pointer, or many in one pass, with the slice of the value each
  addresses.
\<close>

record resolver =
  re_pointer :: "bytes \<Rightarrow> bytes \<Rightarrow> popts \<Rightarrow> parse_error + (nat \<times> nat) option"
  re_pointers :: "bytes \<Rightarrow> bytes list \<Rightarrow> popts \<Rightarrow> parse_error + (nat \<times> nat) option list"

definition span_of :: "nat \<times> nat \<Rightarrow> nat \<times> nat" where
  "span_of sl = (fst sl, fst sl + snd sl)"

definition resolve_error :: "('v, 'r) env \<Rightarrow> bytes \<Rightarrow> parse_error \<Rightarrow> ruby_error" where
  "resolve_error env input e =
     (if pe_kind e = InvalidPointer then ArgumentError (env_show env e)
      else raised_at input (pe_offset e) (env_show env e))"

definition at_pointer_impl ::
  "('v, 'r) env \<Rightarrow> resolver \<Rightarrow> 'v pull_state \<Rightarrow> rstring \<Rightarrow> bytes \<Rightarrow> parse_opts \<Rightarrow> ruby_error + 'v \<times> 'v pull_state" where
  "at_pointer_impl env re st data pointer po =
     tryr (utf8_input data) (\<lambda>input.
     case re_pointer re input pointer (popts po) of
       Inr None \<Rightarrow> Inr (vm_nil (env_vm env), st)
     | Inr (Some sl) \<Rightarrow>
         (case span_of sl of (start, end) \<Rightarrow> materialize_at env st input start end po)
     | Inl e \<Rightarrow> Inl (resolve_error env input e))"

definition at_pointer_native ::
  "('v, 'r) env \<Rightarrow> resolver \<Rightarrow> 'v pull_state \<Rightarrow> rstring \<Rightarrow> ruby_error + bytes \<Rightarrow> options_arg \<Rightarrow>
     ruby_error + 'v \<times> 'v pull_state" where
  "at_pointer_native env re st data pointer opts =
     tryr (parse_native_opts opts) (\<lambda>po.
     tryr pointer (\<lambda>ptr.
     at_pointer_impl env re st data ptr po))"

definition dig_native ::
  "('v, 'r) env \<Rightarrow> resolver \<Rightarrow> 'v pull_state \<Rightarrow> rstring \<Rightarrow> path_elem list \<Rightarrow> ruby_error + 'v \<times> 'v pull_state" where
  "dig_native env re st data path =
     tryr (path_to_pointer path) (\<lambda>p.
     case p of
       Some ptr \<Rightarrow> at_pointer_impl env re st data ptr parse_opts_default
     | None \<Rightarrow> Inr (vm_nil (env_vm env), st))"

text \<open>The loop over the pointers, each live one taking the next hit.\<close>

fun take_hits ::
  "('v, 'r) env \<Rightarrow> bytes \<Rightarrow> parse_opts \<Rightarrow> bytes option list \<Rightarrow> (nat \<times> nat) option list \<Rightarrow> 'v pull_state \<Rightarrow>
     ruby_error + 'v list \<times> 'v pull_state" where
  "take_hits env input po [] hits st = Inr ([], st)"
| "take_hits env input po (ptr # ptrs) hits st =
     (let (hit, hits) =
        (if ptr \<noteq> None then (case hits of [] \<Rightarrow> (None, []) | h # hs \<Rightarrow> (h, hs)) else (None, hits))
      in tryr (case hit of
                 Some sl \<Rightarrow>
                   (case span_of sl of (start, end) \<Rightarrow> materialize_at env st input start end po)
               | None \<Rightarrow> Inr (vm_nil (env_vm env), st)) (\<lambda>(v, st).
         map_ok (\<lambda>(vs, st). (v # vs, st)) (take_hits env input po ptrs hits st)))"

definition at_pointers_impl ::
  "('v, 'r) env \<Rightarrow> resolver \<Rightarrow> 'v pull_state \<Rightarrow> rstring \<Rightarrow> bytes option list \<Rightarrow> parse_opts \<Rightarrow>
     ruby_error + 'v list \<times> 'v pull_state" where
  "at_pointers_impl env re st data pointers po =
     tryr (utf8_input data) (\<lambda>input.
     let live = map the (filter (\<lambda>p. p \<noteq> None) pointers)
     in case re_pointers re input live (popts po) of
          Inl e \<Rightarrow> Inl (resolve_error env input e)
        | Inr hits \<Rightarrow> take_hits env input po pointers hits st)"

text \<open>Collecting fallible items, stopping at the first error.\<close>

fun collect :: "('a \<Rightarrow> 'e + 'b) \<Rightarrow> 'a list \<Rightarrow> 'e + 'b list" where
  "collect f [] = Inr []"
| "collect f (x # xs) = tryr (f x) (\<lambda>y. map_ok (\<lambda>ys. y # ys) (collect f xs))"

text \<open>An item of the pointers argument: a String with the outcome of reading it, or not one.\<close>

definition at_pointers_native ::
  "('v, 'r) env \<Rightarrow> resolver \<Rightarrow> 'v pull_state \<Rightarrow> rstring \<Rightarrow> (ruby_error + bytes) option list \<Rightarrow> options_arg \<Rightarrow>
     ruby_error + 'v list \<times> 'v pull_state" where
  "at_pointers_native env re st data pointers opts =
     tryr (parse_native_opts opts) (\<lambda>po.
     tryr (collect (\<lambda>item. case item of
              None \<Rightarrow> Inl (ArgumentError (msg ''pointers must be Strings''))
            | Some s \<Rightarrow> map_ok Some s) pointers) (\<lambda>ptrs.
     at_pointers_impl env re st data ptrs po))"

definition dig_many_native ::
  "('v, 'r) env \<Rightarrow> resolver \<Rightarrow> 'v pull_state \<Rightarrow> rstring \<Rightarrow> path_elem list option list \<Rightarrow> options_arg \<Rightarrow>
     ruby_error + 'v list \<times> 'v pull_state" where
  "dig_many_native env re st data paths opts =
     tryr (parse_native_opts opts) (\<lambda>po.
     tryr (collect (\<lambda>item. case item of
              None \<Rightarrow> Inl (ArgumentError (msg ''each path must be an Array''))
            | Some path \<Rightarrow> path_to_pointer path) paths) (\<lambda>ptrs.
     at_pointers_impl env re st data ptrs po))"

section \<open>Round trips\<close>

lemma replace2_skip: "x \<noteq> p \<Longrightarrow> replace2 p q r (x # xs) = x # replace2 p q r xs"
  by (cases xs) auto

lemma replace2_escaped_slash: "replace2 b_tilde b_one b_slash (escaped key) =
    concat (map (\<lambda>c. if c = b_tilde then [b_tilde, b_zero] else [c]) key)"
  by (induction key rule: escaped.induct) (auto simp: replace2_skip)

lemma replace2_tilde: "replace2 b_tilde b_zero b_tilde
    (concat (map (\<lambda>c. if c = b_tilde then [b_tilde, b_zero] else [c]) key)) = key"
  by (induction key) (auto simp: replace2_skip)

lemma unescape_escaped: "unescape (escaped key) = key"
  by (simp add: unescape_def replace2_escaped_slash replace2_tilde)

lemma escaped_no_slash: "b_slash \<notin> set (escaped key)"
  by (induction key) auto

lemma split_pointer_at:
  assumes "b_slash \<notin> set tok" and "ptr = [] \<or> hd ptr = b_slash"
  shows "split_pointer shw (ptr @ [b_slash] @ tok) = Inr (Some (ptr, unescape tok))"
proof -
  have "rposition (\<lambda>b. b = b_slash) (ptr @ b_slash # tok) = Some (length ptr)"
    by (rule rposition_append_hit) (use assms(1) in auto)
  with assms(2) show ?thesis by (cases ptr) (auto simp: split_pointer_def)
qed

lemma unat_digit: "n < 10 \<Longrightarrow> unat (digit n - b_zero) = n"
  by (simp add: digit_def unat_of_nat)

lemma is_digit_digit: "n < 10 \<Longrightarrow> is_digit (digit n)"
proof -
  assume "n < 10"
  then have "n \<in> {0, 1, 2, 3, 4, 5, 6, 7, 8, 9}" by auto
  then show ?thesis by (auto simp: is_digit_def digit_def)
qed

lemma digit_of: "is_digit b \<Longrightarrow> unat (b - b_zero) < 10 \<and> digit (unat (b - b_zero)) = b"
  unfolding is_digit_def digit_def by (auto simp: word_le_nat_alt unat_sub)

lemma read_dec_snoc: "read_dec (bs @ [b]) = 10 * read_dec bs + unat (b - b_zero)"
  by (simp add: read_dec_def)

lemma read_dec_dec: "read_dec (dec n) = n"
proof (induction n rule: dec.induct)
  case (1 n)
  show ?case
  proof (cases "n < 10")
    case True
    then show ?thesis by (subst dec.simps) (simp add: read_dec_def unat_digit)
  next
    case False
    with 1 show ?thesis by (subst dec.simps) (simp add: read_dec_snoc unat_digit)
  qed
qed

lemma dec_digits: "list_all is_digit (dec n) \<and> dec n \<noteq> []"
proof (induction n rule: dec.induct)
  case (1 n)
  then show ?case by (subst (1 2) dec.simps) (auto simp: is_digit_digit)
qed

lemma dec_head: "0 < n \<Longrightarrow> hd (dec n) \<noteq> b_zero"
proof (induction n rule: dec.induct)
  case (1 n)
  show ?case
  proof (cases "n < 10")
    case True
    with 1(2) have "unat (digit n - b_zero) \<noteq> 0" by (simp add: unat_digit)
    with True show ?thesis by (subst dec.simps) auto
  next
    case False
    with 1(1) dec_digits [of "n div 10"] show ?thesis by (subst dec.simps) (simp add: hd_append)
  qed
qed

lemma dec_no_slash: "b_slash \<notin> set (dec n)"
  using dec_digits [of n] by (auto simp: list_all_iff is_digit_def)

lemma dec_no_tilde: "b_tilde \<notin> set (dec n)"
  using dec_digits [of n] by (auto simp: list_all_iff is_digit_def)

lemma dec_read_dec:
  "list_all is_digit bs \<Longrightarrow> bs \<noteq> [] \<Longrightarrow> \<not> (1 < length bs \<and> hd bs = b_zero) \<Longrightarrow> dec (read_dec bs) = bs"
proof (induction bs rule: rev_induct)
  case (snoc b bs)
  have b: "unat (b - b_zero) < 10" "digit (unat (b - b_zero)) = b" using digit_of [of b] snoc.prems(1) by auto
  show ?case
  proof (cases "bs = []")
    case True
    with b show ?thesis by (subst dec.simps) (simp add: read_dec_def)
  next
    case False
    then have h: "hd bs \<noteq> b_zero" using snoc.prems(3) by (simp add: hd_append)
    have "dec (read_dec bs) = bs" using snoc.IH snoc.prems(1) False h by simp
    moreover have "0 < read_dec bs"
    proof (rule ccontr)
      assume "\<not> 0 < read_dec bs"
      with calculation have "bs = dec 0" by simp
      then have "bs = [b_zero]" by (simp add: dec.simps digit_def)
      with h show False by simp
    qed
    ultimately show ?thesis using b by (subst dec.simps) (simp add: read_dec_snoc)
  qed
qed simp

lemma parse_index_iff: "parse_index token = Some n \<longleftrightarrow> token = dec n \<and> n \<le> USIZE_MAX"
proof
  assume "parse_index token = Some n"
  then show "token = dec n \<and> n \<le> USIZE_MAX"
    using dec_read_dec [of token] by (auto simp: parse_index_def split: if_splits)
next
  assume a: "token = dec n \<and> n \<le> USIZE_MAX"
  have "\<not> (1 < length (dec n) \<and> hd (dec n) = b_zero)"
    using dec_head [of n] by (cases "n = 0") (simp_all add: dec.simps)
  with a dec_digits [of n] show "parse_index token = Some n"
    by (simp add: parse_index_def read_dec_dec)
qed

text \<open>The text a path element addresses.\<close>

fun elem_text :: "path_elem \<Rightarrow> bytes option" where
  "elem_text (PeInt t) = (case t of Inr i \<Rightarrow> if 0 \<le> sint i then Some (dec (nat (sint i))) else None | Inl _ \<Rightarrow> None)"
| "elem_text (PeStr t) = (case t of Inr s \<Rightarrow> Some s | Inl _ \<Rightarrow> None)"
| "elem_text (PeSym t) = (case t of Inr s \<Rightarrow> Some s | Inl _ \<Rightarrow> None)"
| "elem_text PeOther = None"

definition elem_token :: "path_elem \<Rightarrow> bytes" where
  "elem_token e = (case e of PeInt _ \<Rightarrow> the (elem_text e) | _ \<Rightarrow> escaped (the (elem_text e)))"

lemma path_to_pointer_from_Some:
  "path_to_pointer_from ptr path = Inr (Some p) \<longleftrightarrow>
     (\<forall>e \<in> set path. elem_text e \<noteq> None) \<and> p = ptr @ concat (map (\<lambda>e. b_slash # elem_token e) path)"
proof (induction ptr path rule: path_to_pointer_from.induct)
  case (2 ptr t path)
  then show ?case by (cases t) (auto simp: elem_token_def)
next
  case (3 ptr t path)
  then show ?case by (cases t) (auto simp: elem_token_def push_escaped_token_def)
next
  case (4 ptr t path)
  then show ?case by (cases t) (auto simp: elem_token_def push_escaped_token_def)
qed auto

lemma elem_token_unescape: "elem_text e = Some t \<Longrightarrow> unescape (elem_token e) = t \<and> b_slash \<notin> set (elem_token e)"
proof (cases e)
  case (PeInt r)
  have "replace2 p q r xs = xs" if "p \<notin> set xs" for p q r and xs :: bytes
    using that by (induction xs) (auto simp: replace2_skip)
  then have "unescape (dec n) = dec n" for n
    using dec_no_tilde [of n] by (simp add: unescape_def)
  with PeInt show "elem_text e = Some t \<Longrightarrow> ?thesis"
    by (auto simp: elem_token_def dec_no_slash split: if_splits sum.splits)
qed (auto simp: elem_token_def unescape_escaped escaped_no_slash split: sum.splits)

text \<open>
  The pointer built from a dig path is split back into the pointer of the path without
  its last element and the text of that element, whatever slashes, tildes or digits the keys
  contain; the index text of an Integer element is the one \<open>parse_index\<close> reads back.
\<close>

theorem path_pointer_splits:
  assumes "path_to_pointer (path @ [e]) = Inr (Some p)"
  shows "\<exists>parent. path_to_pointer path = Inr (Some parent) \<and>
    split_pointer shw p = Inr (Some (parent, the (elem_text e))) \<and>
    (\<forall>i. e = PeInt (Inr i) \<longrightarrow> parse_index (the (elem_text e)) = Some (nat (sint i)))"
proof -
  let ?parent = "concat (map (\<lambda>e. b_slash # elem_token e) path)"
  from assms have texts: "\<forall>e \<in> set path. elem_text e \<noteq> None" "elem_text e \<noteq> None"
    and p: "p = ?parent @ [b_slash] @ elem_token e"
    by (auto simp: path_to_pointer_def path_to_pointer_from_Some)
  have parent: "path_to_pointer path = Inr (Some ?parent)"
    using texts(1) by (simp add: path_to_pointer_def path_to_pointer_from_Some)
  from texts(2) obtain t where t: "elem_text e = Some t" by blast
  have "?parent = [] \<or> hd ?parent = b_slash" by (cases path) auto
  with split_pointer_at [of "elem_token e" ?parent shw] elem_token_unescape [OF t]
  have "split_pointer shw p = Inr (Some (?parent, t))" by (simp add: p)
  moreover have "parse_index t = Some (nat (sint i))" if "e = PeInt (Inr i)" for i
    using t that sint_lt [of i] by (auto simp: parse_index_iff split: if_splits)
  ultimately show ?thesis using parent t by auto
qed

theorem path_pointer_splits_witness:
  "split_pointer (\<lambda>_. msg []) (asc ''/a~1b~0/7'') = Inr (Some (asc ''/a~1b~0'', asc ''7''))"
proof -
  have "path_to_pointer ([PeStr (Inr (asc ''a/b~''))] @ [PeInt (Inr 7)]) = Inr (Some (asc ''/a~1b~0/7''))"
    by (simp add: path_to_pointer_def push_escaped_token_def asc_def i64_range_def dec.simps digit_def)
  from path_pointer_splits [OF this, of "\<lambda>_. msg []"] show ?thesis
    by (simp add: path_to_pointer_def push_escaped_token_def asc_def i64_range_def dec.simps digit_def)
qed

text \<open>
  \<open>parse_index\<close> reads exactly the canonical decimal numerals that fit an index: no sign,
  no leading zero, no empty token, nothing that wraps.
\<close>

theorem parse_index_exact:
  "parse_index token = Some n \<longleftrightarrow> token = dec n \<and> n \<le> USIZE_MAX"
  by (rule parse_index_iff)

section \<open>Batch lookups\<close>

text \<open>The lookups one by one, threading the pooled state.\<close>

fun each ::
  "('v, 'r) env \<Rightarrow> resolver \<Rightarrow> rstring \<Rightarrow> parse_opts \<Rightarrow> bytes option list \<Rightarrow> 'v pull_state \<Rightarrow>
     ruby_error + 'v list \<times> 'v pull_state" where
  "each env re data po [] st = Inr ([], st)"
| "each env re data po (ptr # ptrs) st =
     tryr (case ptr of
             Some p \<Rightarrow> at_pointer_impl env re st data p po
           | None \<Rightarrow> Inr (vm_nil (env_vm env), st)) (\<lambda>(v, st).
     map_ok (\<lambda>(vs, st). (v # vs, st)) (each env re data po ptrs st))"

lemma take_hits_each:
  assumes "utf8_input data = Inr input"
    and "\<And>p. Some p \<in> set ptrs \<Longrightarrow> re_pointer re input p (popts po) = Inr (h p)"
  shows "take_hits env input po ptrs (map h (map the (filter (\<lambda>p. p \<noteq> None) ptrs))) st =
    each env re data po ptrs st"
  using assms(2)
proof (induction ptrs arbitrary: st)
  case (Cons ptr ptrs)
  show ?case
  proof (cases ptr)
    case None
    with Cons show ?thesis by simp
  next
    case (Some p)
    with Cons.prems have "re_pointer re input p (popts po) = Inr (h p)" by simp
    then have "at_pointer_impl env re st data p po =
        (case h p of Some sl \<Rightarrow> (case span_of sl of (start, end) \<Rightarrow> materialize_at env st input start end po)
         | None \<Rightarrow> Inr (vm_nil (env_vm env), st))" for st
      using assms(1) by (simp add: at_pointer_impl_def split: option.split)
    with Some Cons show ?thesis by simp
  qed
qed simp

text \<open>
  Where the crate's batch resolver gives what its single resolver gives for each pointer,
  a batch lookup is the single lookups in order: results line up with the pointers, a negative
  dig index (no pointer at all) yields nil in its place without shifting the others, and the
  first materialization error stops it.
\<close>

theorem at_pointers_each:
  assumes "utf8_input data = Inr input"
    and "\<And>p. Some p \<in> set pointers \<Longrightarrow> re_pointer re input p (popts po) = Inr (h p)"
    and "\<And>ps. re_pointers re input ps (popts po) = Inr (map h ps)"
  shows "at_pointers_impl env re st data pointers po = each env re data po pointers st"
  using take_hits_each [OF assms(1), of pointers re po h] assms
  by (simp add: at_pointers_impl_def Let_def)

definition sample_resolver :: resolver where
  "sample_resolver =
     (let h = (\<lambda>p. if p = asc ''/0'' then Some (1, 13) else if p = [] then Some (0, 15) else None)
      in \<lparr>re_pointer = (\<lambda>_ p _. Inr (h p)), re_pointers = (\<lambda>_ ps _. Inr (map h ps))\<rparr>)"

theorem at_pointers_each_witness:
  "at_pointers_impl sample_env sample_resolver fresh_pull_state sample_string
     [None, Some (asc ''/9'')] parse_opts_default = Inr ([TNil, TNil], fresh_pull_state)"
proof -
  let ?h = "\<lambda>p. if p = asc ''/0'' then Some (1, 13) else if p = [] then Some (0, 15) else None"
  have "at_pointers_impl sample_env sample_resolver fresh_pull_state sample_string
      [None, Some (asc ''/9'')] parse_opts_default =
    each sample_env sample_resolver sample_string parse_opts_default [None, Some (asc ''/9'')] fresh_pull_state"
    by (rule at_pointers_each [OF sample_input, where h = ?h]) (simp_all add: sample_resolver_def)
  then show ?thesis
    by (simp add: at_pointer_impl_def sample_input sample_resolver_def asc_def, simp add: term_vm_def)
qed

end
