(* ===== verification/Children.thy ===== *)
theory Children
  imports Pointer
begin

text \<open>
  The walk over the direct children of a container with the pull Reader, as
  \<open>container_children\<close> of src/ext/nosj/src/patch.rs and \<open>lazy_children\<close> of
  src/ext/nosj/src/lazy.rs make it: the decoded keys and the spans of the values, absolute in
  the document.  The loops are partial functions, so that they end is part of what is proved.
\<close>

section \<open>The walk\<close>

record child_span =
  cs_key :: "bytes option"
  cs_start :: nat
  cs_end :: nat

abbreviation KIND_OBJECT :: byte where "KIND_OBJECT \<equiv> b_lbrace"
abbreviation KIND_ARRAY :: byte where "KIND_ARRAY \<equiv> b_lbracket"

definition child_at :: "nat \<Rightarrow> bytes option \<Rightarrow> nat \<times> nat \<Rightarrow> child_span" where
  "child_at start key sl =
     (case span_of sl of (s, e) \<Rightarrow> \<lparr>cs_key = key, cs_start = start + s, cs_end = start + e\<rparr>)"

partial_function (option) members_loop ::
  "'r reader \<Rightarrow> nat \<Rightarrow> bytes option \<Rightarrow> 'r \<Rightarrow> child_span list \<Rightarrow> (parse_error + child_span list) option"
where
  "members_loop R start key r out =
     (case key of
        None \<Rightarrow> Some (Inr out)
      | Some k \<Rightarrow>
          (case rd_skip_value R r of
             Inl e \<Rightarrow> Some (Inl e)
           | Inr (sl, r) \<Rightarrow>
               (case rd_object_next_key R r of
                  Inl e \<Rightarrow> Some (Inl e)
                | Inr (key, r) \<Rightarrow> members_loop R start key r (out @ [child_at start (Some k) sl]))))"

partial_function (option) elems_loop ::
  "'r reader \<Rightarrow> nat \<Rightarrow> bool \<Rightarrow> 'r \<Rightarrow> child_span list \<Rightarrow> (parse_error + child_span list) option"
where
  "elems_loop R start has r out =
     (if \<not> has then Some (Inr out)
      else case rd_skip_value R r of
             Inl e \<Rightarrow> Some (Inl e)
           | Inr (sl, r) \<Rightarrow>
               (case rd_array_next R r of
                  Inl e \<Rightarrow> Some (Inl e)
                | Inr (has, r) \<Rightarrow> elems_loop R start has r (out @ [child_at start None sl])))"

definition children_walk ::
  "'r reader \<Rightarrow> bool \<Rightarrow> nat \<Rightarrow> 'r \<Rightarrow> (parse_error + child_span list) option" where
  "children_walk R object start r =
     (case rd_next_node R r of
        Inl e \<Rightarrow> Some (Inl e)
      | Inr (_, r) \<Rightarrow>
          if object
          then (case rd_object_first_key R r of
                  Inl e \<Rightarrow> Some (Inl e)
                | Inr (key, r) \<Rightarrow> members_loop R start key r [])
          else (case rd_array_first R r of
                  Inl e \<Rightarrow> Some (Inl e)
                | Inr (has, r) \<Rightarrow> elems_loop R start has r []))"

section \<open>The children of a value\<close>

fun children_of :: "nat \<Rightarrow> pdoc \<Rightarrow> child_span list" where
  "children_of start (PArray sl ps) = map (\<lambda>p. child_at start None (slice_at p)) ps"
| "children_of start (PObject sl kvs) = map (\<lambda>(k, p). child_at start (Some k) (slice_at p)) kvs"
| "children_of start (PLeaf sl d) = []"

fun is_object :: "pdoc \<Rightarrow> bool" where
  "is_object (PObject sl kvs) = True"
| "is_object p = False"

fun is_container :: "pdoc \<Rightarrow> bool" where
  "is_container (PLeaf sl d) = False"
| "is_container p = True"

lemma members_loop_at:
  "at_members R kvs r r' \<Longrightarrow> members_loop R start (first_key kvs) r out =
     Some (Inr (out @ map (\<lambda>(k, p). child_at start (Some k) (slice_at p)) kvs))"
proof (induction kvs arbitrary: r out)
  case Nil
  then show ?case by (simp add: members_loop.simps)
next
  case (Cons kv kvs)
  obtain k p where kv: "kv = (k, p)" by fastforce
  with Cons.prems obtain r1 r2 where "at_value R p r r1" "rd_object_next_key R r1 = Inr (first_key kvs, r2)"
    "at_members R kvs r2 r'" by auto
  with Cons.IH kv at_value_skips [of R p r r1] show ?case
    by (subst members_loop.simps) simp
qed

lemma elems_loop_at:
  "at_elems R ps r r' \<Longrightarrow> elems_loop R start (ps \<noteq> []) r out =
     Some (Inr (out @ map (\<lambda>p. child_at start None (slice_at p)) ps))"
proof (induction ps arbitrary: r out)
  case Nil
  then show ?case by (simp add: elems_loop.simps)
next
  case (Cons p ps)
  then obtain r1 r2 where "at_value R p r r1" "rd_array_next R r1 = Inr (ps \<noteq> [], r2)" "at_elems R ps r2 r'"
    by auto
  with Cons.IH at_value_skips [of R p r r1] show ?case
    by (subst elems_loop.simps) simp
qed

lemma children_walk_at:
  assumes "at_value R p r r'" and "is_container p"
  shows "children_walk R (is_object p) start r = Some (Inr (children_of start p))"
proof (cases p)
  case (PArray sl ps)
  with assms obtain r1 r2 where "rd_next_node R r = Inr (ArrayStart, r1)"
    "rd_array_first R r1 = Inr (ps \<noteq> [], r2)" "at_elems R ps r2 r'" by auto
  with PArray elems_loop_at [of R ps r2 r' start "[]"] show ?thesis by (simp add: children_walk_def)
next
  case (PObject sl kvs)
  with assms obtain r1 r2 where "rd_next_node R r = Inr (ObjectStart, r1)"
    "rd_object_first_key R r1 = Inr (first_key kvs, r2)" "at_members R kvs r2 r'" by auto
  with PObject members_loop_at [of R kvs r2 r' start "[]"] show ?thesis by (simp add: children_walk_def)
qed (use assms in simp)

section \<open>Container texts\<close>

text \<open>
  An entry of a container as it is written: whitespace, for a member the key with its quotes
  and colon, the text of the value, whitespace; between two entries stands a comma.
\<close>

record entry =
  en_pre :: bytes
  en_head :: bytes
  en_key :: "bytes option"
  en_val :: bytes
  en_post :: bytes

definition entry_text :: "entry \<Rightarrow> bytes" where
  "entry_text e = en_pre e @ en_head e @ en_val e @ en_post e"

definition entries_before :: "entry list \<Rightarrow> bytes" where
  "entries_before es = concat (map (\<lambda>e. entry_text e @ [b_comma]) es)"

definition entries_after :: "entry list \<Rightarrow> bytes" where
  "entries_after es = concat (map (\<lambda>e. b_comma # entry_text e) es)"

fun entries_text :: "entry list \<Rightarrow> bytes" where
  "entries_text [] = []"
| "entries_text (e # es) = entry_text e @ entries_after es"

lemma entries_text_at: "entries_text (xs @ e # ys) = entries_before xs @ entry_text e @ entries_after ys"
proof (induction xs)
  case (Cons x xs)
  then show ?case by (cases xs) (simp_all add: entries_before_def entries_after_def)
qed (simp add: entries_before_def)

text \<open>\<open>ws\<close> is what an empty container holds between its brackets.\<close>

definition container_text :: "bool \<Rightarrow> bytes \<Rightarrow> entry list \<Rightarrow> bytes" where
  "container_text object ws es =
     [if object then b_lbrace else b_lbracket] @ (if es = [] then ws else entries_text es) @
     [if object then b_rbrace else b_rbracket]"

fun entry_spans :: "nat \<Rightarrow> entry list \<Rightarrow> child_span list" where
  "entry_spans at [] = []"
| "entry_spans at (e # es) =
     (let s = at + length (en_pre e) + length (en_head e)
      in \<lparr>cs_key = en_key e, cs_start = s, cs_end = s + length (en_val e)\<rparr>
         # entry_spans (at + length (entry_text e) + 1) es)"

lemma entry_spans_append:
  "entry_spans at (xs @ ys) = entry_spans at xs @ entry_spans (at + length (entries_before xs)) ys"
proof (induction xs arbitrary: at)
  case (Cons x xs)
  have "length (entries_before (x # xs)) = Suc (length (entry_text x) + length (entries_before xs))"
    by (simp add: entries_before_def)
  with Cons show ?case by (simp add: Let_def add.assoc)
qed (simp add: entries_before_def)

lemma length_entry_spans [simp]: "length (entry_spans at es) = length es"
  by (induction es arbitrary: at) (simp_all add: Let_def)

lemma entry_spans_keys: "map cs_key (entry_spans at es) = map en_key es"
  by (induction es arbitrary: at) (simp_all add: Let_def)

lemma entry_spans_nth:
  "entry_spans at (xs @ e # ys) ! length xs =
     (let s = at + length (entries_before xs) + length (en_pre e) + length (en_head e)
      in \<lparr>cs_key = en_key e, cs_start = s, cs_end = s + length (en_val e)\<rparr>)"
  by (simp add: entry_spans_append nth_append Let_def)

definition json_space :: "bytes \<Rightarrow> bool" where
  "json_space b \<longleftrightarrow> set b \<subseteq> set json_ws"

definition wf_entry :: "bool \<Rightarrow> entry \<Rightarrow> bool" where
  "wf_entry object e \<longleftrightarrow> json_space (en_pre e) \<and> json_space (en_post e) \<and>
     en_val e \<noteq> [] \<and> hd (en_head e @ en_val e) \<notin> set json_ws \<and>
     (if object then en_key e \<noteq> None else en_key e = None \<and> en_head e = [])"

text \<open>
  The Reader, opened on the text of a container, walks it with the children where they stand
  in the text.
\<close>

definition reader_sees :: "'r reader \<Rightarrow> popts \<Rightarrow> bool \<Rightarrow> bytes \<Rightarrow> entry list \<Rightarrow> bool" where
  "reader_sees R gr object ws es \<longleftrightarrow>
     (\<exists>p. reads R (container_text object ws es) gr p \<and> is_container p \<and> is_object p = object \<and>
        children_of 0 p = entry_spans 1 es)"

lemma children_of_shift:
  "children_of start p = map (\<lambda>c. c\<lparr>cs_start := start + cs_start c, cs_end := start + cs_end c\<rparr>) (children_of 0 p)"
  by (cases p) (auto simp: child_at_def span_of_def)

lemma entry_spans_shift:
  "entry_spans (start + at) es =
     map (\<lambda>c. c\<lparr>cs_start := start + cs_start c, cs_end := start + cs_end c\<rparr>) (entry_spans at es)"
proof (induction es arbitrary: at)
  case (Cons e es)
  from Cons [of "at + length (entry_text e) + 1"] show ?case by (simp add: Let_def add.assoc)
qed simp

lemma children_walk_sees:
  assumes "reader_sees R gr object ws es"
  shows "children_walk R object start (rd_open R (container_text object ws es) gr) =
    Some (Inr (entry_spans (start + 1) es))"
proof -
  from assms obtain p r' where p: "at_value R p (rd_open R (container_text object ws es) gr) r'"
    "is_container p" "is_object p = object" "children_of 0 p = entry_spans 1 es"
    by (auto simp: reader_sees_def reads_def)
  from children_walk_at [OF p(1,2), of start] p(3,4) show ?thesis
    by (simp only: children_of_shift [of start] entry_spans_shift)
qed

end
