(* ===== verification/Lazy.thy ===== *)
theory Lazy
  imports Children
begin

text \<open>
  Lazy documents: src/ext/nosj/src/lazy.rs.  A node is a span of the document; containers come
  back as further nodes, scalars as values.  The crate's resolver and Reader and the Ruby VM are
  parameters; a frozen source and a file mapping are their (unchanging) bytes.
\<close>

section \<open>Documents and nodes\<close>

datatype doc_bytes = DocOwned bytes | DocFrozen bytes | DocMmap bytes

record doc_inner =
  di_bytes :: doc_bytes
  di_opts :: parse_opts

fun inner_bytes :: "doc_inner \<Rightarrow> bytes" where
  "inner_bytes d = (case di_bytes d of DocOwned b \<Rightarrow> b | DocFrozen b \<Rightarrow> b | DocMmap b \<Rightarrow> b)"

declare inner_bytes.simps [simp del]

record lazy_node =
  ln_doc :: doc_inner
  ln_start :: nat
  ln_end :: nat
  ln_kind :: byte

definition node_span :: "lazy_node \<Rightarrow> bytes" where
  "node_span n = sub (inner_bytes (ln_doc n)) (ln_start n) (ln_end n)"

definition node_reader :: "('v, 'r) env \<Rightarrow> lazy_node \<Rightarrow> 'r" where
  "node_reader env n = rd_open (env_reader env) (node_span n) (popts (di_opts (ln_doc n)))"

datatype 'v lazy_value = LNode lazy_node | LValue 'v

section \<open>Resolution\<close>

text \<open>The slice \<open>sub\<close> is given by its span in the document.\<close>

definition resolved_to_value ::
  "('v, 'r) env \<Rightarrow> 'v pull_state \<Rightarrow> doc_inner \<Rightarrow> nat \<times> nat \<Rightarrow> ruby_error + 'v lazy_value \<times> 'v pull_state" where
  "resolved_to_value env st doc = (\<lambda>(start, end).
     case sub (inner_bytes doc) start end of
       k # _ \<Rightarrow>
         if k = KIND_OBJECT \<or> k = KIND_ARRAY
         then Inr (LNode \<lparr>ln_doc = doc, ln_start = start, ln_end = end, ln_kind = k\<rparr>, st)
         else map_ok (\<lambda>(v, st). (LValue v, st)) (materialize_at env st (inner_bytes doc) start end (di_opts doc))
     | [] \<Rightarrow> map_ok (\<lambda>(v, st). (LValue v, st)) (materialize_at env st (inner_bytes doc) start end (di_opts doc)))"

definition reader_err :: "('v, 'r) env \<Rightarrow> lazy_node \<Rightarrow> parse_error \<Rightarrow> ruby_error" where
  "reader_err env n e = raised_at (inner_bytes (ln_doc n)) (ln_start n + pe_offset e) (env_show env e)"

definition resolve_in_span ::
  "('v, 'r) env \<Rightarrow> resolver \<Rightarrow> 'v pull_state \<Rightarrow> lazy_node \<Rightarrow> bytes \<Rightarrow> ruby_error + 'v lazy_value \<times> 'v pull_state" where
  "resolve_in_span env re st n pointer =
     (case re_pointer re (node_span n) pointer (popts (di_opts (ln_doc n))) of
        Inr None \<Rightarrow> Inr (LValue (vm_nil (env_vm env)), st)
      | Inr (Some sl) \<Rightarrow> resolved_to_value env st (ln_doc n) (ln_start n + fst sl, ln_start n + fst sl + snd sl)
      | Inl e \<Rightarrow>
          if pe_kind e = InvalidPointer then Inl (ArgumentError (env_show env e))
          else Inl (reader_err env n e))"

section \<open>Opening\<close>

definition wrap_root ::
  "('v, 'r) env \<Rightarrow> 'v pull_state \<Rightarrow> doc_bytes \<Rightarrow> parse_opts \<Rightarrow> ruby_error + 'v lazy_value \<times> 'v pull_state" where
  "wrap_root env st b opts =
     (let doc = \<lparr>di_bytes = b, di_opts = opts\<rparr>; input = inner_bytes doc
      in case position (\<lambda>b. \<not> is_ws b) input of
           None \<Rightarrow> Inl (raised_at input (length input) (msg ''unexpected end of input''))
         | Some start \<Rightarrow>
             (case rposition (\<lambda>b. \<not> is_ws b) input of
                None \<Rightarrow> Inl Panic
              | Some final \<Rightarrow> resolved_to_value env st doc (start, final + 1)))"

definition lazy_native ::
  "('v, 'r) env \<Rightarrow> 'v pull_state \<Rightarrow> rstring \<Rightarrow> bool \<Rightarrow> options_arg \<Rightarrow> ruby_error + 'v lazy_value \<times> 'v pull_state" where
  "lazy_native env st data is_frozen opts =
     tryr (parse_native_opts opts) (\<lambda>po.
     tryr (utf8_input data) (\<lambda>input.
     wrap_root env st (if is_frozen then DocFrozen input else DocOwned input) po))"

section \<open>Access\<close>

definition lazy_get ::
  "('v, 'r) env \<Rightarrow> resolver \<Rightarrow> 'v pull_state \<Rightarrow> lazy_node \<Rightarrow> path_elem \<Rightarrow> ruby_error + 'v lazy_value \<times> 'v pull_state" where
  "lazy_get env re st n token =
     (case token of
        PeInt t \<Rightarrow> tryr t (\<lambda>idx.
          if sint idx < 0 then Inr (LValue (vm_nil (env_vm env)), st)
          else resolve_in_span env re st n ([b_slash] @ dec (nat (sint idx))))
      | PeStr t \<Rightarrow> tryr t (\<lambda>s. resolve_in_span env re st n (push_escaped_token [] s))
      | PeSym t \<Rightarrow> tryr t (\<lambda>s. resolve_in_span env re st n (push_escaped_token [] s))
      | PeOther \<Rightarrow> Inl (ArgumentError (msg ''keys must be Strings, Symbols, or Integers'')))"

definition lazy_dig ::
  "('v, 'r) env \<Rightarrow> resolver \<Rightarrow> 'v pull_state \<Rightarrow> lazy_node \<Rightarrow> path_elem list \<Rightarrow> ruby_error + 'v lazy_value \<times> 'v pull_state" where
  "lazy_dig env re st n path =
     tryr (path_to_pointer path) (\<lambda>p.
     case p of
       Some ptr \<Rightarrow> resolve_in_span env re st n ptr
     | None \<Rightarrow> Inr (LValue (vm_nil (env_vm env)), st))"

definition lazy_at_pointer ::
  "('v, 'r) env \<Rightarrow> resolver \<Rightarrow> 'v pull_state \<Rightarrow> lazy_node \<Rightarrow> ruby_error + bytes \<Rightarrow>
     ruby_error + 'v lazy_value \<times> 'v pull_state" where
  "lazy_at_pointer env re st n pointer = tryr pointer (\<lambda>ptr. resolve_in_span env re st n ptr)"

definition lazy_materialize ::
  "('v, 'r) env \<Rightarrow> 'v pull_state \<Rightarrow> lazy_node \<Rightarrow> ruby_error + 'v \<times> 'v pull_state" where
  "lazy_materialize env st n =
     materialize_at env st (inner_bytes (ln_doc n)) (ln_start n) (ln_end n) (di_opts (ln_doc n))"

datatype lazy_kind = KindObject | KindArray

definition lazy_kind_of :: "lazy_node \<Rightarrow> lazy_kind" where
  "lazy_kind_of n = (if ln_kind n = KIND_OBJECT then KindObject else KindArray)"

definition lazy_byte_size :: "lazy_node \<Rightarrow> nat" where
  "lazy_byte_size n = ln_end n - ln_start n"

section \<open>Listings\<close>

partial_function (option) keys_loop ::
  "'r reader \<Rightarrow> bool \<Rightarrow> 'r \<Rightarrow> bytes list \<Rightarrow> (parse_error + bytes list) option"
where
  "keys_loop R has r out =
     (if \<not> has then Some (Inr out)
      else case rd_skip_value R r of
             Inl e \<Rightarrow> Some (Inl e)
           | Inr (_, r) \<Rightarrow>
               (case rd_object_next_key R r of
                  Inl e \<Rightarrow> Some (Inl e)
                | Inr (Some k, r) \<Rightarrow> keys_loop R True r (out @ [k])
                | Inr (None, r) \<Rightarrow> keys_loop R False r out))"

text \<open>A walk's failure inside a node, or its result.\<close>

definition node_walk :: "('v, 'r) env \<Rightarrow> lazy_node \<Rightarrow> (parse_error + 'a) option \<Rightarrow> ruby_error + 'a" where
  "node_walk env n walk =
     (case walk of None \<Rightarrow> Inl Hang | Some r \<Rightarrow> map_err (reader_err env n) r)"

definition lazy_keys :: "('v, 'r) env \<Rightarrow> lazy_node \<Rightarrow> ruby_error + bytes list" where
  "lazy_keys env n =
     (let R = env_reader env in
      if ln_kind n \<noteq> KIND_OBJECT then Inl (TypeError (msg ''keys on a JSON array''))
      else node_walk env n
        (case rd_next_node R (node_reader env n) of
           Inl e \<Rightarrow> Some (Inl e)
         | Inr (_, r) \<Rightarrow>
             (case rd_object_first_key R r of
                Inl e \<Rightarrow> Some (Inl e)
              | Inr (Some k, r) \<Rightarrow> keys_loop R True r [k]
              | Inr (None, r) \<Rightarrow> keys_loop R False r [])))"

partial_function (option) size_loop ::
  "('r \<Rightarrow> parse_error + bool \<times> 'r) \<Rightarrow> 'r reader \<Rightarrow> bool \<Rightarrow> 'r \<Rightarrow> nat \<Rightarrow> (parse_error + nat) option"
where
  "size_loop next R has r n =
     (if \<not> has then Some (Inr n)
      else case rd_skip_value R r of
             Inl e \<Rightarrow> Some (Inl e)
           | Inr (_, r) \<Rightarrow>
               (case next r of
                  Inl e \<Rightarrow> Some (Inl e)
                | Inr (has, r) \<Rightarrow> size_loop next R has r (n + 1)))"

text \<open>\<open>is_some\<close> of a key.\<close>

definition some_key :: "parse_error + bytes option \<times> 'r \<Rightarrow> parse_error + bool \<times> 'r" where
  "some_key res = map_ok (\<lambda>(key, r). (key \<noteq> None, r)) res"

definition lazy_size :: "('v, 'r) env \<Rightarrow> lazy_node \<Rightarrow> ruby_error + nat" where
  "lazy_size env n =
     (let R = env_reader env in
      node_walk env n
        (case rd_next_node R (node_reader env n) of
           Inl e \<Rightarrow> Some (Inl e)
         | Inr (_, r) \<Rightarrow>
             if ln_kind n = KIND_OBJECT
             then (case some_key (rd_object_first_key R r) of
                     Inl e \<Rightarrow> Some (Inl e)
                   | Inr (has, r) \<Rightarrow> size_loop (\<lambda>r. some_key (rd_object_next_key R r)) R has r 0)
             else (case rd_array_first R r of
                     Inl e \<Rightarrow> Some (Inl e)
                   | Inr (has, r) \<Rightarrow> size_loop (rd_array_next R) R has r 0)))"

text \<open>The second phase: the children as values, paired with their keys.\<close>

fun wrap_children ::
  "('v, 'r) env \<Rightarrow> doc_inner \<Rightarrow> child_span list \<Rightarrow> 'v pull_state \<Rightarrow>
     ruby_error + (bytes option \<times> 'v lazy_value) list \<times> 'v pull_state" where
  "wrap_children env doc [] st = Inr ([], st)"
| "wrap_children env doc (d # ds) st =
     tryr (resolved_to_value env st doc (cs_start d, cs_end d)) (\<lambda>(child, st).
     map_ok (\<lambda>(rest, st). ((cs_key d, child) # rest, st)) (wrap_children env doc ds st))"

definition lazy_children ::
  "('v, 'r) env \<Rightarrow> 'v pull_state \<Rightarrow> lazy_node \<Rightarrow> ruby_error + (bytes option \<times> 'v lazy_value) list \<times> 'v pull_state" where
  "lazy_children env st n =
     tryr (node_walk env n (children_walk (env_reader env) (ln_kind n = KIND_OBJECT) (ln_start n) (node_reader env n))) (\<lambda>ds.
     wrap_children env (ln_doc n) ds st)"

end
