(* ===== verification/Lazy_Results.thy ===== *)
theory Lazy_Results
  imports Lazy
begin

text \<open>
  The properties of lazy documents: the invariant of the nodes that Ruby code can reach, the
  agreement of the listings with each other, and the agreement of lazy access, once
  materialized, with the eager entry points.
\<close>

section \<open>Reachable nodes\<close>

text \<open>What the crate documents of its slices: they lie in the bytes it was given.\<close>

definition resolver_slices :: "resolver \<Rightarrow> bool" where
  "resolver_slices re \<longleftrightarrow>
     (\<forall>b p gr s l. re_pointer re b p gr = Inr (Some (s, l)) \<longrightarrow> s + l \<le> length b)"

definition keeps_slices :: "(nat \<Rightarrow> 'r \<Rightarrow> bool) \<Rightarrow> nat \<Rightarrow> 'r reader \<Rightarrow> bool" where
  "keeps_slices I n R \<longleftrightarrow>
     (\<forall>r x r'. I n r \<longrightarrow>
        (rd_next_node R r = Inr (fst x, r') \<longrightarrow> I n r') \<and>
        (rd_object_first_key R r = Inr (fst (snd x), r') \<longrightarrow> I n r') \<and>
        (rd_object_next_key R r = Inr (fst (snd x), r') \<longrightarrow> I n r') \<and>
        (rd_array_first R r = Inr (fst (snd (snd x)), r') \<longrightarrow> I n r') \<and>
        (rd_array_next R r = Inr (fst (snd (snd x)), r') \<longrightarrow> I n r') \<and>
        (rd_skip_value R r = Inr (snd (snd (snd x)), r') \<longrightarrow>
           I n r' \<and> fst (snd (snd (snd x))) + snd (snd (snd (snd x))) \<le> n))"

definition reader_slices :: "'r reader \<Rightarrow> bool" where
  "reader_slices R \<longleftrightarrow>
     (\<exists>I. (\<forall>b gr. I (length b) (rd_open R b gr)) \<and> (\<forall>n. keeps_slices I n R))"

lemma keeps_slicesD:
  assumes "keeps_slices I n R" and "I n r"
  shows "rd_next_node R r = Inr (nd, r') \<Longrightarrow> I n r'" and "rd_object_first_key R r = Inr (k, r') \<Longrightarrow> I n r'"
    and "rd_object_next_key R r = Inr (k, r') \<Longrightarrow> I n r'" and "rd_array_first R r = Inr (h, r') \<Longrightarrow> I n r'"
    and "rd_array_next R r = Inr (h, r') \<Longrightarrow> I n r'"
    and "rd_skip_value R r = Inr (sl, r') \<Longrightarrow> I n r' \<and> fst sl + snd sl \<le> n"
  using assms unfolding keeps_slices_def by (metis fst_conv snd_conv)+

definition spans_in :: "nat \<Rightarrow> nat \<Rightarrow> child_span list \<Rightarrow> bool" where
  "spans_in start n ds \<longleftrightarrow> (\<forall>d \<in> set ds. start \<le> cs_start d \<and> cs_end d \<le> start + n)"

lemma spans_in_snoc [simp]:
  "spans_in start n (ds @ [child_at start k sl]) \<longleftrightarrow> spans_in start n ds \<and> fst sl + snd sl \<le> n"
  by (cases sl) (auto simp: spans_in_def child_at_def span_of_def)

lemma members_loop_in:
  "members_loop R start key r out = Some y \<Longrightarrow> keeps_slices I n R \<Longrightarrow> I n r \<Longrightarrow> spans_in start n out \<Longrightarrow>
     y = Inr ds \<Longrightarrow> spans_in start n ds"
proof (induction rule: members_loop.raw_induct [rotated, consumes 1, case_names step])
  case (step loop R start key r out y)
  show ?case
  proof (cases key)
    case None
    with step show ?thesis by simp
  next
    case (Some k)
    with step(2,6) obtain sl r1 where skip: "rd_skip_value R r = Inr (sl, r1)" by (auto split: sum.splits)
    with step(2,6) Some obtain key' r2 where more: "rd_object_next_key R r1 = Inr (key', r2)"
      "loop R start key' r2 (out @ [child_at start (Some k) sl]) = Some y"
      by (auto split: sum.splits)
    note at1 = keeps_slicesD(6) [OF step(3,4) skip]
    with keeps_slicesD(3) [OF step(3) _ more(1)] step(1) [OF more(2) step(3)] step(5,6) show ?thesis by simp
  qed
qed

lemma elems_loop_in:
  "elems_loop R start has r out = Some y \<Longrightarrow> keeps_slices I n R \<Longrightarrow> I n r \<Longrightarrow> spans_in start n out \<Longrightarrow>
     y = Inr ds \<Longrightarrow> spans_in start n ds"
proof (induction rule: elems_loop.raw_induct [rotated, consumes 1, case_names step])
  case (step loop R start has r out y)
  show ?case
  proof (cases has)
    case False
    with step show ?thesis by simp
  next
    case True
    with step(2,6) obtain sl r1 where skip: "rd_skip_value R r = Inr (sl, r1)" by (auto split: sum.splits)
    with step(2,6) True obtain has' r2 where more: "rd_array_next R r1 = Inr (has', r2)"
      "loop R start has' r2 (out @ [child_at start None sl]) = Some y"
      by (auto split: sum.splits)
    note at1 = keeps_slicesD(6) [OF step(3,4) skip]
    with keeps_slicesD(5) [OF step(3) _ more(1)] step(1) [OF more(2) step(3)] step(5,6) show ?thesis by simp
  qed
qed

lemma children_walk_in:
  assumes "reader_slices R" and "children_walk R object start (rd_open R b gr) = Some (Inr ds)"
  shows "spans_in start (length b) ds"
proof -
  from assms(1) obtain I where I: "I (length b) (rd_open R b gr)" "keeps_slices I (length b) R"
    by (auto simp: reader_slices_def)
  have out: "spans_in start (length b) []" by (simp add: spans_in_def)
  from assms(2) obtain nd r1 where n: "rd_next_node R (rd_open R b gr) = Inr (nd, r1)"
    by (auto simp: children_walk_def split: sum.splits)
  note r1 = keeps_slicesD(1) [OF I(2,1) n]
  show ?thesis
  proof (cases object)
    case True
    with assms(2) n obtain key r2 where k: "rd_object_first_key R r1 = Inr (key, r2)"
      "members_loop R start key r2 [] = Some (Inr ds)"
      by (auto simp: children_walk_def split: sum.splits)
    from members_loop_in [OF k(2) I(2) keeps_slicesD(2) [OF I(2) r1 k(1)] out refl] show ?thesis .
  next
    case False
    with assms(2) n obtain has r2 where k: "rd_array_first R r1 = Inr (has, r2)"
      "elems_loop R start has r2 [] = Some (Inr ds)"
      by (auto simp: children_walk_def split: sum.splits)
    from elems_loop_in [OF k(2) I(2) keeps_slicesD(4) [OF I(2) r1 k(1)] out refl] show ?thesis .
  qed
qed

text \<open>The nodes Ruby code can get hold of, starting from the root of a document.\<close>

inductive reachable :: "('v, 'r) env \<Rightarrow> resolver \<Rightarrow> doc_inner \<Rightarrow> lazy_node \<Rightarrow> bool"
  for env re doc where
  root: "wrap_root env st (di_bytes doc) (di_opts doc) = Inr (LNode n, st') \<Longrightarrow> reachable env re doc n"
| get: "reachable env re doc n \<Longrightarrow> lazy_get env re st n token = Inr (LNode m, st') \<Longrightarrow> reachable env re doc m"
| dig: "reachable env re doc n \<Longrightarrow> lazy_dig env re st n path = Inr (LNode m, st') \<Longrightarrow> reachable env re doc m"
| at: "reachable env re doc n \<Longrightarrow> lazy_at_pointer env re st n pointer = Inr (LNode m, st') \<Longrightarrow> reachable env re doc m"
| child: "reachable env re doc n \<Longrightarrow> lazy_children env st n = Inr (cs, st') \<Longrightarrow> (k, LNode m) \<in> set cs \<Longrightarrow>
    reachable env re doc m"

text \<open>A node is a span of its document that starts with its kind.\<close>

definition node_sound :: "doc_inner \<Rightarrow> lazy_node \<Rightarrow> bool" where
  "node_sound doc n \<longleftrightarrow> ln_doc n = doc \<and> ln_start n < ln_end n \<and> ln_end n \<le> length (inner_bytes doc) \<and>
     ln_kind n = inner_bytes doc ! ln_start n \<and> ln_kind n \<in> {KIND_OBJECT, KIND_ARRAY}"

definition node_within :: "lazy_node \<Rightarrow> lazy_node \<Rightarrow> bool" where
  "node_within m n \<longleftrightarrow> ln_start n \<le> ln_start m \<and> ln_end m \<le> ln_end n"

lemma resolved_node:
  assumes "resolved_to_value env st doc (s, e) = Inr (LNode m, st')" and "e \<le> length (inner_bytes doc)"
  shows "node_sound doc m \<and> ln_start m = s \<and> ln_end m = e"
proof -
  have no: "map_ok (\<lambda>(v, st). (LValue v, st)) r \<noteq> Inr (LNode m, st')" for r :: "ruby_error + 'a \<times> 'a pull_state"
    by (cases r) auto
  with assms(1) obtain k b where b: "sub (inner_bytes doc) s e = k # b" "k = KIND_OBJECT \<or> k = KIND_ARRAY"
    "m = \<lparr>ln_doc = doc, ln_start = s, ln_end = e, ln_kind = k\<rparr>"
    by (auto simp: resolved_to_value_def split: list.splits if_splits)
  have "0 < length (sub (inner_bytes doc) s e)" using b(1) by simp
  then have "s < e" using assms(2) by (simp add: length_sub)
  moreover have "k = inner_bytes doc ! s"
    using sub_nth [of 0 e s "inner_bytes doc"] \<open>s < e\<close> assms(2) b(1) by simp
  ultimately show ?thesis using b(2,3) assms(2) by (auto simp: node_sound_def)
qed

lemma resolve_in_span_node:
  assumes "resolver_slices re" and "node_sound doc n" and "resolve_in_span env re st n ptr = Inr (LNode m, st')"
  shows "node_sound doc m \<and> node_within m n"
proof -
  let ?b = "node_span n"
  from assms(2) have n: "ln_doc n = doc" "ln_start n < ln_end n" "ln_end n \<le> length (inner_bytes doc)"
    by (auto simp: node_sound_def)
  then have b: "length ?b = ln_end n - ln_start n" by (simp add: node_span_def length_sub)
  from assms(3) obtain s l where sl: "re_pointer re ?b ptr (popts (di_opts (ln_doc n))) = Inr (Some (s, l))"
    "resolved_to_value env st doc (ln_start n + s, ln_start n + s + l) = Inr (LNode m, st')"
    by (auto simp: resolve_in_span_def n(1) split: sum.splits option.splits if_splits)
  have "s + l \<le> ln_end n - ln_start n" using assms(1) sl(1) unfolding resolver_slices_def b [symmetric] by blast
  with resolved_node [OF sl(2)] n show ?thesis by (auto simp: node_within_def)
qed

lemma wrap_children_nodes:
  assumes "wrap_children env doc ds st = Inr (cs, st')" and "spans_in start n ds" and "start + n \<le> length (inner_bytes doc)"
    and "(k, LNode m) \<in> set cs"
  shows "node_sound doc m \<and> start \<le> ln_start m \<and> ln_end m \<le> start + n"
  using assms
proof (induction ds arbitrary: st cs)
  case (Cons d ds)
  from Cons.prems(1) obtain c st1 rest where d: "resolved_to_value env st doc (cs_start d, cs_end d) = Inr (c, st1)"
    "wrap_children env doc ds st1 = Inr (rest, st')" "cs = (cs_key d, c) # rest"
    by (auto simp: tryr_Inr_iff map_ok_tryr)
  show ?case
  proof (cases "(k, LNode m) \<in> set rest")
    case True
    with Cons.IH [OF d(2)] Cons.prems(2,3) show ?thesis by (simp add: spans_in_def)
  next
    case False
    with Cons.prems(4) d(3) have "c = LNode m" by simp
    with resolved_node [of env st doc "cs_start d" "cs_end d" m st1] d(1) Cons.prems(2,3)
    show ?thesis by (auto simp: spans_in_def)
  qed
qed simp

lemma lazy_get_pointer:
  "lazy_get env re st n token = Inr (LNode m, st') \<Longrightarrow> \<exists>ptr. resolve_in_span env re st n ptr = Inr (LNode m, st')"
  by (cases token) (auto simp: lazy_get_def tryr_Inr_iff split: if_splits)

lemma lazy_dig_pointer:
  "lazy_dig env re st n path = Inr (LNode m, st') \<Longrightarrow> \<exists>ptr. resolve_in_span env re st n ptr = Inr (LNode m, st')"
  by (auto simp: lazy_dig_def tryr_Inr_iff split: option.splits)

lemma lazy_children_nodes:
  assumes "reader_slices (env_reader env)" and "node_sound doc n" and "lazy_children env st n = Inr (cs, st')"
    and "(k, LNode m) \<in> set cs"
  shows "node_sound doc m \<and> node_within m n"
proof -
  from assms(2) have n: "ln_doc n = doc" "ln_start n < ln_end n" "ln_end n \<le> length (inner_bytes doc)"
    by (auto simp: node_sound_def)
  then have b: "length (node_span n) = ln_end n - ln_start n" by (simp add: node_span_def length_sub)
  from assms(3) obtain ds where ds: "node_walk env n (children_walk (env_reader env) (ln_kind n = KIND_OBJECT)
      (ln_start n) (node_reader env n)) = Inr ds" "wrap_children env doc ds st = Inr (cs, st')"
    by (auto simp: lazy_children_def tryr_Inr_iff n(1))
  from ds(1) have "children_walk (env_reader env) (ln_kind n = KIND_OBJECT) (ln_start n)
      (rd_open (env_reader env) (node_span n) (popts (di_opts doc))) = Some (Inr ds)"
    by (auto simp: node_walk_def node_reader_def n(1) map_ok_tryr split: option.splits) 
      (metis map_err.elims sum.distinct(1) sum.inject(2))
  from children_walk_in [OF assms(1) this] have "spans_in (ln_start n) (ln_end n - ln_start n) ds" by (simp only: b)
  from wrap_children_nodes [OF ds(2) this _ assms(4)] n show ?thesis by (auto simp: node_within_def)
qed

lemma wrap_root_node:
  assumes "wrap_root env st b opts = Inr (LNode n, st')" and "doc = \<lparr>di_bytes = b, di_opts = opts\<rparr>"
  shows "node_sound doc n"
proof -
  from assms obtain start final where p: "rposition (\<lambda>b. \<not> is_ws b) (inner_bytes doc) = Some final"
    "resolved_to_value env st doc (start, final + 1) = Inr (LNode n, st')"
    by (auto simp: wrap_root_def Let_def split: option.splits)
  from p(1) have "final + 1 \<le> length (inner_bytes doc)" by (auto simp: rposition_Some)
  from resolved_node [OF p(2) this] show ?thesis by simp
qed

text \<open>
  C19.  Every node that Ruby code can reach from a document, by any sequence of accesses, is a
  non-empty span inside that same document, and its kind is the bracket the span starts with:
  \<open>span()\<close> never slices out of range, and \<open>__kind\<close> is right.
\<close>

theorem nodes_inside:
  assumes "reachable env re doc n" and "resolver_slices re" and "reader_slices (env_reader env)"
  shows "node_sound doc n"
  using assms(1)
proof (induction rule: reachable.induct)
  case (root st n st')
  then show ?case by (rule wrap_root_node) simp
next
  case (get n st token m st')
  then show ?case using lazy_get_pointer resolve_in_span_node [OF assms(2)] by blast
next
  case (dig n st path m st')
  then show ?case using lazy_dig_pointer resolve_in_span_node [OF assms(2)] by blast
next
  case (at n st pointer m st')
  then obtain ptr where "resolve_in_span env re st n ptr = Inr (LNode m, st')"
    by (auto simp: lazy_at_pointer_def tryr_Inr_iff)
  then show ?case using resolve_in_span_node [OF assms(2) at.IH] by blast
next
  case (child n st cs st' k m)
  then show ?case using lazy_children_nodes [OF assms(3)] by blast
qed


section \<open>Listings\<close>

lemma keys_loop_at:
  "at_members R kvs r r' \<Longrightarrow> (case kvs of [] \<Rightarrow> keys_loop R False r out = Some (Inr out)
     | kv # _ \<Rightarrow> keys_loop R True r (out @ [fst kv]) = Some (Inr (out @ map fst kvs)))"
proof (induction kvs arbitrary: r out)
  case Nil
  then show ?case by (simp add: keys_loop.simps)
next
  case (Cons kv kvs)
  obtain k p where kv: "kv = (k, p)" by fastforce
  with Cons.prems obtain r1 r2 where m: "at_value R p r r1" "rd_object_next_key R r1 = Inr (first_key kvs, r2)"
    "at_members R kvs r2 r'" by auto
  have "keys_loop R True r (out @ [k]) = (case first_key kvs of
      Some k' \<Rightarrow> keys_loop R True r2 ((out @ [k]) @ [k']) | None \<Rightarrow> keys_loop R False r2 (out @ [k]))"
    by (subst keys_loop.simps) (simp add: at_value_skips [OF m(1)] m(2) split: option.split)
  with Cons.IH [OF m(3), of "out @ [k]"] kv show ?case
    by (cases kvs; cases "hd kvs") auto
qed

lemma size_loop_members:
  "at_members R kvs r r' \<Longrightarrow>
     size_loop (\<lambda>r. some_key (rd_object_next_key R r)) R (first_key kvs \<noteq> None) r n = Some (Inr (n + length kvs))"
proof (induction kvs arbitrary: r n)
  case Nil
  then show ?case by (simp add: size_loop.simps)
next
  case (Cons kv kvs)
  obtain k p where kv: "kv = (k, p)" by fastforce
  with Cons.prems obtain r1 r2 where m: "at_value R p r r1" "rd_object_next_key R r1 = Inr (first_key kvs, r2)"
    "at_members R kvs r2 r'" by auto
  from Cons.IH [OF m(3), of "n + 1"] m(2) kv at_value_skips [OF m(1)] show ?case
    by (subst size_loop.simps) (simp add: some_key_def)
qed

lemma size_loop_elems:
  "at_elems R ps r r' \<Longrightarrow> size_loop (rd_array_next R) R (ps \<noteq> []) r n = Some (Inr (n + length ps))"
proof (induction ps arbitrary: r n)
  case Nil
  then show ?case by (simp add: size_loop.simps)
next
  case (Cons p ps)
  then obtain r1 r2 where m: "at_value R p r r1" "rd_array_next R r1 = Inr (ps \<noteq> [], r2)" "at_elems R ps r2 r'"
    by auto
  from Cons.IH [OF m(3), of "n + 1"] m(2) at_value_skips [OF m(1)] show ?case
    by (subst size_loop.simps) simp
qed

text \<open>The node's text, as the crate's Reader walks it.\<close>

definition node_reads :: "('v, 'r) env \<Rightarrow> lazy_node \<Rightarrow> pdoc \<Rightarrow> bool" where
  "node_reads env n p \<longleftrightarrow> reads (env_reader env) (node_span n) (popts (di_opts (ln_doc n))) p \<and> is_container p \<and>
     (ln_kind n = KIND_OBJECT \<longleftrightarrow> is_object p)"

lemma lazy_size_reads: "node_reads env n p \<Longrightarrow> lazy_size env n = Inr (length (children_of 0 p))"
proof (cases p)
  case (PArray sl ps)
  assume "node_reads env n p"
  with PArray obtain r1 r2 r' where "rd_next_node (env_reader env) (node_reader env n) = Inr (ArrayStart, r1)"
    "rd_array_first (env_reader env) r1 = Inr (ps \<noteq> [], r2)" "at_elems (env_reader env) ps r2 r'" "ln_kind n \<noteq> KIND_OBJECT"
    by (auto simp: node_reads_def reads_def node_reader_def)
  with PArray size_loop_elems [of "env_reader env" ps r2 r' 0] show ?thesis
    by (simp add: lazy_size_def node_walk_def)
next
  case (PObject sl kvs)
  assume "node_reads env n p"
  with PObject obtain r1 r2 r' where "rd_next_node (env_reader env) (node_reader env n) = Inr (ObjectStart, r1)"
    "rd_object_first_key (env_reader env) r1 = Inr (first_key kvs, r2)" "at_members (env_reader env) kvs r2 r'"
    "ln_kind n = KIND_OBJECT"
    by (auto simp: node_reads_def reads_def node_reader_def)
  with PObject size_loop_members [of "env_reader env" kvs r2 r' 0] show ?thesis
    by (simp add: lazy_size_def node_walk_def some_key_def)
qed (simp add: node_reads_def)

fun member_keys :: "pdoc \<Rightarrow> bytes list" where
  "member_keys (PObject sl kvs) = map fst kvs"
| "member_keys p = []"

lemma lazy_keys_reads:
  "node_reads env n p \<Longrightarrow> is_object p \<Longrightarrow> lazy_keys env n = Inr (member_keys p)"
proof (cases p)
  case (PObject sl kvs)
  assume "node_reads env n p"
  with PObject obtain r1 r2 r' where n: "rd_next_node (env_reader env) (node_reader env n) = Inr (ObjectStart, r1)"
    "rd_object_first_key (env_reader env) r1 = Inr (first_key kvs, r2)" "at_members (env_reader env) kvs r2 r'"
    "ln_kind n = KIND_OBJECT"
    by (auto simp: node_reads_def reads_def node_reader_def)
  with PObject keys_loop_at [OF n(3), of "[]"] show ?thesis
    by (cases kvs; cases "hd kvs") (auto simp: lazy_keys_def node_walk_def)
qed simp_all

lemma lazy_children_reads:
  "node_reads env n p \<Longrightarrow> lazy_children env st n = wrap_children env (ln_doc n) (children_of (ln_start n) p) st"
  using children_walk_at [of "env_reader env" p "node_reader env n" _ "ln_start n"]
  by (auto simp: node_reads_def reads_def node_reader_def lazy_children_def node_walk_def)

lemma wrap_children_keys: "wrap_children env doc ds st = Inr (cs, st') \<Longrightarrow> map fst cs = map cs_key ds"
proof (induction ds arbitrary: st cs)
  case (Cons d ds)
  then show ?case by (auto simp: tryr_Inr_iff map_ok_tryr)
qed simp

lemma children_of_keys:
  "map cs_key (children_of start p) = (if is_object p then map Some (member_keys p) else replicate (length (children_of 0 p)) None)"
  by (cases p) (auto simp: child_at_def span_of_def map_replicate_const [symmetric] o_def case_prod_unfold)

lemma length_children_of: "length (children_of start p) = length (children_of 0 p)"
  by (cases p) simp_all

text \<open>
  The three listings of a node that reads as a container end and agree: \<open>__size\<close> counts
  what \<open>__children\<close> yields, \<open>__keys\<close> are the keys of its pairs in document order for an
  object, and a \<open>TypeError\<close> for an array, whose children carry no keys.
\<close>

theorem listings_agree:
  assumes "node_reads env n p" and "lazy_children env st n = Inr (cs, st')"
  shows "lazy_size env n = Inr (length cs) \<and>
    (if is_object p
     then \<exists>ks. lazy_keys env n = Inr ks \<and> map fst cs = map Some ks
     else lazy_keys env n = Inl (TypeError (msg ''keys on a JSON array'')) \<and> (\<forall>c \<in> set cs. fst c = None))"
proof -
  from assms have w: "wrap_children env (ln_doc n) (children_of (ln_start n) p) st = Inr (cs, st')"
    using lazy_children_reads [OF assms(1)] by simp
  note keys = wrap_children_keys [OF w, unfolded children_of_keys]
  have "length cs = length (children_of (ln_start n) p)"
    using arg_cong [OF wrap_children_keys [OF w], of length] by simp
  then have l: "lazy_size env n = Inr (length cs)"
    using lazy_size_reads [OF assms(1)] length_children_of [of "ln_start n" p] by simp
  show ?thesis
  proof (cases "is_object p")
    case True
    with l lazy_keys_reads [OF assms(1) True] keys show ?thesis by simp
  next
    case False
    with assms(1) have "ln_kind n \<noteq> KIND_OBJECT" by (simp add: node_reads_def)
    moreover have "\<forall>c \<in> set cs. fst c = None"
      using keys False by (metis (no_types, lifting) image_eqI in_set_replicate list.set_map)
    ultimately show ?thesis using l False by (simp add: lazy_keys_def)
  qed
qed

section \<open>Lazy and eager access\<close>

text \<open>What an access returns, as a plain value.\<close>

fun force :: "('v, 'r) env \<Rightarrow> 'v lazy_value \<times> 'v pull_state \<Rightarrow> ruby_error + 'v \<times> 'v pull_state" where
  "force env (LNode n, st) = lazy_materialize env st n"
| "force env (LValue v, st) = Inr (v, st)"

lemma force_resolved:
  "tryr (resolved_to_value env st doc (s, e)) (force env) = materialize_at env st (inner_bytes doc) s e (di_opts doc)"
proof -
  have v: "tryr (map_ok (\<lambda>(v, st). (LValue v, st)) r) (force env) = r" for r :: "ruby_error + 'a \<times> 'a pull_state"
    by (cases r) auto
  show ?thesis by (auto simp: resolved_to_value_def v lazy_materialize_def split: list.split)
qed

text \<open>
  A resolver that gives, on the trimmed text, what it gives on the whole document, moved by the
  whitespace in front (the leading whitespace belongs to no value).
\<close>

definition ignores_space :: "resolver \<Rightarrow> bytes \<Rightarrow> nat \<Rightarrow> nat \<Rightarrow> bytes \<Rightarrow> popts \<Rightarrow> bool" where
  "ignores_space re input s e ptr gr \<longleftrightarrow>
     (\<exists>hit. re_pointer re (sub input s e) ptr gr = Inr hit \<and>
        re_pointer re input ptr gr = Inr (map_option (\<lambda>(at, l). (s + at, l)) hit))"

lemma root_node:
  assumes "lazy_native env st data frz opts = Inr (LNode n, st')" and "utf8_input data = Inr input"
    and "parse_native_opts opts = Inr po"
  shows "inner_bytes (ln_doc n) = input \<and> di_opts (ln_doc n) = po \<and> st' = st"
proof -
  let ?b = "if frz then DocFrozen input else DocOwned input"
  have no: "map_ok (\<lambda>(v, st). (LValue v, st)) r \<noteq> Inr (LNode n, st')" for r :: "ruby_error + 'a \<times> 'a pull_state"
    by (cases r) auto
  from assms obtain s e where r: "resolved_to_value env st \<lparr>di_bytes = ?b, di_opts = po\<rparr> (s, e) = Inr (LNode n, st')"
    by (auto simp: lazy_native_def wrap_root_def Let_def split: option.splits)
  then have "ln_doc n = \<lparr>di_bytes = ?b, di_opts = po\<rparr> \<and> st' = st"
    using no by (auto simp: resolved_to_value_def split: list.splits if_splits)
  then show ?thesis by (simp add: inner_bytes.simps)
qed

text \<open>
  C17.  Lazy access is eager access, deferred: opening a document lazily and resolving a pointer
  on the root, then materializing what comes back, is \<open>at_pointer\<close> on the document under the
  same options: the same value, the same nil on a miss, the same error from the parse of the
  addressed text with positions in the whole document.
\<close>

theorem lazy_is_eager:
  assumes "lazy_native env st data frz opts = Inr (LNode n, st')"
    and "utf8_input data = Inr input" and "parse_native_opts opts = Inr po"
    and "ignores_space re input (ln_start n) (ln_end n) ptr (popts po)"
  shows "tryr (lazy_at_pointer env re st' n (Inr ptr)) (force env) = at_pointer_native env re st data (Inr ptr) opts"
proof -
  from root_node [OF assms(1-3)] have n: "inner_bytes (ln_doc n) = input" "di_opts (ln_doc n) = po" "st' = st"
    by auto
  from assms(4) obtain hit where hit: "re_pointer re (node_span n) ptr (popts po) = Inr hit"
    "re_pointer re input ptr (popts po) = Inr (map_option (\<lambda>(at, l). (ln_start n + at, l)) hit)"
    by (auto simp: ignores_space_def node_span_def n(1))
  have native: "at_pointer_native env re st data (Inr ptr) opts = at_pointer_impl env re st data ptr po"
    by (simp add: at_pointer_native_def assms(3))
  show ?thesis
  proof (cases hit)
    case None
    with hit n native assms(2) show ?thesis
      by (simp add: lazy_at_pointer_def resolve_in_span_def at_pointer_impl_def)
  next
    case (Some sl)
    obtain at l where sl: "sl = (at, l)" by fastforce
    have "lazy_at_pointer env re st' n (Inr ptr) = resolved_to_value env st (ln_doc n) (ln_start n + at, ln_start n + at + l)"
      using hit(1) n Some sl by (simp add: lazy_at_pointer_def resolve_in_span_def)
    with force_resolved [of env st "ln_doc n"] hit(2) n native assms(2) Some sl show ?thesis
      by (simp add: at_pointer_impl_def span_of_def)
  qed
qed


section \<open>A sample document\<close>

definition sample_root :: lazy_node where
  "sample_root = \<lparr>ln_doc = \<lparr>di_bytes = DocFrozen sample_text, di_opts = parse_opts_default\<rparr>,
     ln_start = 0, ln_end = 15, ln_kind = KIND_ARRAY\<rparr>"

lemma sample_length: "length sample_text = 15"
  by (simp add: sample_text_def)

lemma sample_span [simp]: "node_span sample_root = sample_text"
  using sub_all [of sample_text] by (simp add: node_span_def sample_root_def inner_bytes.simps sample_length)

lemma sample_ends: "position (\<lambda>b. \<not> is_ws b) sample_text = Some 0" "rposition (\<lambda>b. \<not> is_ws b) sample_text = Some 14"
  by (simp_all add: sample_text_def asc_def json_ws_def rposition_def)

lemma sample_wrap: "wrap_root env st (DocFrozen sample_text) parse_opts_default = Inr (LNode sample_root, st)"
proof -
  have "sub sample_text 0 15 = KIND_ARRAY # tl sample_text"
    using sub_all [of sample_text] by (simp add: sample_length) (simp add: sample_text_def asc_def)
  then show ?thesis
    by (simp add: wrap_root_def Let_def inner_bytes.simps sample_ends resolved_to_value_def sample_root_def)
qed

lemma sample_open: "lazy_native sample_env fresh_pull_state sample_string True ONil = Inr (LNode sample_root, fresh_pull_state)"
  by (simp add: lazy_native_def parse_native_opts_def sample_input sample_wrap)

text \<open>A Reader for empty arrays.\<close>

definition empty_reader :: "nat reader" where
  "empty_reader =
     \<lparr>rd_open = (\<lambda>input _. length input), rd_next_node = (\<lambda>r. Inr (ArrayStart, r)),
      rd_object_first_key = (\<lambda>r. Inr (None, r)), rd_object_next_key = (\<lambda>r. Inr (None, r)),
      rd_array_first = (\<lambda>r. Inr (False, r)), rd_array_next = (\<lambda>r. Inr (False, r)),
      rd_skip_value = (\<lambda>r. Inr ((0, r), r))\<rparr>"

theorem nodes_inside_witness:
  "node_sound \<lparr>di_bytes = DocFrozen sample_text, di_opts = parse_opts_default\<rparr> sample_root"
proof (rule nodes_inside)
  let ?env = "sample_env\<lparr>env_reader := empty_reader\<rparr>" and ?re = "\<lparr>re_pointer = (\<lambda>b _ _. Inr (Some (0, length b))),
    re_pointers = (\<lambda>b ps _. Inr (map (\<lambda>_. Some (0, length b)) ps))\<rparr>"
  show "reachable ?env ?re \<lparr>di_bytes = DocFrozen sample_text, di_opts = parse_opts_default\<rparr> sample_root"
    by (rule reachable.root [of _ fresh_pull_state]) (simp add: sample_wrap)
  show "resolver_slices ?re" by (auto simp: resolver_slices_def)
  have "keeps_slices (\<lambda>n r. r = n) n empty_reader" for n
    by (auto simp: keeps_slices_def empty_reader_def)
  then show "reader_slices (env_reader ?env)"
    unfolding reader_slices_def by (intro exI [of _ "\<lambda>n r. r = n"]) (simp add: empty_reader_def)
qed

theorem listings_agree_witness:
  "\<exists>cs. lazy_children sample_env fresh_pull_state sample_root = Inr (cs, fresh_pull_state) \<and>
     lazy_size sample_env sample_root = Inr (length cs) \<and> length cs = 1"
proof -
  have reads: "node_reads sample_env sample_root sample_pdoc"
    using sample_reads by (simp add: node_reads_def sample_pdoc_def) (simp add: sample_root_def)
  have "inner_bytes (ln_doc sample_root) = sample_text" by (simp add: sample_root_def inner_bytes.simps)
  moreover have "\<exists>t. sub sample_text 1 14 = KIND_OBJECT # t" by (simp add: sample_text_def asc_def sub_def)
  ultimately obtain c where "resolved_to_value sample_env fresh_pull_state (ln_doc sample_root) (1, 14) = Inr (c, fresh_pull_state)"
    by (auto simp: resolved_to_value_def)
  then have "lazy_children sample_env fresh_pull_state sample_root = Inr ([(None, c)], fresh_pull_state)"
    by (simp add: lazy_children_reads [OF reads]) (simp add: sample_pdoc_def child_at_def span_of_def sample_root_def)
  with listings_agree [OF reads this] show ?thesis by simp
qed

theorem lazy_is_eager_witness:
  "tryr (lazy_at_pointer sample_env sample_resolver fresh_pull_state sample_root (Inr (asc ''/0''))) (force sample_env) =
     at_pointer_native sample_env sample_resolver fresh_pull_state sample_string (Inr (asc ''/0'')) ONil"
proof -
  have "ignores_space sample_resolver sample_text (ln_start sample_root) (ln_end sample_root) (asc ''/0'') (popts parse_opts_default)"
    by (auto simp: ignores_space_def sample_resolver_def sample_root_def)
  with lazy_is_eager [OF sample_open sample_input, of parse_opts_default sample_resolver "asc ''/0''"] show ?thesis
    by (simp add: parse_native_opts_def)
qed

end
