(* ===== verification/File_Access.thy ===== *)
theory File_Access
  imports Parse
begin

text \<open>
  File access of src/ext/nosj/src/files.rs: reading, read-only mapping and writing, with the
  mapping of an I/O failure to the Errno exception raised (\<open>io_error\<close>).  The operating system,
  Unix or Windows, and the exception constructor are the parameter \<open>os\<close>.
\<close>

section \<open>The operating system\<close>

text \<open>An I/O error by its raw OS code, if it has one, its portable kind, and its text.\<close>

datatype io_kind = NotFound | PermissionDenied | AlreadyExists | OtherIo

record os_error =
  oe_raw :: "nat option"
  oe_kind :: io_kind
  oe_text :: string

text \<open>
  The outcomes of the calls on a path: its length by \<open>metadata\<close>, opening, reading what was opened,
  mapping it, writing bytes; and of \<open>rb_syserr_new\<close>: the exception raised in it, or the object
  it returned, if that is an Exception.
\<close>

record os =
  os_windows :: bool
  os_metadata :: "bytes \<Rightarrow> os_error + nat"
  os_open :: "bytes \<Rightarrow> os_error + unit"
  os_read :: "bytes \<Rightarrow> os_error + bytes"
  os_map :: "bytes \<Rightarrow> os_error + bytes"
  os_write :: "bytes \<Rightarrow> bytes \<Rightarrow> os_error + unit"
  os_syserr :: "nat \<Rightarrow> bytes \<Rightarrow> nat + nat option"

section \<open>Operations\<close>

text \<open>
  The errno of an error: on Unix the raw code; on Windows the raw code is of another numbering,
  and the kinds Ruby's classes know are mapped to the classic values.
\<close>

definition errno_of_unix :: "os_error \<Rightarrow> nat option" where
  "errno_of_unix e = oe_raw e"

abbreviation ENOENT :: nat where "ENOENT \<equiv> 2"
abbreviation EACCES :: nat where "EACCES \<equiv> 13"
abbreviation EEXIST :: nat where "EEXIST \<equiv> 17"

definition errno_of_windows :: "os_error \<Rightarrow> nat option" where
  "errno_of_windows e =
     (case oe_kind e of
        NotFound \<Rightarrow> Some ENOENT
      | PermissionDenied \<Rightarrow> Some EACCES
      | AlreadyExists \<Rightarrow> Some EEXIST
      | OtherIo \<Rightarrow> None)"

definition errno_of :: "os \<Rightarrow> os_error \<Rightarrow> nat option" where
  "errno_of sys e = (if os_windows sys then errno_of_windows e else errno_of_unix e)"

definition io_error :: "os \<Rightarrow> bytes \<Rightarrow> os_error \<Rightarrow> ruby_error" where
  "io_error sys path e =
     (let plain = RuntimeError (Fmt ''{} - {}'' [AText (oe_text e), ABytes path])
      in case errno_of sys e of
           None \<Rightarrow> plain
         | Some errno \<Rightarrow>
             if 0 \<in> set path then plain
             else case os_syserr sys errno path of
                    Inl raised \<Rightarrow> Raised raised
                  | Inr (Some exc) \<Rightarrow> Raised exc
                  | Inr None \<Rightarrow> plain)"

definition read_into :: "os \<Rightarrow> bytes \<Rightarrow> os_error + bytes" where
  "read_into sys path = tryr (os_open sys path) (\<lambda>_. os_read sys path)"

definition not_utf8 :: ruby_error where
  "not_utf8 = parser_error ''input is not valid UTF-8''"

definition with_mapped_file :: "os \<Rightarrow> bytes \<Rightarrow> (bytes \<Rightarrow> ruby_error + 'r) \<Rightarrow> ruby_error + 'r" where
  "with_mapped_file sys path f =
     tryr (map_err (io_error sys path) (os_open sys path)) (\<lambda>_.
     tryr (map_err (io_error sys path) (os_map sys path)) (\<lambda>mapping.
     if \<not> valid_utf8 mapping then Inl not_utf8 else f mapping))"

definition write_out :: "os \<Rightarrow> bytes \<Rightarrow> bytes \<Rightarrow> ruby_error + nat" where
  "write_out sys path b = map_ok (\<lambda>_. length b) (map_err (io_error sys path) (os_write sys path b))"

text \<open>
  A file that can be opened and read, with one content, and mapped when it is not empty: mapping
  a file of length zero may fail, as it does on Linux.
\<close>

definition file_is :: "os \<Rightarrow> bytes \<Rightarrow> bytes \<Rightarrow> bool" where
  "file_is sys path content \<longleftrightarrow> os_open sys path = Inr () \<and> os_read sys path = Inr content \<and>
     os_metadata sys path = Inr (length content) \<and> (content \<noteq> [] \<longrightarrow> os_map sys path = Inr content)"

lemma mapped:
  "file_is sys path content \<Longrightarrow> valid_utf8 content \<Longrightarrow> content \<noteq> [] \<Longrightarrow> with_mapped_file sys path f = f content"
  by (simp add: file_is_def with_mapped_file_def)

lemma mapped_invalid: "file_is sys path content \<Longrightarrow> \<not> valid_utf8 content \<Longrightarrow> with_mapped_file sys path f = Inl not_utf8"
  by (cases "content = []") (simp_all add: file_is_def with_mapped_file_def valid_utf8_def)

lemma map_refused: "file_is sys path content \<Longrightarrow> os_map sys path = Inl e \<Longrightarrow> with_mapped_file sys path f = Inl (io_error sys path e)"
  by (simp add: file_is_def with_mapped_file_def)

lemma read_file: "file_is sys path content \<Longrightarrow> read_into sys path = Inr content"
  by (simp add: file_is_def read_into_def)

end
