(* ===== verification/Lossy.thy ===== *)
theory Lossy
  imports Rust_Str
begin

text \<open>
  Rust's \<open>String::from_utf8_lossy\<close>, through which the texts of \<open>inspect\<close> and \<open>to_s\<close> enter the
  messages of generation (src/ext/nosj/src/gen/errors.rs and walker.rs): every maximal part that
  cannot be decoded becomes one replacement character.  The lemmas show that the result is
  always valid and that a valid text is left alone.
\<close>

definition replacement :: bytes where
  "replacement = [0xEF, 0xBF, 0xBD]"

text \<open>
  The length of the part to replace where no character can be decoded: what is left of a
  character that breaks off, otherwise one byte.  Past the end the decoder reads zeros.
\<close>

definition byte_at :: "bytes \<Rightarrow> nat \<Rightarrow> byte" where
  "byte_at bs i = (if i < length bs then bs ! i else 0)"

definition broken_length :: "bytes \<Rightarrow> nat" where
  "broken_length bs =
     (if lead3 (byte_at bs 0) (byte_at bs 1) then 2
      else if lead4 (byte_at bs 0) (byte_at bs 1) then if is_cont (byte_at bs 2) then 3 else 2
      else 1)"

function from_utf8_lossy :: "bytes \<Rightarrow> bytes" where
  "from_utf8_lossy bs =
     (if bs = [] then []
      else (case utf8_step bs of
              Some (_, w) \<Rightarrow> take w bs @ from_utf8_lossy (drop w bs)
            | None \<Rightarrow> replacement @ from_utf8_lossy (drop (broken_length bs) bs)))"
  by pat_completeness auto
termination
  by (relation "measure length") (auto dest!: utf8_step_width simp: broken_length_def)

declare from_utf8_lossy.simps [simp del]

lemma from_utf8_lossy_Nil [simp]: "from_utf8_lossy [] = []"
  by (simp add: from_utf8_lossy.simps)

lemma from_utf8_lossy_valid: "valid_utf8 bs \<Longrightarrow> from_utf8_lossy bs = bs"
proof -
  have "utf8_decode bs = Some cs \<Longrightarrow> from_utf8_lossy bs = bs" for cs
  proof (induction rule: utf8_decode_induct)
    case (Step b tl rest c cs)
    then show ?case by (subst from_utf8_lossy.simps) simp
  qed simp
  then show "valid_utf8 bs \<Longrightarrow> from_utf8_lossy bs = bs"
    by (auto simp: valid_utf8_def)
qed

lemma valid_utf8_append: "valid_utf8 xs \<Longrightarrow> valid_utf8 ys \<Longrightarrow> valid_utf8 (xs @ ys)"
  by (auto simp: valid_utf8_def utf8_decode_append)

lemma valid_replacement: "valid_utf8 replacement"
  by (simp add: valid_utf8_def replacement_def utf8_decode.simps utf8_step_def lead3_def in_range_def is_cont_iff)

lemma valid_char:
  assumes "utf8_step bs = Some (c, w)"
  shows "valid_utf8 (take w bs)"
  using utf8_step_take [OF assms] utf8_step_width [OF assms]
  by (subst valid_utf8_def, subst utf8_decode.simps) auto

lemma from_utf8_lossy_is_valid: "valid_utf8 (from_utf8_lossy bs)"
proof (induction bs rule: from_utf8_lossy.induct)
  case (1 bs)
  show ?case
  proof (cases "bs = []")
    case True
    then show ?thesis by (simp add: valid_utf8_def)
  next
    case False
    with 1 show ?thesis
      by (subst from_utf8_lossy.simps)
        (auto intro!: valid_utf8_append valid_char valid_replacement split: option.splits)
  qed
qed

text \<open>A lone lead byte, a character that breaks off, a surrogate, a stray continuation byte.\<close>

lemma from_utf8_lossy_samples:
  "from_utf8_lossy [0x61, 0xC3] = 0x61 # replacement"
  "from_utf8_lossy [0xE2, 0x82, 0x62] = replacement @ [0x62]"
  "from_utf8_lossy [0xED, 0xA0, 0x80] = replacement @ replacement @ replacement"
  "from_utf8_lossy [0xF0, 0x9F, 0x98, 0x41] = replacement @ [0x41]"
  by (simp_all add: from_utf8_lossy.simps utf8_step_def broken_length_def byte_at_def lead3_def lead4_def
      in_range_def is_cont_iff)

text \<open>Plain ASCII, as in the messages of the samples.\<close>

lemma from_utf8_lossy_ascii [simp]:
  "b < 0x80 \<Longrightarrow> from_utf8_lossy (b # bs) = b # from_utf8_lossy bs"
  by (subst from_utf8_lossy.simps) (simp add: utf8_step_def in_range_def word_less_nat_alt)

end
