(* ===== verification/Stats.thy ===== *)
theory Stats
  imports Parse Lossy "HOL-Library.Product_Lexorder" "HOL-Library.List_Lexorder"
begin

text \<open>
  src/ext/nosj/src/stats.rs: the counting sink behind \<open>NOSJ.stats\<close> and the assembly of its
  result.  Counters are 64-bit words.  The specification counts in the list of a document's
  nodes and in the list of its keys; the theorems show that the sink computes it in one pass and
  that the histogram is the sorted table of key frequencies.
\<close>

section \<open>The sink\<close>

datatype root_kind = KObject | KArray | KString | KInteger | KFloat | KBoolean | KNull

fun kind_name :: "root_kind \<Rightarrow> string" where
  "kind_name KObject = ''object''"
| "kind_name KArray = ''array''"
| "kind_name KString = ''string''"
| "kind_name KInteger = ''integer''"
| "kind_name KFloat = ''float''"
| "kind_name KBoolean = ''boolean''"
| "kind_name KNull = ''null''"

type_synonym histogram = "(bytes \<times> u64) list"

record stats_sink =
  sx_depth :: nat
  sx_max_nesting :: nat
  sx_root :: "root_kind option"
  sx_max_depth :: nat
  sx_objects :: u64
  sx_arrays :: u64
  sx_max_object_entries :: u64
  sx_max_array_length :: u64
  sx_nulls :: u64
  sx_booleans :: u64
  sx_integers :: u64
  sx_floats :: u64
  sx_strings :: u64
  sx_string_bytes :: u64
  sx_max_string_bytes :: u64
  sx_keys :: u64
  sx_histogram :: histogram

definition stats_sink_new :: "nat \<Rightarrow> stats_sink" where
  "stats_sink_new limit =
     \<lparr>sx_depth = 0, sx_max_nesting = limit, sx_root = None, sx_max_depth = 0, sx_objects = 0,
      sx_arrays = 0, sx_max_object_entries = 0, sx_max_array_length = 0, sx_nulls = 0,
      sx_booleans = 0, sx_integers = 0, sx_floats = 0, sx_strings = 0, sx_string_bytes = 0,
      sx_max_string_bytes = 0, sx_keys = 0, sx_histogram = []\<rparr>"

definition see_root :: "root_kind \<Rightarrow> stats_sink \<Rightarrow> stats_sink" where
  "see_root kind s = (if sx_root s = None then s\<lparr>sx_root := Some kind\<rparr> else s)"

definition count_string :: "u64 \<Rightarrow> stats_sink \<Rightarrow> stats_sink" where
  "count_string n s =
     s\<lparr>sx_strings := sx_strings s + 1, sx_string_bytes := sx_string_bytes s + n,
       sx_max_string_bytes := max (sx_max_string_bytes s) n\<rparr>"

text \<open>\<open>*histogram.entry(key).or_insert(0) += 1\<close>\<close>

fun bump :: "bytes \<Rightarrow> histogram \<Rightarrow> histogram" where
  "bump key [] = [(key, 0 + 1)]"
| "bump key ((k, n) # h) = (if k = key then (k, n + 1) # h else (k, n) # bump key h)"

definition count_key :: "bytes \<Rightarrow> stats_sink \<Rightarrow> stats_sink" where
  "count_key key s = s\<lparr>sx_keys := sx_keys s + 1, sx_histogram := bump key (sx_histogram s)\<rparr>"

definition stats_enter :: "root_kind \<Rightarrow> stats_sink \<Rightarrow> sink_abort + stats_sink" where
  "stats_enter kind s =
     (let s = see_root kind s;
          s = s\<lparr>sx_depth := sx_depth s + 1\<rparr>
      in if sx_max_nesting s < sx_depth s then Inl TooDeep
         else Inr (s\<lparr>sx_max_depth := max (sx_max_depth s) (sx_depth s)\<rparr>))"

definition total_values :: "stats_sink \<Rightarrow> u64" where
  "total_values s = sx_objects s + sx_arrays s + sx_strings s + sx_integers s + sx_floats s
     + sx_booleans s + sx_nulls s"

text \<open>Only a key with a lone surrogate is not valid UTF-8.\<close>

definition StatsSink :: "stats_sink sink" where
  "StatsSink =
     \<lparr>sk_null = (\<lambda>s. let s = see_root KNull s in Inr (s\<lparr>sx_nulls := sx_nulls s + 1\<rparr>)),
      sk_boolean = (\<lambda>_ s. let s = see_root KBoolean s in Inr (s\<lparr>sx_booleans := sx_booleans s + 1\<rparr>)),
      sk_int = (\<lambda>_ s. let s = see_root KInteger s in Inr (s\<lparr>sx_integers := sx_integers s + 1\<rparr>)),
      sk_float = (\<lambda>_ s. let s = see_root KFloat s in Inr (s\<lparr>sx_floats := sx_floats s + 1\<rparr>)),
      sk_big_int = (\<lambda>_ s. let s = see_root KInteger s in Inr (s\<lparr>sx_integers := sx_integers s + 1\<rparr>)),
      sk_str = (\<lambda>v s. Inr (count_string (of_nat (length v)) (see_root KString s))),
      sk_str_bytes = (\<lambda>v s. Inr (count_string (of_nat (length v)) (see_root KString s))),
      sk_key = (\<lambda>key s. Inr (count_key key s)),
      sk_key_bytes = (\<lambda>key s. Inr (count_key (from_utf8_lossy key) s)),
      sk_begin_array = stats_enter KArray,
      sk_begin_object = stats_enter KObject,
      sk_mark = (\<lambda>_. 0),
      sk_end_array = (\<lambda>_ len s.
        Inr (s\<lparr>sx_depth := sx_depth s - 1, sx_arrays := sx_arrays s + 1,
               sx_max_array_length := max (sx_max_array_length s) (of_nat len)\<rparr>)),
      sk_end_object = (\<lambda>_ pairs s.
        Inr (s\<lparr>sx_depth := sx_depth s - 1, sx_objects := sx_objects s + 1,
               sx_max_object_entries := max (sx_max_object_entries s) (of_nat pairs)\<rparr>))\<rparr>"

interpretation stats_depth: depth_sink "StatsSink" sx_depth sx_max_nesting
  by unfold_locales
    (auto simp: StatsSink_def stats_enter_def see_root_def count_string_def count_key_def Let_def
      split: if_splits)

section \<open>The result\<close>

datatype stat_value =
    SNum u64 | SSym string | SHash "(string \<times> stat_value) list" | SHist "(bytes \<times> u64) list"

text \<open>\<open>b.1.cmp(&a.1).then(a.0.cmp(b.0))\<close>: by count descending, then by key.\<close>

definition sort_histogram :: "histogram \<Rightarrow> histogram" where
  "sort_histogram h = sort_key (\<lambda>(k, n). (- uint n, k)) h"

definition stats_to_hash :: "stats_sink \<Rightarrow> nat \<Rightarrow> stat_value" where
  "stats_to_hash s byte_size =
     SHash
      [(''byte_size'', SNum (of_nat byte_size)),
       (''root'', SSym (kind_name (case sx_root s of Some r \<Rightarrow> r | None \<Rightarrow> KNull))),
       (''max_depth'', SNum (of_nat (sx_max_depth s))),
       (''values'', SHash
         [(''total'', SNum (total_values s)), (''objects'', SNum (sx_objects s)),
          (''arrays'', SNum (sx_arrays s)), (''strings'', SNum (sx_strings s)),
          (''integers'', SNum (sx_integers s)), (''floats'', SNum (sx_floats s)),
          (''booleans'', SNum (sx_booleans s)), (''nulls'', SNum (sx_nulls s))]),
       (''keys'', SHash
         [(''total'', SNum (sx_keys s)), (''unique'', SNum (of_nat (length (sx_histogram s))))]),
       (''key_histogram'', SHist (sort_histogram (sx_histogram s))),
       (''containers'', SHash
         [(''max_object_entries'', SNum (sx_max_object_entries s)),
          (''max_array_length'', SNum (sx_max_array_length s))]),
       (''strings'', SHash
         [(''bytes'', SNum (sx_string_bytes s)), (''max_bytes'', SNum (sx_max_string_bytes s))])]"

definition stats_over ::
  "('v, 'r) env \<Rightarrow> bytes \<Rightarrow> parse_opts \<Rightarrow> ruby_error + stat_value" where
  "stats_over env input po =
     map_ok (\<lambda>s. stats_to_hash s (length input))
       (map_err (\<lambda>failure. drive_error env failure po input (0, length input))
         (drive (env_scan env) (StatsSink) input (popts po) (stats_sink_new (max_nesting po))))"

definition stats_native ::
  "('v, 'r) env \<Rightarrow> rstring \<Rightarrow> options_arg \<Rightarrow> ruby_error + stat_value" where
  "stats_native env data opts =
     tryr (stats_opts opts) (\<lambda>po.
     tryr (utf8_input data) (\<lambda>input.
     stats_over env input po))"

section \<open>Counting nodes\<close>

text \<open>All nodes of a document, and the texts of all its keys in document order.\<close>

fun nodes :: "doc \<Rightarrow> doc list"
  and nodes_elems :: "doc list \<Rightarrow> doc list"
  and nodes_members :: "(dkey \<times> doc) list \<Rightarrow> doc list" where
  "nodes (DArray ds) = DArray ds # nodes_elems ds"
| "nodes (DObject kvs) = DObject kvs # nodes_members kvs"
| "nodes d = [d]"
| "nodes_elems [] = []"
| "nodes_elems (d # ds) = nodes d @ nodes_elems ds"
| "nodes_members [] = []"
| "nodes_members ((k, d) # kvs) = nodes d @ nodes_members kvs"

fun key_name :: "dkey \<Rightarrow> bytes" where
  "key_name (DKey b) = b"
| "key_name (DKeyBytes b) = from_utf8_lossy b"

fun keys_of :: "doc \<Rightarrow> bytes list"
  and keys_of_elems :: "doc list \<Rightarrow> bytes list"
  and keys_of_members :: "(dkey \<times> doc) list \<Rightarrow> bytes list" where
  "keys_of (DArray ds) = keys_of_elems ds"
| "keys_of (DObject kvs) = keys_of_members kvs"
| "keys_of d = []"
| "keys_of_elems [] = []"
| "keys_of_elems (d # ds) = keys_of d @ keys_of_elems ds"
| "keys_of_members [] = []"
| "keys_of_members ((k, d) # kvs) = key_name k # keys_of d @ keys_of_members kvs"

fun kind_of :: "doc \<Rightarrow> root_kind" where
  "kind_of DNull = KNull"
| "kind_of (DBool b) = KBoolean"
| "kind_of (DInt i) = KInteger"
| "kind_of (DFloat f) = KFloat"
| "kind_of (DBigInt b) = KInteger"
| "kind_of (DStr b) = KString"
| "kind_of (DStrBytes b) = KString"
| "kind_of (DArray ds) = KArray"
| "kind_of (DObject kvs) = KObject"

definition tally_kind :: "root_kind \<Rightarrow> doc list \<Rightarrow> u64" where
  "tally_kind k ns = of_nat (length (filter (\<lambda>n. kind_of n = k) ns))"

text \<open>The size of a node as a string, an array or an object.\<close>

fun size_as :: "root_kind \<Rightarrow> doc \<Rightarrow> nat" where
  "size_as KString (DStr b) = length b"
| "size_as KString (DStrBytes b) = length b"
| "size_as KArray (DArray ds) = length ds"
| "size_as KObject (DObject kvs) = length kvs"
| "size_as _ _ = 0"

definition sum_sizes :: "root_kind \<Rightarrow> doc list \<Rightarrow> u64" where
  "sum_sizes k ns = of_nat (\<Sum>n\<leftarrow>ns. size_as k n)"

definition max_sizes :: "root_kind \<Rightarrow> doc list \<Rightarrow> u64" where
  "max_sizes k ns = foldr (\<lambda>n. max (of_nat (size_as k n))) ns 0"

text \<open>The state after a document (or the elements or members of one), from any state.\<close>

definition tallied :: "doc list \<Rightarrow> bytes list \<Rightarrow> nat \<Rightarrow> stats_sink \<Rightarrow> stats_sink" where
  "tallied ns ks deep s =
     s\<lparr>sx_max_depth := max (sx_max_depth s) deep,
       sx_objects := sx_objects s + tally_kind KObject ns,
       sx_arrays := sx_arrays s + tally_kind KArray ns,
       sx_max_object_entries := max (sx_max_object_entries s) (max_sizes KObject ns),
       sx_max_array_length := max (sx_max_array_length s) (max_sizes KArray ns),
       sx_nulls := sx_nulls s + tally_kind KNull ns,
       sx_booleans := sx_booleans s + tally_kind KBoolean ns,
       sx_integers := sx_integers s + tally_kind KInteger ns,
       sx_floats := sx_floats s + tally_kind KFloat ns,
       sx_strings := sx_strings s + tally_kind KString ns,
       sx_string_bytes := sx_string_bytes s + sum_sizes KString ns,
       sx_max_string_bytes := max (sx_max_string_bytes s) (max_sizes KString ns),
       sx_keys := sx_keys s + of_nat (length ks),
       sx_histogram := fold bump ks (sx_histogram s)\<rparr>"

section \<open>One pass computes the tallies\<close>

lemma tally_kind_simps [simp]:
  "tally_kind k [] = 0"
  "tally_kind k (n # ns) = (if kind_of n = k then 1 else 0) + tally_kind k ns"
  "tally_kind k (ns @ ns') = tally_kind k ns + tally_kind k ns'"
  by (simp_all add: tally_kind_def)

lemma sum_sizes_simps [simp]:
  "sum_sizes k [] = 0"
  "sum_sizes k (n # ns) = of_nat (size_as k n) + sum_sizes k ns"
  "sum_sizes k (ns @ ns') = sum_sizes k ns + sum_sizes k ns'"
  by (simp_all add: sum_sizes_def)

lemma max_zero [simp]: "max 0 (w :: u64) = w" "max (w :: u64) 0 = w"
  by (simp_all add: max_def)

lemma max_sizes_simps [simp]:
  "max_sizes k [] = 0"
  "max_sizes k (n # ns) = max (of_nat (size_as k n)) (max_sizes k ns)"
  by (simp_all add: max_sizes_def)

lemma max_sizes_append [simp]: "max_sizes k (ns @ ns') = max (max_sizes k ns) (max_sizes k ns')"
  by (induction ns) (auto simp: max.assoc)

lemma tallied_append:
  "tallied ns' ks' deep' (tallied ns ks deep s) = tallied (ns @ ns') (ks @ ks') (max deep deep') s"
  by (rule stats_sink.equality) (simp_all add: tallied_def max.assoc add.assoc)

lemma tallied_fields [simp]:
  "sx_depth (tallied ns ks deep s) = sx_depth s" "sx_root (tallied ns ks deep s) = sx_root s"
  "sx_max_nesting (tallied ns ks deep s) = sx_max_nesting s"
  "sx_max_depth (tallied ns ks deep s) = max (sx_max_depth s) deep"
  by (simp_all add: tallied_def)

lemma see_root_fields [simp]:
  "sx_depth (see_root r s) = sx_depth s" "sx_max_nesting (see_root r s) = sx_max_nesting s"
  "sx_max_depth (see_root r s) = sx_max_depth s" "sx_root (see_root r s) \<noteq> None"
  by (simp_all add: see_root_def)

lemma see_root_id: "sx_root s \<noteq> None \<Longrightarrow> see_root r s = s"
  by (simp add: see_root_def)

lemma tallied_nothing: "deep \<le> sx_max_depth s \<Longrightarrow> tallied [] [] deep s = s"
  by (simp add: tallied_def max_absorb1)

lemma stats_leaf:
  assumes "leaf_doc d" and "sx_depth s \<le> sx_max_depth s"
  shows "run (StatsSink) (events d) (s, ms) =
    Inr (tallied (nodes d) (keys_of d) (sx_depth s + nesting d) (see_root (kind_of d) s), ms)"
  using assms by (cases d) (auto simp: StatsSink_def Let_def count_string_def tallied_def max_absorb1
      intro!: stats_sink.equality)

lemma stats_run:
  "sx_depth s + nesting d \<le> sx_max_nesting s \<Longrightarrow> sx_depth s \<le> sx_max_depth s \<Longrightarrow>
     run (StatsSink) (events d) (s, ms) =
       Inr (tallied (nodes d) (keys_of d) (sx_depth s + nesting d) (see_root (kind_of d) s), ms)"
  "sx_depth s + nesting_elems ds \<le> sx_max_nesting s \<Longrightarrow> sx_depth s \<le> sx_max_depth s \<Longrightarrow> sx_root s \<noteq> None \<Longrightarrow>
     run (StatsSink) (events_elems ds) (s, ms) =
       Inr (tallied (nodes_elems ds) (keys_of_elems ds) (sx_depth s + nesting_elems ds) s, ms)"
  "sx_depth s + nesting_members kvs \<le> sx_max_nesting s \<Longrightarrow> sx_depth s \<le> sx_max_depth s \<Longrightarrow> sx_root s \<noteq> None \<Longrightarrow>
     run (StatsSink) (events_members kvs) (s, ms) =
       Inr (tallied (nodes_members kvs) (keys_of_members kvs) (sx_depth s + nesting_members kvs) s, ms)"
proof (induction d and ds and kvs arbitrary: s ms and s ms and s ms
    rule: events_events_elems_events_members.induct)
  case (8 ds)
  let ?s = "(see_root KArray s)\<lparr>sx_depth := sx_depth s + 1, sx_max_depth := max (sx_max_depth s) (sx_depth s + 1)\<rparr>"
  have enter: "stats_enter KArray s = Inr ?s" using "8.prems"(1) by (simp add: stats_enter_def Let_def)
  have "run (StatsSink) (events_elems ds) (?s, 0 # ms) =
      Inr (tallied (nodes_elems ds) (keys_of_elems ds) (sx_depth ?s + nesting_elems ds) ?s, 0 # ms)"
    by (rule "8.IH") (use "8.prems" in auto)
  with enter show ?case
    by (auto simp: run_append StatsSink_def tallied_def ac_simps max.left_commute intro!: stats_sink.equality)
next
  case (9 kvs)
  let ?s = "(see_root KObject s)\<lparr>sx_depth := sx_depth s + 1, sx_max_depth := max (sx_max_depth s) (sx_depth s + 1)\<rparr>"
  have enter: "stats_enter KObject s = Inr ?s" using "9.prems"(1) by (simp add: stats_enter_def Let_def)
  have "run (StatsSink) (events_members kvs) (?s, 0 # ms) =
      Inr (tallied (nodes_members kvs) (keys_of_members kvs) (sx_depth ?s + nesting_members kvs) ?s, 0 # ms)"
    by (rule "9.IH") (use "9.prems" in auto)
  with enter show ?case
    by (auto simp: run_append StatsSink_def tallied_def ac_simps max.left_commute intro!: stats_sink.equality)
next
  case (11 d ds)
  let ?t = "tallied (nodes d) (keys_of d) (sx_depth s + nesting d) s"
  have "run (StatsSink) (events d) (s, ms) = Inr (?t, ms)"
    using "11.IH"(1) [of s ms] "11.prems" by (simp add: see_root_id)
  moreover have "run (StatsSink) (events_elems ds) (?t, ms) =
      Inr (tallied (nodes_elems ds) (keys_of_elems ds) (sx_depth ?t + nesting_elems ds) ?t, ms)"
    by (rule "11.IH"(2)) (use "11.prems" in auto)
  ultimately show ?case by (simp add: run_append tallied_append nat_add_max_right)
next
  case (13 k d kvs)
  let ?k = "count_key (key_name k) s"
  let ?t = "tallied (nodes d) (keys_of d) (sx_depth s + nesting d) ?k"
  have key: "feed (StatsSink) (key_event k) (s, ms) = Inr (?k, ms)"
    by (cases k) (simp_all add: StatsSink_def)
  have "run (StatsSink) (events d) (?k, ms) = Inr (?t, ms)"
    using "13.IH"(1) [of ?k ms] "13.prems" by (simp add: see_root_id count_key_def)
  moreover have "run (StatsSink) (events_members kvs) (?t, ms) =
      Inr (tallied (nodes_members kvs) (keys_of_members kvs) (sx_depth ?t + nesting_members kvs) ?t, ms)"
    by (rule "13.IH"(2)) (use "13.prems" in \<open>auto simp: count_key_def\<close>)
  moreover have "?k = tallied [] [key_name k] (sx_depth s) s"
    using "13.prems"(2) by (simp add: tallied_def count_key_def max_absorb1)
  ultimately show ?case using key
    by (simp add: run_append tallied_append nat_add_max_right)
qed (simp_all add: stats_leaf tallied_nothing del: run.simps(2) events.simps)

section \<open>Frequencies\<close>

lemma bump_keys: "set (map fst (bump k h)) = insert k (set (map fst h))"
  by (induction k h rule: bump.induct) auto

lemma bump_distinct: "distinct (map fst h) \<Longrightarrow> distinct (map fst (bump k h))"
proof (induction k h rule: bump.induct)
  case (2 key k n h)
  then show ?case using bump_keys [of key h] by auto
qed simp

lemma bump_lookup: "map_of (bump k h) = (map_of h)(k \<mapsto> (case map_of h k of None \<Rightarrow> 0 | Some n \<Rightarrow> n) + 1)"
  by (induction k h rule: bump.induct) (auto split: option.splits)

lemma fold_bump:
  "distinct (map fst h) \<Longrightarrow> distinct (map fst (fold bump ks h))"
  "set (map fst (fold bump ks h)) = set ks \<union> set (map fst h)"
  "map_of (fold bump ks h) k =
     (if k \<in> set ks \<or> map_of h k \<noteq> None
      then Some ((case map_of h k of None \<Rightarrow> 0 | Some n \<Rightarrow> n) + of_nat (count_list ks k)) else None)"
proof (induction ks arbitrary: h)
  case Nil
  { case 3 then show ?case by (auto split: option.splits) }
next
  case (Cons x ks)
  { case 1 then show ?case using Cons(1) bump_distinct by simp
  next
    case 2 then show ?case using Cons(2) [of "bump x h"] bump_keys [of x h] by auto
  next
    case 3 then show ?case
      using Cons(3) [of "bump x h"] by (auto simp: bump_lookup ac_simps split: option.splits) }
qed simp_all

text \<open>\<open>h\<close> is the table of the frequencies in \<open>ks\<close>, most frequent first, ties by key.\<close>

definition frequency_table :: "bytes list \<Rightarrow> histogram \<Rightarrow> bool" where
  "frequency_table ks h \<longleftrightarrow>
     distinct (map fst h) \<and> set (map fst h) = set ks \<and>
     (\<forall>(k, n) \<in> set h. n = of_nat (count_list ks k)) \<and>
     sorted_wrt (\<lambda>(k, n) (k', n'). n' < n \<or> n' = n \<and> k < k') h"

lemma sort_histogram_table: "frequency_table ks (sort_histogram (fold bump ks []))"
proof -
  let ?h = "fold bump ks []" and ?key = "\<lambda>(k, n :: u64). (- uint n, k :: bytes)"
  have set: "set (sort_histogram ?h) = set ?h" by (simp add: sort_histogram_def)
  have dist: "distinct (map fst ?h)" by (simp add: fold_bump)
  have dist': "distinct (map fst (sort_histogram ?h))"
    using dist by (simp add: distinct_map sort_histogram_def)
  have keys: "set (map fst (sort_histogram ?h)) = set ks"
    using fold_bump(2) [of ks "[]"] set by auto
  have count: "\<forall>(k, n) \<in> set (sort_histogram ?h). n = of_nat (count_list ks k)"
  proof safe
    fix k n
    assume "(k, n) \<in> set (sort_histogram ?h)"
    then have "map_of ?h k = Some n" using set dist by (simp add: map_of_eq_Some_iff)
    then show "n = of_nat (count_list ks k)" by (simp add: fold_bump split: if_splits)
  qed
  have "sorted (map ?key (sort_histogram ?h))" by (simp add: sort_histogram_def)
  then have "sorted_wrt (\<lambda>x y. ?key x \<le> ?key y) (sort_histogram ?h)" by (simp add: sorted_wrt_map)
  then have "sorted_wrt (\<lambda>x y. ?key x \<le> ?key y \<and> fst x \<noteq> fst y) (sort_histogram ?h)"
    using dist' by (auto simp: sorted_wrt_iff_nth_less distinct_conv_nth)
  then have "sorted_wrt (\<lambda>(k, n) (k', n'). n' < n \<or> n' = n \<and> k < k') (sort_histogram ?h)"
    by (rule sorted_wrt_mono_rel [rotated]) (auto simp: less_eq_prod_def word_less_def word_uint_eq_iff)
  with dist' keys count show ?thesis by (simp add: frequency_table_def)
qed

section \<open>What stats returns\<close>

text \<open>The result, from the list of nodes and the list of keys.\<close>

definition stats_result :: "doc \<Rightarrow> nat \<Rightarrow> histogram \<Rightarrow> stat_value" where
  "stats_result d byte_size h =
     (let ns = nodes d; tally = (\<lambda>k. SNum (tally_kind k ns))
      in SHash
      [(''byte_size'', SNum (of_nat byte_size)),
       (''root'', SSym (kind_name (kind_of d))),
       (''max_depth'', SNum (of_nat (nesting d))),
       (''values'', SHash
         [(''total'', SNum (of_nat (length ns))), (''objects'', tally KObject),
          (''arrays'', tally KArray), (''strings'', tally KString), (''integers'', tally KInteger),
          (''floats'', tally KFloat), (''booleans'', tally KBoolean), (''nulls'', tally KNull)]),
       (''keys'', SHash
         [(''total'', SNum (of_nat (length (keys_of d)))),
          (''unique'', SNum (of_nat (card (set (keys_of d)))))]),
       (''key_histogram'', SHist h),
       (''containers'', SHash
         [(''max_object_entries'', SNum (max_sizes KObject ns)),
          (''max_array_length'', SNum (max_sizes KArray ns))]),
       (''strings'', SHash
         [(''bytes'', SNum (sum_sizes KString ns)), (''max_bytes'', SNum (max_sizes KString ns))])])"

lemma tally_total:
  "tally_kind KObject ns + tally_kind KArray ns + tally_kind KString ns + tally_kind KInteger ns
     + tally_kind KFloat ns + tally_kind KBoolean ns + tally_kind KNull ns = of_nat (length ns)"
proof (induction ns)
  case (Cons n ns)
  then show ?case by (cases n) (auto simp: algebra_simps)
qed simp

lemma unique_keys: "length (fold bump ks []) = card (set ks)"
  using fold_bump(1) [of "[]" ks] fold_bump(2) [of ks "[]"] distinct_card [of "map fst (fold bump ks [])"] by simp

lemma stats_too_deep: "run (StatsSink) es st = Inl a \<Longrightarrow> a = TooDeep"
proof (induction es arbitrary: st)
  case (Cons e es)
  have "feed (StatsSink) e st = Inl a \<Longrightarrow> a = TooDeep" for a
    by (cases "(StatsSink, e, st)" rule: feed.cases)
      (auto simp: StatsSink_def stats_enter_def Let_def split: if_splits)
  with Cons show ?case by (auto simp: tryr_Inl_iff)
qed simp

text \<open>
  C25.  On a document the parser reads as \<open>d\<close>, \<open>stats\<close> returns, in one pass, the counts of
  \<open>d\<close>'s nodes by kind with their total, its nesting depth, the sizes of its largest containers
  and strings, and the table of its key frequencies, most frequent first; beyond an explicit
  \<open>max_nesting\<close> it raises NestingError.  Neither repeated keys nor lone surrogates stop it.
\<close>

theorem stats_counts:
  assumes "stats_opts opts = Inr po" and "utf8_input data = Inr input"
    and "scans_as (env_scan env) input (popts po) d"
  shows "if nesting d \<le> max_nesting po
    then \<exists>h. stats_native env data opts = Inr (stats_result d (length input) h) \<and>
           frequency_table (keys_of d) h
    else stats_native env data opts =
           Inl (NestingError (Fmt ''nesting of {} is too deep'' [ANat (min USIZE_MAX (max_nesting po + 1))]))"
proof -
  let ?s = "stats_sink_new (max_nesting po)"
  let ?drive = "drive (env_scan env) (StatsSink) input (popts po) ?s"
  have n: "stats_native env data opts = stats_over env input po"
    using assms(1,2) by (simp add: stats_native_def)
  show ?thesis
  proof (cases "nesting d \<le> max_nesting po")
    case True
    let ?t = "tallied (nodes d) (keys_of d) (nesting d) (see_root (kind_of d) ?s)"
    have "run (StatsSink) (events d) (?s, []) = Inr (?t, [])"
      using stats_run(1) [of ?s d "[]"] True by (simp add: stats_sink_new_def)
    then have "?drive = Inr ?t" using assms(3) by (simp add: drive_scans)
    moreover have "stats_to_hash ?t (length input) =
        stats_result d (length input) (sort_histogram (fold bump (keys_of d) []))"
      using tally_total [of "nodes d"]
      by (simp add: stats_to_hash_def stats_result_def Let_def tallied_def see_root_def stats_sink_new_def
          total_values_def unique_keys)
    ultimately show ?thesis
      using n True sort_histogram_table [of "keys_of d"] by (auto simp: stats_over_def)
  next
    case False
    have "\<not> is_ok ?drive"
      using stats_depth.drive_depth [OF assms(3), where s = ?s] False
      by (auto simp: is_ok_iff stats_sink_new_def)
    then obtain st where "run (StatsSink) (events d) (?s, []) = Inl st" "?drive = Inl (SinkErr st)"
      using assms(3) by (cases "run (StatsSink) (events d) (?s, [])") (auto simp: drive_scans)
    with stats_too_deep have "?drive = Inl (SinkErr TooDeep)" by blast
    with n False show ?thesis by (simp add: stats_over_def drive_error_def Let_def)
  qed
qed

theorem stats_counts_witness:
  "\<exists>h. stats_native sample_env sample_string ONil
       = Inr (stats_result (strip sample_pdoc) (length sample_text) h) \<and>
     frequency_table [asc ''a'', asc ''a''] h"
proof -
  let ?po = "parse_opts_default\<lparr>max_nesting := USIZE_MAX\<rparr>"
  have o: "stats_opts ONil = Inr ?po" by (simp add: stats_opts_def)
  have d: "scans_as (env_scan sample_env) sample_text (popts ?po) (strip sample_pdoc)"
    by (simp add: sample_scans)
  have "keys_of (strip sample_pdoc) = [asc ''a'', asc ''a'']" "nesting (strip sample_pdoc) \<le> USIZE_MAX"
    by (simp_all add: sample_strip)
  with stats_counts [OF o sample_input d] show ?thesis by simp
qed

end
