(* ===== verification/Reformat.thy ===== *)
theory Reformat
  imports Parse
begin

text \<open>
  src/ext/nosj/src/reformat.rs: \<open>PipeSink\<close>, which forwards the parser's events to the crate's
  \<open>Writer\<close>, and the entry point behind \<open>NOSJ.minify\<close> and \<open>NOSJ.reformat\<close>.  The Writer is
  not part of the repository: the sink's state holds the calls made on it, and \<open>render\<close> (a
  parameter) is the text it makes of a sequence of calls under given write options.
\<close>

section \<open>Writer calls\<close>

datatype writer_call =
    WNull | WBoolean bool | WInt int | WFloat f64 | WRaw bytes | WStr bytes | WKey bytes
  | WBeginArray | WBeginObject | WEndArray | WEndObject

datatype float_format = Fpconv | OtherFloatFormat

record write_opts =
  w_indent :: bytes
  w_space :: bytes
  w_space_before :: bytes
  w_object_nl :: bytes
  w_array_nl :: bytes
  w_escape :: escape_mode
  w_float :: float_format

definition write_options :: "gen_config \<Rightarrow> write_opts" where
  "write_options cfg =
     \<lparr>w_indent = indent cfg, w_space = space cfg, w_space_before = space_before cfg,
      w_object_nl = object_nl cfg, w_array_nl = array_nl cfg, w_escape = mode cfg,
      w_float = Fpconv\<rparr>"

section \<open>The pipe\<close>

record pipe_sink =
  pp_calls :: "writer_call list"
  pp_depth :: nat
  pp_max_nesting :: nat
  pp_allow_nan :: bool
  pp_dup_keys :: dup_keys

definition emit :: "writer_call \<Rightarrow> pipe_sink \<Rightarrow> pipe_sink" where
  "emit c s = s\<lparr>pp_calls := pp_calls s @ [c]\<rparr>"

definition pipe_enter :: "pipe_sink \<Rightarrow> sink_abort + pipe_sink" where
  "pipe_enter s =
     (let s = s\<lparr>pp_depth := pp_depth s + 1\<rparr>
      in if pp_max_nesting s < pp_depth s then Inl TooDeep else Inr s)"

definition spelling :: "f64 \<Rightarrow> string" where
  "spelling f =
     (if f64_is_nan f then ''NaN'' else if f64_gt_zero f then ''Infinity'' else ''-Infinity'')"

definition pipe_float :: "f64 \<Rightarrow> pipe_sink \<Rightarrow> sink_abort + pipe_sink" where
  "pipe_float f s =
     (if f64_is_finite f then Inr (emit (WFloat f) s)
      else if \<not> pp_allow_nan s then Inl (NonFiniteFloat (spelling f))
      else Inr (emit (WRaw (asc (spelling f))) s))"

definition PipeSink :: "(bytes \<Rightarrow> u64) \<Rightarrow> pipe_sink sink" where
  "PipeSink fingerprint =
     \<lparr>sk_null = (\<lambda>s. Inr (emit WNull s)),
      sk_boolean = (\<lambda>b s. Inr (emit (WBoolean b) s)),
      sk_int = (\<lambda>i s. Inr (emit (WInt i) s)),
      sk_float = pipe_float,
      sk_big_int = (\<lambda>digits s. Inr (emit (WRaw digits) s)),
      sk_str = (\<lambda>v s. Inr (emit (WStr v) s)),
      sk_str_bytes = (\<lambda>_ _. Inl LoneSurrogate),
      sk_key = (\<lambda>key s. Inr (emit (WKey key) (s\<lparr>pp_dup_keys := dup_key fingerprint key (pp_dup_keys s)\<rparr>))),
      sk_key_bytes = (\<lambda>_ _. Inl LoneSurrogate),
      sk_begin_array = (\<lambda>s. map_ok (emit WBeginArray) (pipe_enter s)),
      sk_begin_object = (\<lambda>s. map_ok (emit WBeginObject) (pipe_enter s)),
      sk_mark = (\<lambda>s. dup_mark (pp_dup_keys s)),
      sk_end_array = (\<lambda>_ _ s. Inr (emit WEndArray (s\<lparr>pp_depth := pp_depth s - 1\<rparr>))),
      sk_end_object = (\<lambda>m _ s.
        let s = s\<lparr>pp_depth := pp_depth s - 1\<rparr>
        in map_ok (\<lambda>d. emit WEndObject (s\<lparr>pp_dup_keys := d\<rparr>)) (dup_close m (pp_dup_keys s)))\<rparr>"

definition pipe_sink_new :: "nat \<Rightarrow> bool \<Rightarrow> seen_table \<Rightarrow> bool \<Rightarrow> pipe_sink" where
  "pipe_sink_new limit nan table check_dups =
     \<lparr>pp_calls = [], pp_depth = 0, pp_max_nesting = limit, pp_allow_nan = nan,
      pp_dup_keys = dup_new table check_dups\<rparr>"

text \<open>One drive of the pipe, on a cleared output buffer.\<close>

definition pipe_drive ::
  "('v, 'r) env \<Rightarrow> 'v pull_state \<Rightarrow> bytes \<Rightarrow> parse_opts \<Rightarrow> gen_config \<Rightarrow> bool \<Rightarrow> drive_error + pipe_sink" where
  "pipe_drive env st input po cfg check_dups =
     drive (env_scan env) (PipeSink (env_fingerprint env)) input (popts po)
       (pipe_sink_new (max_nesting po) (gc_allow_nan cfg) (pl_table st) check_dups)"

type_synonym renderer = "write_opts \<Rightarrow> writer_call list \<Rightarrow> bytes"

definition reformat_over ::
  "('v, 'r) env \<Rightarrow> renderer \<Rightarrow> 'v pull_state \<Rightarrow> bytes \<Rightarrow> reformat_opts \<Rightarrow> ruby_error + bytes" where
  "reformat_over env render st input opts =
     (let po = ro_parse opts;
          gcfg = (case ro_generate opts of Some g \<Rightarrow> g | None \<Rightarrow> DEFAULT_CONFIG);
          wopts = write_options gcfg
      in map_ok (\<lambda>s. render wopts (pp_calls s))
           (map_err (\<lambda>failure. drive_error env failure po input (0, length input))
             (drive_hashless env input po (pipe_drive env st input po gcfg))))"

definition reformat_native ::
  "('v, 'r) env \<Rightarrow> renderer \<Rightarrow> 'v pull_state \<Rightarrow> rstring \<Rightarrow> options_arg \<Rightarrow> ruby_error + bytes" where
  "reformat_native env render st data opts =
     tryr (reformat_opts_decode opts) (\<lambda>opts.
     tryr (utf8_input data) (\<lambda>input.
     reformat_over env render st input opts))"

section \<open>The pipe as a hashless sink\<close>

abbreviation pipe_float_ok :: "pipe_sink \<Rightarrow> f64 \<Rightarrow> bool" where
  "pipe_float_ok s f \<equiv> f64_is_finite f \<or> pp_allow_nan s"

interpretation pipe: hashless_sink fingerprint dup_mark "dup_key fingerprint" dup_close
  dk_fingerprints dk_enabled dup_inv "PipeSink fingerprint" pp_dup_keys pp_depth pp_max_nesting
  pipe_float_ok for fingerprint
proof unfold_locales
  show "\<exists>s'. feed (PipeSink fingerprint) e (s, ms) = Inr (s', ms) \<and> pp_dup_keys s' = pp_dup_keys s \<and>
      pp_depth s' = pp_depth s \<and> pp_max_nesting s' = pp_max_nesting s \<and> pipe_float_ok s' = pipe_float_ok s"
    if "plain_event e" for fingerprint e s ms
    using that by (cases e) (auto simp: PipeSink_def emit_def)
qed (auto simp: PipeSink_def pipe_float_def pipe_enter_def emit_def Let_def)

interpretation pipe_depth: depth_sink "PipeSink fingerprint" pp_depth pp_max_nesting for fingerprint
  by unfold_locales (auto simp: PipeSink_def pipe_float_def pipe_enter_def emit_def Let_def map_ok_tryr
      tryr_Inr_iff split: if_splits)

section \<open>The calls a document makes\<close>

fun calls :: "doc \<Rightarrow> writer_call list"
  and calls_elems :: "doc list \<Rightarrow> writer_call list"
  and calls_members :: "(dkey \<times> doc) list \<Rightarrow> writer_call list" where
  "calls DNull = [WNull]"
| "calls (DBool b) = [WBoolean b]"
| "calls (DInt i) = [WInt i]"
| "calls (DFloat f) = [if f64_is_finite f then WFloat f else WRaw (asc (spelling f))]"
| "calls (DBigInt digits) = [WRaw digits]"
| "calls (DStr v) = [WStr v]"
| "calls (DStrBytes v) = []"
| "calls (DArray ds) = WBeginArray # calls_elems ds @ [WEndArray]"
| "calls (DObject kvs) = WBeginObject # calls_members kvs @ [WEndObject]"
| "calls_elems [] = []"
| "calls_elems (d # ds) = calls d @ calls_elems ds"
| "calls_members [] = []"
| "calls_members ((k, d) # kvs) = WKey (key_text k) # calls d @ calls_members kvs"

text \<open>Whatever a drive delivers, the Writer has received the calls of the document in order.\<close>

lemma pipe_run_calls:
  "run (PipeSink fp) (events d) (s, ms) = Inr st \<Longrightarrow> snd st = ms \<and> pp_calls (fst st) = pp_calls s @ calls d"
  "run (PipeSink fp) (events_elems ds) (s, ms) = Inr st \<Longrightarrow>
     snd st = ms \<and> pp_calls (fst st) = pp_calls s @ calls_elems ds"
  "run (PipeSink fp) (events_members kvs) (s, ms) = Inr st \<Longrightarrow>
     snd st = ms \<and> pp_calls (fst st) = pp_calls s @ calls_members kvs"
proof (induction d and ds and kvs arbitrary: s ms st and s ms st and s ms st
    rule: events_events_elems_events_members.induct)
  case (4 f)
  then show ?case by (auto simp: PipeSink_def pipe_float_def emit_def split: if_splits)
next
  case (8 ds)
  from "8.prems" obtain s1 m t ms' where b: "sk_begin_array (PipeSink fp) s = Inr s1"
    and r: "run (PipeSink fp) (events_elems ds) (s1, m # ms) = Inr (t, ms')"
    and e: "feed (PipeSink fp) (EvEndArray (length ds)) (t, ms') = Inr st"
    by (auto simp: run_append map_ok_tryr tryr_Inr_iff)
  from "8.IH" [OF r] have "ms' = m # ms" "pp_calls t = pp_calls s1 @ calls_elems ds" by simp_all
  moreover have "pp_calls s1 = pp_calls s @ [WBeginArray]"
    using b by (auto simp: PipeSink_def pipe_enter_def emit_def Let_def split: if_splits)
  ultimately show ?case using e by (auto simp: PipeSink_def emit_def)
next
  case (9 kvs)
  from "9.prems" obtain s1 m t ms' where b: "sk_begin_object (PipeSink fp) s = Inr s1"
    and r: "run (PipeSink fp) (events_members kvs) (s1, m # ms) = Inr (t, ms')"
    and e: "feed (PipeSink fp) (EvEndObject (length kvs)) (t, ms') = Inr st"
    by (auto simp: run_append map_ok_tryr tryr_Inr_iff)
  from "9.IH" [OF r] have "ms' = m # ms" "pp_calls t = pp_calls s1 @ calls_members kvs" by simp_all
  moreover have "pp_calls s1 = pp_calls s @ [WBeginObject]"
    using b by (auto simp: PipeSink_def pipe_enter_def emit_def Let_def split: if_splits)
  ultimately show ?case using e
    by (auto simp: PipeSink_def emit_def Let_def map_ok_tryr tryr_Inr_iff)
next
  case (11 d ds)
  from "11.prems" obtain t ms' where r: "run (PipeSink fp) (events d) (s, ms) = Inr (t, ms')"
    and r2: "run (PipeSink fp) (events_elems ds) (t, ms') = Inr st"
    by (auto simp: run_append tryr_Inr_iff)
  from "11.IH"(1) [OF r] "11.IH"(2) [OF r2] show ?case by simp
next
  case (13 k d kvs)
  from "13.prems" obtain u t ms' where f: "feed (PipeSink fp) (key_event k) (s, ms) = Inr (u, ms)"
    and r: "run (PipeSink fp) (events d) (u, ms) = Inr (t, ms')"
    and r2: "run (PipeSink fp) (events_members kvs) (t, ms') = Inr st"
    by (cases k) (auto simp: run_append tryr_Inr_iff map_ok_tryr)
  have "pp_calls u = pp_calls s @ [WKey (key_text k)]"
    using f by (cases k) (auto simp: PipeSink_def emit_def)
  with "13.IH"(1) [OF r] "13.IH"(2) [OF r2] show ?case by simp
qed (auto simp: PipeSink_def emit_def)

section \<open>What reformat accepts and returns\<close>

text \<open>Every float of the document can be written.\<close>

fun float_writable :: "bool \<Rightarrow> doc \<Rightarrow> bool" where
  "float_writable nan (DFloat f) = (f64_is_finite f \<or> nan)"
| "float_writable nan d = True"

definition pipe_base :: "parse_opts \<Rightarrow> bool \<Rightarrow> doc \<Rightarrow> bool" where
  "pipe_base po nan d \<longleftrightarrow> clean d \<and> doc_all (float_writable nan) d \<and> nesting d \<le> max_nesting po"

lemma node_ok_floats: "node_ok fl ks n \<longleftrightarrow> node_ok (\<lambda>_. True) ks n \<and> (\<forall>f. n = DFloat f \<longrightarrow> fl f)"
  by (cases n) auto

lemma clean_writable:
  "doc_all (node_ok (\<lambda>f. f64_is_finite f \<or> nan) (\<lambda>_. True)) d \<longleftrightarrow> clean d \<and> doc_all (float_writable nan) d"
proof -
  have "node_ok (\<lambda>f. f64_is_finite f \<or> nan) (\<lambda>_. True) =
      (\<lambda>n. node_ok (\<lambda>_. True) (\<lambda>_. True) n \<and> float_writable nan n)"
  proof
    fix n
    show "node_ok (\<lambda>f. f64_is_finite f \<or> nan) (\<lambda>_. True) n =
        (node_ok (\<lambda>_. True) (\<lambda>_. True) n \<and> float_writable nan n)" by (cases n) auto
  qed
  then show ?thesis by (simp add: doc_all_conj clean_def)
qed

lemma pipe_accepts:
  assumes "table_ok (pl_table st)" and "scans_as (env_scan env) input (popts po) d"
  shows "is_ok (pipe_drive env st input po cfg check) \<longleftrightarrow> pipe_base po (gc_allow_nan cfg) d \<and>
     (check \<longrightarrow> doc_all (keys_all (\<lambda>ks. distinct (map (env_fingerprint env) ks))) d)"
proof -
  let ?s = "pipe_sink_new (max_nesting po) (gc_allow_nan cfg) (pl_table st) check"
  let ?fl = "\<lambda>f. f64_is_finite f \<or> gc_allow_nan cfg"
  let ?ks = "\<lambda>ks. check \<longrightarrow> distinct (map (env_fingerprint env) ks)"
  have "dup_inv (pp_dup_keys ?s)" "pp_depth ?s = 0"
    using assms(1) by (simp_all add: pipe_sink_new_def dup_new_inv)
  from pipe.drive_accepts [OF assms(2) this, where fingerprint = "env_fingerprint env"]
  have "is_ok (pipe_drive env st input po cfg check) \<longleftrightarrow>
      doc_all (pipe.takes (env_fingerprint env) ?s) d \<and> nesting d \<le> max_nesting po"
    by (simp add: pipe_drive_def pipe_sink_new_def)
  moreover have "pipe.takes (env_fingerprint env) ?s = node_ok ?fl ?ks"
    by (simp add: pipe.takes_def pipe_sink_new_def dup_new_def)
  ultimately show ?thesis
    using doc_all_node_ok [of ?fl ?ks d] clean_writable [of "gc_allow_nan cfg" d]
    by (cases check) (auto simp: pipe_base_def doc_all_True)
qed

lemma pipe_refusal:
  assumes "table_ok (pl_table st)" and "scans_as (env_scan env) input (popts po) d"
    and "pipe_base po (gc_allow_nan cfg) d" and "pipe_drive env st input po cfg check = Inl err"
  shows "err = SinkErr DuplicateKey"
proof -
  let ?s = "pipe_sink_new (max_nesting po) (gc_allow_nan cfg) (pl_table st) check"
  have "dup_inv (pp_dup_keys ?s)" "pp_depth ?s = 0" "nesting d \<le> pp_max_nesting ?s"
    "doc_all (node_ok (pipe_float_ok ?s) (\<lambda>_. True)) d"
    using assms(1,3) clean_writable [of "gc_allow_nan cfg" d]
    by (simp_all add: pipe_sink_new_def dup_new_inv pipe_base_def)
  then show ?thesis
    using pipe.drive_refusal [OF assms(2), where s = ?s and fingerprint = "env_fingerprint env"] assms(4)
    by (simp add: pipe_drive_def)
qed

lemma pipe_result:
  assumes "scans_as (env_scan env) input (popts po) d" and "pipe_drive env st input po cfg check = Inr s"
  shows "pp_calls s = calls d"
proof -
  let ?s = "pipe_sink_new (max_nesting po) (gc_allow_nan cfg) (pl_table st) check"
  from assms obtain st' where r: "run (PipeSink (env_fingerprint env)) (events d) (?s, []) = Inr st'" "s = fst st'"
    by (cases "run (PipeSink (env_fingerprint env)) (events d) (?s, [])") (auto simp: pipe_drive_def drive_scans)
  from pipe_run_calls(1) [OF r(1)] r(2) show ?thesis by (simp add: pipe_sink_new_def)
qed

text \<open>The generate options of a call: those given, or the defaults.\<close>

definition reformat_config :: "reformat_opts \<Rightarrow> gen_config" where
  "reformat_config ro = (case ro_generate ro of Some g \<Rightarrow> g | None \<Rightarrow> DEFAULT_CONFIG)"

lemma reformat_result:
  assumes "pool_ok (env_vm env) st" and "reformat_opts_decode opts = Inr ro"
    and "utf8_input data = Inr input"
    and "scans_as (env_scan env) input (popts (ro_parse ro)) d"
    and "reader_law env input (popts (ro_parse ro))"
  shows "reformat_native env render st data opts = Inr out \<longleftrightarrow>
    pipe_base (ro_parse ro) (gc_allow_nan (reformat_config ro)) d \<and>
    (allow_duplicate_key (ro_parse ro) \<or> doc_all (keys_all distinct) d) \<and>
    out = render (write_options (reformat_config ro)) (calls d)"
proof -
  let ?po = "ro_parse ro" and ?cfg = "reformat_config ro"
  let ?drive = "drive_hashless env input ?po (pipe_drive env st input ?po ?cfg)"
  have table: "table_ok (pl_table st)" using assms(1) by (simp add: pool_ok_def)
  have n: "reformat_native env render st data opts =
      map_ok (\<lambda>s. render (write_options ?cfg) (pp_calls s))
        (map_err (\<lambda>failure. drive_error env failure ?po input (0, length input)) ?drive)"
    using assms(2,3) by (simp add: reformat_native_def reformat_over_def reformat_config_def Let_def)
  have ok: "is_ok ?drive \<longleftrightarrow> pipe_base ?po (gc_allow_nan ?cfg) d \<and>
      (allow_duplicate_key ?po \<or> doc_all (keys_all distinct) d)"
    using drive_hashless_exact [where base = "pipe_base ?po (gc_allow_nan ?cfg) d" and
        drv = "pipe_drive env st input ?po ?cfg", OF _ _ _ assms(5,4)]
      pipe_accepts [OF table assms(4), of ?cfg] pipe_refusal [OF table assms(4), of ?cfg]
    by (simp add: pipe_base_def)
  have "pp_calls s = calls d" if "?drive = Inr s" for s
    using that drive_hashless_result [of env input ?po "pipe_drive env st input ?po ?cfg"]
      pipe_result [OF assms(4)] by auto
  with ok n show ?thesis by (cases ?drive) auto
qed

text \<open>
  C12.  \<open>reformat\<close> succeeds exactly on the documents without lone surrogates, within the nesting
  limit, with no repeated key unless allowed, and with no non-finite float unless \<open>allow_nan\<close>;
  and then its output is what the Writer renders, under the write options of the generate
  options, for the calls of the document in order: big integers digit for digit, repeated keys
  all kept, and nothing left over from a first drive that a fingerprint collision stopped.
\<close>

theorem reformat_output:
  assumes "pool_ok (env_vm env) st" and "reformat_opts_decode opts = Inr ro"
    and "utf8_input data = Inr input"
    and "scans_as (env_scan env) input (popts (ro_parse ro)) d"
    and "reader_law env input (popts (ro_parse ro))"
  shows "if pipe_base (ro_parse ro) (gc_allow_nan (reformat_config ro)) d \<and>
      (allow_duplicate_key (ro_parse ro) \<or> doc_all (keys_all distinct) d)
    then reformat_native env render st data opts = Inr (render (write_options (reformat_config ro)) (calls d))
    else \<not> is_ok (reformat_native env render st data opts)"
  using reformat_result [OF assms] by (auto simp: is_ok_iff)

theorem reformat_output_witness:
  "reformat_native sample_env (\<lambda>_ cs. replicate (length cs) 0) fresh_pull_state sample_string
       (OHash [(KSym ''allow_duplicate_key'', RTrue)]) = Inr (replicate 8 0)"
proof -
  let ?po = "parse_opts_default\<lparr>allow_duplicate_key := True\<rparr>"
  let ?cfg = "DEFAULT_CONFIG\<lparr>gc_allow_duplicate_key := True\<rparr>"
  let ?ro = "\<lparr>ro_parse = ?po, ro_generate = Some ?cfg\<rparr>"
  have law: "pool_ok (env_vm sample_env) fresh_pull_state" by (simp add: fresh_pool_ok)
  have d: "scans_as (env_scan sample_env) sample_text (popts (ro_parse ?ro)) (strip sample_pdoc)"
    by (simp add: sample_scans)
  have r: "reader_law sample_env sample_text (popts (ro_parse ?ro))"
    using sample_reads by (auto simp: reader_law_def dest!: sample_scans_only)
  have cfg: "reformat_config ?ro = ?cfg" by (simp add: reformat_config_def)
  have "pipe_base ?po (gc_allow_nan ?cfg) (strip sample_pdoc)" "length (calls (strip sample_pdoc)) = 8"
    by (simp_all add: pipe_base_def sample_strip clean_def parse_opts_default_def)
  with reformat_output [OF law reformat_opts_allow_duplicates sample_input d r, unfolded cfg]
  show ?thesis by simp
qed

text \<open>
  C26.  On a document whose floats can all be written and which \<open>parse\<close> has room for,
  \<open>reformat\<close> succeeds exactly when \<open>parse\<close> under the same parse options does.
\<close>

theorem reformat_accepts_parse:
  assumes "vm_law (env_vm env)" and "pool_ok (env_vm env) st"
    and "scans_as (env_scan env) input (popts (ro_parse ro)) d"
    and "reader_law env input (popts (ro_parse ro))"
    and "doc_all big_int_ok d" and "need d \<le> SINK_STACK_MAX"
    and "doc_all (float_writable (gc_allow_nan (case ro_generate ro of Some g \<Rightarrow> g | None \<Rightarrow> DEFAULT_CONFIG))) d"
  shows "is_ok (reformat_over env render st input ro) \<longleftrightarrow> is_ok (materialize env st input (ro_parse ro))"
proof -
  let ?po = "ro_parse ro"
  let ?cfg = "case ro_generate ro of Some g \<Rightarrow> g | None \<Rightarrow> DEFAULT_CONFIG"
  have table: "table_ok (pl_table st)" using assms(2) by (simp add: pool_ok_def)
  have "is_ok (reformat_over env render st input ro) \<longleftrightarrow> pipe_base ?po (gc_allow_nan ?cfg) d \<and>
      (allow_duplicate_key ?po \<or> doc_all (keys_all distinct) d)"
    using drive_hashless_exact [where base = "pipe_base ?po (gc_allow_nan ?cfg) d" and
        drv = "pipe_drive env st input ?po ?cfg", OF _ _ _ assms(4,3)]
      pipe_accepts [OF table assms(3), of ?cfg] pipe_refusal [OF table assms(3), of ?cfg]
    by (simp add: pipe_base_def reformat_over_def Let_def)
  also have "\<dots> \<longleftrightarrow> parse_accepts ?po d"
    using assms(5-7) by (auto simp: pipe_base_def parse_accepts_def ruby_takes_split)
  also have "\<dots> \<longleftrightarrow> is_ok (materialize env st input ?po)"
    using materialize_accepted [OF assms(1,2), of input 0 "length input" ?po d]
      materialize_refused [OF assms(1,2), of input 0 "length input" ?po d] assms(3)
    by (cases "parse_accepts ?po d") (auto simp: materialize_def sub_def)
  finally show ?thesis .
qed

theorem reformat_accepts_parse_witness:
  "is_ok (reformat_over sample_env (\<lambda>_ cs. replicate (length cs) 0) fresh_pull_state sample_text
      \<lparr>ro_parse = parse_opts_default, ro_generate = None\<rparr>) \<longleftrightarrow>
   is_ok (materialize sample_env fresh_pull_state sample_text parse_opts_default)"
proof -
  let ?ro = "\<lparr>ro_parse = parse_opts_default, ro_generate = None\<rparr>"
  have law: "vm_law (env_vm sample_env)" "pool_ok (env_vm sample_env) fresh_pull_state"
    by (simp_all add: term_vm_law fresh_pool_ok)
  have d: "scans_as (env_scan sample_env) sample_text (popts (ro_parse ?ro)) (strip sample_pdoc)"
    by (simp add: sample_scans)
  have r: "reader_law sample_env sample_text (popts (ro_parse ?ro))"
    using sample_reads by (auto simp: reader_law_def dest!: sample_scans_only)
  show ?thesis
    using reformat_accepts_parse [OF law d r] by (simp add: sample_strip)
qed

end
