(* ===== verification/Gen_Values.thy ===== *)
theory Gen_Values
  imports Parse Lossy
begin

text \<open>
  What generation sees of Ruby: the strings, keys and objects the walker of
  src/ext/nosj/src/gen/walker.rs visits, with the outcome of every protected call it makes on
  them (gen/ruby.rs: \<open>to_s\<close>, \<open>to_json\<close>, \<open>as_json\<close>, \<open>inspect\<close>, transcoding) as part of
  the object; the failures (gen/errors.rs); and the pre-escaped key cache (gen/keys.rs).  An
  object graph is finite and is not changed by the callbacks it runs.  The crate's emission
  kernels are the parameter \<open>emitter\<close>.
\<close>

section \<open>Strings and exceptions\<close>

text \<open>An exception is its identity and what its own \<open>to_s\<close> gives, itself perhaps an exception.\<close>

datatype exc = Exc (exc_id: nat) (exc_to_s: "nat + bytes")

datatype coderange = Cr7Bit | CrValid | CrBroken

datatype str_enc = EncUtf8 | EncUsAscii | EncOther

text \<open>\<open>gs_id\<close> is the VALUE, \<open>gs_encoded\<close> the outcome of \<open>rb_str_encode\<close> to UTF-8.\<close>

record gstr =
  gs_id :: nat
  gs_frozen :: bool
  gs_cr :: coderange
  gs_enc :: str_enc
  gs_bytes :: bytes
  gs_encoded :: "exc + coderange \<times> bytes"

section \<open>Objects\<close>

text \<open>The outcomes of the protected calls on an object of a non-native class.\<close>

record other_info =
  oi_class :: string
  oi_is_fragment :: "exc + bool"
  oi_to_json_if_responds :: "exc + bytes option"
  oi_to_json :: "exc + bytes option"
  oi_to_s :: "exc + gstr"

text \<open>
  A \<open>to_json\<close> outcome is the bytes of the String it returned, or None.  Hash keys are strings,
  symbols (by name) or others (by \<open>to_s\<close>); a Hash carries the outcome of its \<open>inspect\<close>.
\<close>

datatype rkey = KStr gstr | KSymbol gstr | KOtherKey "exc + gstr"

datatype robj =
    ONilV | OTrueV | OFalseV | OFix int | OFlonum f64 | OHeapFloat f64 | OBig bytes
  | OStr gstr | OSym gstr
  | OArr "robj list"
  | OHsh "exc + bytes" "(rkey \<times> robj) list"
  | OOther other_info as_json
and as_json = AsRaise exc | AsSelf | AsValue robj

section \<open>Failures\<close>

datatype gen_fail = Reraise exc | FailGenerator message | GeneratorFrom exc | FailNesting nat

text \<open>The exception's text as a Rust string; an exception \<open>to_s\<close> raises takes its place.\<close>

definition error_message :: "exc \<Rightarrow> nat + bytes" where
  "error_message e = map_ok from_utf8_lossy (exc_to_s e)"

fun raise_fail :: "gen_fail \<Rightarrow> ruby_error" where
  "raise_fail (Reraise e) = Raised (exc_id e)"
| "raise_fail (FailGenerator m) = GeneratorError m"
| "raise_fail (GeneratorFrom e) =
     (case error_message e of Inr m \<Rightarrow> GeneratorError (Fmt ''{}'' [ABytes m]) | Inl raised \<Rightarrow> Raised raised)"
| "raise_fail (FailNesting limit) =
     NestingError (Fmt ''nesting of {} is too deep. Did you try to serialize objects with circular references?'' [ANat limit])"

section \<open>Emission kernels\<close>

record emitter =
  em_escape :: "escape_mode \<Rightarrow> bytes \<Rightarrow> bytes"
  em_f64 :: "f64 \<Rightarrow> bytes"
  em_i64 :: "int \<Rightarrow> bytes"
  em_inspect :: "gstr \<Rightarrow> exc + bytes"

definition malformed :: gen_fail where
  "malformed = FailGenerator (msg ''source sequence is illegal/malformed utf-8'')"

fun convert_invalid_encoding :: "gstr \<Rightarrow> gen_fail + bytes" where
  "convert_invalid_encoding s =
     (if gs_enc s = EncUtf8 then Inl malformed
      else case gs_encoded s of
        Inr (cr, b) \<Rightarrow> if cr = Cr7Bit \<or> cr = CrValid then Inr b else Inl malformed
      | Inl e \<Rightarrow> Inl (GeneratorFrom e))"

definition quoted :: "emitter \<Rightarrow> escape_mode \<Rightarrow> gstr \<Rightarrow> gen_fail + bytes" where
  "quoted E md s =
     (let valid = (gs_cr s = Cr7Bit \<or> gs_cr s = CrValid \<and> (gs_enc s = EncUtf8 \<or> gs_enc s = EncUsAscii))
      in map_ok (\<lambda>b. [b_quote] @ em_escape E md b @ [b_quote])
           (if valid then Inr (gs_bytes s) else convert_invalid_encoding s))"

section \<open>Keys\<close>

datatype key_kind = KindString | KindSymbol | KindOther

fun kind_of_key :: "rkey \<Rightarrow> key_kind" where
  "kind_of_key (KStr s) = KindString"
| "kind_of_key (KSymbol s) = KindSymbol"
| "kind_of_key (KOtherKey r) = KindOther"

fun key_string :: "rkey \<Rightarrow> exc + gstr" where
  "key_string (KStr s) = Inr s"
| "key_string (KSymbol s) = Inr s"
| "key_string (KOtherKey r) = r"

record mixed_keys =
  mk_first :: "key_kind option"
  mk_done :: bool

definition mixed_keys_new :: "bool \<Rightarrow> mixed_keys" where
  "mixed_keys_new allow = \<lparr>mk_first = None, mk_done = allow\<rparr>"

definition mixed :: "key_kind \<Rightarrow> mixed_keys \<Rightarrow> bool \<times> mixed_keys" where
  "mixed kind m = (if mk_done m \<or> kind = KindOther then (False, m) else (True, m\<lparr>mk_done := True\<rparr>))"

definition needs_check :: "key_kind \<Rightarrow> mixed_keys \<Rightarrow> bool \<times> mixed_keys" where
  "needs_check kind m =
     (case mk_first m of
        Some first \<Rightarrow> if first = kind then (False, m) else mixed kind m
      | None \<Rightarrow> (False, m\<lparr>mk_first := Some kind\<rparr>))"

text \<open>\<open>seen.insert(..)\<close> over the keys: the first key whose text is a repeat.\<close>

fun dup_walk :: "bytes set \<Rightarrow> rkey list \<Rightarrow> exc + gstr option" where
  "dup_walk seen [] = Inr None"
| "dup_walk seen (k # ks) =
     tryr (key_string k) (\<lambda>s.
     if gs_bytes s \<in> seen then Inr (Some s) else dup_walk (insert (gs_bytes s) seen) ks)"

definition reraise :: "exc + 'a \<Rightarrow> gen_fail + 'a" where
  "reraise r = map_err Reraise r"

definition check_duplicate_keys :: "emitter \<Rightarrow> exc + bytes \<Rightarrow> rkey list \<Rightarrow> gen_fail + unit" where
  "check_duplicate_keys E hash_inspect ks =
     tryr (reraise (dup_walk {} ks)) (\<lambda>hit.
     case hit of
       None \<Rightarrow> Inr ()
     | Some s \<Rightarrow>
         tryr (reraise (em_inspect E s)) (\<lambda>ki.
         tryr (reraise hash_inspect) (\<lambda>hi.
         Inl (FailGenerator (Fmt ''detected duplicate key {} in {}'' 
           [ABytes (from_utf8_lossy ki), ABytes (from_utf8_lossy hi)])))))"

section \<open>The key cache\<close>

abbreviation GEN_KEY_CACHE_CAP :: nat where "GEN_KEY_CACHE_CAP \<equiv> 2048"

text \<open>The map from VALUEs to bytes, and the shadow that keeps the VALUEs alive.\<close>

record gen_key_cache =
  kc_map :: "(nat \<times> bytes) list"
  kc_shadow :: "nat list"

definition kc_empty :: gen_key_cache where
  "kc_empty = \<lparr>kc_map = [], kc_shadow = []\<rparr>"

definition kc_get :: "gen_key_cache \<Rightarrow> nat \<Rightarrow> bytes option" where
  "kc_get c k = map_of (kc_map c) k"

definition kc_store :: "nat \<Rightarrow> bytes \<Rightarrow> gen_key_cache \<Rightarrow> gen_key_cache" where
  "kc_store k b c =
     (let c = (if GEN_KEY_CACHE_CAP \<le> length (kc_map c) then kc_empty else c)
      in c\<lparr>kc_shadow := kc_shadow c @ [k], kc_map := (k, b) # kc_map c\<rparr>)"

fun mode_cacheable :: "escape_mode \<Rightarrow> bool" where
  "mode_cacheable Standard = True"
| "mode_cacheable HtmlSafe = True"
| "mode_cacheable _ = False"

text \<open>
  The contract of a cache of rendered keys, for its client: a lookup that answers gives what
  rendering the key gives, and storing what was rendered keeps that.
\<close>

locale key_cache_spec =
  fixes get :: "'c \<Rightarrow> nat \<Rightarrow> bytes option" and store :: "nat \<Rightarrow> bytes \<Rightarrow> 'c \<Rightarrow> 'c"
    and good :: "(nat \<Rightarrow> bytes option) \<Rightarrow> 'c \<Rightarrow> bool"
  assumes get_good: "good rendering c \<Longrightarrow> get c k = Some b \<Longrightarrow> rendering k = Some b"
    and store_good: "good rendering c \<Longrightarrow> rendering k = Some b \<Longrightarrow> get c k = None \<Longrightarrow> good rendering (store k b c)"
begin

text \<open>Looking up, or rendering and storing: the answer never depends on the cache.\<close>

lemma lookup_or_store:
  assumes "good rendering c" and "rendering k = Some b"
  shows "case get c k of Some b' \<Rightarrow> b' = b | None \<Rightarrow> good rendering (store k b c)"
  using assms get_good [OF assms(1), of k] store_good [OF assms] by (auto split: option.split)

end

text \<open>Entries right, within the cap, and every cached VALUE in the shadow the GC marks.\<close>

definition kc_good :: "(nat \<Rightarrow> bytes option) \<Rightarrow> gen_key_cache \<Rightarrow> bool" where
  "kc_good rendering c \<longleftrightarrow>
     (\<forall>(k, b) \<in> set (kc_map c). rendering k = Some b) \<and>
     length (kc_map c) \<le> GEN_KEY_CACHE_CAP \<and> set (kc_shadow c) = fst ` set (kc_map c)"

interpretation kc: key_cache_spec kc_get kc_store kc_good
proof unfold_locales
  show "rendering k = Some b" if "kc_good rendering c" "kc_get c k = Some b" for rendering c k b
    using that by (auto simp: kc_good_def kc_get_def dest!: map_of_SomeD)
qed (auto simp: kc_good_def kc_store_def kc_empty_def Let_def)

lemma kc_good_empty: "kc_good rendering kc_empty"
  by (simp add: kc_good_def kc_empty_def)

end
