(* ===== verification/Gen_Walker.thy ===== *)
theory Gen_Walker
  imports Gen_Values
begin

text \<open>
  The recursive emitter of src/ext/nosj/src/gen/walker.rs: \<open>emit_value\<close> and the operations
  under it, over the output buffer and the key cache.  The const generic PRETTY is an argument.
  The emitter has several ways to write the same thing (cached and fresh keys, the fused pair
  prefix, numeric runs, the scalar arms, compact and pretty); the theorems show that all of
  them write what one reference printer, \<open>printed\<close>, prints.
\<close>

section \<open>The state\<close>

text \<open>The fields of \<open>Gen\<close> that change; the configuration and the kernels are arguments.\<close>

record gen_state =
  gn_out :: bytes
  gn_keys :: gen_key_cache
  gn_fail :: "gen_fail option"

text \<open>
  \<open>Result<(), ()>\<close> of a method on \<open>&mut self\<close>: the state it leaves, in \<open>Inl\<close> for
  \<open>Err(())\<close>.  A failing method records its failure first.
\<close>

type_synonym walk = "gen_state + gen_state"

definition failing :: "gen_fail \<Rightarrow> gen_state \<Rightarrow> walk" where
  "failing f s = Inl (s\<lparr>gn_fail := Some f\<rparr>)"

fun ask :: "gen_state \<Rightarrow> gen_fail + 'a \<Rightarrow> ('a \<Rightarrow> walk) \<Rightarrow> walk" where
  "ask s (Inl f) k = failing f s"
| "ask s (Inr x) k = k x"

lemma ask_cong [fundef_cong]:
  "s = s' \<Longrightarrow> r = r' \<Longrightarrow> (\<And>x. r' = Inr x \<Longrightarrow> f x = g x) \<Longrightarrow> ask s r f = ask s' r' g"
  by (cases r') auto

text \<open>The state after an iteration that a closure may have stopped.\<close>

fun walk_state :: "walk \<Rightarrow> gen_state" where
  "walk_state (Inl s) = s"
| "walk_state (Inr s) = s"

definition put :: "bytes \<Rightarrow> gen_state \<Rightarrow> gen_state" where
  "put b s = s\<lparr>gn_out := gn_out s @ b\<rparr>"

definition indents :: "gen_config \<Rightarrow> nat \<Rightarrow> bytes" where
  "indents cfg n = concat (replicate n (indent cfg))"

text \<open>\<open>emit_rstring_quoted\<close>\<close>

definition emit_rstring_quoted :: "emitter \<Rightarrow> gen_config \<Rightarrow> gstr \<Rightarrow> gen_state \<Rightarrow> walk" where
  "emit_rstring_quoted E cfg str s = ask s (quoted E (mode cfg) str) (\<lambda>b. Inr (put b s))"

definition float_name :: "f64 \<Rightarrow> string" where
  "float_name f =
     (if f64_is_nan f then ''NaN'' else if f64_gt_zero f then ''Infinity'' else ''-Infinity'')"

definition float_text :: "emitter \<Rightarrow> gen_config \<Rightarrow> f64 \<Rightarrow> gen_fail + bytes" where
  "float_text E cfg f =
     (if f64_is_finite f then Inr (em_f64 E f)
      else if rails cfg then Inr (asc ''null'')
      else if gc_allow_nan cfg then Inr (asc (float_name f))
      else Inl (FailGenerator (Fmt ''{} not allowed in JSON'' [AText (float_name f)])))"

definition emit_float :: "emitter \<Rightarrow> gen_config \<Rightarrow> f64 \<Rightarrow> gen_state \<Rightarrow> walk" where
  "emit_float E cfg f s = ask s (float_text E cfg f) (\<lambda>b. Inr (put b s))"

definition emit_key_cached :: "emitter \<Rightarrow> gen_config \<Rightarrow> gstr \<Rightarrow> gen_state \<Rightarrow> walk" where
  "emit_key_cached E cfg k s =
     (if \<not> gs_frozen k \<or> \<not> mode_cacheable (mode cfg) then emit_rstring_quoted E cfg k s
      else case kc_get (gn_keys s) (gs_id k) of
        Some b \<Rightarrow> Inr (put b s)
      | None \<Rightarrow>
          let start = length (gn_out s)
          in map_ok (\<lambda>s. s\<lparr>gn_keys := kc_store (gs_id k) (drop start (gn_out s)) (gn_keys s)\<rparr>)
               (emit_rstring_quoted E cfg k s))"

fun emit_key :: "emitter \<Rightarrow> gen_config \<Rightarrow> rkey \<Rightarrow> gen_state \<Rightarrow> walk" where
  "emit_key E cfg (KStr k) s = emit_key_cached E cfg k s"
| "emit_key E cfg k s = ask s (reraise (key_string k)) (\<lambda>str. emit_rstring_quoted E cfg str s)"

fun cached_key_bytes :: "gen_config \<Rightarrow> gen_key_cache \<Rightarrow> rkey \<Rightarrow> bytes option" where
  "cached_key_bytes cfg keys (KStr k) =
     (if mode_cacheable (mode cfg) \<and> gs_frozen k then kc_get keys (gs_id k) else None)"
| "cached_key_bytes cfg keys _ = None"

definition emit_pair_prefix_compact ::
  "emitter \<Rightarrow> gen_config \<Rightarrow> rkey \<Rightarrow> bool \<Rightarrow> gen_state \<Rightarrow> walk" where
  "emit_pair_prefix_compact E cfg k comma s =
     (case cached_key_bytes cfg (gn_keys s) k of
        Some b \<Rightarrow> Inr (put ((if comma then [b_comma] else []) @ b @ [b_colon]) s)
      | None \<Rightarrow>
          let s = (if comma then put [b_comma] s else s)
          in map_ok (put [b_colon]) (emit_key E cfg k s))"

definition emit_pair_int_compact ::
  "emitter \<Rightarrow> gen_config \<Rightarrow> rkey \<Rightarrow> bool \<Rightarrow> int \<Rightarrow> gen_state \<Rightarrow> walk" where
  "emit_pair_int_compact E cfg k comma i s =
     (case cached_key_bytes cfg (gn_keys s) k of
        Some b \<Rightarrow> Inr (put ((if comma then [b_comma] else []) @ b @ [b_colon] @ em_i64 E i) s)
      | None \<Rightarrow> map_ok (put (em_i64 E i)) (emit_pair_prefix_compact E cfg k comma s))"

definition nesting_check :: "gen_config \<Rightarrow> nat \<Rightarrow> gen_fail + unit" where
  "nesting_check cfg inner =
     (if 0 < gc_max_nesting cfg \<and> gc_max_nesting cfg < inner
      then Inl (FailNesting (gc_max_nesting cfg)) else Inr ())"

text \<open>
  A numeric run: how many elements it consumed, and the buffer.  \<open>budget\<close> is the length of
  the reserved chunk, at most \<open>RUN_CHUNK\<close>.
\<close>

abbreviation RUN_CHUNK :: nat where "RUN_CHUNK \<equiv> 4096"

definition run_text :: "emitter \<Rightarrow> robj \<Rightarrow> bytes option" where
  "run_text E e =
     (case e of
        OFlonum f \<Rightarrow> if f64_is_finite f then Some (em_f64 E f) else None
      | OFix i \<Rightarrow> Some (em_i64 E i)
      | _ \<Rightarrow> None)"

fun num_run :: "emitter \<Rightarrow> nat \<Rightarrow> bool \<Rightarrow> robj list \<Rightarrow> bytes \<Rightarrow> nat \<times> bytes" where
  "num_run E (Suc budget) first (e # es) out =
     (case run_text E e of
        None \<Rightarrow> (0, out)
      | Some t \<Rightarrow>
          let (n, out) = num_run E budget False es ((if first then out else out @ [b_comma]) @ t)
          in (Suc n, out))"
| "num_run E budget first es out = (0, out)"

fun is_number :: "robj \<Rightarrow> bool" where
  "is_number (OFlonum f) = True"
| "is_number (OFix i) = True"
| "is_number _ = False"

text \<open>\<open>splice_to_json\<close> and the choice between raising, \<open>to_json\<close> and \<open>to_s\<close>.\<close>

definition splice_to_json :: "other_info \<Rightarrow> gen_state \<Rightarrow> walk" where
  "splice_to_json info s =
     ask s (reraise (oi_to_json info)) (\<lambda>json.
     case json of
       Some b \<Rightarrow> Inr (put b s)
     | None \<Rightarrow> failing (FailGenerator (msg ''JSON::Fragment#to_json did not return a String'')) s)"

definition emit_fallback_plain :: "emitter \<Rightarrow> gen_config \<Rightarrow> other_info \<Rightarrow> gen_state \<Rightarrow> walk" where
  "emit_fallback_plain E cfg info s =
     (if strict cfg
      then ask s (reraise (oi_is_fragment info)) (\<lambda>fragment.
           if fragment then splice_to_json info s
           else failing (FailGenerator (Fmt ''{} not allowed in JSON'' [AText (oi_class info)])) s)
      else ask s (reraise (oi_to_json_if_responds info)) (\<lambda>json.
           case json of
             Some b \<Rightarrow> Inr (put b s)
           | None \<Rightarrow> ask s (reraise (oi_to_s info)) (\<lambda>str. emit_rstring_quoted E cfg str s)))"

text \<open>\<open>emit_rails_fallback\<close>, given the recursive call on what \<open>as_json\<close> returned.\<close>

definition emit_rails_fallback :: "other_info \<Rightarrow> as_json \<Rightarrow> (robj \<Rightarrow> walk) \<Rightarrow> gen_state \<Rightarrow> walk" where
  "emit_rails_fallback info asj rec s =
     ask s (reraise (oi_is_fragment info)) (\<lambda>fragment.
     if fragment then splice_to_json info s
     else case asj of
       AsRaise e \<Rightarrow> failing (Reraise e) s
     | AsSelf \<Rightarrow> failing (FailGenerator (Fmt ''{}#as_json returned the receiver'' [AText (oi_class info)])) s
     | AsValue v \<Rightarrow> rec v)"

lemma emit_rails_fallback_cong [fundef_cong]:
  "info = info' \<Longrightarrow> asj = asj' \<Longrightarrow> s = s' \<Longrightarrow> (\<And>v. asj' = AsValue v \<Longrightarrow> f v = g v) \<Longrightarrow>
     emit_rails_fallback info asj f s = emit_rails_fallback info' asj' g s'"
  by (cases asj') (simp_all add: emit_rails_fallback_def cong: if_cong)

text \<open>The scalars; None for the others.\<close>

fun emit_scalar :: "emitter \<Rightarrow> gen_config \<Rightarrow> robj \<Rightarrow> gen_state \<Rightarrow> walk option" where
  "emit_scalar E cfg ONilV s = Some (Inr (put (asc ''null'') s))"
| "emit_scalar E cfg OTrueV s = Some (Inr (put (asc ''true'') s))"
| "emit_scalar E cfg OFalseV s = Some (Inr (put (asc ''false'') s))"
| "emit_scalar E cfg (OFix i) s = Some (Inr (put (em_i64 E i) s))"
| "emit_scalar E cfg (OFlonum f) s = Some (emit_float E cfg f s)"
| "emit_scalar E cfg (OHeapFloat f) s = Some (emit_float E cfg f s)"
| "emit_scalar E cfg (OBig digits) s = Some (Inr (put digits s))"
| "emit_scalar E cfg (OStr str) s = Some (emit_rstring_quoted E cfg str s)"
| "emit_scalar E cfg (OSym str) s = Some (emit_rstring_quoted E cfg str s)"
| "emit_scalar E cfg _ s = None"

section \<open>The walk\<close>

text \<open>The measure of the walk: every recursive call is on a part of the object.\<close>

fun weight :: "robj \<Rightarrow> nat"
  and weight_as :: "as_json \<Rightarrow> nat" where
  "weight (OArr vs) = Suc (\<Sum>v\<leftarrow>vs. Suc (weight v))"
| "weight (OHsh hi kvs) = Suc (\<Sum>kv\<leftarrow>kvs. Suc (weight (snd kv)))"
| "weight (OOther info asj) = Suc (weight_as asj)"
| "weight _ = 0"
| "weight_as (AsValue v) = weight v"
| "weight_as _ = 0"

definition elems_weight :: "robj list \<Rightarrow> nat" where
  "elems_weight vs = (\<Sum>v\<leftarrow>vs. Suc (weight v))"

definition pairs_weight :: "(rkey \<times> robj) list \<Rightarrow> nat" where
  "pairs_weight kvs = (\<Sum>kv\<leftarrow>kvs. Suc (weight (snd kv)))"

lemma elems_weight_drop: "elems_weight (drop n vs) \<le> elems_weight vs"
  by (induction vs arbitrary: n) (auto simp: elems_weight_def drop_Cons split: nat.split intro: le_SucI trans_le_add2)

lemma drop_lighter:
  "0 < n \<Longrightarrow> (\<Sum>v\<leftarrow>drop n (v # vs). Suc (weight v)) < Suc (weight v + (\<Sum>v\<leftarrow>vs. Suc (weight v)))"
  using elems_weight_drop [of "n - 1" vs] by (cases n) (auto simp: elems_weight_def)

text \<open>
  \<open>emit_elems\<close> is the loop of \<open>emit_array\<close> over the elements from the current index on
  (\<open>later\<close>: the index is not 0), \<open>emit_pairs\<close> the closure of \<open>emit_object\<close> over the rest of the
  pairs; \<open>ks\<close> are all the keys of the hash, for the duplicate check.
\<close>

function (sequential)
  emit_value :: "emitter \<Rightarrow> gen_config \<Rightarrow> bool \<Rightarrow> robj \<Rightarrow> nat \<Rightarrow> gen_state \<Rightarrow> walk"
  and emit_elems :: "emitter \<Rightarrow> gen_config \<Rightarrow> bool \<Rightarrow> bool \<Rightarrow> robj list \<Rightarrow> nat \<Rightarrow> gen_state \<Rightarrow> walk"
  and emit_pairs :: "emitter \<Rightarrow> gen_config \<Rightarrow> bool \<Rightarrow> exc + bytes \<Rightarrow> rkey list \<Rightarrow> mixed_keys \<Rightarrow> bool \<Rightarrow>
    (rkey \<times> robj) list \<Rightarrow> nat \<Rightarrow> gen_state \<Rightarrow> walk"
where
  "emit_value E cfg pty (OArr vs) depth s =
     ask s (nesting_check cfg (depth + 1)) (\<lambda>_.
     let s = put [b_lbracket] s
     in if vs = [] then Inr (put [b_rbracket] s)
        else tryr (emit_elems E cfg pty False vs (depth + 1) s) (\<lambda>s.
             let s = (if pty \<and> array_nl cfg \<noteq> [] then put (array_nl cfg @ indents cfg depth) s else s)
             in Inr (put [b_rbracket] s)))"
| "emit_value E cfg pty (OHsh hash_inspect kvs) depth s =
     ask s (nesting_check cfg (depth + 1)) (\<lambda>_.
     let s = put [b_lbrace] s
     in if kvs = [] then Inr (put [b_rbrace] s)
        else let s = walk_state (emit_pairs E cfg pty hash_inspect (map fst kvs)
                       (mixed_keys_new (gc_allow_duplicate_key cfg)) True kvs (depth + 1) s)
             in if gn_fail s \<noteq> None then Inl s
                else let s = (if pty \<and> object_nl cfg \<noteq> [] then put (object_nl cfg @ indents cfg depth) s else s)
                     in Inr (put [b_rbrace] s))"
| "emit_value E cfg pty (OOther info asj) depth s =
     (if rails cfg then emit_rails_fallback info asj (\<lambda>v. emit_value E cfg pty v depth s) s
      else emit_fallback_plain E cfg info s)"
| "emit_value E cfg pty v depth s = the (emit_scalar E cfg v s)"
| "emit_elems E cfg pty later [] inner s = Inr s"
| "emit_elems E cfg pty later (v # vs) inner s =
     (let s = (if later then put [b_comma] s else s);
          s = (if pty then put (array_nl cfg @ indents cfg inner) s else s);
          (n, out) = (if \<not> pty \<and> is_number v
                      then num_run E (min (length (v # vs)) RUN_CHUNK) True (v # vs) (gn_out s)
                      else (0, gn_out s))
      in if 0 < n then emit_elems E cfg pty True (drop n (v # vs)) inner (s\<lparr>gn_out := out\<rparr>)
         else tryr (case v of
                      OFlonum f \<Rightarrow> emit_float E cfg f s
                    | OHeapFloat f \<Rightarrow> emit_float E cfg f s
                    | _ \<Rightarrow> emit_value E cfg pty v inner s) (\<lambda>s.
              emit_elems E cfg pty True vs inner s))"
| "emit_pairs E cfg pty hash_inspect ks m first [] inner s = Inr s"
| "emit_pairs E cfg pty hash_inspect ks m first ((k, v) # kvs) inner s =
     (let (check, m) = needs_check (kind_of_key k) m
      in ask s (if check then check_duplicate_keys E hash_inspect ks else Inr ()) (\<lambda>_.
         tryr
          (if pty
           then let s = (if first then s else put [b_comma] s);
                    s = put (object_nl cfg @ indents cfg inner) s
                in tryr (emit_key E cfg k s) (\<lambda>s.
                   emit_value E cfg pty v inner (put (space_before cfg @ [b_colon] @ space cfg) s))
           else let comma = (last (gn_out s) \<noteq> b_lbrace)
                in case v of
                  OFix i \<Rightarrow> emit_pair_int_compact E cfg k comma i s
                | _ \<Rightarrow>
                    tryr (emit_pair_prefix_compact E cfg k comma s) (\<lambda>s.
                    case v of
                      OStr str \<Rightarrow> emit_rstring_quoted E cfg str s
                    | ONilV \<Rightarrow> Inr (put (asc ''null'') s)
                    | OTrueV \<Rightarrow> Inr (put (asc ''true'') s)
                    | OFalseV \<Rightarrow> Inr (put (asc ''false'') s)
                    | OFlonum f \<Rightarrow> emit_float E cfg f s
                    | _ \<Rightarrow> emit_value E cfg pty v inner s)) (\<lambda>s.
         emit_pairs E cfg pty hash_inspect ks m False kvs inner s)))"
  by pat_completeness auto

termination
  by (relation "measure (\<lambda>x. case x of
        Inl (E, cfg, pty, v, depth, s) \<Rightarrow> weight v
      | Inr (Inl (E, cfg, pty, later, vs, inner, s)) \<Rightarrow> elems_weight vs
      | Inr (Inr (E, cfg, pty, hi, ks, m, first, kvs, inner, s)) \<Rightarrow> pairs_weight kvs)")
    (auto simp: elems_weight_def pairs_weight_def drop_lighter simp del: drop_Suc_Cons)

end
