(* ===== verification/Gen_Printer.thy ===== *)
theory Gen_Printer
  imports Gen_Walker
begin

text \<open>
  The reference printer: one clause per kind of object, without caches, fused writes or runs,
  and the refinement of the walker to it.  The printer has no compact mode; the compact walk is
  the printer with empty formatting strings.
\<close>

section \<open>The printer\<close>

text \<open>One text after another, stopping at the first failure.\<close>

definition cat :: "gen_fail + bytes \<Rightarrow> gen_fail + bytes \<Rightarrow> gen_fail + bytes" where
  "cat p q = tryr p (\<lambda>b. map_ok (\<lambda>b'. b @ b') q)"

definition scalar_text :: "emitter \<Rightarrow> gen_config \<Rightarrow> robj \<Rightarrow> gen_fail + bytes" where
  "scalar_text E cfg v =
     (case v of
        ONilV \<Rightarrow> Inr (asc ''null'') | OTrueV \<Rightarrow> Inr (asc ''true'') | OFalseV \<Rightarrow> Inr (asc ''false'')
      | OFix i \<Rightarrow> Inr (em_i64 E i)
      | OFlonum f \<Rightarrow> float_text E cfg f | OHeapFloat f \<Rightarrow> float_text E cfg f
      | OBig digits \<Rightarrow> Inr digits
      | OStr str \<Rightarrow> quoted E (mode cfg) str | OSym str \<Rightarrow> quoted E (mode cfg) str
      | _ \<Rightarrow> Inr [])"

definition key_text :: "emitter \<Rightarrow> gen_config \<Rightarrow> rkey \<Rightarrow> gen_fail + bytes" where
  "key_text E cfg k = tryr (reraise (key_string k)) (quoted E (mode cfg))"

definition spliced :: "other_info \<Rightarrow> gen_fail + bytes" where
  "spliced info =
     tryr (reraise (oi_to_json info)) (\<lambda>json.
     case json of
       Some b \<Rightarrow> Inr b
     | None \<Rightarrow> Inl (FailGenerator (msg ''JSON::Fragment#to_json did not return a String'')))"

definition fallback_text :: "emitter \<Rightarrow> gen_config \<Rightarrow> other_info \<Rightarrow> gen_fail + bytes" where
  "fallback_text E cfg info =
     (if strict cfg
      then tryr (reraise (oi_is_fragment info)) (\<lambda>fragment.
           if fragment then spliced info
           else Inl (FailGenerator (Fmt ''{} not allowed in JSON'' [AText (oi_class info)])))
      else tryr (reraise (oi_to_json_if_responds info)) (\<lambda>json.
           case json of
             Some b \<Rightarrow> Inr b
           | None \<Rightarrow> tryr (reraise (oi_to_s info)) (quoted E (mode cfg))))"

function (sequential)
  printed :: "emitter \<Rightarrow> gen_config \<Rightarrow> robj \<Rightarrow> nat \<Rightarrow> gen_fail + bytes"
  and printed_elems :: "emitter \<Rightarrow> gen_config \<Rightarrow> bool \<Rightarrow> robj list \<Rightarrow> nat \<Rightarrow> gen_fail + bytes"
  and printed_pairs :: "emitter \<Rightarrow> gen_config \<Rightarrow> exc + bytes \<Rightarrow> rkey list \<Rightarrow> mixed_keys \<Rightarrow> bool \<Rightarrow>
    (rkey \<times> robj) list \<Rightarrow> nat \<Rightarrow> gen_fail + bytes"
where
  "printed E cfg (OArr vs) depth =
     tryr (nesting_check cfg (depth + 1)) (\<lambda>_.
     if vs = [] then Inr [b_lbracket, b_rbracket]
     else cat (Inr [b_lbracket]) (cat (printed_elems E cfg False vs (depth + 1))
            (Inr ((if array_nl cfg \<noteq> [] then array_nl cfg @ indents cfg depth else []) @ [b_rbracket]))))"
| "printed E cfg (OHsh hash_inspect kvs) depth =
     tryr (nesting_check cfg (depth + 1)) (\<lambda>_.
     if kvs = [] then Inr [b_lbrace, b_rbrace]
     else cat (Inr [b_lbrace]) (cat (printed_pairs E cfg hash_inspect (map fst kvs)
                                      (mixed_keys_new (gc_allow_duplicate_key cfg)) True kvs (depth + 1))
            (Inr ((if object_nl cfg \<noteq> [] then object_nl cfg @ indents cfg depth else []) @ [b_rbrace]))))"
| "printed E cfg (OOther info asj) depth =
     (if rails cfg
      then tryr (reraise (oi_is_fragment info)) (\<lambda>fragment.
           if fragment then spliced info
           else case asj of
             AsRaise e \<Rightarrow> Inl (Reraise e)
           | AsSelf \<Rightarrow> Inl (FailGenerator (Fmt ''{}#as_json returned the receiver'' [AText (oi_class info)]))
           | AsValue v \<Rightarrow> printed E cfg v depth)
      else fallback_text E cfg info)"
| "printed E cfg v depth = scalar_text E cfg v"
| "printed_elems E cfg later [] inner = Inr []"
| "printed_elems E cfg later (v # vs) inner =
     cat (Inr ((if later then [b_comma] else []) @ array_nl cfg @ indents cfg inner))
       (cat (printed E cfg v inner) (printed_elems E cfg True vs inner))"
| "printed_pairs E cfg hash_inspect ks m first [] inner = Inr []"
| "printed_pairs E cfg hash_inspect ks m first ((k, v) # kvs) inner =
     (case needs_check (kind_of_key k) m of (check, m) \<Rightarrow>
        tryr (if check then check_duplicate_keys E hash_inspect ks else Inr ()) (\<lambda>_.
        cat (Inr ((if first then [] else [b_comma]) @ object_nl cfg @ indents cfg inner))
          (cat (key_text E cfg k)
            (cat (Inr (space_before cfg @ [b_colon] @ space cfg))
              (cat (printed E cfg v inner) (printed_pairs E cfg hash_inspect ks m False kvs inner))))))"
  by pat_completeness auto

termination
  by (relation "measure (\<lambda>x. case x of
        Inl (E, cfg, v, depth) \<Rightarrow> weight v
      | Inr (Inl (E, cfg, later, vs, inner)) \<Rightarrow> elems_weight vs
      | Inr (Inr (E, cfg, hi, ks, m, first, kvs, inner)) \<Rightarrow> pairs_weight kvs)")
    (auto simp: elems_weight_def pairs_weight_def)

section \<open>Refinement\<close>

lemma put_fields [simp]:
  "gn_keys (put b s) = gn_keys s" "gn_out (put b s) = gn_out s @ b" "gn_fail (put b s) = gn_fail s"
  by (simp_all add: put_def)

lemma put_put [simp]: "put b' (put b s) = put (b @ b') s"
  by (simp add: put_def)

lemma put_Nil [simp]: "put [] s = s"
  by (simp add: put_def)

lemma map_ok_failing [simp]: "map_ok f (failing e s) = failing e s"
  by (simp add: failing_def)

text \<open>No failure yet, and a good cache.\<close>

definition ready :: "(nat \<Rightarrow> bytes option) \<Rightarrow> gen_state \<Rightarrow> bool" where
  "ready R s \<longleftrightarrow> gn_fail s = None \<and> kc_good R (gn_keys s)"

lemma ready_put [simp]: "ready R (put b s) = ready R s"
  by (simp add: ready_def put_def)

lemma ready_cache: "ready R s \<Longrightarrow> kc_good R (gn_keys s)"
  by (simp add: ready_def)

text \<open>
  A step of the walker from \<open>s\<close> does what the text \<open>p\<close> says: it appends it and is ready
  for more, or it stops with exactly that failure recorded; the cache is good either way.
\<close>

definition refines :: "(nat \<Rightarrow> bytes option) \<Rightarrow> walk \<Rightarrow> gen_state \<Rightarrow> gen_fail + bytes \<Rightarrow> bool" where
  "refines R r s p \<longleftrightarrow>
     (case p of
        Inl f \<Rightarrow> \<exists>s'. r = Inl s' \<and> gn_fail s' = Some f \<and> kc_good R (gn_keys s')
      | Inr b \<Rightarrow> \<exists>s'. r = Inr s' \<and> gn_out s' = gn_out s @ b \<and> ready R s')"

lemma refines_fail: "ready R s \<Longrightarrow> refines R (failing f s) s (Inl f)"
  by (simp add: refines_def failing_def ready_def)

lemma refines_put: "ready R s \<Longrightarrow> refines R (Inr (put b s)) s (Inr b)"
  by (simp add: refines_def)

lemma refines_ask:
  "ready R s \<Longrightarrow> (\<And>x. g = Inr x \<Longrightarrow> refines R (f x) s (h x)) \<Longrightarrow> refines R (ask s g f) s (tryr g h)"
  by (cases g) (auto simp: refines_fail)

lemma refines_guard:
  "ready R s \<Longrightarrow> (g = Inr () \<Longrightarrow> refines R r s p) \<Longrightarrow> refines R (ask s g (\<lambda>_. r)) s (tryr g (\<lambda>_. p))"
  by (cases g) (auto simp: refines_fail)

lemma refines_text: "ready R s \<Longrightarrow> refines R (ask s p (\<lambda>b. Inr (put b s))) s p"
  using refines_ask [of R s p _ Inr, OF _ refines_put] by simp

lemma refines_cat:
  assumes "refines R r s p"
    and "\<And>s' b. r = Inr s' \<Longrightarrow> p = Inr b \<Longrightarrow> gn_out s' = gn_out s @ b \<Longrightarrow> ready R s' \<Longrightarrow> refines R (f s') s' q"
  shows "refines R (tryr r f) s (cat p q)"
proof (cases p)
  case (Inl e)
  with assms(1) show ?thesis by (auto simp: refines_def cat_def)
next
  case (Inr b)
  with assms(1) obtain s' where s': "r = Inr s'" "gn_out s' = gn_out s @ b" "ready R s'"
    by (auto simp: refines_def)
  from assms(2) [OF s'(1) Inr s'(2,3)] s' Inr show ?thesis
    by (cases q) (auto simp: refines_def cat_def)
qed

lemma refines_after_put:
  "refines R r (put b s) q \<Longrightarrow> refines R r s (cat (Inr b) q)"
  by (cases q) (auto simp: refines_def cat_def put_def)

text \<open>After an iteration, looking at the recorded failure is looking at the result.\<close>

lemma refines_after:
  assumes "refines R r s p"
  shows "(if gn_fail (walk_state r) \<noteq> None then Inl (walk_state r) else k (walk_state r)) = tryr r k"
  using assms by (cases p) (auto simp: refines_def ready_def)

lemma cat_assoc: "cat (cat p q) r = cat p (cat q r)"
  by (cases p; cases q; cases r) (simp_all add: cat_def)

lemma cat_Nil [simp]: "cat (Inr []) q = q" "cat p (Inr []) = p"
  by (cases q; simp add: cat_def) (cases p; simp add: cat_def)

lemma cat_Inr: "cat (Inr b) (cat (Inr b') q) = cat (Inr (b @ b')) q"
  by (cases q) (simp_all add: cat_def)

lemma cat_Inr_eq: "cat (Inr b) (Inr b') = Inr (b @ b')"
  by (simp add: cat_def)

section \<open>Keys\<close>

text \<open>
  A VALUE identifies a frozen string: what rendering it gives is a function of the VALUE.
\<close>

definition key_known :: "emitter \<Rightarrow> gen_config \<Rightarrow> (nat \<Rightarrow> bytes option) \<Rightarrow> rkey \<Rightarrow> bool" where
  "key_known E cfg rendering k =
     (case k of
        KStr s \<Rightarrow> gs_frozen s \<and> mode_cacheable (mode cfg) \<longrightarrow>
          rendering (gs_id s) = (case quoted E (mode cfg) s of Inr b \<Rightarrow> Some b | Inl _ \<Rightarrow> None)
      | _ \<Rightarrow> True)"

lemma emit_key_refines:
  assumes "ready rendering s" and "key_known E cfg rendering k"
  shows "refines rendering (emit_key E cfg k s) s (key_text E cfg k)"
proof (cases k)
  case (KStr str)
  let ?q = "quoted E (mode cfg) str"
  show ?thesis
  proof (cases "gs_frozen str \<and> mode_cacheable (mode cfg)")
    case False
    with KStr assms(1) show ?thesis
      by (auto simp: emit_key_cached_def emit_rstring_quoted_def key_text_def reraise_def intro: refines_text)
  next
    case cacheable: True
    with assms(2) KStr have r: "rendering (gs_id str) = (case ?q of Inr b \<Rightarrow> Some b | Inl _ \<Rightarrow> None)"
      by (simp add: key_known_def)
    show ?thesis
    proof (cases "kc_get (gn_keys s) (gs_id str)")
      case (Some b)
      with kc.get_good [OF ready_cache [OF assms(1)] Some] r have "?q = Inr b" by (auto split: sum.splits)
      with Some KStr cacheable assms(1) show ?thesis
        by (simp add: emit_key_cached_def key_text_def reraise_def refines_put)
    next
      case None
      show ?thesis
      proof (cases ?q)
        case (Inl e)
        with None KStr cacheable assms(1) show ?thesis
          by (simp add: emit_key_cached_def emit_rstring_quoted_def key_text_def reraise_def Let_def refines_fail)
      next
        case (Inr b)
        then have "rendering (gs_id str) = Some b" using r by simp
        from kc.store_good [OF ready_cache [OF assms(1)] this None] Inr None KStr cacheable assms(1) show ?thesis
          by (simp add: emit_key_cached_def emit_rstring_quoted_def key_text_def reraise_def Let_def
              refines_def ready_def)
      qed
    qed
  qed
qed (use assms in \<open>auto simp: key_text_def emit_rstring_quoted_def intro!: refines_ask refines_text\<close>)

lemma cached_key_text:
  assumes "ready rendering s" and "key_known E cfg rendering k"
    and "cached_key_bytes cfg (gn_keys s) k = Some b"
  shows "key_text E cfg k = Inr b"
proof (cases k)
  case (KStr str)
  with assms(3) have c: "mode_cacheable (mode cfg)" "gs_frozen str" "kc_get (gn_keys s) (gs_id str) = Some b"
    by (auto split: if_splits)
  from kc.get_good [OF ready_cache [OF assms(1)] c(3)] assms(2) c KStr show ?thesis
    by (auto simp: key_known_def key_text_def reraise_def split: sum.splits)
qed (use assms(3) in auto)

lemma pair_prefix_refines:
  assumes "ready rendering s" and "key_known E cfg rendering k"
  shows "refines rendering (emit_pair_prefix_compact E cfg k comma s) s
    (cat (Inr (if comma then [b_comma] else [])) (cat (key_text E cfg k) (Inr [b_colon])))"
proof (cases "cached_key_bytes cfg (gn_keys s) k")
  case (Some b)
  with cached_key_text [OF assms Some] assms(1) show ?thesis
    by (simp add: emit_pair_prefix_compact_def cat_def refines_def)
next
  case None
  let ?s = "if comma then put [b_comma] s else s"
  have "refines rendering (tryr (emit_key E cfg k ?s) (\<lambda>s. Inr (put [b_colon] s))) ?s
      (cat (key_text E cfg k) (Inr [b_colon]))"
    by (rule refines_cat [OF emit_key_refines]) (use assms in \<open>auto simp: refines_def\<close>)
  then have "refines rendering (map_ok (put [b_colon]) (emit_key E cfg k ?s)) s
      (cat (Inr (if comma then [b_comma] else [])) (cat (key_text E cfg k) (Inr [b_colon])))"
    by (cases comma) (simp_all add: map_ok_tryr refines_after_put)
  with None show ?thesis by (simp add: emit_pair_prefix_compact_def Let_def)
qed

lemma pair_int_refines:
  assumes "ready rendering s" and "key_known E cfg rendering k"
  shows "refines rendering (emit_pair_int_compact E cfg k comma i s) s
    (cat (Inr (if comma then [b_comma] else [])) (cat (key_text E cfg k) (cat (Inr [b_colon]) (Inr (em_i64 E i)))))"
proof (cases "cached_key_bytes cfg (gn_keys s) k")
  case (Some b)
  with cached_key_text [OF assms Some] assms(1) show ?thesis
    by (simp add: emit_pair_int_compact_def cat_def refines_def)
next
  case None
  have "refines rendering
      (tryr (emit_pair_prefix_compact E cfg k comma s) (\<lambda>s. Inr (put (em_i64 E i) s))) s
      (cat (cat (Inr (if comma then [b_comma] else [])) (cat (key_text E cfg k) (Inr [b_colon]))) (Inr (em_i64 E i)))"
    by (rule refines_cat [OF pair_prefix_refines [OF assms]]) (auto intro: refines_put)
  with None show ?thesis by (simp add: emit_pair_int_compact_def map_ok_tryr cat_assoc)
qed

section \<open>Scalars and runs\<close>

lemma scalar_refines:
  "emit_scalar E cfg v s = Some r \<Longrightarrow> ready R s \<Longrightarrow> refines R r s (scalar_text E cfg v)"
  by (cases v) (auto simp: scalar_text_def emit_float_def emit_rstring_quoted_def intro: refines_put refines_text)

text \<open>A text after which the walker sees that a pair precedes.\<close>

definition closed_text :: "bytes \<Rightarrow> bool" where
  "closed_text b \<longleftrightarrow> b = [] \<or> last b \<noteq> b_lbrace"

definition emitter_ok :: "emitter \<Rightarrow> bool" where
  "emitter_ok E \<longleftrightarrow> (\<forall>i. closed_text (em_i64 E i)) \<and> (\<forall>f. closed_text (em_f64 E f))"

definition splice_ok :: "other_info \<Rightarrow> bool" where
  "splice_ok info \<longleftrightarrow>
     (\<forall>b. oi_to_json info = Inr (Some b) \<or> oi_to_json_if_responds info = Inr (Some b) \<longrightarrow> closed_text b)"

text \<open>
  The objects the theorems are about: VALUEs identify keys, and no text spliced as it is
  (\<open>to_json\<close> results, bignum digits) ends in an opening brace.
\<close>

fun walkable :: "emitter \<Rightarrow> gen_config \<Rightarrow> (nat \<Rightarrow> bytes option) \<Rightarrow> robj \<Rightarrow> bool"
  and walkable_as :: "emitter \<Rightarrow> gen_config \<Rightarrow> (nat \<Rightarrow> bytes option) \<Rightarrow> as_json \<Rightarrow> bool" where
  "walkable E cfg rendering (OArr vs) = (\<forall>v \<in> set vs. walkable E cfg rendering v)"
| "walkable E cfg rendering (OHsh hi kvs) =
     (\<forall>kv \<in> set kvs. key_known E cfg rendering (fst kv) \<and> walkable E cfg rendering (snd kv))"
| "walkable E cfg rendering (OOther info asj) = (splice_ok info \<and> walkable_as E cfg rendering asj)"
| "walkable E cfg rendering (OBig digits) = closed_text digits"
| "walkable E cfg rendering _ = True"
| "walkable_as E cfg rendering (AsValue v) = walkable E cfg rendering v"
| "walkable_as E cfg rendering _ = True"

text \<open>Compact formatting: every formatting string is empty.\<close>

definition compact :: "gen_config \<Rightarrow> bool" where
  "compact cfg \<longleftrightarrow> indent cfg = [] \<and> space cfg = [] \<and> space_before cfg = [] \<and>
     object_nl cfg = [] \<and> array_nl cfg = []"

lemma compact_texts: "compact cfg \<Longrightarrow> indents cfg n = []"
  by (simp add: compact_def indents_def)

lemma quoted_closed: "quoted E md s = Inr b \<Longrightarrow> closed_text b"
  by (auto simp: quoted_def Let_def closed_text_def map_ok_tryr tryr_Inr_iff)

lemma scalar_closed:
  "scalar_text E cfg v = Inr b \<Longrightarrow> emitter_ok E \<Longrightarrow> walkable E cfg rendering v \<Longrightarrow> closed_text b"
  by (cases v)
    (auto simp: scalar_text_def float_text_def emitter_ok_def closed_text_def asc_def float_name_def
      dest: quoted_closed split: if_splits)

lemma reraise_Inr [simp]: "reraise r = Inr x \<longleftrightarrow> r = Inr x"
  by (cases r) (auto simp: reraise_def)

lemma spliced_closed: "spliced info = Inr b \<Longrightarrow> splice_ok info \<Longrightarrow> closed_text b"
  by (auto simp: spliced_def splice_ok_def tryr_Inr_iff split: option.splits)

lemma fallback_closed: "fallback_text E cfg info = Inr b \<Longrightarrow> splice_ok info \<Longrightarrow> closed_text b"
  by (cases "strict cfg")
    (auto simp: fallback_text_def tryr_Inr_iff splice_ok_def dest: quoted_closed
      intro: spliced_closed split: if_splits option.splits)

lemma cat_Inr_iff: "cat p q = Inr b \<longleftrightarrow> (\<exists>b1 b2. p = Inr b1 \<and> q = Inr b2 \<and> b = b1 @ b2)"
  by (cases p; cases q) (auto simp: cat_def)

lemma printed_closed:
  "printed E cfg v depth = Inr b \<Longrightarrow> emitter_ok E \<Longrightarrow> walkable E cfg rendering v \<Longrightarrow> closed_text b"
proof (induction "weight v" arbitrary: v b rule: less_induct)
  case less
  show ?case
  proof (cases v)
    case (OArr vs)
    with less.prems(1) show ?thesis
      by (auto simp: tryr_Inr_iff cat_Inr_iff closed_text_def split: if_splits)
  next
    case (OHsh hi kvs)
    with less.prems(1) show ?thesis
      by (auto simp: tryr_Inr_iff cat_Inr_iff closed_text_def split: if_splits)
  next
    case (OOther info asj)
    show ?thesis
    proof (cases "\<exists>v'. asj = AsValue v' \<and> printed E cfg v' depth = Inr b")
      case True
      then obtain v' where "asj = AsValue v'" "printed E cfg v' depth = Inr b" by blast
      with less.hyps [of v' b] less.prems(2,3) OOther show ?thesis by simp
    next
      case False
      with less.prems OOther show ?thesis
        by (auto simp: tryr_Inr_iff dest: spliced_closed fallback_closed split: if_splits as_json.splits)
    qed
  qed (use less.prems scalar_closed [of E cfg v b rendering] in auto)
qed

text \<open>A numeric run writes what the printer prints for the elements it consumed.\<close>

lemma run_text_printed: "run_text E e = Some t \<Longrightarrow> printed E cfg e inner = Inr t"
  by (cases e) (auto simp: run_text_def scalar_text_def float_text_def split: if_splits)

lemma num_run_printed:
  "num_run E budget first es out = (n, out') \<Longrightarrow> compact cfg \<Longrightarrow>
     n \<le> length es \<and> (\<exists>t. out' = out @ t \<and>
       printed_elems E cfg (\<not> first) es inner =
         cat (Inr t) (printed_elems E cfg (\<not> first \<or> 0 < n) (drop n es) inner))"
proof (induction E budget first es out arbitrary: n out' rule: num_run.induct)
  case (1 E budget first e es out)
  show ?case
  proof (cases "run_text E e")
    case None
    with "1.prems" show ?thesis by simp
  next
    case (Some t)
    let ?out = "(if first then out else out @ [b_comma]) @ t"
    obtain n0 out0 where r: "num_run E budget False es ?out = (n0, out0)" by fastforce
    from "1.IH" [OF Some r "1.prems"(2)] obtain u where u: "n0 \<le> length es" "out0 = ?out @ u"
      "printed_elems E cfg True es inner = cat (Inr u) (printed_elems E cfg True (drop n0 es) inner)" by auto
    have "n = Suc n0" "out' = out0" using "1.prems"(1) Some r by simp_all
    with u run_text_printed [OF Some, of cfg inner] "1.prems"(2) show ?thesis
      by (auto simp: compact_texts cat_Inr compact_def
          intro!: exI [of _ "(if first then [] else [b_comma]) @ t @ u"])
  qed
qed auto

section \<open>The walker refines the printer\<close>

lemma last_put [simp]: "b \<noteq> [] \<Longrightarrow> last (gn_out (put b s)) = last b"
  by (simp add: put_def)

text \<open>Before the pairs of a compact object the buffer ends in the brace, after one it does not.\<close>

definition at_pair :: "bool \<Rightarrow> bool \<Rightarrow> gen_state \<Rightarrow> bool" where
  "at_pair pty first s \<longleftrightarrow> pty \<or> gn_out s \<noteq> [] \<and> (first \<longleftrightarrow> last (gn_out s) = b_lbrace)"

lemma elem_arm:
  "(case v of OFlonum f \<Rightarrow> emit_float E cfg f s | OHeapFloat f \<Rightarrow> emit_float E cfg f s
    | _ \<Rightarrow> emit_value E cfg pty v inner s) = emit_value E cfg pty v inner s"
  by (cases v) simp_all

lemma pair_arm:
  "(case v of OStr str \<Rightarrow> emit_rstring_quoted E cfg str s | ONilV \<Rightarrow> Inr (put (asc ''null'') s)
    | OTrueV \<Rightarrow> Inr (put (asc ''true'') s) | OFalseV \<Rightarrow> Inr (put (asc ''false'') s)
    | OFlonum f \<Rightarrow> emit_float E cfg f s | _ \<Rightarrow> emit_value E cfg pty v inner s) = emit_value E cfg pty v inner s"
  by (cases v) simp_all

lemma fallback_refines: "ready R s \<Longrightarrow> refines R (emit_fallback_plain E cfg info s) s (fallback_text E cfg info)"
  by (auto simp: emit_fallback_plain_def fallback_text_def splice_to_json_def spliced_def
      emit_rstring_quoted_def intro!: refines_ask refines_put refines_text refines_fail split: option.split)

lemma splice_refines: "ready R s \<Longrightarrow> refines R (splice_to_json info s) s (spliced info)"
  by (auto simp: splice_to_json_def spliced_def intro!: refines_ask refines_put refines_fail split: option.split)

lemma weight_parts:
  "weight (OArr vs) = Suc (elems_weight vs)" "weight (OHsh hi kvs) = Suc (pairs_weight kvs)"
  "elems_weight (v # vs) = Suc (weight v + elems_weight vs)"
  "pairs_weight ((k, v) # kvs) = Suc (weight v + pairs_weight kvs)"
  by (simp_all add: elems_weight_def pairs_weight_def)

lemma elems_lighter: "0 < k \<Longrightarrow> elems_weight (drop k (v # vs)) < elems_weight (v # vs)"
  using elems_weight_drop [of "k - 1" vs] by (cases k) (simp_all add: weight_parts)

text \<open>One element or run of an array, and one pair of an object, given the rest.\<close>

lemma elems_step:
  assumes fmt: "pty \<or> compact cfg" and good: "ready rendering s"
    and val: "\<And>s. ready rendering s \<Longrightarrow>
      refines rendering (emit_value E cfg pty v inner s) s (printed E cfg v inner)"
    and rest: "\<And>k s. 0 < k \<Longrightarrow> ready rendering s \<Longrightarrow>
      refines rendering (emit_elems E cfg pty True (drop k (v # vs)) inner s) s
        (printed_elems E cfg True (drop k (v # vs)) inner)"
  shows "refines rendering (emit_elems E cfg pty later (v # vs) inner s) s
    (printed_elems E cfg later (v # vs) inner)"
proof -
  define pre where "pre = (if later then [b_comma] else []) @ array_nl cfg @ indents cfg inner"
  define t where "t = (if pty then put (array_nl cfg @ indents cfg inner) (if later then put [b_comma] s else s)
    else (if later then put [b_comma] s else s))"
  have t: "t = put pre s"
    using fmt by (auto simp: t_def pre_def compact_texts compact_def)
  obtain n out where run: "(if \<not> pty \<and> is_number v
      then num_run E (min (length (v # vs)) RUN_CHUNK) True (v # vs) (gn_out t) else (0, gn_out t)) = (n, out)"
    by fastforce
  have good_t: "ready rendering t" using good by (simp add: t)
  have walk: "emit_elems E cfg pty later (v # vs) inner s =
    (if 0 < n then emit_elems E cfg pty True (drop n (v # vs)) inner (t\<lparr>gn_out := out\<rparr>)
     else tryr (emit_value E cfg pty v inner t) (\<lambda>s. emit_elems E cfg pty True vs inner s))"
    unfolding emit_elems.simps(2) elem_arm Let_def t_def [symmetric] run by simp
  have print: "printed_elems E cfg later (v # vs) inner =
      cat (Inr pre) (cat (printed E cfg v inner) (printed_elems E cfg True vs inner))"
    by (simp add: pre_def)
  show ?thesis
  proof (cases "0 < n")
    case False
    have "refines rendering (tryr (emit_value E cfg pty v inner t) (\<lambda>s. emit_elems E cfg pty True vs inner s)) t
        (cat (printed E cfg v inner) (printed_elems E cfg True vs inner))"
      using rest [of 1] by (intro refines_cat [OF val [OF good_t]]) simp
    with False show ?thesis unfolding walk print t by (simp add: refines_after_put)
  next
    case True
    with run have c: "compact cfg" and r: "num_run E (min (length (v # vs)) RUN_CHUNK) True (v # vs) (gn_out t) = (n, out)"
      using fmt by (auto split: if_splits)
    from num_run_printed [OF r c, of inner] True obtain u where u: "out = gn_out t @ u"
      "printed_elems E cfg False (v # vs) inner = cat (Inr u) (printed_elems E cfg True (drop n (v # vs)) inner)"
      by auto
    have pe: "cat (printed E cfg v inner) (printed_elems E cfg True vs inner) =
        cat (Inr u) (printed_elems E cfg True (drop n (v # vs)) inner)"
      using u(2) c by (simp add: compact_texts) (simp add: compact_def)
    have out: "t\<lparr>gn_out := out\<rparr> = put u t" using u(1) by (simp add: put_def)
    have "refines rendering (emit_elems E cfg pty True (drop n (v # vs)) inner (put u t)) t
        (cat (Inr u) (printed_elems E cfg True (drop n (v # vs)) inner))"
      by (rule refines_after_put, rule rest [OF True]) (use good_t in simp)
    with True show ?thesis unfolding walk print pe out unfolding t by (simp add: refines_after_put)
  qed
qed

lemma pairs_step:
  assumes fmt: "pty \<or> compact cfg" and ok: "emitter_ok E" "walkable E cfg rendering v"
    and known: "key_known E cfg rendering k"
    and good: "ready rendering s" and at: "at_pair pty first s"
    and val: "\<And>s. ready rendering s \<Longrightarrow>
      refines rendering (emit_value E cfg pty v inner s) s (printed E cfg v inner)"
    and rest: "\<And>m s. ready rendering s \<Longrightarrow> at_pair pty False s \<Longrightarrow>
      refines rendering (emit_pairs E cfg pty hi ks m False kvs inner s) s
        (printed_pairs E cfg hi ks m False kvs inner)"
  shows "refines rendering (emit_pairs E cfg pty hi ks m first ((k, v) # kvs) inner s) s
    (printed_pairs E cfg hi ks m first ((k, v) # kvs) inner)"
proof -
  obtain check m' where nc: "needs_check (kind_of_key k) m = (check, m')" by fastforce
  let ?pre = "(if first then [] else [b_comma]) @ object_nl cfg @ indents cfg inner"
  let ?colon = "space_before cfg @ [b_colon] @ space cfg"
  let ?pair = "cat (Inr ?pre) (cat (key_text E cfg k) (cat (Inr ?colon) (printed E cfg v inner)))"
  have pair: "refines rendering
     (if pty
      then tryr (emit_key E cfg k (put ?pre s)) (\<lambda>s. emit_value E cfg pty v inner (put ?colon s))
      else let comma = (last (gn_out s) \<noteq> b_lbrace)
           in case v of OFix i \<Rightarrow> emit_pair_int_compact E cfg k comma i s
              | _ \<Rightarrow> tryr (emit_pair_prefix_compact E cfg k comma s) (emit_value E cfg pty v inner)) s ?pair"
  proof (cases pty)
    case True
    have "refines rendering (tryr (emit_key E cfg k (put ?pre s)) (\<lambda>s. emit_value E cfg pty v inner (put ?colon s)))
        (put ?pre s) (cat (key_text E cfg k) (cat (Inr ?colon) (printed E cfg v inner)))"
      by (intro refines_cat emit_key_refines known refines_after_put val) (use good in auto)
    with True show ?thesis by (simp add: refines_after_put)
  next
    case False
    with fmt have c: "compact cfg" by simp
    have comma: "(last (gn_out s) \<noteq> b_lbrace) = (\<not> first)" using at False by (simp add: at_pair_def)
    have colon: "?colon = [b_colon]" "?pre = (if \<not> first then [b_comma] else [])"
      using c by (auto simp: compact_def compact_texts)
    have "refines rendering (tryr (emit_pair_prefix_compact E cfg k (\<not> first) s) (emit_value E cfg pty v inner)) s
        (cat (cat (Inr ?pre) (cat (key_text E cfg k) (Inr ?colon))) (printed E cfg v inner))"
      unfolding colon by (intro refines_cat pair_prefix_refines good known val)
    moreover have "refines rendering (emit_pair_int_compact E cfg k (\<not> first) i s) s ?pair" if "v = OFix i" for i
      using pair_int_refines [OF good known, of "\<not> first" i] that by (simp only: colon) (simp add: scalar_text_def)
    ultimately show ?thesis
      using False by (cases v) (simp_all only: comma Let_def cat_assoc if_False robj.case)
  qed
  have closed: "at_pair pty False s'" if p: "?pair = Inr b" and s': "gn_out s' = gn_out s @ b" for s' b
  proof (cases pty)
    case False
    with fmt have colon: "?colon = [b_colon]" by (simp add: compact_def)
    from p obtain c where "printed E cfg v inner = Inr c" "\<exists>a. b = a @ [b_colon] @ c"
      unfolding colon by (auto simp: cat_Inr_iff)
    with printed_closed [OF _ ok] s' show ?thesis by (fastforce simp: at_pair_def closed_text_def)
  qed (simp add: at_pair_def)
  have walk: "emit_pairs E cfg pty hi ks m first ((k, v) # kvs) inner s =
     ask s (if check then check_duplicate_keys E hi ks else Inr ()) (\<lambda>_.
     tryr (if pty
      then tryr (emit_key E cfg k (put ?pre s)) (\<lambda>s. emit_value E cfg pty v inner (put ?colon s))
      else let comma = (last (gn_out s) \<noteq> b_lbrace)
           in case v of OFix i \<Rightarrow> emit_pair_int_compact E cfg k comma i s
              | _ \<Rightarrow> tryr (emit_pair_prefix_compact E cfg k comma s) (emit_value E cfg pty v inner))
      (emit_pairs E cfg pty hi ks m' False kvs inner))"
    unfolding emit_pairs.simps(2) pair_arm nc prod.case Let_def by (cases first) simp_all
  have print: "printed_pairs E cfg hi ks m first ((k, v) # kvs) inner =
     tryr (if check then check_duplicate_keys E hi ks else Inr ()) (\<lambda>_. cat ?pair (printed_pairs E cfg hi ks m' False kvs inner))"
    by (simp add: nc cat_assoc)
  show ?thesis
    unfolding walk print by (intro refines_guard [OF good] refines_cat [OF pair] rest closed)
qed

lemma walker_refines_below:
  assumes fmt: "pty \<or> compact cfg" and ok: "emitter_ok E"
  shows
  "weight v < n \<Longrightarrow> walkable E cfg rendering v \<Longrightarrow> ready rendering s \<Longrightarrow>
     refines rendering (emit_value E cfg pty v depth s) s (printed E cfg v depth)"
  "elems_weight vs < n \<Longrightarrow> \<forall>v \<in> set vs. walkable E cfg rendering v \<Longrightarrow> ready rendering s \<Longrightarrow>
     refines rendering (emit_elems E cfg pty later vs inner s) s (printed_elems E cfg later vs inner)"
  "pairs_weight kvs < n \<Longrightarrow> \<forall>kv \<in> set kvs. key_known E cfg rendering (fst kv) \<and> walkable E cfg rendering (snd kv) \<Longrightarrow>
     ready rendering s \<Longrightarrow> at_pair pty first s \<Longrightarrow>
     refines rendering (emit_pairs E cfg pty hi ks m first kvs inner s) s
       (printed_pairs E cfg hi ks m first kvs inner)"
proof (induction n arbitrary: v depth s vs later inner kvs m first ks hi)
  case (Suc n)
  note IH = Suc.IH
  {
    case 1
    show ?case
    proof (cases v)
      case (OArr vs)
      let ?closing = "if array_nl cfg \<noteq> [] then array_nl cfg @ indents cfg depth else []"
      have fin: "(if pty \<and> array_nl cfg \<noteq> [] then put (array_nl cfg @ indents cfg depth) t else t) = put ?closing t" for t
        using fmt by (auto simp: compact_def)
      have "refines rendering
          (tryr (emit_elems E cfg pty False vs (depth + 1) (put [b_lbracket] s)) (\<lambda>t. Inr (put [b_rbracket] (put ?closing t))))
          (put [b_lbracket] s) (cat (printed_elems E cfg False vs (depth + 1)) (Inr (?closing @ [b_rbracket])))"
        by (rule refines_cat [OF IH(2)]) (use 1 OArr in \<open>auto simp: elems_weight_def intro: refines_put\<close>)
      with 1 show ?thesis
        by (auto simp: OArr fin Let_def intro!: refines_guard refines_after_put intro: refines_put)
    next
      case (OHsh hi kvs)
      let ?closing = "if object_nl cfg \<noteq> [] then object_nl cfg @ indents cfg depth else []"
      let ?m = "mixed_keys_new (gc_allow_duplicate_key cfg)"
      have fin: "(if pty \<and> object_nl cfg \<noteq> [] then put (object_nl cfg @ indents cfg depth) t else t) = put ?closing t" for t
        using fmt by (auto simp: compact_def)
      have pairs: "refines rendering (emit_pairs E cfg pty hi (map fst kvs) ?m True kvs (depth + 1) (put [b_lbrace] s))
          (put [b_lbrace] s) (printed_pairs E cfg hi (map fst kvs) ?m True kvs (depth + 1))"
        by (rule IH(3)) (use 1 OHsh in \<open>auto simp: pairs_weight_def at_pair_def\<close>)
      have "refines rendering
          (tryr (emit_pairs E cfg pty hi (map fst kvs) ?m True kvs (depth + 1) (put [b_lbrace] s))
            (\<lambda>t. Inr (put [b_rbrace] (put ?closing t))))
          (put [b_lbrace] s) (cat (printed_pairs E cfg hi (map fst kvs) ?m True kvs (depth + 1)) (Inr (?closing @ [b_rbrace])))"
        by (rule refines_cat [OF pairs]) (auto intro: refines_put)
      with 1 show ?thesis
        unfolding OHsh emit_value.simps fin Let_def
          refines_after [OF pairs, of "\<lambda>t. Inr (put [b_rbrace] (put ?closing t))"]
        by (auto intro!: refines_guard refines_after_put intro: refines_put)
    next
      case (OOther info asj)
      have "refines rendering (emit_value E cfg pty v' depth s) s (printed E cfg v' depth)"
        if "asj = AsValue v'" for v'
        by (rule IH(1)) (use 1 OOther that in auto)
      with 1 OOther show ?thesis
        by (cases asj) (auto simp: emit_rails_fallback_def intro!: refines_ask
          intro: splice_refines fallback_refines refines_fail)
    qed (use 1 in \<open>auto intro!: scalar_refines\<close>)
  next
    case 2
    show ?case
    proof (cases vs)
      case (Cons v vs')
      have part: "elems_weight (drop k (v # vs')) < n" if "0 < k" for k
        using elems_lighter [OF that, of v vs'] 2 Cons by simp
      have walk: "\<forall>x \<in> set (drop k (v # vs')). walkable E cfg rendering x" for k
        using 2(2) Cons by (blast dest: in_set_dropD)
      have v: "weight v < n" "walkable E cfg rendering v" using 2 Cons by (simp_all add: weight_parts)
      show ?thesis
        unfolding Cons
        by (rule elems_step [OF fmt 2(3)]) (use IH(1) [OF v] IH(2) [OF part walk] in blast)+
    qed (use 2 in \<open>simp add: refines_def\<close>)
  next
    case 3
    show ?case
    proof (cases kvs)
      case (Cons kv kvs')
      obtain k v where kv: "kv = (k, v)" by fastforce
      show ?thesis
        unfolding Cons kv
        by (rule pairs_step [OF fmt ok]; (rule IH)?) (use 3 Cons kv in \<open>auto simp: weight_parts\<close>)
    qed (use 3 in \<open>simp add: refines_def\<close>)
  }
qed simp_all

end
