(* ===== verification/Pooled.thy ===== *)
theory Pooled
  imports Nosj_Prelude
begin

text \<open>
  The pooled per-thread state of src/ext/nosj/src/state.rs: values taken out of a thread-local
  cell for a call and stored back afterwards (\<open>with_taken\<close>, \<open>with_pull_state\<close>), which
  nested calls and calls lost to a longjmp share; and the shadows of VALUEs the GC marks
  (\<open>VStackShadow\<close>, \<open>ShadowHandle\<close>, \<open>ensure_marked_shadow\<close>).  A call is modelled with the calls nested
  in it as a tree, and the locale \<open>pooled\<close> carries an invariant of the pooled value over
  every tree of calls.
\<close>

section \<open>Cells\<close>

text \<open>
  \<open>f\<close> gets the value taken out and what the cell holds meanwhile, which is the default; it
  gives its result, the value, and what the cell holds when it is done (the calls nested in it
  use the cell too).  The call stores the value over that.
\<close>

definition with_taken :: "'t \<Rightarrow> ('t \<Rightarrow> 't \<Rightarrow> 'r \<times> 't \<times> 't) \<Rightarrow> 't \<Rightarrow> 'r \<times> 't" where
  "with_taken dflt f cell = (case f cell dflt of (result, value, _) \<Rightarrow> (result, value))"

text \<open>A longjmp out of \<open>f\<close> skips the frame: the value is leaked and the cell stays as it is.\<close>

definition with_taken_jump :: "'t \<Rightarrow> ('t \<Rightarrow> 't \<Rightarrow> 't \<times> 't) \<Rightarrow> 't \<Rightarrow> 't" where
  "with_taken_jump dflt f cell = (case f cell dflt of (value, cell') \<Rightarrow> cell')"

definition with_pull_state :: "'t \<Rightarrow> ('t \<Rightarrow> 'r \<times> 't) \<Rightarrow> 't option \<Rightarrow> 'r \<times> 't option" where
  "with_pull_state fresh f cell =
     (let state = (case cell of Some state \<Rightarrow> state | None \<Rightarrow> fresh);
          (result, state) = f state
      in (result, Some state))"

text \<open>Taking the parse state is \<open>with_taken\<close> of an optional state.\<close>

lemma with_pull_state_taken:
  "with_pull_state fresh f cell =
     with_taken None (\<lambda>slot c. case f (case slot of Some state \<Rightarrow> state | None \<Rightarrow> fresh) of
       (result, state) \<Rightarrow> (result, Some state, c)) cell"
  by (simp add: with_pull_state_def with_taken_def Let_def split: prod.split)

section \<open>Nested calls\<close>

text \<open>
  A call: the operations its own body does on the value and the calls made meanwhile, in
  order, and whether it returns.
\<close>

datatype 'a call = Call "'a step list" bool
  and 'a step = Own 'a | Nested "'a call"

fun run_call :: "'t \<Rightarrow> ('a \<Rightarrow> 't \<Rightarrow> 't) \<Rightarrow> 'a call \<Rightarrow> 't \<Rightarrow> 't"
  and run_steps :: "'t \<Rightarrow> ('a \<Rightarrow> 't \<Rightarrow> 't) \<Rightarrow> 'a step list \<Rightarrow> 't \<Rightarrow> 't \<Rightarrow> 't \<times> 't" where
  "run_call d act (Call steps returns) cell =
     (if returns then snd (with_taken d (\<lambda>value c. ((), run_steps d act steps value c)) cell)
      else with_taken_jump d (run_steps d act steps) cell)"
| "run_steps d act [] value cell = (value, cell)"
| "run_steps d act (Own a # steps) value cell = run_steps d act steps (act a value) cell"
| "run_steps d act (Nested call # steps) value cell = run_steps d act steps value (run_call d act call cell)"

fun own_ops :: "'a step list \<Rightarrow> 'a list" where
  "own_ops [] = []"
| "own_ops (Own a # steps) = a # own_ops steps"
| "own_ops (Nested call # steps) = own_ops steps"

fun nested_calls :: "'a step list \<Rightarrow> 'a call list" where
  "nested_calls [] = []"
| "nested_calls (Own a # steps) = nested_calls steps"
| "nested_calls (Nested call # steps) = call # nested_calls steps"

lemma run_steps_parts:
  "run_steps d act steps v cell = (fold act (own_ops steps) v, fold (run_call d act) (nested_calls steps) cell)"
proof (induction steps arbitrary: v cell)
  case (Cons step steps)
  then show ?case by (cases step) simp_all
qed simp

text \<open>The outermost call's value is the one stored back; a lost call leaves what nested ones left.\<close>

lemma call_returns: "run_call d act (Call steps True) cell = fold act (own_ops steps) cell"
  by (simp add: with_taken_def run_steps_parts)

lemma call_lost: "run_call d act (Call steps False) cell = fold (run_call d act) (nested_calls steps) d"
  by (simp add: with_taken_jump_def run_steps_parts)

text \<open>The operations a call makes on any value, its nested calls included.\<close>

fun all_ops :: "'a call \<Rightarrow> 'a list"
  and all_step_ops :: "'a step list \<Rightarrow> 'a list" where
  "all_ops (Call steps returns) = all_step_ops steps"
| "all_step_ops [] = []"
| "all_step_ops (Own a # steps) = a # all_step_ops steps"
| "all_step_ops (Nested call # steps) = all_ops call @ all_step_ops steps"

text \<open>An invariant of a pooled value: the default has it, and every operation keeps it.\<close>

locale pooled =
  fixes dflt :: 't and act :: "'a \<Rightarrow> 't \<Rightarrow> 't" and good :: "'t \<Rightarrow> bool" and allowed :: "'a \<Rightarrow> bool"
  assumes good_dflt: "good dflt"
    and good_act: "allowed a \<Longrightarrow> good value \<Longrightarrow> good (act a value)"
begin

lemma run_good:
  "\<forall>a \<in> set (all_ops call). allowed a \<Longrightarrow> good cell \<Longrightarrow> good (run_call dflt act call cell)"
  "\<forall>a \<in> set (all_step_ops steps). allowed a \<Longrightarrow> good v \<Longrightarrow> good cell \<Longrightarrow>
     good (fst (run_steps dflt act steps v cell)) \<and> good (snd (run_steps dflt act steps v cell))"
proof (induction call and steps arbitrary: cell and v cell rule: all_ops_all_step_ops.induct)
  case (1 steps returns)
  then show ?case
    by (auto simp: with_taken_def with_taken_jump_def good_dflt split: prod.split)
      (metis fst_conv good_dflt, metis good_dflt snd_conv)
qed (simp_all add: good_act)

text \<open>What a thread's cell holds after any history of calls from its start.\<close>

lemma history_good:
  "\<forall>call \<in> set calls. \<forall>a \<in> set (all_ops call). allowed a \<Longrightarrow> good cell \<Longrightarrow> good (fold (run_call dflt act) calls cell)"
  by (induction calls arbitrary: cell) (simp_all add: run_good)

end

section \<open>Shadows\<close>

text \<open>
  The shadows ever created, leaked for the life of the process, and the handles registered with
  the GC, each over one of them.
\<close>

record 'v shadows =
  sd_values :: "'v list list"
  sd_handles :: "nat list"

definition ensure_marked_shadow :: "nat option \<Rightarrow> 'v shadows \<Rightarrow> nat \<times> 'v shadows" where
  "ensure_marked_shadow slot w =
     (case slot of
        Some i \<Rightarrow> (i, w)
      | None \<Rightarrow>
          let i = length (sd_values w)
          in (i, w\<lparr>sd_values := sd_values w @ [[]], sd_handles := sd_handles w @ [i]\<rparr>))"

definition shadow_push :: "nat \<Rightarrow> 'v \<Rightarrow> 'v shadows \<Rightarrow> 'v shadows" where
  "shadow_push i v w = w\<lparr>sd_values := (sd_values w)[i := sd_values w ! i @ [v]]\<rparr>"

text \<open>\<open>ShadowHandle::mark\<close> over every registered handle: what a GC keeps alive for the shadows.\<close>

definition gc_marks :: "'v shadows \<Rightarrow> 'v list" where
  "gc_marks w = concat (map (\<lambda>i. sd_values w ! i) (sd_handles w))"

text \<open>A slot that is set names a shadow with a handle.\<close>

definition slot_ok :: "nat option \<Rightarrow> 'v shadows \<Rightarrow> bool" where
  "slot_ok slot w \<longleftrightarrow>
     (\<forall>i. slot = Some i \<longrightarrow> i < length (sd_values w) \<and> i \<in> set (sd_handles w)) \<and>
     (\<forall>i \<in> set (sd_handles w). i < length (sd_values w))"

lemma ensure_slot:
  assumes "slot_ok slot w" and "ensure_marked_shadow slot w = (i, w')"
  shows "slot_ok (Some i) w'" and "set (gc_marks w') = set (gc_marks w)"
    and "slot_ok other w \<Longrightarrow> slot_ok other w'"
  using assms
  by (fastforce simp: ensure_marked_shadow_def slot_ok_def gc_marks_def Let_def nth_append split: option.splits)+

lemma push_marked:
  assumes "slot_ok (Some i) w"
  shows "v \<in> set (gc_marks (shadow_push i v w))" and "set (gc_marks w) \<subseteq> set (gc_marks (shadow_push i v w))"
  using assms by (auto simp: slot_ok_def gc_marks_def shadow_push_def nth_list_update)

end
