(* ===== verification/Gen_Entries.thy ===== *)
theory Gen_Entries
  imports Gen_Printer Pooled
begin

text \<open>
  The entries of src/ext/nosj/src/gen/mod.rs: the pooled scratch, the choice of the key cache,
  and \<open>generate\<close>, the Rails encoder's entry, \<open>emit_into\<close> and JSON Lines generation.  An entry
  gives its result and the thread-local cell it leaves, whether it succeeds or fails.  The
  lemmas give each entry's result by the reference printer.
\<close>

section \<open>The scratch\<close>

record gen_scratch =
  sc_buf :: bytes
  sc_keys :: gen_key_cache
  sc_html_keys :: gen_key_cache

definition scratch_fresh :: gen_scratch where
  "scratch_fresh = \<lparr>sc_buf = [], sc_keys = kc_empty, sc_html_keys = kc_empty\<rparr>"

definition with_scratch ::
  "gen_scratch option \<Rightarrow> (gen_scratch \<Rightarrow> 'r \<times> gen_scratch) \<Rightarrow> 'r \<times> gen_scratch option" where
  "with_scratch cell f =
     with_taken None (\<lambda>slot c.
       case f (case slot of Some sc \<Rightarrow> sc | None \<Rightarrow> scratch_fresh) of (r, sc) \<Rightarrow> (r, Some sc, c)) cell"

lemma with_scratch_run:
  "with_scratch cell f = apsnd Some (f (case cell of Some sc \<Rightarrow> sc | None \<Rightarrow> scratch_fresh))"
  by (simp add: with_scratch_def with_taken_def split: prod.split)

section \<open>The entries\<close>

text \<open>The result, the buffer and the cache; the walk's own record of its failure decides.\<close>

definition emit_one ::
  "emitter \<Rightarrow> gen_config \<Rightarrow> robj \<Rightarrow> bytes \<Rightarrow> gen_key_cache \<Rightarrow> (ruby_error + unit) \<times> bytes \<times> gen_key_cache" where
  "emit_one E cfg obj out keys =
     (let result = emit_value E cfg (pretty cfg) obj (start_depth cfg) \<lparr>gn_out = out, gn_keys = keys, gn_fail = None\<rparr>;
          g = walk_state result
      in (case gn_fail g of
            Some f \<Rightarrow> Inl (raise_fail f)
          | None \<Rightarrow> if is_ok result then Inr ()
                     else Inl (RuntimeError (msg ''generation failed without error detail'')),
          gn_out g, gn_keys g))"

text \<open>\<open>finish\<close> is what is done with the finished bytes: its outcome, errors included.\<close>

definition generate_with ::
  "emitter \<Rightarrow> gen_config \<Rightarrow> robj \<Rightarrow> bytes \<Rightarrow> gen_key_cache \<Rightarrow> (bytes \<Rightarrow> 'r) \<Rightarrow>
     (ruby_error + 'r) \<times> bytes \<times> gen_key_cache" where
  "generate_with E cfg obj out keys finish =
     (let out = [];
          (result, out, keys) = emit_one E cfg obj out keys
      in (map_ok (\<lambda>_. finish out) result, out, keys))"

definition generate_scratched_into ::
  "emitter \<Rightarrow> gen_config \<Rightarrow> robj \<Rightarrow> (bytes \<Rightarrow> 'r) \<Rightarrow> gen_scratch option \<Rightarrow>
     (ruby_error + 'r) \<times> gen_scratch option" where
  "generate_scratched_into E cfg obj finish cell =
     with_scratch cell (\<lambda>sc.
       let keys = (if mode cfg = HtmlSafe then sc_html_keys sc else sc_keys sc);
           (result, out, keys) = generate_with E cfg obj (sc_buf sc) keys finish
       in (result, if mode cfg = HtmlSafe then sc\<lparr>sc_buf := out, sc_html_keys := keys\<rparr>
                   else sc\<lparr>sc_buf := out, sc_keys := keys\<rparr>))"

text \<open>The default finisher: a new String of the bytes.\<close>

definition finish_rstring :: "bytes \<Rightarrow> bytes" where
  "finish_rstring out = out"

definition generate_scratched ::
  "emitter \<Rightarrow> gen_config \<Rightarrow> robj \<Rightarrow> gen_scratch option \<Rightarrow> (ruby_error + bytes) \<times> gen_scratch option" where
  "generate_scratched E cfg obj cell = generate_scratched_into E cfg obj finish_rstring cell"

definition generate_bytes_into ::
  "emitter \<Rightarrow> robj \<Rightarrow> options_arg \<Rightarrow> (bytes \<Rightarrow> 'r) \<Rightarrow> gen_scratch option \<Rightarrow>
     (ruby_error + 'r) \<times> gen_scratch option" where
  "generate_bytes_into E obj opts finish cell =
     (if opts = ONil then generate_scratched_into E DEFAULT_CONFIG obj finish cell
      else case parse_gen_opts opts of
             Inl e \<Rightarrow> (Inl e, cell)
           | Inr (cfg, cap_hint) \<Rightarrow> generate_scratched_into E cfg obj finish cell)"

definition generate_native ::
  "emitter \<Rightarrow> robj \<Rightarrow> options_arg \<Rightarrow> gen_scratch option \<Rightarrow> (ruby_error + bytes) \<times> gen_scratch option" where
  "generate_native E obj opts cell =
     (if opts = ONil then generate_scratched E DEFAULT_CONFIG obj cell
      else case parse_gen_opts opts of
             Inl e \<Rightarrow> (Inl e, cell)
           | Inr (cfg, cap_hint) \<Rightarrow> generate_scratched E cfg obj cell)"

text \<open>The variadic entry: one or two arguments, or how many there were.\<close>

datatype gen_args = OneArg robj | TwoArgs robj options_arg | OtherArgs nat

fun generate_entry :: "emitter \<Rightarrow> gen_args \<Rightarrow> gen_scratch option \<Rightarrow> (ruby_error + bytes) \<times> gen_scratch option" where
  "generate_entry E (OneArg obj) cell = generate_scratched E DEFAULT_CONFIG obj cell"
| "generate_entry E (TwoArgs obj opts) cell =
     (if opts = ONil then generate_scratched E DEFAULT_CONFIG obj cell
      else case parse_gen_opts opts of
             Inl e \<Rightarrow> (Inl e, cell)
           | Inr (cfg, cap_hint) \<Rightarrow> generate_scratched E cfg obj cell)"
| "generate_entry E (OtherArgs n) cell =
     (Inl (ArgumentError (Fmt ''wrong number of arguments (given {}, expected 1..2)'' [ANat n])), cell)"

definition generate_rails_native ::
  "emitter \<Rightarrow> robj \<Rightarrow> bool \<Rightarrow> bool \<Rightarrow> gen_scratch option \<Rightarrow> (ruby_error + bytes) \<times> gen_scratch option" where
  "generate_rails_native E obj escape_html escape_js cell =
     (let cfg = (case (escape_html, escape_js) of
          (True, True) \<Rightarrow> RAILS_HTML_SAFE_CONFIG
        | (True, False) \<Rightarrow> RAILS_HTML_ENTITIES_CONFIG
        | (False, True) \<Rightarrow> RAILS_JS_SEPARATORS_CONFIG
        | (False, False) \<Rightarrow> RAILS_CONFIG)
      in generate_scratched E cfg obj cell)"

text \<open>Appends to the caller's buffer, under the plain cache.\<close>

definition emit_into ::
  "emitter \<Rightarrow> gen_config \<Rightarrow> robj \<Rightarrow> bytes \<Rightarrow> gen_scratch option \<Rightarrow> (ruby_error + bytes) \<times> gen_scratch option" where
  "emit_into E cfg obj out cell =
     with_scratch cell (\<lambda>sc.
       let (result, out, keys) = emit_one E cfg obj out (sc_keys sc)
       in (map_ok (\<lambda>_. out) result, sc\<lparr>sc_keys := keys\<rparr>))"

definition breaks_line_framing :: "gen_config \<Rightarrow> bool" where
  "breaks_line_framing cfg =
     list_ex (\<lambda>v. list_ex (\<lambda>b. b = b_nl \<or> b = b_cr) v)
       [indent cfg, space cfg, space_before cfg, object_nl cfg, array_nl cfg]"

fun lines_loop ::
  "emitter \<Rightarrow> gen_config \<Rightarrow> robj list \<Rightarrow> bytes \<Rightarrow> gen_key_cache \<Rightarrow> (ruby_error + unit) \<times> bytes \<times> gen_key_cache" where
  "lines_loop E cfg [] out keys = (Inr (), out, keys)"
| "lines_loop E cfg (obj # objs) out keys =
     (case emit_one E cfg obj out keys of
        (Inl e, out, keys) \<Rightarrow> (Inl e, out, keys)
      | (Inr _, out, keys) \<Rightarrow> lines_loop E cfg objs (out @ [b_nl]) keys)"

definition generate_lines_with ::
  "emitter \<Rightarrow> gen_config \<Rightarrow> robj list \<Rightarrow> bytes \<Rightarrow> gen_key_cache \<Rightarrow> (bytes \<Rightarrow> 'r) \<Rightarrow>
     (ruby_error + 'r) \<times> bytes \<times> gen_key_cache" where
  "generate_lines_with E cfg objs out keys finish =
     (let out = [];
          (result, out, keys) = lines_loop E cfg objs out keys
      in (map_ok (\<lambda>_. finish out) result, out, keys))"

definition generate_lines_bytes_into ::
  "emitter \<Rightarrow> robj list \<Rightarrow> options_arg \<Rightarrow> (bytes \<Rightarrow> 'r) \<Rightarrow> gen_scratch option \<Rightarrow>
     (ruby_error + 'r) \<times> gen_scratch option" where
  "generate_lines_bytes_into E objs opts finish cell =
     (case (if opts = ONil then Inr (DEFAULT_CONFIG, 0) else parse_gen_opts opts) of
        Inl e \<Rightarrow> (Inl e, cell)
      | Inr (cfg, cap_hint) \<Rightarrow>
          if breaks_line_framing cfg
          then (Inl (ArgumentError (msg ''formatting options containing newlines would break JSON Lines framing'')), cell)
          else with_scratch cell (\<lambda>sc.
            let (result, out, keys) = generate_lines_with E cfg objs (sc_buf sc) (sc_keys sc) finish
            in (result, sc\<lparr>sc_buf := out, sc_keys := keys\<rparr>)))"

definition generate_lines_native ::
  "emitter \<Rightarrow> robj list \<Rightarrow> options_arg \<Rightarrow> gen_scratch option \<Rightarrow> (ruby_error + bytes) \<times> gen_scratch option" where
  "generate_lines_native E objs opts cell = generate_lines_bytes_into E objs opts finish_rstring cell"

section \<open>Configurations\<close>

text \<open>What every configuration the entries use has.\<close>

definition config_ok :: "gen_config \<Rightarrow> bool" where
  "config_ok cfg \<longleftrightarrow> (pretty cfg \<longleftrightarrow> \<not> compact cfg) \<and> (mode cfg = HtmlSafe \<longrightarrow> rails cfg)"

lemma fixed_configs_ok [simp]:
  "config_ok DEFAULT_CONFIG" "config_ok RAILS_HTML_SAFE_CONFIG" "config_ok RAILS_HTML_ENTITIES_CONFIG"
  "config_ok RAILS_JS_SEPARATORS_CONFIG" "config_ok RAILS_CONFIG" "rails DEFAULT_CONFIG = False"
  by (simp_all add: config_ok_def compact_def DEFAULT_CONFIG_def RAILS_HTML_SAFE_CONFIG_def
      RAILS_HTML_ENTITIES_CONFIG_def RAILS_JS_SEPARATORS_CONFIG_def RAILS_CONFIG_def gen_defaults_def)

lemma read_gen_opts_ok:
  "read_gen_opts r = Inr ((cfg, hint), r') \<Longrightarrow> config_ok cfg \<and> \<not> rails cfg"
  by (simp add: read_gen_opts_def tryr_Inr_iff Let_def case_prod_unfold split: if_splits; clarsimp)
    (auto simp: config_ok_def compact_def split: if_splits)

lemma parse_gen_opts_ok:
  "parse_gen_opts opts = Inr (cfg, hint) \<Longrightarrow> config_ok cfg \<and> \<not> rails cfg"
  by (cases opts) (auto simp: tryr_Inr_iff dest: read_gen_opts_ok)

section \<open>The entries by the printer\<close>

text \<open>
  The live frozen strings by VALUE, and the objects whose frozen keys are among them and whose
  spliced texts do not end in an opening brace (after one the compact walk omits a comma).
\<close>

fun sound_obj :: "(nat \<Rightarrow> gstr option) \<Rightarrow> robj \<Rightarrow> bool"
  and sound_as :: "(nat \<Rightarrow> gstr option) \<Rightarrow> as_json \<Rightarrow> bool" where
  "sound_obj strs (OArr vs) = (\<forall>v \<in> set vs. sound_obj strs v)"
| "sound_obj strs (OHsh hi kvs) =
     (\<forall>kv \<in> set kvs. (case fst kv of KStr s \<Rightarrow> gs_frozen s \<longrightarrow> strs (gs_id s) = Some s | _ \<Rightarrow> True)
        \<and> sound_obj strs (snd kv))"
| "sound_obj strs (OOther info asj) = (splice_ok info \<and> sound_as strs asj)"
| "sound_obj strs (OBig digits) = closed_text digits"
| "sound_obj strs _ = True"
| "sound_as strs (AsValue v) = sound_obj strs v"
| "sound_as strs _ = True"

definition heap_rendering :: "emitter \<Rightarrow> (nat \<Rightarrow> gstr option) \<Rightarrow> escape_mode \<Rightarrow> nat \<Rightarrow> bytes option" where
  "heap_rendering E strs md k =
     (case strs k of
        Some s \<Rightarrow> (case quoted E md s of Inr b \<Rightarrow> Some b | Inl _ \<Rightarrow> None)
      | None \<Rightarrow> None)"

definition cache_mode :: "gen_config \<Rightarrow> escape_mode" where
  "cache_mode cfg = (if mode cfg = HtmlSafe then HtmlSafe else Standard)"

lemma cacheable_mode: "mode_cacheable (mode cfg) \<Longrightarrow> cache_mode cfg = mode cfg"
  by (cases "mode cfg") (simp_all add: cache_mode_def)

lemma sound_walkable:
  "sound_obj strs v \<Longrightarrow> walkable E cfg (heap_rendering E strs (cache_mode cfg)) v"
  "sound_as strs asj \<Longrightarrow> walkable_as E cfg (heap_rendering E strs (cache_mode cfg)) asj"
  by (induction v and asj rule: sound_obj_sound_as.induct)
    (force simp: key_known_def heap_rendering_def cacheable_mode split: rkey.splits)+

text \<open>The scratch holds only right renderings, each cache under its own mode.\<close>

definition cell_good :: "emitter \<Rightarrow> (nat \<Rightarrow> gstr option) \<Rightarrow> gen_scratch option \<Rightarrow> bool" where
  "cell_good E strs cell \<longleftrightarrow>
     (case cell of None \<Rightarrow> True
      | Some sc \<Rightarrow> kc_good (heap_rendering E strs Standard) (sc_keys sc) \<and>
          kc_good (heap_rendering E strs HtmlSafe) (sc_html_keys sc))"

lemma cell_good_None [simp]: "cell_good E strs None"
  by (simp add: cell_good_def)

text \<open>One document: its text by the printer.\<close>

definition document_text :: "emitter \<Rightarrow> gen_config \<Rightarrow> robj \<Rightarrow> ruby_error + bytes" where
  "document_text E cfg obj = map_err raise_fail (printed E cfg obj (start_depth cfg))"

text \<open>The result of an entry is that, and the cell it leaves is good.\<close>

definition leaves :: "emitter \<Rightarrow> (nat \<Rightarrow> gstr option) \<Rightarrow> 'r \<times> gen_scratch option \<Rightarrow> 'r \<Rightarrow> bool" where
  "leaves E strs r t \<longleftrightarrow> fst r = t \<and> cell_good E strs (snd r)"

lemma emit_one_refines:
  assumes "config_ok cfg" and "emitter_ok E" and "sound_obj strs obj"
    and "kc_good (heap_rendering E strs (cache_mode cfg)) keys"
  shows "\<exists>out' keys'. emit_one E cfg obj out keys = (map_ok (\<lambda>_. ()) (document_text E cfg obj), out', keys') \<and>
    kc_good (heap_rendering E strs (cache_mode cfg)) keys' \<and>
    (\<forall>b. document_text E cfg obj = Inr b \<longrightarrow> out' = out @ b)"
proof -
  let ?R = "heap_rendering E strs (cache_mode cfg)" and ?g = "\<lparr>gn_out = out, gn_keys = keys, gn_fail = None\<rparr>"
  have "pretty cfg \<or> compact cfg" using assms(1) by (auto simp: config_ok_def)
  moreover have "ready ?R ?g" using assms(4) by (simp add: ready_def)
  ultimately have "refines ?R (emit_value E cfg (pretty cfg) obj (start_depth cfg) ?g) ?g
      (printed E cfg obj (start_depth cfg))"
    by (rule walker_refines_below(1) [OF _ assms(2) lessI sound_walkable(1) [OF assms(3)]])
  then show ?thesis
    by (cases "printed E cfg obj (start_depth cfg)")
      (auto simp: emit_one_def document_text_def refines_def ready_def)
qed

text \<open>A scratch body that keeps its caches good leaves a good cell.\<close>

lemma with_scratch_leaves:
  assumes "cell_good E strs cell"
    and "\<And>sc. kc_good (heap_rendering E strs Standard) (sc_keys sc) \<Longrightarrow>
      kc_good (heap_rendering E strs HtmlSafe) (sc_html_keys sc) \<Longrightarrow>
      fst (f sc) = t \<and> cell_good E strs (Some (snd (f sc)))"
  shows "leaves E strs (with_scratch cell f) t"
proof -
  define sc where "sc = (case cell of Some sc \<Rightarrow> sc | None \<Rightarrow> scratch_fresh)"
  have "kc_good (heap_rendering E strs Standard) (sc_keys sc)"
    "kc_good (heap_rendering E strs HtmlSafe) (sc_html_keys sc)"
    using assms(1) by (auto simp: sc_def cell_good_def scratch_fresh_def kc_good_empty split: option.splits)
  from assms(2) [OF this] show ?thesis
    by (cases "f sc") (simp add: leaves_def with_scratch_run sc_def [symmetric])
qed

lemma scratched_into_leaves:
  assumes "config_ok cfg" and "emitter_ok E" and "sound_obj strs obj" and "cell_good E strs cell"
  shows "leaves E strs (generate_scratched_into E cfg obj finish cell) (map_ok finish (document_text E cfg obj))"
  unfolding generate_scratched_into_def
proof (rule with_scratch_leaves [OF assms(4)], goal_cases)
  case (1 sc)
  then show ?case
    using emit_one_refines [OF assms(1-3), of "if mode cfg = HtmlSafe then sc_html_keys sc else sc_keys sc" "[]"]
    by (cases "document_text E cfg obj")
      (auto simp: generate_with_def cache_mode_def cell_good_def Let_def)
qed

lemma map_ok_finish [simp]: "map_ok finish_rstring t = t"
  by (cases t) (simp_all add: finish_rstring_def)

lemma scratched_leaves:
  assumes "config_ok cfg" and "emitter_ok E" and "sound_obj strs obj" and "cell_good E strs cell"
  shows "leaves E strs (generate_scratched E cfg obj cell) (document_text E cfg obj)"
  using scratched_into_leaves [OF assms, of finish_rstring] by (simp add: generate_scratched_def)

text \<open>The configuration an options argument selects.\<close>

definition config_of :: "options_arg \<Rightarrow> ruby_error + gen_config" where
  "config_of opts = map_ok fst (parse_gen_opts opts)"

lemma config_of_ok: "config_of opts = Inr cfg \<Longrightarrow> config_ok cfg \<and> \<not> rails cfg \<and> mode cfg \<noteq> HtmlSafe"
  by (cases "parse_gen_opts opts") (auto simp: config_of_def config_ok_def dest: parse_gen_opts_ok)

lemma bytes_into_by_config:
  "generate_bytes_into E obj opts finish cell =
     (case config_of opts of Inl e \<Rightarrow> (Inl e, cell) | Inr cfg \<Rightarrow> generate_scratched_into E cfg obj finish cell)"
  by (cases "opts = ONil"; cases "parse_gen_opts opts")
    (auto simp: generate_bytes_into_def config_of_def)

lemma native_bytes: "generate_native E obj opts cell = generate_bytes_into E obj opts finish_rstring cell"
  by (simp add: generate_native_def generate_bytes_into_def generate_scratched_def split: sum.split)

lemma bytes_into_leaves:
  assumes "emitter_ok E" and "sound_obj strs obj" and "cell_good E strs cell"
  shows "leaves E strs (generate_bytes_into E obj opts finish cell)
    (tryr (config_of opts) (\<lambda>cfg. map_ok finish (document_text E cfg obj)))"
  using scratched_into_leaves [OF _ assms] config_of_ok [of opts] assms(3)
  by (cases "config_of opts") (auto simp: bytes_into_by_config leaves_def)

lemma native_leaves:
  assumes "emitter_ok E" and "sound_obj strs obj" and "cell_good E strs cell"
  shows "leaves E strs (generate_native E obj opts cell)
    (tryr (config_of opts) (\<lambda>cfg. document_text E cfg obj))"
  using bytes_into_leaves [OF assms, of opts finish_rstring] by (simp add: native_bytes)

lemma entry_native:
  "generate_entry E (OneArg obj) cell = generate_native E obj ONil cell"
  "generate_entry E (TwoArgs obj opts) cell = generate_native E obj opts cell"
  by (simp_all add: generate_native_def)

lemma entry_leaves:
  assumes "emitter_ok E" and "sound_obj strs obj" and "cell_good E strs cell"
  shows "leaves E strs (generate_entry E (TwoArgs obj opts) cell)
    (tryr (config_of opts) (\<lambda>cfg. document_text E cfg obj))"
  unfolding entry_native by (rule native_leaves [OF assms])

lemma emit_into_leaves:
  assumes "config_ok cfg" and "mode cfg \<noteq> HtmlSafe" and "emitter_ok E" and "sound_obj strs obj"
    and "cell_good E strs cell"
  shows "leaves E strs (emit_into E cfg obj out cell) (map_ok ((@) out) (document_text E cfg obj))"
  unfolding emit_into_def
proof (rule with_scratch_leaves [OF assms(5)], goal_cases)
  case (1 sc)
  then show ?case
    using emit_one_refines [OF assms(1,3,4), of "sc_keys sc" out] assms(2)
    by (cases "document_text E cfg obj") (auto simp: cache_mode_def cell_good_def)
qed

end
