(* ===== verification/Gen_Results.thy ===== *)
theory Gen_Results
  imports Gen_Entries
begin

text \<open>
  What the generation entries of src/ext/nosj/src/gen/mod.rs give: the text of the reference
  printer whatever the caches hold, the exact nesting limit, JSON Lines framing, and what the
  duplicate-key check guarantees.
\<close>

section \<open>Nesting\<close>

fun obj_depth :: "gen_config \<Rightarrow> robj \<Rightarrow> nat"
  and as_depth :: "gen_config \<Rightarrow> as_json \<Rightarrow> nat" where
  "obj_depth cfg (OArr vs) = Suc (foldr (\<lambda>v. max (obj_depth cfg v)) vs 0)"
| "obj_depth cfg (OHsh hi kvs) = Suc (foldr (\<lambda>kv. max (obj_depth cfg (snd kv))) kvs 0)"
| "obj_depth cfg (OOther info asj) =
     (if rails cfg \<and> oi_is_fragment info = Inr False then as_depth cfg asj else 0)"
| "obj_depth cfg _ = 0"
| "as_depth cfg (AsValue v) = obj_depth cfg v"
| "as_depth cfg _ = 0"

definition within :: "gen_config \<Rightarrow> nat \<Rightarrow> bool" where
  "within cfg d \<longleftrightarrow> gc_max_nesting cfg = 0 \<or> d \<le> gc_max_nesting cfg"

abbreviation unlimited :: "gen_config \<Rightarrow> gen_config" where
  "unlimited cfg \<equiv> cfg\<lparr>gc_max_nesting := 0\<rparr>"

lemma unlimited_float [simp]: "float_text E (unlimited cfg) f = float_text E cfg f"
  by (simp add: float_text_def)

lemma unlimited_texts [simp]:
  "nesting_check (unlimited cfg) n = Inr ()" "scalar_text E (unlimited cfg) v = scalar_text E cfg v"
  "key_text E (unlimited cfg) k = key_text E cfg k" "fallback_text E (unlimited cfg) info = fallback_text E cfg info"
  "indents (unlimited cfg) n = indents cfg n"
  by (simp_all add: nesting_check_def key_text_def fallback_text_def indents_def cong: if_cong)
    (cases v; simp add: scalar_text_def)

lemma nesting_check_within [simp]:
  "nesting_check cfg n = (if within cfg n then Inr () else Inl (FailNesting (gc_max_nesting cfg)))"
  by (auto simp: nesting_check_def within_def)

lemma within_unlimited [simp]: "within (unlimited cfg) n"
  by (simp add: within_def)

lemma cat_fails: "cat (Inr b) (Inl e) = Inl e" "cat (Inl e) q = Inl e"
  by (simp_all add: cat_def)

lemma within_less: "within cfg (Suc (d + k)) \<Longrightarrow> within cfg (Suc d)"
  by (auto simp: within_def)

lemma within_max: "within cfg (d + max a b) \<longleftrightarrow> within cfg (d + a) \<and> within cfg (d + b)"
  by (auto simp: within_def)

lemma printed_limit:
  "printed E (unlimited cfg) v d = Inr b \<Longrightarrow>
     printed E cfg v d =
       (if obj_depth cfg v = 0 \<or> within cfg (d + obj_depth cfg v) then Inr b else Inl (FailNesting (gc_max_nesting cfg)))"
  "printed_elems E (unlimited cfg) later vs d = Inr b \<Longrightarrow> within cfg d \<Longrightarrow>
     printed_elems E cfg later vs d =
       (if within cfg (d + foldr (\<lambda>v. max (obj_depth cfg v)) vs 0) then Inr b else Inl (FailNesting (gc_max_nesting cfg)))"
  "printed_pairs E (unlimited cfg) hi ks m first kvs d = Inr b \<Longrightarrow> within cfg d \<Longrightarrow>
     printed_pairs E cfg hi ks m first kvs d =
       (if within cfg (d + foldr (\<lambda>kv. max (obj_depth cfg (snd kv))) kvs 0) then Inr b else Inl (FailNesting (gc_max_nesting cfg)))"
proof (induction E cfg v d and E cfg later vs d and E cfg hi ks m first kvs d arbitrary: b and b and b
    rule: printed_printed_elems_printed_pairs.induct)
  case (1 E cfg vs depth)
  show ?case
  proof (cases "within cfg (depth + 1) \<and> vs \<noteq> []")
    case True
    with "1.prems" obtain b' where "printed_elems E (unlimited cfg) False vs (depth + 1) = Inr b'"
      by (auto simp: cat_Inr_iff)
    with "1.IH" [of "()" b'] True "1.prems" show ?thesis by (auto simp: cat_fails cat_Inr_eq)
  next
    case False
    then show ?thesis using "1.prems" by (auto dest: within_less)
  qed
next
  case (2 E cfg hi kvs depth)
  let ?m = "mixed_keys_new (gc_allow_duplicate_key cfg)"
  show ?case
  proof (cases "within cfg (depth + 1) \<and> kvs \<noteq> []")
    case True
    with "2.prems" obtain b' where "printed_pairs E (unlimited cfg) hi (map fst kvs) ?m True kvs (depth + 1) = Inr b'"
      by (auto simp: cat_Inr_iff)
    with "2.IH" [of "()" b'] True "2.prems" show ?thesis by (auto simp: cat_fails cat_Inr_eq)
  next
    case False
    then show ?thesis using "2.prems" by (auto dest: within_less)
  qed
next
  case (3 E cfg info asj depth)
  show ?case
  proof (cases "rails cfg \<and> oi_is_fragment info = Inr False")
    case True
    with "3.prems" obtain v where "asj = AsValue v" "printed E (unlimited cfg) v depth = Inr b"
      by (cases asj) (auto simp: reraise_def)
    with "3.IH" [of False v b] True show ?thesis by (simp add: reraise_def)
  next
    case False
    show ?thesis
    proof (cases "rails cfg")
      case True
      with False "3.prems" have "oi_is_fragment info = Inr True"
        by (cases "oi_is_fragment info") (simp_all add: reraise_def)
      with True "3.prems" show ?thesis by (simp add: reraise_def)
    qed (use "3.prems" in simp)
  qed
next
  case (6 E cfg later v vs inner)
  from "6.prems"(1) obtain b1 b2 where "printed E (unlimited cfg) v inner = Inr b1"
    "printed_elems E (unlimited cfg) True vs inner = Inr b2"
    "b = (if later then [b_comma] else []) @ array_nl cfg @ indents cfg inner @ b1 @ b2"
    by (auto simp: cat_Inr_iff)
  with "6.IH" "6.prems"(2) show ?case by (auto simp: cat_fails cat_Inr_eq within_max)
next
  case (8 E cfg hi ks m first k v kvs inner)
  obtain check m' where nc: "needs_check (kind_of_key k) m = (check, m')" by fastforce
  from "8.prems"(1) obtain bk b1 b2 where "(if check then check_duplicate_keys E hi ks else Inr ()) = Inr ()"
    "key_text E cfg k = Inr bk" "printed E (unlimited cfg) v inner = Inr b1"
    "printed_pairs E (unlimited cfg) hi ks m' False kvs inner = Inr b2"
    "b = (if first then [] else [b_comma]) @ object_nl cfg @ indents cfg inner @ bk @ space_before cfg @ [b_colon] @ space cfg @ b1 @ b2"
    by (auto simp: cat_Inr_iff tryr_Inr_iff nc)
  with "8.IH" [OF nc [symmetric]] "8.prems"(2) show ?case
    by (auto simp: nc cat_fails cat_Inr_eq within_max)
qed auto

section \<open>Duplicate keys\<close>

fun key_bytes :: "rkey \<Rightarrow> bytes" where
  "key_bytes (KStr s) = gs_bytes s"
| "key_bytes (KSymbol s) = gs_bytes s"
| "key_bytes (KOtherKey r) = []"

text \<open>A property of the keys of every Hash the walk enters itself.\<close>

fun all_hashes :: "(rkey list \<Rightarrow> bool) \<Rightarrow> robj \<Rightarrow> bool" where
  "all_hashes P (OArr vs) = (\<forall>v \<in> set vs. all_hashes P v)"
| "all_hashes P (OHsh hi kvs) = (P (map fst kvs) \<and> (\<forall>kv \<in> set kvs. all_hashes P (snd kv)))"
| "all_hashes P _ = True"

text \<open>
  String and Symbol keys, and no two of one kind with the same bytes, as a Ruby Hash has them
  when its Strings are of one encoding.
\<close>

definition plain_keys :: "rkey list \<Rightarrow> bool" where
  "plain_keys ks \<longleftrightarrow> (\<forall>k \<in> set ks. kind_of_key k \<noteq> KindOther) \<and>
     distinct (map (\<lambda>k. (kind_of_key k, key_bytes k)) ks)"

definition distinct_keys :: "rkey list \<Rightarrow> bool" where
  "distinct_keys ks \<longleftrightarrow> distinct (map key_bytes ks)"

text \<open>
  When a Hash is checked, whatever its keys are: one is a String or a Symbol, of another kind
  than the first.  And what the check asks: every key has a string, and no two have the same bytes
  (as they are, in whatever encoding each string is).
\<close>

definition mixes :: "rkey list \<Rightarrow> bool" where
  "mixes ks \<longleftrightarrow> (\<exists>k \<in> set ks. kind_of_key k \<noteq> KindOther \<and> kind_of_key k \<noteq> kind_of_key (hd ks))"

definition no_clash :: "rkey list \<Rightarrow> bool" where
  "no_clash ks \<longleftrightarrow> (\<exists>ss. map key_string ks = map Inr ss \<and> distinct (map gs_bytes ss))"

abbreviation check_passes :: "rkey list \<Rightarrow> bool" where
  "check_passes ks \<equiv> (mixes ks \<longrightarrow> no_clash ks)"

fun will_check :: "mixed_keys \<Rightarrow> rkey list \<Rightarrow> bool" where
  "will_check m [] = False"
| "will_check m (k # ks) = (case needs_check (kind_of_key k) m of (check, m) \<Rightarrow> check \<or> will_check m ks)"

lemma will_check_first:
  "mk_first m = Some kd \<Longrightarrow> \<not> mk_done m \<Longrightarrow>
     will_check m ks \<longleftrightarrow> (\<exists>k \<in> set ks. kind_of_key k \<noteq> KindOther \<and> kind_of_key k \<noteq> kd)"
  by (induction ks) (auto simp: needs_check_def mixed_def)

lemma will_check_mixes: "will_check (mixed_keys_new False) ks \<longleftrightarrow> mixes ks"
  by (cases ks) (auto simp: mixes_def needs_check_def mixed_keys_new_def will_check_first)

lemma dup_walk_None:
  "dup_walk seen ks = Inr None \<longleftrightarrow>
     (\<exists>ss. map key_string ks = map Inr ss \<and> distinct (map gs_bytes ss) \<and> set (map gs_bytes ss) \<inter> seen = {})"
proof (induction ks arbitrary: seen)
  case (Cons k ks)
  show ?case
  proof (cases "key_string k")
    case (Inr s)
    have "(\<exists>ss. map key_string (k # ks) = map Inr ss \<and> distinct (map gs_bytes ss) \<and> set (map gs_bytes ss) \<inter> seen = {}) \<longleftrightarrow>
        gs_bytes s \<notin> seen \<and> (\<exists>ss. map key_string ks = map Inr ss \<and> distinct (map gs_bytes ss) \<and>
          set (map gs_bytes ss) \<inter> insert (gs_bytes s) seen = {})" (is "?l \<longleftrightarrow> ?r")
    proof
      assume ?l
      then obtain ss where "map key_string (k # ks) = map Inr ss" "distinct (map gs_bytes ss)"
        "set (map gs_bytes ss) \<inter> seen = {}" by blast
      with Inr show ?r by (cases ss) auto
    next
      assume ?r
      then obtain ss where "map key_string ks = map Inr ss" "distinct (map gs_bytes ss)"
        "set (map gs_bytes ss) \<inter> insert (gs_bytes s) seen = {}" "gs_bytes s \<notin> seen" by blast
      with Inr show ?l by (intro exI [of _ "s # ss"]) auto
    qed
    with Inr Cons.IH [of "insert (gs_bytes s) seen"] show ?thesis by simp
  qed auto
qed simp

text \<open>What the check that runs, or is not needed, decides.\<close>

lemma check_duplicate_keys_ok: "check_duplicate_keys E hi ks = Inr () \<longleftrightarrow> no_clash ks"
  using dup_walk_None [of "{}" ks]
  by (auto simp: check_duplicate_keys_def no_clash_def tryr_Inr_iff split: option.splits)

lemma check_decides:
  "(will_check (mixed_keys_new False) ks \<longrightarrow> check_duplicate_keys E hi ks = Inr ()) \<longleftrightarrow> check_passes ks"
  by (simp add: will_check_mixes check_duplicate_keys_ok)

lemma no_clash_plain:
  assumes "\<forall>k \<in> set ks. kind_of_key k \<noteq> KindOther"
  shows "no_clash ks \<longleftrightarrow> distinct_keys ks"
proof -
  let ?ss = "map (\<lambda>k. projr (key_string k)) ks"
  have "key_string k = Inr (projr (key_string k)) \<and> gs_bytes (projr (key_string k)) = key_bytes k" if "k \<in> set ks" for k
    using assms that by (cases k) auto
  then have ss: "map key_string ks = map Inr ?ss" "map gs_bytes ?ss = map key_bytes ks" by simp_all
  have "ss' = ?ss" if "map key_string ks = map Inr ss'" for ss'
    using that unfolding ss(1) by (metis inj_Inr inj_map injD)
  with ss show ?thesis unfolding no_clash_def distinct_keys_def by metis
qed

lemma check_passes_plain:
  assumes "plain_keys ks"
  shows "check_passes ks \<longleftrightarrow> distinct_keys ks"
proof -
  have other: "\<forall>k \<in> set ks. kind_of_key k \<noteq> KindOther" using assms by (simp add: plain_keys_def)
  have "distinct_keys ks" if "\<not> mixes ks"
  proof -
    from that other have "\<forall>k \<in> set ks. kind_of_key k = kind_of_key (hd ks)" by (auto simp: mixes_def)
    with assms show ?thesis by (auto simp: plain_keys_def distinct_keys_def distinct_map inj_on_def)
  qed
  with no_clash_plain [OF other] show ?thesis by blast
qed

lemma all_hashes_cong:
  "all_hashes P v \<Longrightarrow> (\<And>ks. P ks \<Longrightarrow> Q ks \<longleftrightarrow> R ks) \<Longrightarrow> all_hashes Q v \<longleftrightarrow> all_hashes R v"
  by (induction P v rule: all_hashes.induct) auto

lemma all_hashes_mono: "all_hashes P v \<Longrightarrow> (\<And>ks. P ks \<Longrightarrow> Q ks) \<Longrightarrow> all_hashes Q v"
  by (induction P v rule: all_hashes.induct) auto

abbreviation allowing :: "gen_config \<Rightarrow> gen_config" where
  "allowing cfg \<equiv> cfg\<lparr>gc_allow_duplicate_key := True\<rparr>"

lemma allowing_float [simp]: "float_text E (allowing cfg) f = float_text E cfg f"
  by (simp add: float_text_def)

lemma allowing_within [simp]: "within (allowing cfg) n = within cfg n"
  by (simp add: within_def)

lemma allowing_texts [simp]:
  "nesting_check (allowing cfg) n = nesting_check cfg n" "scalar_text E (allowing cfg) v = scalar_text E cfg v"
  "key_text E (allowing cfg) k = key_text E cfg k" "fallback_text E (allowing cfg) info = fallback_text E cfg info"
  "indents (allowing cfg) n = indents cfg n"
  by (simp_all add: within_def key_text_def fallback_text_def indents_def cong: if_cong)
    (cases v; simp add: scalar_text_def)

lemma needs_check_done:
  "mk_done m \<Longrightarrow> needs_check kd m = (check, m') \<Longrightarrow> \<not> check \<and> mk_done m'"
  by (auto simp: needs_check_def mixed_def split: option.splits if_splits)

lemma printed_allowing:
  "\<not> rails cfg \<Longrightarrow> \<not> gc_allow_duplicate_key cfg \<Longrightarrow>
     printed E cfg v d = Inr b \<longleftrightarrow> printed E (allowing cfg) v d = Inr b \<and> all_hashes check_passes v"
  "\<not> rails cfg \<Longrightarrow> \<not> gc_allow_duplicate_key cfg \<Longrightarrow>
     printed_elems E cfg later vs d = Inr b \<longleftrightarrow>
     printed_elems E (allowing cfg) later vs d = Inr b \<and> (\<forall>v \<in> set vs. all_hashes check_passes v)"
  "\<not> rails cfg \<Longrightarrow> \<not> gc_allow_duplicate_key cfg \<Longrightarrow> mk_done m' \<Longrightarrow>
     printed_pairs E cfg hi ks m first kvs d = Inr b \<longleftrightarrow>
     printed_pairs E (allowing cfg) hi ks m' first kvs d = Inr b \<and> (\<forall>kv \<in> set kvs. all_hashes check_passes (snd kv)) \<and>
     (will_check m (map fst kvs) \<longrightarrow> check_duplicate_keys E hi ks = Inr ())"
proof (induction E cfg v d and E cfg later vs d and E cfg hi ks m first kvs d arbitrary: b and b and b m'
    rule: printed_printed_elems_printed_pairs.induct)
  case (1 E cfg vs depth)
  then show ?case by (auto simp: tryr_Inr_iff cat_Inr_iff)
next
  case (2 E cfg hi kvs depth)
  have off: "gc_allow_duplicate_key cfg = False" using "2.prems" by simp
  have rest: "printed_pairs E cfg hi (map fst kvs) (mixed_keys_new False) True kvs (depth + 1) = Inr c \<longleftrightarrow>
      printed_pairs E (allowing cfg) hi (map fst kvs) (mixed_keys_new True) True kvs (depth + 1) = Inr c \<and>
      (\<forall>kv \<in> set kvs. all_hashes check_passes (snd kv)) \<and> check_passes (map fst kvs)"
    if "within cfg (depth + 1)" "kvs \<noteq> []" for c
    using "2.IH" [of "()" "mixed_keys_new True" c] "2.prems" that
    unfolding check_decides [of _ E hi, symmetric] off by (simp add: mixed_keys_new_def)
  show ?case
  proof (cases "kvs \<noteq> [] \<and> within cfg (depth + 1)")
    case True
    with rest show ?thesis by (auto simp: tryr_Inr_iff cat_Inr_iff off)
  next
    case False
    then show ?thesis by (auto simp: mixes_def)
  qed
next
  case (6 E cfg later v vs inner)
  then show ?case by (auto simp: tryr_Inr_iff cat_Inr_iff)
next
  case (8 E cfg hi ks m first k v kvs inner)
  obtain check m1 where nc: "needs_check (kind_of_key k) m = (check, m1)" by fastforce
  obtain check' m1' where nc': "needs_check (kind_of_key k) m' = (check', m1')" by fastforce
  from needs_check_done [OF "8.prems"(3) nc'] have d: "\<not> check'" "mk_done m1'" by simp_all
  have unf: "printed_pairs E cfg hi ks m first ((k, v) # kvs) inner = Inr b \<longleftrightarrow>
      (check \<longrightarrow> check_duplicate_keys E hi ks = Inr ()) \<and>
      (\<exists>bk b1 b2. key_text E cfg k = Inr bk \<and> printed E cfg v inner = Inr b1 \<and>
        printed_pairs E cfg hi ks m1 False kvs inner = Inr b2 \<and>
        b = (if first then [] else [b_comma]) @ object_nl cfg @ indents cfg inner @ bk @
          space_before cfg @ [b_colon] @ space cfg @ b1 @ b2)" for b
    by (auto simp: nc tryr_Inr_iff cat_Inr_iff)
  have unf': "printed_pairs E (allowing cfg) hi ks m' first ((k, v) # kvs) inner = Inr b \<longleftrightarrow>
      (\<exists>bk b1 b2. key_text E cfg k = Inr bk \<and> printed E (allowing cfg) v inner = Inr b1 \<and>
        printed_pairs E (allowing cfg) hi ks m1' False kvs inner = Inr b2 \<and>
        b = (if first then [] else [b_comma]) @ object_nl cfg @ indents cfg inner @ bk @
          space_before cfg @ [b_colon] @ space cfg @ b1 @ b2)" for b
    using d by (simp add: nc' tryr_Inr_iff cat_Inr_iff) blast
  have wc: "will_check m (map fst ((k, v) # kvs)) = (check \<or> will_check m1 (map fst kvs))" by (simp add: nc)
  have val: "printed E cfg v inner = Inr c \<longleftrightarrow> printed E (allowing cfg) v inner = Inr c \<and> all_hashes check_passes v"
    if "check \<longrightarrow> check_duplicate_keys E hi ks = Inr ()" for c
    using "8.IH"(1) [OF nc [symmetric], of "()" c] "8.prems" that by auto
  have rest: "printed_pairs E cfg hi ks m1 False kvs inner = Inr c \<longleftrightarrow>
      printed_pairs E (allowing cfg) hi ks m1' False kvs inner = Inr c \<and>
      (\<forall>kv \<in> set kvs. all_hashes check_passes (snd kv)) \<and>
      (will_check m1 (map fst kvs) \<longrightarrow> check_duplicate_keys E hi ks = Inr ())"
    if "check \<longrightarrow> check_duplicate_keys E hi ks = Inr ()" for c
    using "8.IH"(2) [OF nc [symmetric], of "()" m1' c] "8.prems" that d(2) by auto
  show ?case
    unfolding unf unf' wc using val rest by (simp cong: conj_cong) blast
qed auto

lemma document_text_Inr: "document_text E cfg obj = Inr b \<longleftrightarrow> printed E cfg obj (start_depth cfg) = Inr b"
  by (cases "printed E cfg obj (start_depth cfg)") (simp_all add: document_text_def)

lemma document_allowing:
  "\<not> rails cfg \<Longrightarrow> \<not> gc_allow_duplicate_key cfg \<Longrightarrow>
     document_text E cfg obj = Inr b \<longleftrightarrow> document_text E (allowing cfg) obj = Inr b \<and> all_hashes check_passes obj"
  using printed_allowing(1) by (simp add: document_text_Inr)

section \<open>The results\<close>

text \<open>Two frozen strings and objects over them, for the theorems that apply the properties.\<close>

definition sample_str :: "nat \<Rightarrow> string \<Rightarrow> gstr" where
  "sample_str i s =
     \<lparr>gs_id = i, gs_frozen = True, gs_cr = Cr7Bit, gs_enc = EncUtf8, gs_bytes = asc s,
      gs_encoded = Inr (Cr7Bit, asc s)\<rparr>"

definition sample_strs :: "nat \<Rightarrow> gstr option" where
  "sample_strs i = (if i = 1 then Some (sample_str 1 ''a'') else if i = 2 then Some (sample_str 2 ''b'') else None)"

definition sample_emitter :: emitter where
  "sample_emitter =
     \<lparr>em_escape = (\<lambda>md b. filter (\<lambda>c. c \<noteq> b_quote \<and> c \<noteq> b_nl) b), em_f64 = (\<lambda>f. asc ''1.5''),
      em_i64 = (\<lambda>i. if i = 1 then asc ''1'' else asc ''2''),
      em_inspect = (\<lambda>s. Inr ([b_quote] @ gs_bytes s @ [b_quote]))\<rparr>"

definition sample_obj :: robj where
  "sample_obj = OHsh (Inr (asc ''{}''))
     [(KStr (sample_str 1 ''a''), OArr [OFix 1, OFix 2, ONilV]), (KSymbol (sample_str 2 ''b''), OStr (sample_str 1 ''a''))]"

lemma sample_emitter_ok: "emitter_ok sample_emitter"
  by (simp add: emitter_ok_def sample_emitter_def closed_text_def asc_def)

lemma sample_sound: "sound_obj sample_strs sample_obj"
  by (simp add: sample_obj_def sample_strs_def sample_str_def)

lemma default_config [simp]: "config_of ONil = Inr DEFAULT_CONFIG"
  by (simp add: config_of_def)

lemma default_fields [simp]:
  "start_depth DEFAULT_CONFIG = 0" "gc_max_nesting DEFAULT_CONFIG = 100" "rails DEFAULT_CONFIG = False"
  "gc_allow_duplicate_key DEFAULT_CONFIG = False" "mode DEFAULT_CONFIG = Standard" "indent DEFAULT_CONFIG = []"
  "space DEFAULT_CONFIG = []" "space_before DEFAULT_CONFIG = []" "object_nl DEFAULT_CONFIG = []"
  "array_nl DEFAULT_CONFIG = []"
  by (simp_all add: DEFAULT_CONFIG_def gen_defaults_def)

lemmas sample_print =
  document_text_def sample_obj_def sample_emitter_def sample_str_def indents_def cat_def key_text_def
  reraise_def quoted_def scalar_text_def mixed_keys_new_def needs_check_def mixed_def
  check_duplicate_keys_def within_def asc_def

lemma sample_text: "document_text sample_emitter DEFAULT_CONFIG sample_obj =
    Inr ([b_lbrace, b_quote, 0x61, b_quote, b_colon] @ asc ''[1,2,null]'' @
      [b_comma, b_quote, 0x62, b_quote, b_colon, b_quote, 0x61, b_quote, b_rbrace])"
  by (simp add: sample_print)

text \<open>
  C3.  Generation refines the reference printer: whatever the pooled scratch holds, and
  through key caching, fused pair prefixes, numeric runs and the compact and pretty walks,
  \<open>generate\<close> returns exactly the text the printer gives the object under the options, or
  raises its first failure, and either way leaves both key caches right, bounded and shadowed
  for the GC.
\<close>

theorem generate_refines:
  assumes "emitter_ok E" and "sound_obj strs obj" and "cell_good E strs cell"
  shows "leaves E strs (generate_entry E (TwoArgs obj opts) cell)
    (tryr (config_of opts) (\<lambda>cfg. document_text E cfg obj))"
  by (rule entry_leaves [OF assms])

theorem generate_refines_witness:
  "\<exists>cell. generate_entry sample_emitter (TwoArgs sample_obj ONil) None =
     (Inr ([b_lbrace, b_quote, 0x61, b_quote, b_colon] @ asc ''[1,2,null]'' @
       [b_comma, b_quote, 0x62, b_quote, b_colon, b_quote, 0x61, b_quote, b_rbrace]), cell) \<and>
     cell_good sample_emitter sample_strs cell"
  using generate_refines [OF sample_emitter_ok sample_sound, of None ONil]
  by (cases "generate_entry sample_emitter (TwoArgs sample_obj ONil) None")
    (simp add: leaves_def sample_text)

text \<open>
  C33.  The nesting limit is exact: an object that generates without a limit generates the same
  text under the limit when its depth, counted from \<open>depth:\<close>, is within it (0 is no limit), and
  raises \<open>NestingError\<close> naming the limit otherwise.
\<close>

theorem generate_nesting:
  assumes "emitter_ok E" and "sound_obj strs obj" and "cell_good E strs cell"
    and "config_of opts = Inr cfg" and "document_text E (unlimited cfg) obj = Inr b"
  shows "if obj_depth cfg obj = 0 \<or> within cfg (start_depth cfg + obj_depth cfg obj)
    then fst (generate_native E obj opts cell) = Inr b
    else fst (generate_native E obj opts cell) = Inl (NestingError
      (Fmt ''nesting of {} is too deep. Did you try to serialize objects with circular references?''
        [ANat (gc_max_nesting cfg)]))"
proof -
  from assms(5) have "printed E (unlimited cfg) obj (start_depth cfg) = Inr b"
    by (cases "printed E (unlimited cfg) obj (start_depth cfg)") (simp_all add: document_text_def)
  from printed_limit(1) [OF this] native_leaves [OF assms(1-3), of opts] show ?thesis
    by (auto simp: assms(4) document_text_def leaves_def split: if_splits)
qed

theorem generate_nesting_witness:
  "fst (generate_native sample_emitter sample_obj (OHash [(KSym ''max_nesting'', RInt 1)]) None) =
     Inl (NestingError (Fmt ''nesting of {} is too deep. Did you try to serialize objects with circular references?'' [ANat 1]))"
proof -
  let ?h = "[(KSym ''max_nesting'', RInt 1)]" and ?cfg = "DEFAULT_CONFIG\<lparr>gc_max_nesting := 1\<rparr>"
  have wf: "wf_hash ?h" by (simp add: wf_hash_def)
  have acc: "opt_finish (reader_at ?h gen_read gen_tolerated) = Inr ()"
    using finish_at [OF wf, of gen_read gen_tolerated]
    by (simp add: accepted_def gen_read_def opt_name_def NAMES_def)
  have g: "gen_opts_of ?h = Inr (?cfg, 0)"
    by (simp add: gen_opts_of_def str_option_def flag_def gen_nesting_option_def positive_option_def
        opt_name_def NAMES_def DEFAULT_CONFIG_def gen_defaults_def i64_range_def)
  have c: "config_of (OHash ?h) = Inr ?cfg"
    using read_gen_opts_at [OF wf, of "{}" "{}"] acc g by (simp add: config_of_def new_at)
  have t: "document_text sample_emitter (unlimited ?cfg) sample_obj =
    Inr ([b_lbrace, b_quote, 0x61, b_quote, b_colon] @ asc ''[1,2,null]'' @
      [b_comma, b_quote, 0x62, b_quote, b_colon, b_quote, 0x61, b_quote, b_rbrace])"
    by (simp add: sample_print DEFAULT_CONFIG_def gen_defaults_def)
  have d: "obj_depth ?cfg sample_obj = 2" by (simp add: sample_obj_def)
  show ?thesis
    using generate_nesting [OF sample_emitter_ok sample_sound _ c t, of None] d
    by (simp add: within_def)
qed

text \<open>
  C32.  Without \<open>allow_duplicate_key\<close>, generation succeeds exactly when it would with it and every
  Hash the walk enters passes the check: one that has a String or Symbol key of another kind than
  its first key has no two keys of the same bytes, and no other Hash is looked at.  For Hashes
  of String and Symbol keys in which no two of one kind have the same bytes (as in a Ruby Hash
  whose Strings are of one encoding) this one check per Hash is enough: generation then succeeds
  exactly when no two keys at all have the same bytes.  Bytes are compared as they are, before
  any transcoding.
\<close>

theorem generate_duplicate_keys:
  assumes "emitter_ok E" and "sound_obj strs obj" and "cell_good E strs cell"
    and "config_of opts = Inr cfg" and "\<not> gc_allow_duplicate_key cfg"
  shows "(fst (generate_native E obj opts cell) = Inr b \<longleftrightarrow>
      document_text E (allowing cfg) obj = Inr b \<and> all_hashes (\<lambda>ks. mixes ks \<longrightarrow> no_clash ks) obj) \<and>
    (all_hashes plain_keys obj \<longrightarrow>
      (fst (generate_native E obj opts cell) = Inr b \<longleftrightarrow>
        document_text E (allowing cfg) obj = Inr b \<and> all_hashes distinct_keys obj))"
proof -
  have r: "\<not> rails cfg" using config_of_ok [OF assms(4)] by simp
  have "fst (generate_native E obj opts cell) = Inr b \<longleftrightarrow> document_text E cfg obj = Inr b"
    using native_leaves [OF assms(1-3), of opts] by (auto simp: assms(4) leaves_def)
  also have "\<dots> \<longleftrightarrow> document_text E (allowing cfg) obj = Inr b \<and> all_hashes check_passes obj"
    by (rule document_allowing [OF r assms(5)])
  finally have "fst (generate_native E obj opts cell) = Inr b \<longleftrightarrow>
      document_text E (allowing cfg) obj = Inr b \<and> all_hashes check_passes obj" .
  moreover have "all_hashes check_passes obj \<longleftrightarrow> all_hashes distinct_keys obj" if "all_hashes plain_keys obj"
    using that by (rule all_hashes_cong) (rule check_passes_plain)
  ultimately show ?thesis by blast
qed

definition sample_clash :: robj where
  "sample_clash = OHsh (Inr (asc ''{}''))
     [(KStr (sample_str 1 ''a''), OFix 1), (KSymbol (sample_str 1 ''a''), OFix 2)]"

theorem generate_duplicate_keys_witness:
  "\<not> is_ok (fst (generate_native sample_emitter sample_clash ONil None))"
proof -
  have "sound_obj sample_strs sample_clash" "all_hashes plain_keys sample_clash"
    "\<not> all_hashes distinct_keys sample_clash"
    by (simp_all add: sample_clash_def sample_strs_def sample_str_def plain_keys_def distinct_keys_def)
  with generate_duplicate_keys [OF sample_emitter_ok, of sample_strs sample_clash None ONil] show ?thesis
    by (simp add: is_ok_iff) blast
qed

text \<open>
  C40.  The check is not symmetric for keys of other classes.  A Hash that starts with a String
  or Symbol key and then has a key of another class with the same text is not checked: it is
  generated, both keys in it, as with \<open>allow_duplicate_key\<close>.  The same pairs with the other key
  first raise the duplicate-key error, naming the String or Symbol.  (The rest of the Hash has
  keys of these two kinds, and no value has a Hash that is checked.)
\<close>

theorem other_keys_unchecked:
  assumes "emitter_ok E" and "cell_good E strs cell" and "config_of opts = Inr cfg" and "\<not> gc_allow_duplicate_key cfg"
    and "sound_obj strs (OHsh (Inr hb) ((k', v') # (k, v) # rest))"
    and "kind_of_key k = KindOther" and "kind_of_key k' \<noteq> KindOther"
    and "key_string k = Inr str" and "key_string k' = Inr str'" and "gs_bytes str = gs_bytes str'"
    and "\<forall>kv \<in> set rest. kind_of_key (fst kv) = kind_of_key k' \<or> kind_of_key (fst kv) = KindOther"
    and "\<forall>kv \<in> set ((k, v) # (k', v') # rest). all_hashes (\<lambda>ks. \<not> mixes ks) (snd kv)"
    and "em_inspect E str' = Inr kb"
    and "document_text E (allowing cfg) (OHsh (Inr hb) ((k', v') # (k, v) # rest)) = Inr b"
  shows "fst (generate_native E (OHsh (Inr hb) ((k', v') # (k, v) # rest)) opts cell) = Inr b \<and>
    fst (generate_native E (OHsh (Inr hb) ((k, v) # (k', v') # rest)) opts cell) =
      Inl (GeneratorError (Fmt ''detected duplicate key {} in {}''
        [ABytes (from_utf8_lossy kb), ABytes (from_utf8_lossy hb)]))"
proof (rule conjI)
  have r: "\<not> rails cfg" using config_of_ok [OF assms(3)] by simp
  have inner: "all_hashes check_passes (snd kv)" if "kv \<in> set ((k, v) # (k', v') # rest)" for kv
    by (rule all_hashes_mono [OF bspec [OF assms(12) that]]) simp
  have "\<not> mixes (map fst ((k', v') # (k, v) # rest))"
    using assms(6) bspec [OF assms(11)] unfolding mixes_def by fastforce
  then have pass: "all_hashes check_passes (OHsh (Inr hb) ((k', v') # (k, v) # rest))"
    using inner inner [of "(k, v)"] inner [of "(k', v')"] by simp
  have prints: "document_text E cfg (OHsh (Inr hb) ((k', v') # (k, v) # rest)) = Inr b"
    unfolding document_allowing [OF r assms(4)] using assms(14) pass by (rule conjI)
  show "fst (generate_native E (OHsh (Inr hb) ((k', v') # (k, v) # rest)) opts cell) = Inr b"
    using native_leaves [OF assms(1,5,2), of opts] prints by (auto simp: assms(3) leaves_def)
  obtain kinds where kinds: "kind_of_key k' = kinds" "kinds \<noteq> KindOther" using assms(7) by blast
  from assms(14) obtain bk bv where first: "within cfg (Suc (start_depth cfg))" "key_text E cfg k = Inr bk"
    "printed E (allowing cfg) v (Suc (start_depth cfg)) = Inr bv"
    unfolding document_text_Inr by (auto simp: tryr_Inr_iff cat_Inr_iff mixed_keys_new_def needs_check_def mixed_def
      split: if_splits)
  have "printed E cfg v (Suc (start_depth cfg)) = Inr bv"
    using printed_allowing(1) [OF r assms(4)] first(3) inner [of "(k, v)"] by simp
  moreover have "check_duplicate_keys E (Inr hb) (map fst ((k, v) # (k', v') # rest)) =
      Inl (FailGenerator (Fmt ''detected duplicate key {} in {}'' [ABytes (from_utf8_lossy kb), ABytes (from_utf8_lossy hb)]))"
    using assms(8-10,13) by (simp add: check_duplicate_keys_def reraise_def)
  ultimately have fails: "document_text E cfg (OHsh (Inr hb) ((k, v) # (k', v') # rest)) =
      Inl (GeneratorError (Fmt ''detected duplicate key {} in {}'' [ABytes (from_utf8_lossy kb), ABytes (from_utf8_lossy hb)]))"
    using first(1,2) assms(4,6) kinds
    by (simp add: document_text_def mixed_keys_new_def needs_check_def mixed_def cat_fails)
  show "fst (generate_native E (OHsh (Inr hb) ((k, v) # (k', v') # rest)) opts cell) =
      Inl (GeneratorError (Fmt ''detected duplicate key {} in {}''
        [ABytes (from_utf8_lossy kb), ABytes (from_utf8_lossy hb)]))"
    using native_leaves [OF assms(1) _ assms(2), of "OHsh (Inr hb) ((k, v) # (k', v') # rest)" opts] assms(5) fails
    by (auto simp: assms(3) leaves_def)
qed

theorem other_keys_unchecked_witness:
  "let plain = (KStr (sample_str 1 ''a''), OFix 1); other = (KOtherKey (Inr (sample_str 2 ''a'')), OFix 2) in
   fst (generate_native sample_emitter (OHsh (Inr (asc ''{}'')) [plain, other]) ONil None) =
     Inr [b_lbrace, b_quote, 0x61, b_quote, b_colon, 0x31, b_comma, b_quote, 0x61, b_quote, b_colon, 0x32, b_rbrace] \<and>
   fst (generate_native sample_emitter (OHsh (Inr (asc ''{}'')) [other, plain]) ONil None) =
     Inl (GeneratorError (Fmt ''detected duplicate key {} in {}''
       [ABytes (from_utf8_lossy [b_quote, 0x61, b_quote]), ABytes (from_utf8_lossy (asc ''{}''))]))"
proof -
  let ?plain = "(KStr (sample_str 1 ''a''), OFix 1)" and ?other = "(KOtherKey (Inr (sample_str 2 ''a'')), OFix 2)"
  have sound: "sound_obj sample_strs (OHsh (Inr (asc ''{}'')) [?plain, ?other])"
    by (simp add: sample_strs_def sample_str_def)
  have inspect: "em_inspect sample_emitter (sample_str 1 ''a'') = Inr [b_quote, 0x61, b_quote]"
    by (simp add: sample_emitter_def sample_str_def asc_def)
  have prints: "document_text sample_emitter (allowing DEFAULT_CONFIG) (OHsh (Inr (asc ''{}'')) [?plain, ?other]) =
      Inr [b_lbrace, b_quote, 0x61, b_quote, b_colon, 0x31, b_comma, b_quote, 0x61, b_quote, b_colon, 0x32, b_rbrace]"
    by (simp add: sample_print)
  show ?thesis
    using other_keys_unchecked [OF sample_emitter_ok _ default_config _ sound _ _ _ _ _ _ _ inspect prints]
    by (simp add: sample_str_def)
qed

end
