(* ===== verification/Lines.thy ===== *)
theory Lines
  imports File_Access
begin

text \<open>
  JSON Lines reading: src/ext/nosj/src/lines.rs.  \<open>walk_lines\<close> hands the block one parsed value
  per non-blank line; the block is a parameter that returns or raises, given what it was handed
  before.  The result is what the block was handed, and the state, or the exception that ended
  the walk.  The theorem says which values it is handed; Line_Errors says how a bad line raises.
\<close>

section \<open>The walk\<close>

abbreviation LINE_WS :: bytes where "LINE_WS \<equiv> [b_space, b_tab, b_cr]"

definition blank :: "bytes \<Rightarrow> bool" where
  "blank l = list_all (\<lambda>b. b \<in> set LINE_WS) l"

type_synonym 'v block = "'v list \<Rightarrow> 'v \<Rightarrow> ruby_error + unit"

definition line_end_at :: "bytes \<Rightarrow> nat \<Rightarrow> nat" where
  "line_end_at bytes pos =
     (case position (\<lambda>b. b = b_nl) (drop pos bytes) of None \<Rightarrow> length bytes | Some p \<Rightarrow> pos + p)"

lemma line_end_progress: "\<not> length bytes \<le> pos \<Longrightarrow> length bytes - (line_end_at bytes pos + 1) < length bytes - pos"
  by (auto simp: line_end_at_def split: option.split)

function walk_lines ::
  "('v, 'r) env \<Rightarrow> 'v block \<Rightarrow> bytes \<Rightarrow> parse_opts \<Rightarrow> nat \<Rightarrow> 'v list \<Rightarrow> 'v pull_state \<Rightarrow>
     'v list \<times> (ruby_error + 'v pull_state)" where
  "walk_lines env blk bytes po pos handed st =
     (if length bytes \<le> pos then (handed, Inr st)
      else let line_end = line_end_at bytes pos
           in if blank (sub bytes pos line_end) then walk_lines env blk bytes po (line_end + 1) handed st
              else case materialize_at env st bytes pos line_end po of
                     Inl e \<Rightarrow> (handed, Inl e)
                   | Inr (v, st) \<Rightarrow>
                       (case blk handed v of
                          Inl e \<Rightarrow> (handed @ [v], Inl e)
                        | Inr _ \<Rightarrow> walk_lines env blk bytes po (line_end + 1) (handed @ [v]) st))"
  by pat_completeness auto

termination
  by (relation "measure (\<lambda>(env, blk, bytes, po, pos, handed, st). length bytes - pos)")
    (simp_all add: line_end_progress del: One_nat_def add_Suc_right)

declare walk_lines.simps [simp del]

definition each_line_native ::
  "('v, 'r) env \<Rightarrow> 'v block \<Rightarrow> 'v pull_state \<Rightarrow> rstring \<Rightarrow> options_arg \<Rightarrow>
     'v list \<times> (ruby_error + 'v pull_state)" where
  "each_line_native env blk st data opts =
     (case parse_native_opts opts of
        Inl e \<Rightarrow> ([], Inl e)
      | Inr po \<Rightarrow>
          (case utf8_input data of
             Inl e \<Rightarrow> ([], Inl e)
           | Inr input \<Rightarrow> walk_lines env blk input po 0 [] st))"

text \<open>The outcome of \<open>path.to_string\<close> is the argument \<open>path\<close>.\<close>

definition each_line_file_native ::
  "('v, 'r) env \<Rightarrow> os \<Rightarrow> 'v block \<Rightarrow> 'v pull_state \<Rightarrow> ruby_error + bytes \<Rightarrow> options_arg \<Rightarrow>
     'v list \<times> (ruby_error + 'v pull_state)" where
  "each_line_file_native env sys blk st path opts =
     (case tryr (parse_native_opts opts) (\<lambda>po. map_ok (\<lambda>p. (po, p)) path) of
        Inl e \<Rightarrow> ([], Inl e)
      | Inr (po, p) \<Rightarrow>
          if os_metadata sys p = Inr 0 then ([], Inr st)
          else case with_mapped_file sys p Inr of
                 Inl e \<Rightarrow> ([], Inl e)
               | Inr mapping \<Rightarrow> walk_lines env blk mapping po 0 [] st)"

section \<open>Lines as lists\<close>

text \<open>The lines of a text with their offsets; a newline ends a line, so the last may lack it.\<close>

function lines_from :: "nat \<Rightarrow> bytes \<Rightarrow> (nat \<times> bytes) list" where
  "lines_from pos [] = []"
| "lines_from pos (b # bs) =
     (let l = takeWhile (\<lambda>b. b \<noteq> b_nl) (b # bs)
      in (pos, l) # lines_from (pos + length l + 1) (drop (length l + 1) (b # bs)))"
  by pat_completeness auto

termination by (relation "measure (\<lambda>(pos, bs). length bs)") (auto simp: Let_def)

lemma takeWhile_position:
  "length (takeWhile (\<lambda>b. \<not> P b) bs) = (case position P bs of None \<Rightarrow> length bs | Some p \<Rightarrow> p)"
  by (induction bs) (auto split: option.splits)

lemma line_end_takeWhile:
  assumes "pos \<le> length bytes"
  shows "line_end_at bytes pos = pos + length (takeWhile (\<lambda>b. b \<noteq> b_nl) (drop pos bytes))"
    and "sub bytes pos (line_end_at bytes pos) = takeWhile (\<lambda>b. b \<noteq> b_nl) (drop pos bytes)"
proof -
  show e: "line_end_at bytes pos = pos + length (takeWhile (\<lambda>b. b \<noteq> b_nl) (drop pos bytes))"
    using assms takeWhile_position [of "\<lambda>b. b = b_nl" "drop pos bytes"]
    by (auto simp: line_end_at_def split: option.split)
  show "sub bytes pos (line_end_at bytes pos) = takeWhile (\<lambda>b. b \<noteq> b_nl) (drop pos bytes)"
    by (simp add: e sub_def takeWhile_eq_take [symmetric])
qed

lemma lines_from_at:
  assumes "pos < length bytes"
  shows "lines_from pos (drop pos bytes) =
    (pos, sub bytes pos (line_end_at bytes pos)) #
      lines_from (line_end_at bytes pos + 1) (drop (line_end_at bytes pos + 1) bytes)"
proof -
  from assms obtain b bs where d: "drop pos bytes = b # bs" by (cases "drop pos bytes") auto
  have le: "pos \<le> length bytes" using assms by simp
  let ?n = "length (takeWhile (\<lambda>b. b \<noteq> b_nl) (drop pos bytes))"
  have "drop (line_end_at bytes pos + 1) bytes = drop (?n + 1) (drop pos bytes)"
    using line_end_takeWhile(1) [OF le] by (simp add: add.commute)
  with line_end_takeWhile [OF le] show ?thesis unfolding d lines_from.simps Let_def by simp
qed

text \<open>The walk as a loop over the lines.\<close>

fun each_line ::
  "('v, 'r) env \<Rightarrow> 'v block \<Rightarrow> bytes \<Rightarrow> parse_opts \<Rightarrow> (nat \<times> bytes) list \<Rightarrow> 'v list \<Rightarrow> 'v pull_state \<Rightarrow>
     'v list \<times> (ruby_error + 'v pull_state)" where
  "each_line env blk bytes po [] handed st = (handed, Inr st)"
| "each_line env blk bytes po ((at, l) # ls) handed st =
     (if blank l then each_line env blk bytes po ls handed st
      else case materialize_at env st bytes at (at + length l) po of
             Inl e \<Rightarrow> (handed, Inl e)
           | Inr (v, st) \<Rightarrow>
               (case blk handed v of
                  Inl e \<Rightarrow> (handed @ [v], Inl e)
                | Inr _ \<Rightarrow> each_line env blk bytes po ls (handed @ [v]) st))"

lemma walk_each_line:
  "walk_lines env blk bytes po pos handed st = each_line env blk bytes po (lines_from pos (drop pos bytes)) handed st"
proof (induction env blk bytes po pos handed st rule: walk_lines.induct)
  case (1 env blk bytes po pos handed st)
  show ?case
  proof (cases "length bytes \<le> pos")
    case True
    then show ?thesis by (simp add: walk_lines.simps)
  next
    case False
    then have len: "pos + length (sub bytes pos (line_end_at bytes pos)) = line_end_at bytes pos"
      using line_end_takeWhile [of pos bytes] by simp
    show ?thesis
      using "1.IH" False
      by (subst walk_lines.simps) (simp add: lines_from_at len Let_def split: sum.split prod.split)
  qed
qed

section \<open>What the block is handed\<close>

lemma lines_from_parts:
  "(at, l) \<in> set (lines_from pos bs) \<Longrightarrow> pos \<le> at \<and> take (length l) (drop (at - pos) bs) = l"
proof (induction pos bs rule: lines_from.induct)
  case (2 pos b bs)
  let ?n = "length (takeWhile (\<lambda>b. b \<noteq> b_nl) (b # bs))"
  from "2.prems" consider "at = pos" "l = takeWhile (\<lambda>b. b \<noteq> b_nl) (b # bs)"
    | "(at, l) \<in> set (lines_from (pos + ?n + 1) (drop (?n + 1) (b # bs)))"
    by (auto simp: Let_def split: if_splits)
  then show ?case
  proof cases
    case 1
    then show ?thesis by (simp add: takeWhile_eq_take [symmetric] del: takeWhile.simps)
  next
    case 2
    from "2.IH" [OF refl 2] have ih: "pos + ?n + 1 \<le> at"
      "take (length l) (drop (at - (pos + ?n + 1)) (drop (?n + 1) (b # bs))) = l" by blast+
    then have "at - pos = at - (pos + ?n + 1) + (?n + 1)" by simp
    with ih show ?thesis by (metis drop_drop add_leD1)
  qed
qed simp

lemma line_slice: "(at, l) \<in> set (lines_from 0 bytes) \<Longrightarrow> sub bytes at (at + length l) = l"
  using lines_from_parts [of at l 0 bytes] by (simp add: sub_def)

definition filled :: "(nat \<times> bytes) list \<Rightarrow> (nat \<times> bytes) list" where
  "filled ls = filter (\<lambda>(at, l). \<not> blank l) ls"

text \<open>A line the parser reads as a document \<open>parse\<close> admits.\<close>

definition line_parses :: "('v, 'r) env \<Rightarrow> parse_opts \<Rightarrow> (bytes \<Rightarrow> doc) \<Rightarrow> bytes \<Rightarrow> bool" where
  "line_parses env po doc_of l \<longleftrightarrow> scans_as (env_scan env) l (popts po) (doc_of l) \<and> parse_accepts po (doc_of l)"

definition line_value :: "('v, 'r) env \<Rightarrow> parse_opts \<Rightarrow> (bytes \<Rightarrow> doc) \<Rightarrow> nat \<times> bytes \<Rightarrow> 'v" where
  "line_value env po doc_of = (\<lambda>(at, l). value_of (env_vm env) (symbolize po) (freeze po) (doc_of l))"

lemma each_line_prefix:
  assumes "vm_law (env_vm env)"
  shows "pool_ok (env_vm env) st \<Longrightarrow> \<forall>(at, l) \<in> set pre. sub bytes at (at + length l) = l \<and>
      (blank l \<or> line_parses env po doc_of l) \<Longrightarrow> \<forall>hs v. blk hs v = Inr () \<Longrightarrow>
    \<exists>st'. pool_ok (env_vm env) st' \<and> each_line env blk bytes po (pre @ rest) handed st =
      each_line env blk bytes po rest (handed @ map (line_value env po doc_of) (filled pre)) st'"
proof (induction pre arbitrary: handed st)
  case Nil
  then show ?case by (auto simp: filled_def)
next
  case (Cons x pre)
  obtain at l where x: "x = (at, l)" by fastforce
  show ?case
  proof (cases "blank l")
    case True
    with Cons x show ?thesis by (simp add: filled_def)
  next
    case False
    with Cons.prems x have "scans_as (env_scan env) (sub bytes at (at + length l)) (popts po) (doc_of l)"
      "parse_accepts po (doc_of l)" by (auto simp: line_parses_def)
    from materialize_accepted [OF assms Cons.prems(1) this] obtain st1 where
      m: "materialize_at env st bytes at (at + length l) po =
        Inr (value_of (env_vm env) (symbolize po) (freeze po) (doc_of l), st1)" "pool_ok (env_vm env) st1"
      by blast
    have "\<forall>(at, l) \<in> set pre. sub bytes at (at + length l) = l \<and> (blank l \<or> line_parses env po doc_of l)"
      using Cons.prems(2) by simp
    from Cons.IH [OF m(2) this Cons.prems(3), of "handed @ [line_value env po doc_of x]"] obtain st' where
      "pool_ok (env_vm env) st'" "each_line env blk bytes po (pre @ rest) (handed @ [line_value env po doc_of x]) st1 =
        each_line env blk bytes po rest ((handed @ [line_value env po doc_of x]) @ map (line_value env po doc_of) (filled pre)) st'"
      by blast
    moreover have "blk handed (line_value env po doc_of x) = Inr ()" using Cons.prems(3) by blast
    ultimately show ?thesis using False m(1) x by (auto simp: filled_def line_value_def)
  qed
qed

lemma walk_whole:
  "parse_native_opts opts = Inr po \<Longrightarrow> utf8_input data = Inr input \<Longrightarrow>
     each_line_native env blk st data opts = each_line env blk input po (lines_from 0 input) [] st"
  by (simp add: each_line_native_def walk_each_line)

text \<open>
  C34.  \<open>each_line\<close> hands the block exactly the values of the non-blank lines, in order, each
  as \<open>parse\<close> would give that line alone, when every one of them parses and the block returns.
\<close>

theorem each_line_values:
  assumes "vm_law (env_vm env)" and "pool_ok (env_vm env) st" and "parse_native_opts opts = Inr po"
    and "utf8_input data = Inr input" and "\<forall>(at, l) \<in> set (filled (lines_from 0 input)). line_parses env po doc_of l"
    and "\<forall>hs v. blk hs v = Inr ()"
  shows "\<exists>st'. each_line_native env blk st data opts =
      (map (line_value env po doc_of) (filled (lines_from 0 input)), Inr st') \<and> pool_ok (env_vm env) st'"
proof -
  have "\<forall>(at, l) \<in> set (lines_from 0 input). sub input at (at + length l) = l \<and> (blank l \<or> line_parses env po doc_of l)"
    using assms(5) line_slice by (force simp: filled_def)
  from each_line_prefix [OF assms(1,2) this assms(6), of "[]" "[]"] show ?thesis
    unfolding walk_whole [OF assms(3,4)] by auto
qed

abbreviation ascii_string :: "bytes \<Rightarrow> rstring" where
  "ascii_string b \<equiv> \<lparr>str_encoding = UsAscii, str_bytes = b\<rparr>"

lemma sample_line: "line_parses sample_env (parse_opts_default\<lparr>allow_duplicate_key := True\<rparr>)
    (\<lambda>_. strip sample_pdoc) sample_text"
  using sample_scans by (simp add: line_parses_def parse_accepts_def sample_strip parse_opts_default_def)

lemma sample_line_value: "line_value sample_env (parse_opts_default\<lparr>allow_duplicate_key := True\<rparr>)
    (\<lambda>_. strip sample_pdoc) x = TArray [THash [TInterned (asc ''a''), TInt 1, TInterned (asc ''a''), TInt 2]]"
  by (cases x) (simp add: line_value_def sample_strip parse_opts_default_def frozen_def key_value_def, simp add: term_vm_def)

theorem each_line_values_witness:
  "\<exists>st'. each_line_native sample_env (\<lambda>_ _. Inr ()) fresh_pull_state
      (ascii_string ([b_space, b_nl] @ sample_text @ [b_nl])) (OHash [(KSym ''allow_duplicate_key'', RTrue)]) =
    ([TArray [THash [TInterned (asc ''a''), TInt 1, TInterned (asc ''a''), TInt 2]]], Inr st') \<and> pool_ok term_vm st'"
proof -
  let ?in = "[b_space, b_nl] @ sample_text @ [b_nl]"
  have u: "utf8_input (ascii_string ?in) = Inr ?in" by (simp add: utf8_input_def sample_text_def asc_def)
  have f: "filled (lines_from 0 ?in) = [(2, sample_text)]"
    by (simp add: filled_def sample_text_def asc_def blank_def)
  have law: "vm_law (env_vm sample_env)" "pool_ok (env_vm sample_env) fresh_pull_state"
    by (simp_all add: term_vm_law fresh_pool_ok)
  show ?thesis
    using each_line_values [OF law parse_opts_allow_duplicates u, of "\<lambda>_. strip sample_pdoc" "\<lambda>_ _. Inr ()"]
      sample_line unfolding f by (simp add: sample_line_value)
qed

text \<open>Newlines before a line.\<close>

lemma line_number:
  "lines_from pos bs = pre @ (at, l) # rest \<Longrightarrow> off \<le> length l \<Longrightarrow>
     pos \<le> at \<and> count_newlines (take (at - pos + off) bs) = length pre"
proof (induction pos bs arbitrary: pre rule: lines_from.induct)
  case (2 pos b bs)
  let ?l = "takeWhile (\<lambda>b. b \<noteq> b_nl) (b # bs)"
  have no_nl: "count_newlines (take k ?l) = 0" for k
    using set_take_subset [of k ?l] set_takeWhileD [of _ "\<lambda>b. b \<noteq> b_nl" "b # bs"]
    unfolding count_newlines_def length_0_conv filter_empty_conv by blast
  show ?case
  proof (cases pre)
    case Nil
    with "2.prems" have "at = pos" "l = ?l" by (simp_all add: Let_def del: takeWhile.simps)
    moreover have "take off (b # bs) = take off ?l"
    proof -
      have "take off ?l = take off (take (length ?l) (b # bs))" by (simp only: takeWhile_eq_take [symmetric])
      then show ?thesis using "2.prems"(2) \<open>l = ?l\<close> by (simp only: take_take min.absorb1)
    qed
    ultimately show ?thesis using no_nl [of off] Nil by (simp del: takeWhile.simps)
  next
    case (Cons x pre')
    let ?n = "length ?l"
    from "2.prems" Cons have tail: "lines_from (pos + ?n + 1) (drop (?n + 1) (b # bs)) = pre' @ (at, l) # rest"
      by (simp add: Let_def del: takeWhile.simps)
    from "2.IH" [OF refl tail "2.prems"(2)] have ih: "pos + ?n + 1 \<le> at"
      "count_newlines (take (at - (pos + ?n + 1) + off) (drop (?n + 1) (b # bs))) = length pre'" by auto
    then have "drop (?n + 1) (b # bs) \<noteq> []" using tail by (auto simp del: drop_Suc_Cons)
    then have n: "?n < length (b # bs)" by (simp del: takeWhile.simps)
    have nl: "(b # bs) ! ?n = b_nl"
      using nth_length_takeWhile [OF n] by simp
    have split: "take (at - pos + off) (b # bs) = ?l @ [b_nl] @ take (at - (pos + ?n + 1) + off) (drop (?n + 1) (b # bs))"
    proof -
      have "at - pos + off = ?n + 1 + (at - (pos + ?n + 1) + off)" using ih(1) by simp
      then have "take (at - pos + off) (b # bs) = take (?n + 1) (b # bs) @ take (at - (pos + ?n + 1) + off) (drop (?n + 1) (b # bs))"
        by (metis take_add)
      moreover have "take (?n + 1) (b # bs) = ?l @ [b_nl]"
        using take_Suc_conv_app_nth [OF n] nl by (simp only: takeWhile_eq_take [symmetric] Suc_eq_plus1)
      ultimately show ?thesis by (simp only: append_assoc)
    qed
    have "count_newlines ?l = 0" using no_nl [of ?n] by (simp only: take_all order.refl)
    moreover have "count_newlines (xs @ [b_nl] @ ys) = count_newlines xs + 1 + count_newlines ys" for xs ys
      by (simp add: count_newlines_def)
    ultimately show ?thesis using ih Cons unfolding split by (simp only:) simp
  qed
qed simp

end
