(* ===== verification/Lines_Framing.thy ===== *)
theory Lines_Framing
  imports Gen_Results Lines Pointer
begin

text \<open>
  The two halves of JSON Lines together: what \<open>generate_lines\<close> (src/ext/nosj/src/gen/mod.rs)
  writes, and how the line walk of src/ext/nosj/src/lines.rs cuts it again.
\<close>

section \<open>Texts without newlines\<close>

definition flat :: "bytes \<Rightarrow> bool" where
  "flat b \<longleftrightarrow> b_nl \<notin> set b"

lemma flat_simps [simp]: "flat []" "flat (x # xs) \<longleftrightarrow> x \<noteq> b_nl \<and> flat xs" "flat (xs @ ys) \<longleftrightarrow> flat xs \<and> flat ys"
  by (auto simp: flat_def)

definition flat_emitter :: "emitter \<Rightarrow> bool" where
  "flat_emitter E \<longleftrightarrow> (\<forall>md b. flat (em_escape E md b)) \<and> (\<forall>f. flat (em_f64 E f)) \<and> (\<forall>i. flat (em_i64 E i))"

definition flat_config :: "gen_config \<Rightarrow> bool" where
  "flat_config cfg \<longleftrightarrow> flat (indent cfg) \<and> flat (space cfg) \<and> flat (space_before cfg) \<and>
     flat (object_nl cfg) \<and> flat (array_nl cfg)"

text \<open>Objects whose spliced texts (\<open>to_json\<close> results, bignum digits) hold no newline.\<close>

definition flat_info :: "other_info \<Rightarrow> bool" where
  "flat_info info \<longleftrightarrow>
     (\<forall>b. oi_to_json info = Inr (Some b) \<or> oi_to_json_if_responds info = Inr (Some b) \<longrightarrow> flat b)"

fun flat_obj :: "robj \<Rightarrow> bool"
  and flat_as :: "as_json \<Rightarrow> bool" where
  "flat_obj (OArr vs) = (\<forall>v \<in> set vs. flat_obj v)"
| "flat_obj (OHsh hi kvs) = (\<forall>kv \<in> set kvs. flat_obj (snd kv))"
| "flat_obj (OOther info asj) = (flat_info info \<and> flat_as asj)"
| "flat_obj (OBig digits) = flat digits"
| "flat_obj _ = True"
| "flat_as (AsValue v) = flat_obj v"
| "flat_as _ = True"

lemma framing_flat: "\<not> breaks_line_framing cfg \<Longrightarrow> flat_config cfg"
  by (auto simp: breaks_line_framing_def flat_config_def flat_def list_ex_iff)

lemma flat_indents: "flat_config cfg \<Longrightarrow> flat (indents cfg n)"
  by (induction n) (auto simp: indents_def flat_config_def)

lemma quoted_flat: "quoted E md s = Inr b \<Longrightarrow> flat_emitter E \<Longrightarrow> flat b"
  by (auto simp: quoted_def Let_def map_ok_tryr tryr_Inr_iff flat_emitter_def)

lemma scalar_flat: "scalar_text E cfg v = Inr b \<Longrightarrow> flat_emitter E \<Longrightarrow> flat_obj v \<Longrightarrow> flat b"
  by (cases v)
    (auto simp: scalar_text_def float_text_def flat_emitter_def asc_def float_name_def
      dest: quoted_flat [unfolded flat_emitter_def] split: if_splits)

lemma key_flat: "key_text E cfg k = Inr b \<Longrightarrow> flat_emitter E \<Longrightarrow> flat b"
  by (auto simp: key_text_def tryr_Inr_iff intro: quoted_flat)

lemma fallback_flat: "fallback_text E cfg info = Inr b \<Longrightarrow> flat_emitter E \<Longrightarrow> flat_info info \<Longrightarrow> flat b"
  by (cases "strict cfg")
    (auto simp: fallback_text_def spliced_def tryr_Inr_iff flat_info_def dest: quoted_flat
      split: if_splits option.splits)

lemma printed_flat:
  assumes E: "flat_emitter E"
  shows "flat_config cfg \<Longrightarrow> flat_obj v \<Longrightarrow> printed E cfg v d = Inr b \<Longrightarrow> flat b"
    "flat_config cfg \<Longrightarrow> \<forall>v \<in> set vs. flat_obj v \<Longrightarrow> printed_elems E cfg later vs d = Inr b \<Longrightarrow> flat b"
    "flat_config cfg \<Longrightarrow> \<forall>kv \<in> set kvs. flat_obj (snd kv) \<Longrightarrow> printed_pairs E cfg hi ks m first kvs d = Inr b \<Longrightarrow> flat b"
  using E
proof (induction E cfg v d and E cfg later vs d and E cfg hi ks m first kvs d arbitrary: b and b and b
    rule: printed_printed_elems_printed_pairs.induct)
  case (1 E cfg vs depth)
  then show ?case by (auto simp: tryr_Inr_iff cat_Inr_iff flat_indents flat_config_def split: if_splits)
next
  case (2 E cfg hi kvs depth)
  then show ?case by (auto simp: tryr_Inr_iff cat_Inr_iff flat_indents flat_config_def split: if_splits)
next
  case (3 E cfg info asj depth)
  have sp: "flat b" if "spliced info = Inr b"
    using that "3.prems"(2) by (auto simp: spliced_def tryr_Inr_iff flat_info_def split: option.splits)
  show ?case
  proof (cases "rails cfg")
    case True
    with "3.prems"(3) obtain fragment where f: "reraise (oi_is_fragment info) = Inr fragment"
      by (auto simp: tryr_Inr_iff)
    show ?thesis
    proof (cases fragment)
      case True
      with f \<open>rails cfg\<close> "3.prems"(3) have "spliced info = Inr b" by (simp add: reraise_def)
      then show ?thesis by (rule sp)
    next
      case False
      with f True "3.prems"(3) obtain v where v: "asj = AsValue v" "printed E cfg v depth = Inr b"
        by (cases asj) (simp_all add: reraise_def)
      show ?thesis
        by (rule "3.IH" [OF True f False v(1) "3.prems"(1) _ v(2) "3.prems"(4)]) (use "3.prems"(2) v(1) in simp)
    qed
  next
    case False
    with "3.prems" fallback_flat show ?thesis by auto
  qed
next
  case (6 E cfg later v vs inner)
  from "6.prems"(3) obtain b1 b2 where t: "printed E cfg v inner = Inr b1" "printed_elems E cfg True vs inner = Inr b2"
    and b: "b = (if later then [b_comma] else []) @ array_nl cfg @ indents cfg inner @ b1 @ b2"
    by (auto simp: cat_Inr_iff)
  have "flat b1" "flat b2"
    using "6.IH"(1) [OF "6.prems"(1) _ t(1) "6.prems"(4)] "6.IH"(2) [OF "6.prems"(1) _ t(2) "6.prems"(4)]
      "6.prems"(2) by auto
  then show ?case
    unfolding b using flat_indents [OF "6.prems"(1), of inner] "6.prems"(1) by (simp add: flat_config_def)
next
  case (8 E cfg hi ks m first k v kvs inner)
  obtain check m1 where nc: "needs_check (kind_of_key k) m = (check, m1)" by fastforce
  from "8.prems"(3) obtain bk b1 b2 where chk: "(if check then check_duplicate_keys E hi ks else Inr ()) = Inr ()"
    and t: "key_text E cfg k = Inr bk" "printed E cfg v inner = Inr b1"
    "printed_pairs E cfg hi ks m1 False kvs inner = Inr b2"
    and b: "b = (if first then [] else [b_comma]) @ object_nl cfg @ indents cfg inner @ bk @ space_before cfg @ [b_colon] @ space cfg @ b1 @ b2"
    by (auto simp: nc tryr_Inr_iff cat_Inr_iff)
  have "flat b1" "flat b2" "flat bk"
    using "8.IH"(1) [OF nc [symmetric] chk "8.prems"(1) _ t(2) "8.prems"(4)]
      "8.IH"(2) [OF nc [symmetric] chk "8.prems"(1) _ t(3) "8.prems"(4)]
      key_flat [OF t(1) "8.prems"(4)] "8.prems"(2) by auto
  then show ?case
    unfolding b using flat_indents [OF "8.prems"(1), of inner] "8.prems"(1) by (simp add: flat_config_def)
qed (use scalar_flat in auto)

section \<open>Generated lines\<close>

definition lines_text :: "bytes list \<Rightarrow> bytes" where
  "lines_text ts = concat (map (\<lambda>t. t @ [b_nl]) ts)"

lemma lines_loop_refines:
  assumes "config_ok cfg" and "emitter_ok E"
  shows "\<forall>obj \<in> set objs. sound_obj strs obj \<Longrightarrow> kc_good (heap_rendering E strs (cache_mode cfg)) keys \<Longrightarrow>
    \<exists>out' keys'. lines_loop E cfg objs out keys =
        (map_ok (\<lambda>_. ()) (collect (document_text E cfg) objs), out', keys') \<and>
      kc_good (heap_rendering E strs (cache_mode cfg)) keys' \<and>
      (\<forall>ts. collect (document_text E cfg) objs = Inr ts \<longrightarrow> out' = out @ lines_text ts)"
proof (induction objs arbitrary: out keys)
  case (Cons obj objs)
  from emit_one_refines [OF assms, of strs obj keys out] Cons.prems obtain out1 keys1
    where one: "emit_one E cfg obj out keys = (map_ok (\<lambda>_. ()) (document_text E cfg obj), out1, keys1)"
      "kc_good (heap_rendering E strs (cache_mode cfg)) keys1"
      "\<forall>b. document_text E cfg obj = Inr b \<longrightarrow> out1 = out @ b" by auto
  show ?case
  proof (cases "document_text E cfg obj")
    case (Inl e)
    with one show ?thesis by simp
  next
    case (Inr b)
    from Cons.IH [OF _ one(2), of "out @ b @ [b_nl]"] Cons.prems(1) one Inr show ?thesis
      by (cases "collect (document_text E cfg) objs") (auto simp: lines_text_def)
  qed
qed (simp add: lines_text_def)

lemma lines_bytes_into_leaves:
  assumes "emitter_ok E" and "\<forall>obj \<in> set objs. sound_obj strs obj" and "cell_good E strs cell"
  shows "leaves E strs (generate_lines_bytes_into E objs opts finish cell)
    (tryr (config_of opts) (\<lambda>cfg.
       if breaks_line_framing cfg
       then Inl (ArgumentError (msg ''formatting options containing newlines would break JSON Lines framing''))
       else map_ok (\<lambda>ts. finish (lines_text ts)) (collect (document_text E cfg) objs)))"
proof -
  have by_config: "generate_lines_bytes_into E objs opts finish cell =
      (case config_of opts of
         Inl e \<Rightarrow> (Inl e, cell)
       | Inr cfg \<Rightarrow>
           if breaks_line_framing cfg
           then (Inl (ArgumentError (msg ''formatting options containing newlines would break JSON Lines framing'')), cell)
           else with_scratch cell (\<lambda>sc.
             let (result, out, keys) = generate_lines_with E cfg objs (sc_buf sc) (sc_keys sc) finish
             in (result, sc\<lparr>sc_buf := out, sc_keys := keys\<rparr>)))"
    by (cases "opts = ONil"; cases "parse_gen_opts opts") (auto simp: generate_lines_bytes_into_def config_of_def)
  show ?thesis
  proof (cases "config_of opts")
    case (Inl e)
    with assms(3) show ?thesis by (simp add: by_config leaves_def)
  next
    case (Inr cfg)
    from config_of_ok [OF this] have cfg: "config_ok cfg" "cache_mode cfg = Standard" by (simp_all add: cache_mode_def)
    have "leaves E strs (with_scratch cell (\<lambda>sc.
        let (result, out, keys) = generate_lines_with E cfg objs (sc_buf sc) (sc_keys sc) finish
        in (result, sc\<lparr>sc_buf := out, sc_keys := keys\<rparr>)))
      (map_ok (\<lambda>ts. finish (lines_text ts)) (collect (document_text E cfg) objs))"
    proof (rule with_scratch_leaves [OF assms(3)], goal_cases)
      case (1 sc)
      then show ?case
        using lines_loop_refines [OF cfg(1) assms(1,2), of "sc_keys sc" "[]"] cfg(2)
        by (cases "collect (document_text E cfg) objs")
          (auto simp: generate_lines_with_def cell_good_def)
    qed
    with assms(3) Inr show ?thesis by (simp add: by_config leaves_def)
  qed
qed

lemma lines_native_leaves:
  assumes "emitter_ok E" and "\<forall>obj \<in> set objs. sound_obj strs obj" and "cell_good E strs cell"
  shows "leaves E strs (generate_lines_native E objs opts cell)
    (tryr (config_of opts) (\<lambda>cfg.
       if breaks_line_framing cfg
       then Inl (ArgumentError (msg ''formatting options containing newlines would break JSON Lines framing''))
       else map_ok lines_text (collect (document_text E cfg) objs)))"
  using lines_bytes_into_leaves [OF assms, of opts finish_rstring]
  by (simp add: generate_lines_native_def finish_rstring_def cong: if_cong)

text \<open>
  JSON Lines generation is one document after another, a newline after each, all through
  one scratch; options that would put a newline into a document raise \<open>ArgumentError\<close> instead,
  and the first document that fails is the error of the whole call.
\<close>

theorem generate_lines_refines:
  assumes "emitter_ok E" and "\<forall>obj \<in> set objs. sound_obj strs obj" and "cell_good E strs cell"
  shows "leaves E strs (generate_lines_native E objs opts cell)
    (tryr (config_of opts) (\<lambda>cfg.
       if breaks_line_framing cfg
       then Inl (ArgumentError (msg ''formatting options containing newlines would break JSON Lines framing''))
       else map_ok lines_text (collect (document_text E cfg) objs)))"
  by (rule lines_native_leaves [OF assms])

theorem generate_lines_refines_witness:
  "\<exists>cell. generate_lines_native sample_emitter [OFix 1, OArr []] ONil None =
      (Inr [0x31, b_nl, b_lbracket, b_rbracket, b_nl], cell) \<and> cell_good sample_emitter sample_strs cell"
  using generate_lines_refines [OF sample_emitter_ok, of "[OFix 1, OArr []]" sample_strs None ONil]
  by (cases "generate_lines_native sample_emitter [OFix 1, OArr []] ONil None")
    (simp add: leaves_def breaks_line_framing_def sample_print lines_text_def)

lemma lines_from_texts:
  "\<forall>t \<in> set ts. flat t \<Longrightarrow> map snd (lines_from pos (lines_text ts)) = ts"
proof (induction ts arbitrary: pos)
  case (Cons t ts)
  let ?rest = "lines_text ts"
  have tw: "takeWhile (\<lambda>b. b \<noteq> b_nl) (t @ b_nl # ?rest) = t"
    using Cons.prems by (subst takeWhile_append2) (auto simp: flat_def)
  obtain b bs where bs: "t @ b_nl # ?rest = b # bs" by (cases t) auto
  have "lines_from pos (t @ b_nl # ?rest) = (pos, t) # lines_from (pos + length t + 1) ?rest"
    using tw unfolding bs lines_from.simps Let_def
    by (simp add: bs [symmetric] del: takeWhile.simps drop_Suc_Cons) (simp add: Suc_diff_le)
  with Cons show ?case by (simp add: lines_text_def)
qed (simp add: lines_text_def)

lemma collect_texts_flat:
  assumes "flat_emitter E" and "flat_config cfg"
  shows "\<forall>obj \<in> set objs. flat_obj obj \<Longrightarrow> collect (document_text E cfg) objs = Inr ts \<Longrightarrow> \<forall>t \<in> set ts. flat t"
proof (induction objs arbitrary: ts)
  case (Cons obj objs)
  from Cons.prems(2) obtain t ts' where t: "document_text E cfg obj = Inr t" "ts = t # ts'"
    "collect (document_text E cfg) objs = Inr ts'"
    by (cases "document_text E cfg obj"; cases "collect (document_text E cfg) objs") auto
  from t(1) have "printed E cfg obj (start_depth cfg) = Inr t"
    by (cases "printed E cfg obj (start_depth cfg)") (simp_all add: document_text_def)
  with printed_flat(1) [OF assms] Cons t show ?case by auto
qed simp

text \<open>
  Framing round trip: cut at newlines the way \<open>each_line\<close> cuts, generated JSON Lines give
  back exactly the texts of the documents, one per line, in order; splitting never breaks a
  document because neither escaping nor the accepted formatting options put a newline into one.
\<close>

theorem lines_roundtrip:
  assumes "emitter_ok E" and "\<forall>obj \<in> set objs. sound_obj strs obj" and "cell_good E strs cell"
    and "flat_emitter E" and "\<forall>obj \<in> set objs. flat_obj obj" and "config_of opts = Inr cfg"
    and "fst (generate_lines_native E objs opts cell) = Inr out"
  shows "collect (document_text E cfg) objs = Inr (map snd (lines_from 0 out))"
proof -
  note g = lines_native_leaves [OF assms(1-3), of opts]
  from g assms(6,7) have fl: "\<not> breaks_line_framing cfg" by (auto simp: leaves_def split: if_splits)
  with g assms(6,7) obtain ts where ts: "collect (document_text E cfg) objs = Inr ts" "out = lines_text ts"
    by (cases "collect (document_text E cfg) objs") (auto simp: leaves_def)
  from lines_from_texts [OF collect_texts_flat [OF assms(4) framing_flat [OF fl] assms(5) ts(1)], of 0] ts
  show ?thesis by simp
qed

theorem lines_roundtrip_witness:
  "\<exists>out. fst (generate_lines_native sample_emitter [OFix 1, OStr (sample_str 1 ''a'')] ONil None) = Inr out \<and>
     collect (document_text sample_emitter DEFAULT_CONFIG) [OFix 1, OStr (sample_str 1 ''a'')] =
       Inr (map snd (lines_from 0 out))"
proof -
  let ?objs = "[OFix 1, OStr (sample_str 1 ''a'')]"
  have f: "flat_emitter sample_emitter" by (auto simp: flat_emitter_def sample_emitter_def flat_def asc_def)
  from lines_native_leaves [OF sample_emitter_ok _ cell_good_None, of ?objs sample_strs ONil] obtain out
    where "fst (generate_lines_native sample_emitter ?objs ONil None) = Inr out"
    by (auto simp: leaves_def breaks_line_framing_def sample_print split: sum.splits)
  with lines_roundtrip [OF sample_emitter_ok _ cell_good_None f _ default_config this, of sample_strs] show ?thesis by auto
qed

end
