(* ===== verification/Files.thy ===== *)
theory Files
  imports Lazy_Results File_Access Stats Reformat Lines_Framing
begin

text \<open>
  The file entry points of src/ext/nosj/src/files.rs, and those of stats.rs and reformat.rs,
  over the access layer of File_Access.  The writing entries return, beside their result, the
  writes they asked the operating system for.
\<close>

section \<open>Reading\<close>

definition load_file_native ::
  "('v, 'r) env \<Rightarrow> os \<Rightarrow> 'v pull_state \<Rightarrow> ruby_error + bytes \<Rightarrow> options_arg \<Rightarrow> ruby_error + 'v \<times> 'v pull_state" where
  "load_file_native env sys st path opts =
     tryr (parse_native_opts opts) (\<lambda>po.
     tryr path (\<lambda>p.
     tryr (map_err (io_error sys p) (read_into sys p)) (\<lambda>buf.
     if \<not> valid_utf8 buf then Inl not_utf8 else materialize env st buf po)))"

definition load_lazy_file_native ::
  "('v, 'r) env \<Rightarrow> os \<Rightarrow> 'v pull_state \<Rightarrow> ruby_error + bytes \<Rightarrow> options_arg \<Rightarrow>
     ruby_error + 'v lazy_value \<times> 'v pull_state" where
  "load_lazy_file_native env sys st path opts =
     tryr (parse_native_opts opts) (\<lambda>po.
     tryr path (\<lambda>p.
     with_mapped_file sys p (\<lambda>mapping. wrap_root env st (DocMmap mapping) po)))"

definition resolve_file_pointer ::
  "('v, 'r) env \<Rightarrow> resolver \<Rightarrow> os \<Rightarrow> 'v pull_state \<Rightarrow> bytes \<Rightarrow> bytes \<Rightarrow> parse_opts \<Rightarrow> ruby_error + 'v \<times> 'v pull_state" where
  "resolve_file_pointer env re sys st path pointer po =
     with_mapped_file sys path (\<lambda>mapping.
       case re_pointer re mapping pointer (popts po) of
         Inr None \<Rightarrow> Inr (vm_nil (env_vm env), st)
       | Inr (Some sl) \<Rightarrow> (case span_of sl of (start, end) \<Rightarrow> materialize_at env st mapping start end po)
       | Inl e \<Rightarrow>
           if pe_kind e = InvalidPointer then Inl (ArgumentError (env_show env e))
           else Inl (raised_at mapping (pe_offset e) (env_show env e)))"

definition at_pointer_file_native ::
  "('v, 'r) env \<Rightarrow> resolver \<Rightarrow> os \<Rightarrow> 'v pull_state \<Rightarrow> ruby_error + bytes \<Rightarrow> ruby_error + bytes \<Rightarrow> options_arg \<Rightarrow>
     ruby_error + 'v \<times> 'v pull_state" where
  "at_pointer_file_native env re sys st path pointer opts =
     tryr (parse_native_opts opts) (\<lambda>po.
     tryr path (\<lambda>p.
     tryr pointer (\<lambda>ptr.
     resolve_file_pointer env re sys st p ptr po)))"




section \<open>Writing\<close>

text \<open>The writes and the result, if the finisher ran, and no writes and the error otherwise.\<close>

fun written :: "ruby_error + 'w list \<times> (ruby_error + 'a) \<Rightarrow> 'w list \<times> (ruby_error + 'a)" where
  "written (Inl e) = ([], Inl e)"
| "written (Inr w) = w"

definition write_file_native ::
  "emitter \<Rightarrow> os \<Rightarrow> ruby_error + bytes \<Rightarrow> robj \<Rightarrow> options_arg \<Rightarrow> gen_scratch option \<Rightarrow>
     ((bytes \<times> bytes) list \<times> (ruby_error + nat)) \<times> gen_scratch option" where
  "write_file_native E sys path obj opts cell =
     (case path of
        Inl e \<Rightarrow> (([], Inl e), cell)
      | Inr p \<Rightarrow> apfst written (generate_bytes_into E obj opts (\<lambda>b. ([(p, b)], write_out sys p b)) cell))"

definition write_lines_native ::
  "emitter \<Rightarrow> os \<Rightarrow> ruby_error + bytes \<Rightarrow> robj list \<Rightarrow> options_arg \<Rightarrow> gen_scratch option \<Rightarrow>
     ((bytes \<times> bytes) list \<times> (ruby_error + nat)) \<times> gen_scratch option" where
  "write_lines_native E sys path objs opts cell =
     (case path of
        Inl e \<Rightarrow> (([], Inl e), cell)
      | Inr p \<Rightarrow> apfst written (generate_lines_bytes_into E objs opts (\<lambda>b. ([(p, b)], write_out sys p b)) cell))"

section \<open>Files as strings\<close>




lemma inner_bytes_simps [simp]:
  "inner_bytes \<lparr>di_bytes = DocOwned b, di_opts = po\<rparr> = b" "inner_bytes \<lparr>di_bytes = DocFrozen b, di_opts = po\<rparr> = b"
  "inner_bytes \<lparr>di_bytes = DocMmap b, di_opts = po\<rparr> = b"
  by (simp_all add: inner_bytes.simps)




definition sample_os :: os where
  "sample_os =
     \<lparr>os_windows = False, os_metadata = (\<lambda>_. Inr 15), os_open = (\<lambda>p. if p = asc ''f'' then Inr () else Inl \<lparr>oe_raw = Some 2, oe_kind = NotFound, oe_text = ''no such file''\<rparr>),
      os_read = (\<lambda>_. Inr sample_text), os_map = (\<lambda>_. Inr sample_text),
      os_write = (\<lambda>_ _. Inr ()), os_syserr = (\<lambda>n _. Inr (Some n))\<rparr>"




definition unreadable :: "os \<Rightarrow> bytes \<Rightarrow> ruby_error \<Rightarrow> bool" where
  "unreadable sys p err \<longleftrightarrow> (\<exists>e. os_open sys p = Inl e \<and> err = io_error sys p e) \<or>
     (\<exists>content. file_is sys p content \<and> \<not> valid_utf8 content \<and> err = not_utf8)"

lemma unreadable_mapped: "unreadable sys p err \<Longrightarrow> with_mapped_file sys p f = Inl err"
  unfolding unreadable_def using mapped_invalid by (fastforce simp: with_mapped_file_def)

lemma unreadable_read:
  "unreadable sys p err \<Longrightarrow>
     tryr (map_err (io_error sys p) (read_into sys p)) (\<lambda>buf. if \<not> valid_utf8 buf then Inl not_utf8 else k buf) = Inl err"
  by (auto simp: unreadable_def read_into_def file_is_def)

text \<open>
  A file that cannot be opened raises the Errno exception of its OS error from every reading
  entry whose other arguments are good (a plain \<open>RuntimeError\<close> for an error without a code or a
  path with a NUL byte), and one that is not UTF-8 raises \<open>ParserError\<close>, before any JSON is
  looked at.
\<close>

theorem unreadable_files:
  assumes "parse_native_opts opts = Inr po" and "unreadable sys p err"
  shows "load_file_native env sys st (Inr p) opts = Inl err \<and>
    load_lazy_file_native env sys st (Inr p) opts = Inl err \<and>
    at_pointer_file_native env re sys st (Inr p) (Inr ptr) opts = Inl err"
  by (simp add: load_file_native_def load_lazy_file_native_def at_pointer_file_native_def resolve_file_pointer_def
      assms(1) unreadable_mapped [OF assms(2)] unreadable_read [OF assms(2)])

theorem unreadable_files_witness:
  "load_file_native sample_env sample_os fresh_pull_state (Inr (asc ''gone'')) ONil = Inl (Raised 2)"
proof -
  let ?e = "\<lparr>oe_raw = Some 2, oe_kind = NotFound, oe_text = ''no such file''\<rparr>"
  have "os_open sample_os (asc ''gone'') = Inl ?e" by (simp add: sample_os_def asc_def)
  moreover have "io_error sample_os (asc ''gone'') ?e = Raised 2" by (simp add: io_error_def errno_of_def errno_of_unix_def sample_os_def asc_def)
  ultimately show ?thesis
    using unreadable_files [of ONil parse_opts_default sample_os "asc ''gone''" "Raised 2" sample_env fresh_pull_state]
    by (simp add: parse_native_opts_def unreadable_def)
qed

text \<open>
  \<open>write_file\<close> asks for one write of exactly the text generation gives the object, and
  returns its length or the error of the write; when generation fails nothing is written, so a
  failed call leaves an existing file as it was.  Every outcome leaves the scratch good.
\<close>

theorem write_file_exact:
  assumes "emitter_ok E" and "sound_obj strs obj" and "cell_good E strs cell"
  shows "leaves E strs (write_file_native E sys (Inr p) obj opts cell)
    (case tryr (config_of opts) (\<lambda>cfg. document_text E cfg obj) of
       Inl e \<Rightarrow> ([], Inl e)
     | Inr b \<Rightarrow> ([(p, b)], case os_write sys p b of Inl e \<Rightarrow> Inl (io_error sys p e) | Inr _ \<Rightarrow> Inr (length b)))"
proof (cases "config_of opts")
  case (Inr cfg)
  have "leaves E strs (generate_bytes_into E obj opts (\<lambda>b. ([(p, b)], write_out sys p b)) cell)
      (map_ok (\<lambda>b. ([(p, b)], write_out sys p b)) (document_text E cfg obj))"
    using bytes_into_leaves [OF assms, of opts] Inr by simp
  then show ?thesis
    using Inr by (cases "document_text E cfg obj")
      (auto simp: leaves_def write_file_native_def write_out_def split: sum.split)
qed (use bytes_into_leaves [OF assms, of opts "\<lambda>b. ([(p, b)], write_out sys p b)"] in
  \<open>simp add: leaves_def write_file_native_def\<close>)

theorem write_file_exact_witness:
  "fst (write_file_native sample_emitter sample_os (Inr (asc ''f'')) (OArr []) ONil None) =
     ([(asc ''f'', asc ''[]'')], Inr 2)"
proof -
  have "tryr (config_of ONil) (\<lambda>cfg. document_text sample_emitter cfg (OArr [])) = Inr (asc ''[]'')"
    by (simp add: sample_print)
  moreover have "os_write sample_os (asc ''f'') (asc ''[]'') = Inr ()" by (simp add: sample_os_def)
  ultimately show ?thesis
    using write_file_exact [OF sample_emitter_ok, where strs = sample_strs and obj = "OArr []" and cell = None
        and opts = ONil and sys = sample_os and p = "asc ''f''"]
    by (simp add: leaves_def)
qed

end
