(* ===== verification/Patch.thy ===== *)
theory Patch
  imports Children Gen_Results
begin

text \<open>
  Byte-splicing edits and RFC 6902 JSON Patch over raw documents: src/ext/nosj/src/patch.rs.
  The crate's resolver and Reader, the Ruby VM, the equality \<open>==\<close> of \<open>test\<close> and the emission
  kernels are parameters; the key-cache scratch and the parse state are threaded through the
  operations as the code threads them.
\<close>

section \<open>Targets\<close>

definition patch_error :: "message \<Rightarrow> ruby_error" where
  "patch_error m = PatchError m"

definition arg_error :: "message \<Rightarrow> ruby_error" where
  "arg_error m = ArgumentError m"

definition gen_config_for :: "options_arg \<Rightarrow> ruby_error + gen_config" where
  "gen_config_for opts = (if opts = ONil then Inr DEFAULT_CONFIG else map_ok fst (parse_gen_opts opts))"

definition span_at :: "('v, 'r) env \<Rightarrow> resolver \<Rightarrow> bytes \<Rightarrow> bytes \<Rightarrow> ruby_error + (nat \<times> nat) option" where
  "span_at env re doc pointer =
     (case re_pointer re doc pointer popts_default of
        Inr None \<Rightarrow> Inr None
      | Inr (Some sl) \<Rightarrow> Inr (Some (span_of sl))
      | Inl e \<Rightarrow> Inl (resolve_error env doc e))"

definition container_children ::
  "('v, 'r) env \<Rightarrow> bytes \<Rightarrow> nat \<Rightarrow> nat \<Rightarrow> ruby_error + byte \<times> child_span list" where
  "container_children env doc start end =
     (let span = sub doc start end;
          kind = (case span of [] \<Rightarrow> 0 | b # _ \<Rightarrow> b)
      in case children_walk (env_reader env) (kind = KIND_OBJECT) start (rd_open (env_reader env) span popts_default) of
           None \<Rightarrow> Inl Hang
         | Some (Inl e) \<Rightarrow> Inl (raised_at doc (start + pe_offset e) (env_show env e))
         | Some (Inr children) \<Rightarrow> Inr (kind, children))"

function skip_ws :: "bytes \<Rightarrow> nat \<Rightarrow> nat" where
  "skip_ws doc pos = (if pos < length doc \<and> is_ws (doc ! pos) then skip_ws doc (pos + 1) else pos)"
  by pat_completeness auto

termination by (relation "measure (\<lambda>(doc, pos). length doc - pos)") auto

declare skip_ws.simps [simp del]

definition entry_start :: "bytes \<Rightarrow> nat \<Rightarrow> child_span list \<Rightarrow> nat \<Rightarrow> nat" where
  "entry_start doc container_start children i =
     (if i = 0 then skip_ws doc (container_start + 1)
      else let after_prev = skip_ws doc (cs_end (children ! (i - 1)))
           in skip_ws doc (after_prev + 1))"

section \<open>Edits\<close>

text \<open>
  The \<open>?\<close> on an emission: an edit goes on with the text and the cell, or fails; the cell a
  failed emission leaves is good too (\<open>emit_into_leaves\<close>), but no edit looks at it.
\<close>

definition settle :: "('e + 'a) \<times> 'c \<Rightarrow> 'e + 'a \<times> 'c" where
  "settle r = map_ok (\<lambda>x. (x, snd r)) (fst r)"

datatype insert = InsValue robj | InsOwned bytes | InsNothing

definition apply_edit ::
  "emitter \<Rightarrow> bytes \<Rightarrow> nat \<Rightarrow> nat \<Rightarrow> insert \<Rightarrow> gen_config \<Rightarrow> gen_scratch option \<Rightarrow>
     ruby_error + bytes \<times> gen_scratch option" where
  "apply_edit E doc start end ins cfg cell =
     (let out = take start doc
      in tryr (case ins of
                 InsValue v \<Rightarrow> settle (emit_into E cfg v out cell)
               | InsOwned b \<Rightarrow> Inr (out @ b, cell)
               | InsNothing \<Rightarrow> Inr (out, cell)) (\<lambda>(out, cell).
         Inr (out @ drop end doc, cell)))"

text \<open>\<open>unreachable!\<close> is a panic.\<close>

definition extend_insert ::
  "emitter \<Rightarrow> bytes \<Rightarrow> insert \<Rightarrow> gen_config \<Rightarrow> gen_scratch option \<Rightarrow> ruby_error + bytes \<times> gen_scratch option" where
  "extend_insert E out ins cfg cell =
     (case ins of
        InsValue v \<Rightarrow> settle (emit_into E cfg v out cell)
      | InsOwned raw \<Rightarrow> Inr (out @ raw, cell)
      | InsNothing \<Rightarrow> Inl Panic)"

text \<open>\<open>str_new\<close>: a fresh UTF-8 String of these bytes, not frozen; so its VALUE, here 0, is never looked
  up in a cache.\<close>

definition str_new :: "bytes \<Rightarrow> gstr" where
  "str_new key =
     \<lparr>gs_id = 0, gs_frozen = False, gs_cr = (if list_all (\<lambda>b. b < 0x80) key then Cr7Bit else CrValid),
      gs_enc = EncUtf8, gs_bytes = key, gs_encoded = Inr (CrValid, key)\<rparr>"

definition render_entry ::
  "emitter \<Rightarrow> bytes \<Rightarrow> insert \<Rightarrow> gen_config \<Rightarrow> gen_scratch option \<Rightarrow> ruby_error + bytes \<times> gen_scratch option" where
  "render_entry E key ins cfg cell =
     tryr (settle (emit_into E cfg (OStr (str_new key)) [] cell)) (\<lambda>(out, cell).
     extend_insert E (out @ [b_colon]) ins cfg cell)"

section \<open>Operations\<close>

definition op_add ::
  "('v, 'r) env \<Rightarrow> resolver \<Rightarrow> emitter \<Rightarrow> bytes \<Rightarrow> bytes \<Rightarrow> insert \<Rightarrow> gen_config \<Rightarrow> gen_scratch option \<Rightarrow>
     ruby_error + bytes \<times> gen_scratch option" where
  "op_add env re E doc path ins cfg cell =
     tryr (split_pointer (env_show env) path) (\<lambda>target.
     case target of
       None \<Rightarrow> apply_edit E doc 0 (length doc) ins cfg cell
     | Some (parent, token) \<Rightarrow>
         tryr (span_at env re doc parent) (\<lambda>found.
         case found of
           None \<Rightarrow> Inl (patch_error (Fmt ''add target parent {} does not exist'' [ABytes parent]))
         | Some (pstart, pend) \<Rightarrow>
             tryr (container_children env doc pstart pend) (\<lambda>(kind, children).
             if kind = KIND_OBJECT
             then case position (\<lambda>c. cs_key c = Some token) children of
                    Some i \<Rightarrow> apply_edit E doc (cs_start (children ! i)) (cs_end (children ! i)) ins cfg cell
                  | None \<Rightarrow>
                      tryr (render_entry E token ins cfg cell) (\<lambda>(entry, cell).
                      if children \<noteq> []
                      then let at = cs_end (last children)
                           in apply_edit E doc at at (InsOwned ([b_comma] @ entry)) cfg cell
                      else apply_edit E doc (pend - 1) (pend - 1) (InsOwned entry) cfg cell)
             else
               tryr (if token = [0x2D] then Inr (length children)
                     else case parse_index token of
                            Some n \<Rightarrow> Inr n
                          | None \<Rightarrow> Inl (patch_error (Fmt ''invalid array index {} in {}'' [ABytes token, ABytes path]))) (\<lambda>index.
               if length children < index
               then Inl (patch_error (Fmt ''array index {} out of range in {}'' [ANat index, ABytes path]))
               else if index = length children
               then if children \<noteq> []
                    then let at = cs_end (last children)
                         in tryr (extend_insert E [b_comma] ins cfg cell) (\<lambda>(b, cell).
                            apply_edit E doc at at (InsOwned b) cfg cell)
                    else tryr (extend_insert E [] ins cfg cell) (\<lambda>(b, cell).
                         apply_edit E doc (pend - 1) (pend - 1) (InsOwned b) cfg cell)
               else let at = cs_start (children ! index)
                    in tryr (extend_insert E [] ins cfg cell) (\<lambda>(b, cell).
                       apply_edit E doc at at (InsOwned (b @ [b_comma])) cfg cell)))))"

definition op_remove ::
  "('v, 'r) env \<Rightarrow> resolver \<Rightarrow> emitter \<Rightarrow> bytes \<Rightarrow> bytes \<Rightarrow> gen_scratch option \<Rightarrow>
     ruby_error + bytes \<times> gen_scratch option" where
  "op_remove env re E doc path cell =
     tryr (split_pointer (env_show env) path) (\<lambda>target.
     case target of
       None \<Rightarrow> Inl (patch_error (msg ''cannot remove the root''))
     | Some (parent, token) \<Rightarrow>
         tryr (span_at env re doc parent) (\<lambda>found.
         case found of
           None \<Rightarrow> Inl (patch_error (Fmt ''remove target parent {} does not exist'' [ABytes parent]))
         | Some (pstart, pend) \<Rightarrow>
             tryr (container_children env doc pstart pend) (\<lambda>(kind, children).
             case (if kind = KIND_OBJECT then position (\<lambda>c. cs_key c = Some token) children
                   else case parse_index token of
                          Some i \<Rightarrow> if i < length children then Some i else None
                        | None \<Rightarrow> None) of
               None \<Rightarrow> Inl (patch_error (Fmt ''remove target {} does not exist'' [ABytes path]))
             | Some i \<Rightarrow>
                 (let (rs, re) =
                    (if length children = 1 then (pstart + 1, pend - 1)
                     else if i + 1 < length children
                     then (entry_start doc pstart children i, entry_start doc pstart children (i + 1))
                     else (cs_end (children ! (i - 1)), cs_end (children ! i)))
                  in apply_edit E doc rs re InsNothing DEFAULT_CONFIG cell))))"

text \<open>\<open>equal\<close> is Ruby's \<open>==\<close> between the materialized value and the expected object.\<close>

definition op_test ::
  "('v, 'r) env \<Rightarrow> resolver \<Rightarrow> ('v \<Rightarrow> robj \<Rightarrow> ruby_error + bool) \<Rightarrow> 'v pull_state \<Rightarrow> bytes \<Rightarrow> bytes \<Rightarrow> robj \<Rightarrow>
     ruby_error + 'v pull_state" where
  "op_test env re equal st doc path expected =
     tryr (span_at env re doc path) (\<lambda>found.
     case found of
       None \<Rightarrow> Inl (patch_error (Fmt ''test target {} does not exist'' [ABytes path]))
     | Some (start, end) \<Rightarrow>
         tryr (materialize_at env st doc start end parse_opts_default) (\<lambda>(actual, st).
         tryr (equal actual expected) (\<lambda>eq.
         if \<not> eq then Inl (patch_error (Fmt ''test failed at {}'' [ABytes path])) else Inr st)))"

section \<open>Patches\<close>

text \<open>A field of an operation: the outcome of reading it as a String, if it is one, and the object.\<close>

record op_value =
  ov_string :: "(ruby_error + bytes) option"
  ov_object :: robj

datatype field_key = FString string | FSymbol string

type_synonym op_hash = "(field_key \<times> op_value) list"

definition op_field :: "op_hash \<Rightarrow> string \<Rightarrow> op_value option" where
  "op_field op name =
     (case map_of op (FString name) of Some v \<Rightarrow> Some v | None \<Rightarrow> map_of op (FSymbol name))"

definition op_str_field :: "op_hash \<Rightarrow> string \<Rightarrow> ruby_error + bytes option" where
  "op_str_field op name =
     (case op_field op name of
        None \<Rightarrow> Inr None
      | Some v \<Rightarrow>
          (case ov_string v of
             None \<Rightarrow> Inl (arg_error (Fmt ''patch op {} must be a String'' [AText name]))
           | Some s \<Rightarrow> map_ok Some s))"

text \<open>A field that must be there, or the error.\<close>

definition required :: "ruby_error + 'a option \<Rightarrow> message \<Rightarrow> ruby_error + 'a" where
  "required r m = tryr r (\<lambda>v. case v of Some x \<Rightarrow> Inr x | None \<Rightarrow> Inl (arg_error m))"

record 'v patch_state =
  ps_doc :: bytes
  ps_cell :: "gen_scratch option"
  ps_pull :: "'v pull_state"

definition with_doc :: "'v patch_state \<Rightarrow> ruby_error + bytes \<times> gen_scratch option \<Rightarrow> ruby_error + 'v patch_state" where
  "with_doc s r = map_ok (\<lambda>(doc, cell). s\<lparr>ps_doc := doc, ps_cell := cell\<rparr>) r"

definition patch_op ::
  "('v, 'r) env \<Rightarrow> resolver \<Rightarrow> emitter \<Rightarrow> ('v \<Rightarrow> robj \<Rightarrow> ruby_error + bool) \<Rightarrow> gen_config \<Rightarrow> nat \<Rightarrow>
     op_hash \<Rightarrow> 'v patch_state \<Rightarrow> ruby_error + 'v patch_state" where
  "patch_op env re E equal cfg i op s =
     (let doc = ps_doc s; cell = ps_cell s in
      tryr (required (op_str_field op ''op'') (Fmt ''patch op {} is missing {}'' [ANat i, AText ''op''])) (\<lambda>name.
      tryr (required (op_str_field op ''path'') (Fmt ''patch op {} is missing {}'' [ANat i, AText ''path''])) (\<lambda>path.
      let val = required (Inr (op_field op ''value'')) (Fmt ''patch op {} ({}) is missing {}'' [ANat i, ABytes name, AText ''value'']);
          from = required (op_str_field op ''from'') (Fmt ''patch op {} ({}) is missing {}'' [ANat i, ABytes name, AText ''from''])
      in if name = asc ''add''
         then tryr val (\<lambda>v. with_doc s (op_add env re E doc path (InsValue (ov_object v)) cfg cell))
         else if name = asc ''replace''
         then tryr (span_at env re doc path) (\<lambda>found.
              case found of
                None \<Rightarrow> Inl (patch_error (Fmt ''replace target {} does not exist'' [ABytes path]))
              | Some (st, en) \<Rightarrow>
                  tryr val (\<lambda>v. with_doc s (apply_edit E doc st en (InsValue (ov_object v)) cfg cell)))
         else if name = asc ''remove''
         then with_doc s (op_remove env re E doc path cell)
         else if name = asc ''move''
         then tryr from (\<lambda>from.
              if path = from then Inr s
              else if take (length from + 1) path = from @ [b_slash]
              then Inl (patch_error (Fmt ''cannot move {} into its own child {}'' [ABytes from, ABytes path]))
              else tryr (span_at env re doc from) (\<lambda>found.
                   case found of
                     None \<Rightarrow> Inl (patch_error (Fmt ''move source {} does not exist'' [ABytes from]))
                   | Some (st, en) \<Rightarrow>
                       let raw = sub doc st en
                       in tryr (op_remove env re E doc from cell) (\<lambda>(removed, cell).
                          with_doc s (op_add env re E removed path (InsOwned raw) cfg cell))))
         else if name = asc ''copy''
         then tryr from (\<lambda>from.
              tryr (span_at env re doc from) (\<lambda>found.
              case found of
                None \<Rightarrow> Inl (patch_error (Fmt ''copy source {} does not exist'' [ABytes from]))
              | Some (st, en) \<Rightarrow>
                  let raw = sub doc st en
                  in with_doc s (op_add env re E doc path (InsOwned raw) cfg cell)))
         else if name = asc ''test''
         then tryr val (\<lambda>v.
              tryr (op_test env re equal (ps_pull s) doc path (ov_object v)) (\<lambda>st.
              Inr (s\<lparr>ps_pull := st\<rparr>)))
         else Inl (arg_error (Fmt ''unknown patch op {}'' [ABytes name])))))"

text \<open>The loop over the operations; None is an entry that is not a Hash.\<close>

fun patch_loop ::
  "('v, 'r) env \<Rightarrow> resolver \<Rightarrow> emitter \<Rightarrow> ('v \<Rightarrow> robj \<Rightarrow> ruby_error + bool) \<Rightarrow> gen_config \<Rightarrow> nat \<Rightarrow>
     op_hash option list \<Rightarrow> 'v patch_state \<Rightarrow> ruby_error + 'v patch_state" where
  "patch_loop env re E equal cfg i [] s = Inr s"
| "patch_loop env re E equal cfg i (entry # ops) s =
     tryr (case entry of
             None \<Rightarrow> Inl (arg_error (Fmt ''patch op {} is not a Hash'' [ANat i]))
           | Some op \<Rightarrow> patch_op env re E equal cfg i op s) (\<lambda>s.
     patch_loop env re E equal cfg (i + 1) ops s)"

definition patch_native ::
  "('v, 'r) env \<Rightarrow> resolver \<Rightarrow> emitter \<Rightarrow> ('v \<Rightarrow> robj \<Rightarrow> ruby_error + bool) \<Rightarrow> 'v pull_state \<Rightarrow>
     gen_scratch option \<Rightarrow> rstring \<Rightarrow> op_hash option list \<Rightarrow> options_arg \<Rightarrow> ruby_error + 'v patch_state" where
  "patch_native env re E equal st cell data ops opts =
     tryr (gen_config_for opts) (\<lambda>cfg.
     tryr (utf8_input data) (\<lambda>input.
     patch_loop env re E equal cfg 0 ops \<lparr>ps_doc = input, ps_cell = cell, ps_pull = st\<rparr>))"

section \<open>Splice\<close>

text \<open>
  The edits: the outcome of reading the key as a String, if it is one, and the value.  The
  first loop collects the pointers and renders every value, one behind the other.
\<close>

fun splice_render ::
  "emitter \<Rightarrow> gen_config \<Rightarrow> ((ruby_error + bytes) option \<times> robj) list \<Rightarrow> bytes \<Rightarrow> gen_scratch option \<Rightarrow>
     ruby_error + (bytes list \<times> (nat \<times> nat) list) \<times> bytes \<times> gen_scratch option" where
  "splice_render E cfg [] rendered cell = Inr (([], []), rendered, cell)"
| "splice_render E cfg ((k, v) # edits) rendered cell =
     tryr (case k of None \<Rightarrow> Inl (arg_error (msg ''splice pointers must be Strings'')) | Some s \<Rightarrow> s) (\<lambda>ptr.
     tryr (settle (emit_into E cfg v rendered cell)) (\<lambda>(rendered', cell).
     map_ok (\<lambda>((ptrs, ranges), r). ((ptr # ptrs, (length rendered, length rendered') # ranges), r))
       (splice_render E cfg edits rendered' cell)))"

fun splice_spans :: "bytes list \<Rightarrow> nat \<Rightarrow> (nat \<times> nat) option list \<Rightarrow> ruby_error + (nat \<times> nat \<times> nat) list" where
  "splice_spans pointers i [] = Inr []"
| "splice_spans pointers i (hit # hits) =
     (case hit of
        None \<Rightarrow> Inl (KeyError (Fmt ''pointer {} does not resolve'' [ABytes (pointers ! i)]))
      | Some sl \<Rightarrow>
          (case span_of sl of (s, e) \<Rightarrow> map_ok (\<lambda>spans. (s, e, i) # spans) (splice_spans pointers (i + 1) hits)))"

text \<open>
  The sweep.  The unstable sort is modelled by a stable one: spans that start together overlap,
  in either order, since a value has at least one byte.
\<close>

fun splice_sweep :: "bytes \<Rightarrow> bytes \<Rightarrow> (nat \<times> nat) list \<Rightarrow> nat \<Rightarrow> (nat \<times> nat \<times> nat) list \<Rightarrow> bytes \<Rightarrow> bytes" where
  "splice_sweep input rendered ranges pos [] out = out @ drop pos input"
| "splice_sweep input rendered ranges pos ((s, e, edit) # spans) out =
     (case ranges ! edit of (rs, re) \<Rightarrow>
        splice_sweep input rendered ranges e spans (out @ sub input pos s @ sub rendered rs re))"

text \<open>\<open>data'\<close> is the source as the callbacks of generation leave it.\<close>

definition splice_native ::
  "('v, 'r) env \<Rightarrow> resolver \<Rightarrow> emitter \<Rightarrow> gen_scratch option \<Rightarrow> rstring \<Rightarrow> rstring \<Rightarrow>
     ((ruby_error + bytes) option \<times> robj) list \<Rightarrow> options_arg \<Rightarrow> ruby_error + bytes \<times> gen_scratch option" where
  "splice_native env re E cell data data' edits opts =
     tryr (gen_config_for opts) (\<lambda>cfg.
     tryr (utf8_input data) (\<lambda>_.
     tryr (splice_render E cfg edits [] cell) (\<lambda>((pointers, ranges), rendered, cell).
     tryr (utf8_input data') (\<lambda>input.
     tryr (map_err (resolve_error env input) (re_pointers re input pointers popts_default)) (\<lambda>hits.
     tryr (splice_spans pointers 0 hits) (\<lambda>spans.
     let spans = sort_key fst spans
     in if any_window (\<lambda>p q. fst q < fst (snd p)) spans
        then Inl (arg_error (msg ''splice targets overlap (one pointer addresses a value inside another)''))
        else Inr (splice_sweep input rendered ranges 0 spans [], cell)))))))"

end
