(* ===== verification/Patch_Edits.thy ===== *)
theory Patch_Edits
  imports Patch
begin

text \<open>
  What \<open>add\<close> and \<open>remove\<close> of patch.rs do to a container, stated on its entries: a document is
  the bytes before a container, the container's text and the bytes after it; the edits turn
  that text into the text of the edited entry list and leave every other byte alone.
\<close>

section \<open>Scanning between entries\<close>

lemma json_space_append [simp]: "json_space (a @ b) \<longleftrightarrow> json_space a \<and> json_space b"
  by (auto simp: json_space_def)

lemma json_space_Nil [simp]: "json_space []"
  by (simp add: json_space_def)

lemma skip_ws_over:
  "json_space w \<Longrightarrow> rest = [] \<or> \<not> is_ws (hd rest) \<Longrightarrow> skip_ws (a @ w @ rest) (length a) = length a + length w"
proof (induction w arbitrary: a)
  case Nil
  then show ?case by (subst skip_ws.simps) (auto simp: nth_append hd_conv_nth)
next
  case (Cons b w)
  from Cons.prems have b: "is_ws b" and w: "json_space w" by (auto simp: json_space_def)
  from Cons.IH [OF w Cons.prems(2), of "a @ [b]"] b show ?case
    by (subst skip_ws.simps) (simp add: nth_append)
qed

lemma skip_ws_at:
  assumes "doc = a @ w @ rest" and "pos = length a" and "json_space w" and "rest = [] \<or> \<not> is_ws (hd rest)"
  shows "skip_ws doc pos = length a + length w"
  using skip_ws_over [OF assms(3,4)] assms(1,2) by simp

text \<open>A document with a container in it, and the pointer that leads there.\<close>

definition doc_with :: "bytes \<Rightarrow> bool \<Rightarrow> bytes \<Rightarrow> entry list \<Rightarrow> bytes \<Rightarrow> bytes" where
  "doc_with before object ws es after = before @ container_text object ws es @ after"

lemma hd_entry: "wf_entry object e \<Longrightarrow> en_head e @ en_val e @ r \<noteq> [] \<and> \<not> is_ws (hd (en_head e @ en_val e @ r))"
  by (cases "en_head e"; cases "en_val e") (auto simp: wf_entry_def)

lemma comma_not_ws: "\<not> is_ws b_comma"
  by (simp add: json_ws_def)

text \<open>An entry starts where its head does.\<close>

lemma entry_start_at:
  assumes "\<forall>e \<in> set (xs @ e # ys). wf_entry object e"
  shows "entry_start (doc_with before object ws (xs @ e # ys) after) (length before)
      (entry_spans (length before + 1) (xs @ e # ys)) (length xs) =
    length before + 1 + length (entries_before xs) + length (en_pre e)"
proof -
  let ?doc = "doc_with before object ws (xs @ e # ys) after"
  let ?open = "if object then b_lbrace else b_lbracket" and ?close = "if object then b_rbrace else b_rbracket"
  let ?tail = "en_head e @ en_val e @ en_post e @ entries_after ys @ [?close] @ after"
  have doc: "?doc = before @ [?open] @ entries_before xs @ en_pre e @ ?tail"
    by (simp only: doc_with_def container_text_def entries_text_at entry_text_def) simp
  have e: "json_space (en_pre e)" "?tail = [] \<or> \<not> is_ws (hd ?tail)"
    using assms hd_entry [of object e "en_post e @ entries_after ys @ [?close] @ after"]
    by (auto simp: wf_entry_def)
  show ?thesis
  proof (cases xs rule: rev_cases)
    case Nil
    have "skip_ws ?doc (length before + 1) = length (before @ [?open]) + length (en_pre e)"
      by (rule skip_ws_at [OF _ _ e]) (use doc Nil in \<open>simp_all add: entries_before_def\<close>)
    with Nil show ?thesis by (simp add: entry_start_def entries_before_def)
  next
    case (snoc us p)
    have post: "json_space (en_post p)" using assms snoc by (auto simp: wf_entry_def)
    let ?upto = "before @ [?open] @ entries_before us @ en_pre p @ en_head p @ en_val p"
    have doc': "?doc = ?upto @ en_post p @ [b_comma] @ en_pre e @ ?tail"
      using doc by (simp add: snoc entries_before_def entry_text_def)
    have nth: "entry_spans (length before + 1) (xs @ e # ys) ! (length xs - 1) =
        (let s = length before + 1 + length (entries_before us) + length (en_pre p) + length (en_head p)
         in \<lparr>cs_key = en_key p, cs_start = s, cs_end = s + length (en_val p)\<rparr>)"
      using entry_spans_nth [of "length before + 1" us p "e # ys"] snoc by simp
    have 1: "skip_ws ?doc (length ?upto) = length ?upto + length (en_post p)"
      by (rule skip_ws_at [OF doc' refl post]) (simp add: comma_not_ws)
    have 2: "skip_ws ?doc (length ?upto + length (en_post p) + 1) =
        length (?upto @ en_post p @ [b_comma]) + length (en_pre e)"
      by (rule skip_ws_at [OF _ _ e]) (simp_all add: doc')
    from snoc have "length xs \<noteq> 0" by simp
    with 1 2 show ?thesis
      unfolding entry_start_def nth Let_def by (simp add: snoc entries_before_def entry_text_def algebra_simps)
  qed
qed

section \<open>Removing an entry\<close>

definition content :: "entry \<Rightarrow> bytes option \<times> bytes" where
  "content e = (en_key e, en_val e)"

text \<open>An entry as it is spelled, but for the white space around it.\<close>

definition spelled :: "entry \<Rightarrow> bytes \<times> bytes option \<times> bytes" where
  "spelled e = (en_head e, en_key e, en_val e)"

text \<open>
  The list without entry \<open>i\<close>.  Of the white space, what follows the entry goes with it when
  another entry comes after it, which then stands where the removed one stood; what precedes it
  goes when it is the last, and the entry before it is followed by what followed it.
\<close>

definition remove_entry :: "nat \<Rightarrow> entry list \<Rightarrow> entry list" where
  "remove_entry i es =
     (if i + 1 < length es
      then take i es @ [(es ! (i + 1))\<lparr>en_pre := en_pre (es ! i)\<rparr>] @ drop (i + 2) es
      else if i = 0 then []
      else take (i - 1) es @ [(es ! (i - 1))\<lparr>en_post := en_post (es ! i)\<rparr>])"

lemma remove_entry_map:
  assumes "i < length es" and ws: "\<And>e w. f (e\<lparr>en_pre := w\<rparr>) = f e" "\<And>e w. f (e\<lparr>en_post := w\<rparr>) = f e"
  shows "map f (remove_entry i es) = take i (map f es) @ drop (i + 1) (map f es)"
proof (cases "i + 1 < length es")
  case True
  then have "drop (i + 1) (map f es) = f (es ! (i + 1)) # drop (i + 2) (map f es)"
    by (subst Cons_nth_drop_Suc [symmetric]) auto
  with True show ?thesis by (simp add: remove_entry_def ws take_map drop_map)
next
  case False
  with assms have i: "i + 1 = length es" by simp
  show ?thesis
  proof (cases i)
    case (Suc j)
    with i have "take i (map f es) = take j (map f es) @ [f (es ! j)]"
      by (simp add: take_Suc_conv_app_nth)
    with i Suc show ?thesis by (simp add: remove_entry_def ws take_map)
  qed (use i in \<open>simp add: remove_entry_def\<close>)
qed

lemma remove_entry_spelled:
  "i < length es \<Longrightarrow> map spelled (remove_entry i es) = take i (map spelled es) @ drop (i + 1) (map spelled es)"
  by (rule remove_entry_map) (simp_all add: spelled_def)

lemma remove_entry_wf:
  "i < length es \<Longrightarrow> \<forall>e \<in> set es. wf_entry object e \<Longrightarrow> \<forall>e \<in> set (remove_entry i es). wf_entry object e"
proof -
  assume i: "i < length es" and wf: "\<forall>e \<in> set es. wf_entry object e"
  have pre: "wf_entry object (e\<lparr>en_pre := en_pre e'\<rparr>)" and post: "wf_entry object (e\<lparr>en_post := en_post e'\<rparr>)"
    if "wf_entry object e" "wf_entry object e'" for e e'
    using that by (auto simp: wf_entry_def)
  from i wf pre post show ?thesis by (auto simp: remove_entry_def dest: in_set_takeD in_set_dropD)
qed

text \<open>The span \<open>remove\<close> takes out of the document.\<close>

definition removal :: "bytes \<Rightarrow> nat \<Rightarrow> nat \<Rightarrow> child_span list \<Rightarrow> nat \<Rightarrow> nat \<times> nat" where
  "removal doc pstart pend children i =
     (if length children = 1 then (pstart + 1, pend - 1)
      else if i + 1 < length children
      then (entry_start doc pstart children i, entry_start doc pstart children (i + 1))
      else (cs_end (children ! (i - 1)), cs_end (children ! i)))"

lemma cut_out: "doc = a @ m @ b \<Longrightarrow> s = length a \<Longrightarrow> e = length a + length m \<Longrightarrow> take s doc @ drop e doc = a @ b"
  by simp

lemma removal_text:
  assumes wf: "\<forall>e \<in> set es. wf_entry object e" and i: "i < length es"
    and doc: "doc = doc_with before object ws es after"
    and r: "removal doc (length before) (length before + length (container_text object ws es))
      (entry_spans (length before + 1) es) i = (rs, re)"
  shows "take rs doc @ drop re doc = doc_with before object [] (remove_entry i es) after"
proof -
  let ?open = "[if object then b_lbrace else b_lbracket]" and ?close = "[if object then b_rbrace else b_rbracket]"
  obtain xs e ys where es: "es = xs @ e # ys" and xs: "length xs = i"
    by (metis i id_take_nth_drop length_take min.absorb4)
  have eq: "doc = before @ ?open @ entries_before xs @ entry_text e @ entries_after ys @ ?close @ after"
    by (simp only: doc doc_with_def container_text_def es entries_text_at) simp
  show ?thesis
  proof (cases ys)
    case (Cons e' zs)
    then have es': "es = (xs @ [e]) @ e' # zs" using es by simp
    let ?rest = "en_head e' @ en_val e' @ en_post e' @ entries_after zs @ ?close @ after"
    have rs: "rs = length before + 1 + length (entries_before xs) + length (en_pre e)"
      and re: "re = length before + 1 + length (entries_before (xs @ [e])) + length (en_pre e')"
      using r xs entry_start_at [of xs e ys object before ws after] entry_start_at [of "xs @ [e]" e' zs object before ws after]
        wf es es' Cons by (auto simp: removal_def doc)
    have "take rs doc @ drop re doc = (before @ ?open @ entries_before xs @ en_pre e) @ ?rest"
      by (rule cut_out [where m = "en_head e @ en_val e @ en_post e @ [b_comma] @ en_pre e'"])
        (simp_all add: eq Cons rs re entries_before_def entries_after_def entry_text_def)
    moreover have "remove_entry i es = xs @ e'\<lparr>en_pre := en_pre e\<rparr> # zs"
      using xs Cons by (simp add: remove_entry_def es nth_append)
    ultimately show ?thesis
      by (simp add: doc_with_def container_text_def entries_text_at entry_text_def)
  next
    case Nil
    show ?thesis
    proof (cases xs rule: rev_cases)
      case Nil
      with \<open>ys = []\<close> es xs have single: "es = [e]" "i = 0" by simp_all
      have "take rs doc @ drop re doc = (before @ ?open) @ ?close @ after"
        by (rule cut_out [where m = "entry_text e"])
          (use r single in \<open>simp_all add: eq Nil \<open>ys = []\<close> removal_def container_text_def
            entries_before_def entries_after_def\<close>)
      with single show ?thesis by (simp add: doc_with_def container_text_def remove_entry_def)
    next
      case (snoc us p)
      then have es': "es = us @ p # [e]" "es = (us @ [p]) @ e # []" and i': "i = Suc (length us)"
        using es xs \<open>ys = []\<close> by auto
      let ?upto = "before @ ?open @ entries_before us @ en_pre p @ en_head p @ en_val p"
      have n1: "entry_spans (length before + 1) es ! length us = (let s = length before + 1 + length (entries_before us)
          + length (en_pre p) + length (en_head p) in \<lparr>cs_key = en_key p, cs_start = s, cs_end = s + length (en_val p)\<rparr>)"
        using entry_spans_nth [of "length before + 1" us p "[e]"] es'(1) by simp
      have n2: "entry_spans (length before + 1) es ! i = (let s = length before + 1 + length (entries_before (us @ [p]))
          + length (en_pre e) + length (en_head e) in \<lparr>cs_key = en_key e, cs_start = s, cs_end = s + length (en_val e)\<rparr>)"
        using entry_spans_nth [of "length before + 1" "us @ [p]" e "[]"] es'(2) i' by simp
      have bounds: "rs = length ?upto" "re = length ?upto + length (en_post p @ [b_comma] @ en_pre e @ en_head e @ en_val e)"
        using r n1 n2 i' es' by (simp_all add: removal_def Let_def entries_before_def entry_text_def)
      have "take rs doc @ drop re doc = ?upto @ en_post e @ ?close @ after"
        by (rule cut_out [OF _ bounds]) (simp add: eq snoc \<open>ys = []\<close> entries_before_def entries_after_def entry_text_def)
      moreover have "remove_entry i es = us @ [p\<lparr>en_post := en_post e\<rparr>]"
        using i' es' by (simp add: remove_entry_def nth_append)
      ultimately show ?thesis
        by (simp add: doc_with_def container_text_def entries_text_at [of us _ "[]", simplified] entry_text_def
            entries_after_def)
    qed
  qed
qed


section \<open>Adding an entry\<close>

definition insert_entry :: "bytes \<Rightarrow> nat \<Rightarrow> entry \<Rightarrow> entry list \<Rightarrow> entry list" where
  "insert_entry ws i e es =
     (if es = [] then [e\<lparr>en_pre := ws\<rparr>]
      else if i < length es
      then take i es @ [e\<lparr>en_pre := en_pre (es ! i)\<rparr>, (es ! i)\<lparr>en_pre := []\<rparr>] @ drop (i + 1) es
      else butlast es @ [(last es)\<lparr>en_post := []\<rparr>, e\<lparr>en_post := en_post (last es)\<rparr>])"

lemma insert_entry_content:
  assumes "i \<le> length es"
  shows "map content (insert_entry ws i e es) = take i (map content es) @ [content e] @ drop i (map content es)"
proof (cases "i < length es")
  case True
  then have "drop i (map content es) = content (es ! i) # drop (i + 1) (map content es)"
    by (subst Cons_nth_drop_Suc [symmetric]) auto
  with True show ?thesis by (auto simp: insert_entry_def content_def take_map drop_map)
next
  case False
  with assms have i: "i = length es" by simp
  show ?thesis
  proof (cases es rule: rev_cases)
    case (snoc us p)
    with i show ?thesis by (simp add: insert_entry_def content_def)
  qed (use i in \<open>simp add: insert_entry_def content_def\<close>)
qed

lemma insert_remove_entry:
  assumes "es \<noteq> []" and "i \<le> length es" and "en_pre e = []" and "en_post e = []"
  shows "remove_entry i (insert_entry ws i e es) = es"
proof (cases "i < length es")
  case True
  then have "es = take i es @ es ! i # drop (i + 1) es" by (simp add: id_take_nth_drop)
  moreover have "take i es @ es ! i # drop (i + 1) es = es" using calculation by simp
  ultimately show ?thesis
    using True assms(1) by (simp add: remove_entry_def insert_entry_def nth_append)
next
  case False
  with assms(2) have i: "i = length es" by simp
  from assms(1) obtain us p where "es = us @ [p]" by (cases es rule: rev_cases) auto
  with i show ?thesis by (simp add: remove_entry_def insert_entry_def nth_append)
qed

text \<open>The text of an insertion, and the insertions whose objects the printer theorems cover.\<close>

fun insert_text :: "emitter \<Rightarrow> gen_config \<Rightarrow> insert \<Rightarrow> ruby_error + bytes" where
  "insert_text E cfg (InsValue obj) = document_text E cfg obj"
| "insert_text E cfg (InsOwned raw) = Inr raw"
| "insert_text E cfg InsNothing = Inl Panic"

fun insert_sound :: "(nat \<Rightarrow> gstr option) \<Rightarrow> insert \<Rightarrow> bool" where
  "insert_sound strs (InsValue obj) = sound_obj strs obj"
| "insert_sound strs (InsOwned raw) = True"
| "insert_sound strs InsNothing = False"

text \<open>The result of an edit and the cell it leaves, against a text.\<close>

definition yields :: "emitter \<Rightarrow> (nat \<Rightarrow> gstr option) \<Rightarrow> ruby_error + bytes \<times> gen_scratch option \<Rightarrow> ruby_error + bytes \<Rightarrow> bool" where
  "yields E strs r t \<longleftrightarrow>
     (case t of
        Inl e \<Rightarrow> r = Inl e
      | Inr b \<Rightarrow> \<exists>cell. r = Inr (b, cell) \<and> cell_good E strs cell)"

lemma settle_yields: "leaves E strs r t \<Longrightarrow> yields E strs (settle r) t"
  by (cases r; cases t) (auto simp: leaves_def yields_def settle_def)

lemmas emit_into_yields = settle_yields [OF emit_into_leaves]

lemma extend_insert_yields:
  assumes "config_ok cfg" and "mode cfg \<noteq> HtmlSafe" and "emitter_ok E" and "insert_sound strs ins"
    and "cell_good E strs cell"
  shows "yields E strs (extend_insert E out ins cfg cell) (map_ok ((@) out) (insert_text E cfg ins))"
  using emit_into_yields [OF assms(1-3) _ assms(5)] assms(4,5)
  by (cases ins) (auto simp: extend_insert_def yields_def)

lemma yields_tryr:
  assumes "yields E strs r (map_ok f t)"
    and "\<And>b cell. t = Inr b \<Longrightarrow> cell_good E strs cell \<Longrightarrow> yields E strs (k (f b, cell)) (u b)"
  shows "yields E strs (tryr r k) (tryr t u)"
proof (cases t)
  case (Inl e)
  with assms(1) show ?thesis by (simp add: yields_def)
next
  case (Inr b)
  with assms(1) obtain cell where "r = Inr (f b, cell)" "cell_good E strs cell" by (auto simp: yields_def)
  with assms(2) [OF Inr, of cell] Inr show ?thesis by simp
qed

lemma yields_Inr: "cell_good E strs cell \<Longrightarrow> yields E strs (Inr (b, cell)) (Inr b)"
  by (simp add: yields_def)

lemma apply_edit_yields:
  assumes "config_ok cfg" and "mode cfg \<noteq> HtmlSafe" and "emitter_ok E" and "insert_sound strs ins"
    and "cell_good E strs cell"
  shows "yields E strs (apply_edit E doc s e ins cfg cell)
    (map_ok (\<lambda>v. take s doc @ v @ drop e doc) (insert_text E cfg ins))"
proof (cases ins)
  case (InsValue obj)
  with assms(4) have "sound_obj strs obj" by simp
  from emit_into_yields [OF assms(1-3) this assms(5), of "take s doc"] InsValue show ?thesis
    by (auto simp: apply_edit_def map_ok_tryr [of "\<lambda>v. take s doc @ v @ drop e doc"] intro!: yields_tryr yields_Inr)
qed (use assms(4,5) in \<open>simp_all add: apply_edit_def yields_Inr\<close>)

lemma yields_owned:
  "cell_good E strs cell \<Longrightarrow> yields E strs (apply_edit E doc s e (InsOwned b) cfg cell) (Inr (take s doc @ b @ drop e doc))"
  by (simp add: apply_edit_def yields_def)

lemma yields_Inl [simp]: "yields E strs (Inl e) (Inl e)"
  by (simp add: yields_def)

lemma str_new_sound [simp]: "sound_obj strs (OStr s)"
  by simp

lemma render_entry_yields:
  assumes "config_ok cfg" and "mode cfg \<noteq> HtmlSafe" and "emitter_ok E" and "insert_sound strs ins"
    and "cell_good E strs cell"
  shows "yields E strs (render_entry E key ins cfg cell)
    (tryr (document_text E cfg (OStr (str_new key))) (\<lambda>k. map_ok (\<lambda>v. k @ [b_colon] @ v) (insert_text E cfg ins)))"
  unfolding render_entry_def
proof (rule yields_tryr [where f = "(@) []"])
  show "yields E strs (settle (emit_into E cfg (OStr (str_new key)) [] cell))
      (map_ok ((@) []) (document_text E cfg (OStr (str_new key))))"
    using emit_into_yields [OF assms(1-3) _ assms(5)] by simp
next
  fix k cell' assume "cell_good E strs cell'"
  from extend_insert_yields [OF assms(1-4) this, of "k @ [b_colon]"]
  show "yields E strs (case ([] @ k, cell') of (out, cell) \<Rightarrow> extend_insert E (out @ [b_colon]) ins cfg cell)
      (map_ok (\<lambda>v. k @ [b_colon] @ v) (insert_text E cfg ins))"
    by (cases "insert_text E cfg ins") simp_all
qed

section \<open>The container an edit is made in\<close>

text \<open>
  The path splits into a parent and a token, the crate's resolver leads the parent to the
  container, and the crate's Reader walks its entries.
\<close>

definition targets ::
  "('v, 'r) env \<Rightarrow> resolver \<Rightarrow> bytes \<Rightarrow> bytes \<Rightarrow> bytes \<Rightarrow> bool \<Rightarrow> bytes \<Rightarrow> entry list \<Rightarrow> bytes \<Rightarrow> bool" where
  "targets env re path token before object ws es after \<longleftrightarrow>
     (\<exists>parent. split_pointer (env_show env) path = Inr (Some (parent, token)) \<and>
        re_pointer re (doc_with before object ws es after) parent popts_default =
          Inr (Some (length before, length (container_text object ws es)))) \<and>
     reader_sees (env_reader env) popts_default object ws es \<and> (\<forall>e \<in> set es. wf_entry object e)"

definition kind_byte :: "bool \<Rightarrow> byte" where
  "kind_byte object = (if object then KIND_OBJECT else KIND_ARRAY)"

lemma kind_byte_object [simp]: "kind_byte object = KIND_OBJECT \<longleftrightarrow> object"
  by (simp add: kind_byte_def)

lemma targets_children:
  assumes "targets env re path token before object ws es after"
  obtains parent where "split_pointer (env_show env) path = Inr (Some (parent, token))"
    and "span_at env re (doc_with before object ws es after) parent =
      Inr (Some (length before, length before + length (container_text object ws es)))"
    and "container_children env (doc_with before object ws es after) (length before)
      (length before + length (container_text object ws es)) =
      Inr (kind_byte object, entry_spans (length before + 1) es)"
proof -
  let ?c = "container_text object ws es" and ?doc = "doc_with before object ws es after"
  from assms obtain parent where p: "split_pointer (env_show env) path = Inr (Some (parent, token))"
    "re_pointer re ?doc parent popts_default = Inr (Some (length before, length ?c))"
    and sees: "reader_sees (env_reader env) popts_default object ws es"
    unfolding targets_def by blast
  have s: "sub ?doc (length before) (length before + length ?c) = ?c" by (simp add: doc_with_def)
  have k: "(case ?c of [] \<Rightarrow> 0 | b # _ \<Rightarrow> b) = kind_byte object"
    by (simp add: container_text_def kind_byte_def)
  show ?thesis
  proof (rule that [OF p(1)])
    show "span_at env re ?doc parent = Inr (Some (length before, length before + length ?c))"
      using p(2) by (simp add: span_at_def span_of_def)
    show "container_children env ?doc (length before) (length before + length ?c) =
        Inr (kind_byte object, entry_spans (length before + 1) es)"
      unfolding container_children_def Let_def s k
      using children_walk_sees [OF sees, of "length before"] by simp
  qed
qed

lemma position_spans:
  "position (\<lambda>c. cs_key c = Some token) (entry_spans at es) = position (\<lambda>e. en_key e = Some token) es"
  by (induction es arbitrary: at) (simp_all add: Let_def)

end
