(* ===== verification/Patch_Results.thy ===== *)
theory Patch_Results
  imports Patch_Edits
begin

text \<open>
  The properties of \<open>add\<close> and \<open>remove\<close> of patch.rs: each against an edit of the container's
  entry list, and one undoing the other.
\<close>

section \<open>The edited texts\<close>

lemma doc_with_at:
  "doc_with before object ws (xs @ e # ys) after =
     (before @ [if object then b_lbrace else b_lbracket] @ entries_before xs @ en_pre e @ en_head e) @ en_val e @
     (en_post e @ entries_after ys @ [if object then b_rbrace else b_rbracket] @ after)"
  by (simp only: doc_with_def container_text_def entries_text_at entry_text_def) simp

lemma span_bounds:
  assumes "es = xs @ e # ys"
  shows "cs_start (entry_spans (length before + 1) es ! length xs) =
      length (before @ [if object then b_lbrace else b_lbracket] @ entries_before xs @ en_pre e @ en_head e)"
    and "cs_end (entry_spans (length before + 1) es ! length xs) =
      length (before @ [if object then b_lbrace else b_lbracket] @ entries_before xs @ en_pre e @ en_head e) + length (en_val e)"
  using entry_spans_nth [of "length before + 1" xs e ys] by (simp_all add: assms Let_def)

lemma splice_in: "doc = a @ m @ b \<Longrightarrow> s = length a \<Longrightarrow> e = length a + length m \<Longrightarrow> take s doc @ v @ drop e doc = a @ v @ b"
  by simp

lemma replaced_text:
  assumes i: "i < length es"
  shows "take (cs_start (entry_spans (length before + 1) es ! i)) (doc_with before object ws es after) @ v @
      drop (cs_end (entry_spans (length before + 1) es ! i)) (doc_with before object ws es after) =
    doc_with before object ws (es[i := (es ! i)\<lparr>en_val := v\<rparr>]) after"
proof -
  obtain xs e ys where es: "es = xs @ e # ys" and xs: "i = length xs"
    by (metis i id_take_nth_drop length_take min.absorb4)
  have "es[i := (es ! i)\<lparr>en_val := v\<rparr>] = xs @ e\<lparr>en_val := v\<rparr> # ys" by (simp add: es xs)
  moreover have "take (cs_start (entry_spans (length before + 1) es ! i)) (doc_with before object ws es after) @ v @
      drop (cs_end (entry_spans (length before + 1) es ! i)) (doc_with before object ws es after) =
    doc_with before object ws (xs @ e\<lparr>en_val := v\<rparr> # ys) after"
    unfolding xs span_bounds [OF es, of before object]
    by (subst splice_in [OF _ refl refl]) (simp only: es doc_with_at, simp add: doc_with_at)
  ultimately show ?thesis by simp
qed

definition new_entry :: "bytes option \<Rightarrow> bytes \<Rightarrow> bytes \<Rightarrow> entry" where
  "new_entry key head v = \<lparr>en_pre = [], en_head = head, en_key = key, en_val = v, en_post = []\<rparr>"

lemma appended_text:
  assumes "es \<noteq> []"
  shows "take (cs_end (last (entry_spans (length before + 1) es))) (doc_with before object ws es after) @
      ([b_comma] @ head @ v) @
      drop (cs_end (last (entry_spans (length before + 1) es))) (doc_with before object ws es after) =
    doc_with before object ws (insert_entry ws (length es) (new_entry key head v) es) after"
proof -
  from assms obtain us p where es: "es = us @ [p]" by (cases es rule: rev_cases) auto
  have l: "last (entry_spans (length before + 1) es) = entry_spans (length before + 1) es ! length us"
    by (simp add: es entry_spans_append Let_def nth_append)
  have "take (cs_end (entry_spans (length before + 1) es ! length us)) (doc_with before object ws es after) @
      ([b_comma] @ head @ v) @ drop (cs_end (entry_spans (length before + 1) es ! length us)) (doc_with before object ws es after) =
    doc_with before object ws (us @ [p\<lparr>en_post := []\<rparr>, (new_entry key head v)\<lparr>en_post := en_post p\<rparr>]) after"
    unfolding span_bounds(2) [OF es, of before object]
    by (subst splice_in [where m = "[]" and a = "(before @ [if object then b_lbrace else b_lbracket] @ entries_before us
        @ en_pre p @ en_head p) @ en_val p" and b = "en_post p @ [if object then b_rbrace else b_rbracket] @ after"])
      (simp_all add: es doc_with_at entries_after_def entry_text_def new_entry_def)
  moreover have "insert_entry ws (length es) (new_entry key head v) es =
      us @ [p\<lparr>en_post := []\<rparr>, (new_entry key head v)\<lparr>en_post := en_post p\<rparr>]"
    by (simp add: es insert_entry_def)
  ultimately show ?thesis by (simp only: l)
qed

lemma first_text:
  assumes "pend = length before + length (container_text object ws [])"
  shows "take (pend - 1) (doc_with before object ws [] after) @ (head @ v) @ drop (pend - 1) (doc_with before object ws [] after) =
    doc_with before object ws (insert_entry ws i (new_entry key head v) []) after"
proof -
  have "take (pend - 1) (doc_with before object ws [] after) @ (head @ v) @ drop (pend - 1) (doc_with before object ws [] after) =
      (before @ [if object then b_lbrace else b_lbracket] @ ws) @ (head @ v) @
      ([if object then b_rbrace else b_rbracket] @ after)"
    by (rule splice_in [where m = "[]"]) (simp_all add: assms doc_with_def container_text_def)
  then show ?thesis
    by (simp add: doc_with_def container_text_def insert_entry_def new_entry_def entry_text_def entries_after_def)
qed

lemma inserted_text:
  assumes i: "i < length es" and head: "en_head (es ! i) = []"
  shows "take (cs_start (entry_spans (length before + 1) es ! i)) (doc_with before object ws es after) @ (v @ [b_comma]) @
      drop (cs_start (entry_spans (length before + 1) es ! i)) (doc_with before object ws es after) =
    doc_with before object ws (insert_entry ws i (new_entry None [] v) es) after"
proof -
  obtain xs e ys where es: "es = xs @ e # ys" and xs: "i = length xs"
    by (metis i id_take_nth_drop length_take min.absorb4)
  have h: "en_head e = []" using head es xs by simp
  have "take (cs_start (entry_spans (length before + 1) es ! i)) (doc_with before object ws es after) @ (v @ [b_comma]) @
      drop (cs_start (entry_spans (length before + 1) es ! i)) (doc_with before object ws es after) =
    doc_with before object ws (xs @ [(new_entry None [] v)\<lparr>en_pre := en_pre e\<rparr>, e\<lparr>en_pre := []\<rparr>] @ ys) after"
    unfolding xs span_bounds(1) [OF es, of before object]
    by (subst splice_in [where m = "[]" and a = "(before @ [if object then b_lbrace else b_lbracket] @ entries_before xs
        @ en_pre e)" and b = "en_val e @ en_post e @ entries_after ys @ [if object then b_rbrace else b_rbracket] @ after"])
      (simp_all add: es h doc_with_at entries_after_def entry_text_def new_entry_def)
  moreover have "insert_entry ws i (new_entry None [] v) es =
      xs @ [(new_entry None [] v)\<lparr>en_pre := en_pre e\<rparr>, e\<lparr>en_pre := []\<rparr>] @ ys"
    by (simp add: insert_entry_def es xs)
  ultimately show ?thesis by simp
qed


section \<open>Remove\<close>

text \<open>The entry a token names.\<close>

definition find_entry :: "bool \<Rightarrow> bytes \<Rightarrow> entry list \<Rightarrow> nat option" where
  "find_entry object token es =
     (if object then position (\<lambda>e. en_key e = Some token) es
      else case parse_index token of
             Some i \<Rightarrow> if i < length es then Some i else None
           | None \<Rightarrow> None)"

lemma find_entry_bound: "find_entry object token es = Some i \<Longrightarrow> i < length es"
  by (auto simp: find_entry_def position_Some split: if_splits option.splits)

lemma remove_exact:
  assumes "targets env re path token before object ws es after"
  shows "op_remove env re E (doc_with before object ws es after) path cell =
    (case find_entry object token es of
       None \<Rightarrow> Inl (PatchError (Fmt ''remove target {} does not exist'' [ABytes path]))
     | Some i \<Rightarrow> Inr (doc_with before object [] (remove_entry i es) after, cell))"
proof -
  let ?doc = "doc_with before object ws es after" and ?pend = "length before + length (container_text object ws es)"
    and ?spans = "entry_spans (length before + 1) es"
  from assms have wf: "\<forall>e \<in> set es. wf_entry object e" by (simp add: targets_def)
  from assms obtain parent where p: "split_pointer (env_show env) path = Inr (Some (parent, token))"
    "span_at env re ?doc parent = Inr (Some (length before, ?pend))"
    "container_children env ?doc (length before) ?pend = Inr (kind_byte object, ?spans)"
    by (rule targets_children)
  have f: "(if kind_byte object = KIND_OBJECT then position (\<lambda>c. cs_key c = Some token) ?spans
       else case parse_index token of Some i \<Rightarrow> if i < length ?spans then Some i else None | None \<Rightarrow> None)
     = find_entry object token es"
    by (auto simp: find_entry_def position_spans split: option.splits)
  have "op_remove env re E ?doc path cell =
      (case (if kind_byte object = KIND_OBJECT then position (\<lambda>c. cs_key c = Some token) ?spans
         else case parse_index token of Some i \<Rightarrow> if i < length ?spans then Some i else None | None \<Rightarrow> None) of
         None \<Rightarrow> Inl (PatchError (Fmt ''remove target {} does not exist'' [ABytes path]))
       | Some i \<Rightarrow> (case removal ?doc (length before) ?pend ?spans i of (rs, re) \<Rightarrow>
           apply_edit E ?doc rs re InsNothing DEFAULT_CONFIG cell))"
    by (simp add: op_remove_def p removal_def patch_error_def Let_def cong: if_cong option.case_cong)
  note op = this [unfolded f]
  show ?thesis
  proof (cases "find_entry object token es")
    case (Some i)
    obtain rs rt where r: "removal ?doc (length before) ?pend ?spans i = (rs, rt)" by fastforce
    with removal_text [OF wf find_entry_bound [OF Some] refl r] Some show ?thesis
      by (simp add: op apply_edit_def)
  qed (simp add: op)
qed

text \<open>
  C10.  \<open>remove\<close> deletes exactly the entry its token names, with its key and one comma, whether
  the entry was the only one, the last one or followed by another: the result is, byte for byte,
  the document with \<open>remove_entry\<close> of the container's entries, which keeps the spelling of every
  other key and value, their order and (but for what stood around the removed entry) the white
  space; every byte outside the container is as it was, and the only entry takes with it all
  that stood between the brackets.  A token that names no entry is a \<open>PatchError\<close>.
\<close>

theorem remove_refines:
  assumes "targets env re path token before object ws es after"
  shows "case find_entry object token es of
      None \<Rightarrow> op_remove env re E (doc_with before object ws es after) path cell =
        Inl (PatchError (Fmt ''remove target {} does not exist'' [ABytes path]))
    | Some i \<Rightarrow> op_remove env re E (doc_with before object ws es after) path cell =
          Inr (doc_with before object [] (remove_entry i es) after, cell) \<and>
        map spelled (remove_entry i es) = take i (map spelled es) @ drop (i + 1) (map spelled es) \<and>
        (\<forall>e \<in> set (remove_entry i es). wf_entry object e)"
proof (cases "find_entry object token es")
  case None
  with remove_exact [OF assms] show ?thesis by simp
next
  case (Some i)
  from find_entry_bound [OF this] assms remove_exact [OF assms, of E cell] Some show ?thesis
    by (simp add: remove_entry_spelled remove_entry_wf targets_def)
qed

section \<open>Add\<close>

text \<open>\<open>add\<close> on the entries: the edited list, or the error.\<close>

definition added ::
  "emitter \<Rightarrow> gen_config \<Rightarrow> bool \<Rightarrow> bytes \<Rightarrow> bytes \<Rightarrow> insert \<Rightarrow> bytes \<Rightarrow> entry list \<Rightarrow> ruby_error + entry list" where
  "added E cfg object path token ins ws es =
     (if object
      then (case position (\<lambda>e. en_key e = Some token) es of
              Some i \<Rightarrow> map_ok (\<lambda>v. es[i := (es ! i)\<lparr>en_val := v\<rparr>]) (insert_text E cfg ins)
            | None \<Rightarrow>
                tryr (document_text E cfg (OStr (str_new token))) (\<lambda>k.
                map_ok (\<lambda>v. insert_entry ws (length es) (new_entry (Some token) (k @ [b_colon]) v) es)
                  (insert_text E cfg ins)))
      else tryr (if token = [0x2D] then Inr (length es)
                 else case parse_index token of
                        Some n \<Rightarrow> Inr n
                      | None \<Rightarrow> Inl (PatchError (Fmt ''invalid array index {} in {}'' [ABytes token, ABytes path]))) (\<lambda>i.
           if length es < i
           then Inl (PatchError (Fmt ''array index {} out of range in {}'' [ANat i, ABytes path]))
           else map_ok (\<lambda>v. insert_entry ws i (new_entry None [] v) es) (insert_text E cfg ins)))"

lemma yields_map:
  "yields E strs r (map_ok f t) \<Longrightarrow> (\<And>b. t = Inr b \<Longrightarrow> f b = g b) \<Longrightarrow> yields E strs r (map_ok g t)"
  by (cases t) (simp_all add: yields_def)

lemma add_exact:
  assumes t: "targets env re path token before object ws es after"
    and cfg: "config_ok cfg" "mode cfg \<noteq> HtmlSafe" and E: "emitter_ok E"
    and ins: "insert_sound strs ins" and cell: "cell_good E strs cell"
  shows "yields E strs (op_add env re E (doc_with before object ws es after) path ins cfg cell)
    (map_ok (\<lambda>es'. doc_with before object ws es' after) (added E cfg object path token ins ws es))"
proof -
  let ?doc = "doc_with before object ws es after" and ?pend = "length before + length (container_text object ws es)"
    and ?spans = "entry_spans (length before + 1) es" and ?with = "\<lambda>es'. doc_with before object ws es' after"
  from t have wf: "\<forall>e \<in> set es. wf_entry object e" by (simp add: targets_def)
  from t obtain parent where p: "split_pointer (env_show env) path = Inr (Some (parent, token))"
    "span_at env re ?doc parent = Inr (Some (length before, ?pend))"
    "container_children env ?doc (length before) ?pend = Inr (kind_byte object, ?spans)"
    by (rule targets_children)
  have ne: "?spans \<noteq> [] \<longleftrightarrow> es \<noteq> []" by (metis length_0_conv length_entry_spans)
  note step = extend_insert_yields [OF cfg E ins cell]
  show ?thesis
  proof (cases object)
    case True
    show ?thesis
    proof (cases "position (\<lambda>e. en_key e = Some token) es")
      case (Some i)
      then have i: "i < length es" by (simp add: position_Some)
      have "op_add env re E ?doc path ins cfg cell =
          apply_edit E ?doc (cs_start (?spans ! i)) (cs_end (?spans ! i)) ins cfg cell"
        using p Some True by (simp add: op_add_def position_spans)
      with apply_edit_yields [OF cfg E ins cell, of ?doc "cs_start (?spans ! i)" "cs_end (?spans ! i)"]
        replaced_text [OF i, of before object ws after] Some True show ?thesis
        by (cases "insert_text E cfg ins") (auto simp: added_def yields_def)
    next
      case None
      have "op_add env re E ?doc path ins cfg cell =
          tryr (render_entry E token ins cfg cell) (\<lambda>(entry, cell).
            if es \<noteq> [] then apply_edit E ?doc (cs_end (last ?spans)) (cs_end (last ?spans)) (InsOwned ([b_comma] @ entry)) cfg cell
            else apply_edit E ?doc (?pend - 1) (?pend - 1) (InsOwned entry) cfg cell)"
        using p None True ne by (simp add: op_add_def position_spans Let_def cong: if_cong option.case_cong)
      moreover have "yields E strs (if es \<noteq> [] then apply_edit E ?doc (cs_end (last ?spans)) (cs_end (last ?spans)) (InsOwned ([b_comma] @ (k @ [b_colon]) @ v)) cfg cell'
            else apply_edit E ?doc (?pend - 1) (?pend - 1) (InsOwned ((k @ [b_colon]) @ v)) cfg cell')
          (Inr (?with (insert_entry ws (length es) (new_entry (Some token) (k @ [b_colon]) v) es)))"
        if "cell_good E strs cell'" for k v cell'
      proof (cases "es = []")
        case True
        with yields_owned [OF that, of ?doc "?pend - 1" "?pend - 1" "(k @ [b_colon]) @ v" cfg]
          first_text [of ?pend before object ws after "k @ [b_colon]" v 0 "Some token"] show ?thesis by simp
      next
        case False
        with yields_owned [OF that, of ?doc "cs_end (last ?spans)" "cs_end (last ?spans)" "[b_comma] @ (k @ [b_colon]) @ v" cfg]
          appended_text [OF False, of before object ws after "k @ [b_colon]" v "Some token"] show ?thesis by simp
      qed
      ultimately show ?thesis
        using render_entry_yields [OF cfg E ins cell, of token] None True
        by (cases "document_text E cfg (OStr (str_new token))"; cases "insert_text E cfg ins")
          (auto simp: added_def yields_def)
    qed
  next
    case False
    then have head: "en_head (es ! i) = []" if "i < length es" for i
      using wf that by (auto simp: wf_entry_def)
    define idx where "idx = (if token = [0x2D] then Inr (length es)
        else case parse_index token of Some n \<Rightarrow> Inr n
          | None \<Rightarrow> Inl (PatchError (Fmt ''invalid array index {} in {}'' [ABytes token, ABytes path])))"
    have op: "op_add env re E ?doc path ins cfg cell =
        tryr idx (\<lambda>index.
          if length es < index then Inl (PatchError (Fmt ''array index {} out of range in {}'' [ANat index, ABytes path]))
          else if index = length es
          then if es \<noteq> []
               then tryr (extend_insert E [b_comma] ins cfg cell) (\<lambda>(b, cell).
                      apply_edit E ?doc (cs_end (last ?spans)) (cs_end (last ?spans)) (InsOwned b) cfg cell)
               else tryr (extend_insert E [] ins cfg cell) (\<lambda>(b, cell).
                      apply_edit E ?doc (?pend - 1) (?pend - 1) (InsOwned b) cfg cell)
          else tryr (extend_insert E [] ins cfg cell) (\<lambda>(b, cell).
                 apply_edit E ?doc (cs_start (?spans ! index)) (cs_start (?spans ! index)) (InsOwned (b @ [b_comma])) cfg cell))"
      using p False ne by (simp add: op_add_def Let_def patch_error_def idx_def cong: if_cong option.case_cong)
    have ad: "added E cfg object path token ins ws es = tryr idx (\<lambda>i.
        if length es < i then Inl (PatchError (Fmt ''array index {} out of range in {}'' [ANat i, ABytes path]))
        else map_ok (\<lambda>v. insert_entry ws i (new_entry None [] v) es) (insert_text E cfg ins))"
      using False by (simp add: added_def idx_def)
    show ?thesis
    proof (cases idx)
      case (Inr i)
      consider "length es < i" | "i = length es" "es = []" | "i = length es" "es \<noteq> []" | "i < length es" by linarith
      then show ?thesis
      proof cases
        case 2
        with step [of "[]"] first_text [of ?pend before object ws after "[]" _ 0 None] Inr show ?thesis
          unfolding op ad by (cases "insert_text E cfg ins") (auto simp: yields_def apply_edit_def)
      next
        case 3
        with step [of "[b_comma]"] appended_text [OF 3(2), of before object ws after "[]" _ None] Inr show ?thesis
          unfolding op ad by (cases "insert_text E cfg ins") (auto simp: yields_def apply_edit_def)
      next
        case 4
        with step [of "[]"] inserted_text [OF 4 head [OF 4], of before object ws after] Inr show ?thesis
          unfolding op ad by (cases "insert_text E cfg ins") (auto simp: yields_def apply_edit_def)
      qed (simp add: op ad Inr)
    qed (simp add: op ad)
  qed
qed


text \<open>RFC 6902's \<open>add\<close> on the keys and values of a container.\<close>

definition rfc_add ::
  "bool \<Rightarrow> bytes \<Rightarrow> bytes \<Rightarrow> (bytes option \<times> bytes) list \<Rightarrow> (bytes option \<times> bytes) list option" where
  "rfc_add object token v cs =
     (if object
      then Some (case position (\<lambda>c. fst c = Some token) cs of
             Some i \<Rightarrow> cs[i := (Some token, v)]
           | None \<Rightarrow> cs @ [(Some token, v)])
      else case (if token = [0x2D] then Some (length cs) else parse_index token) of
             None \<Rightarrow> None
           | Some i \<Rightarrow> if length cs < i then None else Some (take i cs @ [(None, v)] @ drop i cs))"

lemma position_content: "position (\<lambda>c. fst c = Some token) (map content es) = position (\<lambda>e. en_key e = Some token) es"
  by (induction es) (simp_all add: content_def)

lemma content_new_entry [simp]: "content (new_entry key head v) = (key, v)"
  by (simp add: content_def new_entry_def)

lemma added_rfc:
  assumes "added E cfg object path token ins ws es = Inr es'"
  shows "\<exists>v. insert_text E cfg ins = Inr v \<and> rfc_add object token v (map content es) = Some (map content es')"
proof (cases object)
  case True
  show ?thesis
  proof (cases "position (\<lambda>e. en_key e = Some token) es")
    case (Some i)
    then have i: "i < length es" "en_key (es ! i) = Some token" by (auto simp: position_Some)
    from assms True Some obtain v where v: "insert_text E cfg ins = Inr v" "es' = es[i := (es ! i)\<lparr>en_val := v\<rparr>]"
      by (cases "insert_text E cfg ins") (auto simp: added_def)
    then have "map content es' = (map content es)[i := (Some token, v)]"
      using i by (simp add: map_update content_def)
    with v(1) True Some show ?thesis by (simp add: rfc_add_def position_content)
  next
    case None
    from assms True None obtain k v where v: "insert_text E cfg ins = Inr v"
      "es' = insert_entry ws (length es) (new_entry (Some token) (k @ [b_colon]) v) es"
      by (cases "insert_text E cfg ins") (auto simp: added_def tryr_Inr_iff)
    with True None show ?thesis by (simp add: rfc_add_def position_content insert_entry_content)
  qed
next
  case False
  from assms False obtain i v where "(if token = [0x2D] then Some (length es) else parse_index token) = Some i"
    "i \<le> length es" "insert_text E cfg ins = Inr v" "es' = insert_entry ws i (new_entry None [] v) es"
    by (cases "insert_text E cfg ins") (auto simp: added_def tryr_Inr_iff split: if_splits option.splits)
  with False show ?thesis by (auto simp: rfc_add_def insert_entry_content)
qed

text \<open>
  C11.  \<open>add\<close> edits the container's text into the text of the edited entries, so the keys and
  values are those RFC 6902 asks for (a member with the key replaced, otherwise a new member
  last; an element inserted before the index, or last), the new value as generation or the
  source span writes it, and every byte outside the container as it was.
\<close>

theorem add_refines:
  assumes "targets env re path token before object ws es after"
    and "config_ok cfg" and "mode cfg \<noteq> HtmlSafe" and "emitter_ok E"
    and "insert_sound strs ins" and "cell_good E strs cell"
  shows "case added E cfg object path token ins ws es of
      Inl e \<Rightarrow> op_add env re E (doc_with before object ws es after) path ins cfg cell = Inl e
    | Inr es' \<Rightarrow> \<exists>cell' v. op_add env re E (doc_with before object ws es after) path ins cfg cell =
          Inr (doc_with before object ws es' after, cell') \<and> cell_good E strs cell' \<and>
        insert_text E cfg ins = Inr v \<and> rfc_add object token v (map content es) = Some (map content es')"
proof (cases "added E cfg object path token ins ws es")
  case (Inl e)
  with add_exact [OF assms] show ?thesis by (simp add: yields_def)
next
  case (Inr es')
  with add_exact [OF assms] added_rfc [OF Inr] show ?thesis by (auto simp: yields_def)
qed

section \<open>Round trip\<close>

lemma doc_with_ws: "es \<noteq> [] \<Longrightarrow> doc_with before object ws es after = doc_with before object [] es after"
  by (simp add: doc_with_def container_text_def)

text \<open>
  C20.  Adding an element, or a member whose key is new, to a container that is not empty and
  then removing it by the same path gives the document back byte for byte, whitespace included.
\<close>

theorem add_remove_roundtrip:
  assumes "targets env re path token before object ws es after"
    and "added E cfg object path token ins ws es = Inr es'"
    and "targets env re path token before object ws es' after"
    and "es \<noteq> []" and "token \<noteq> [0x2D]" and "object \<longrightarrow> find_entry object token es = None"
    and "config_ok cfg" and "mode cfg \<noteq> HtmlSafe" and "emitter_ok E"
    and "insert_sound strs ins" and "cell_good E strs cell"
  shows "\<exists>doc' cell'. op_add env re E (doc_with before object ws es after) path ins cfg cell = Inr (doc', cell') \<and>
    op_remove env re E doc' path cell' = Inr (doc_with before object ws es after, cell')"
proof -
  from add_exact [OF assms(1,7-11)] assms(2) obtain cell' where
    op: "op_add env re E (doc_with before object ws es after) path ins cfg cell = Inr (doc_with before object ws es' after, cell')"
    by (auto simp: yields_def)
  have "\<exists>i. find_entry object token es' = Some i \<and> remove_entry i es' = es"
  proof (cases object)
    case True
    with assms(6) have none: "position (\<lambda>e. en_key e = Some token) es = None" by (simp add: find_entry_def)
    with assms(2) True obtain k v where
      es': "es' = insert_entry ws (length es) (new_entry (Some token) (k @ [b_colon]) v) es"
      by (cases "insert_text E cfg ins") (auto simp: added_def tryr_Inr_iff)
    from assms(4) obtain us p where us: "es = us @ [p]" by (cases es rule: rev_cases) auto
    have "position (\<lambda>e. en_key e = Some token) es' = Some (length es)"
      using none position_append_hit [of "us @ [p\<lparr>en_post := []\<rparr>]" "\<lambda>e. en_key e = Some token" _ "[]"]
      by (simp add: es' us insert_entry_def new_entry_def position_None)
    moreover have "remove_entry (length es) es' = es"
      unfolding es' by (rule insert_remove_entry) (simp_all add: assms(4) new_entry_def)
    ultimately show ?thesis using True by (simp add: find_entry_def)
  next
    case False
    with assms(2,5) obtain i v where i: "parse_index token = Some i" "i \<le> length es"
      "es' = insert_entry ws i (new_entry None [] v) es"
      by (cases "insert_text E cfg ins") (auto simp: added_def tryr_Inr_iff split: if_splits option.splits)
    have "remove_entry i es' = es"
      unfolding i(3) by (rule insert_remove_entry) (simp_all add: assms(4) i(2) new_entry_def)
    moreover have "length es' = length es + 1"
      using arg_cong [OF insert_entry_content [OF i(2), of ws "new_entry None [] v"], of length] i(2,3) by simp
    ultimately show ?thesis using i False by (simp add: find_entry_def)
  qed
  then have "op_remove env re E (doc_with before object ws es' after) path cell' =
      Inr (doc_with before object ws es after, cell')"
    using remove_exact [OF assms(3), of E cell'] doc_with_ws [OF assms(4), of before object ws after] by auto
  with op show ?thesis by blast
qed

section \<open>A sample array\<close>

text \<open>A Reader for two texts, \<open>[1, 2]\<close> and \<open>[1, 1,2]\<close>, and a resolver for the root.\<close>

definition list_reader :: "(nat \<times> (nat \<times> nat) list) reader" where
  "list_reader =
     \<lparr>rd_open = (\<lambda>input _. (0, if length input = 6 then [(1, 1), (4, 1)] else [(1, 1), (4, 1), (6, 1)])),
      rd_next_node = (\<lambda>(n, cs). if n = 0 then Inr (ArrayStart, (1, cs)) else Inr (ScalarNode, (3, tl cs))),
      rd_object_first_key = (\<lambda>r. Inr (None, r)), rd_object_next_key = (\<lambda>r. Inr (None, r)),
      rd_array_first = (\<lambda>(n, cs). Inr (cs \<noteq> [], (2, cs))), rd_array_next = (\<lambda>(n, cs). Inr (cs \<noteq> [], (2, cs))),
      rd_skip_value = (\<lambda>(n, cs). if n = 0 then Inr ((0, 0), (2, [])) else Inr (hd cs, (3, tl cs)))\<rparr>"

definition list_env :: "(term_value, nat \<times> (nat \<times> nat) list) env" where
  "list_env =
     \<lparr>env_scan = sample_scan, env_reader = list_reader, env_vm = term_vm,
      env_fingerprint = (\<lambda>_. 0), env_show = (\<lambda>e. msg ''parse error'')\<rparr>"

definition root_resolver :: resolver where
  "root_resolver =
     \<lparr>re_pointer = (\<lambda>doc p _. Inr (if p = [] then Some (0, length doc) else None)),
      re_pointers = (\<lambda>doc ps _. Inr (map (\<lambda>p. if p = [] then Some (0, length doc) else None) ps))\<rparr>"

definition sample_entries :: "entry list" where
  "sample_entries = [new_entry None [] (asc ''1''), (new_entry None [] (asc ''2''))\<lparr>en_pre := [b_space]\<rparr>]"

definition sample_grown :: "entry list" where
  "sample_grown = [new_entry None [] (asc ''1''), (new_entry None [] (asc ''1''))\<lparr>en_pre := [b_space]\<rparr>,
     new_entry None [] (asc ''2'')]"

lemmas sample_entry_defs = sample_entries_def sample_grown_def new_entry_def asc_def entry_text_def entries_after_def
  doc_with_def container_text_def

lemma sample_targets:
  "targets list_env root_resolver (asc ''/1'') (asc ''1'') [] False [] sample_entries []"
  "targets list_env root_resolver (asc ''/1'') (asc ''1'') [] False [] sample_grown []"
proof -
  have sp: "split_pointer (env_show list_env) (asc ''/1'') = Inr (Some ([], asc ''1''))"
    using split_pointer_at [of "asc ''1''" "[]" "env_show list_env"] by (simp add: asc_def unescape_def)
  have rd: "reader_sees (env_reader list_env) popts_default False [] sample_entries"
    "reader_sees (env_reader list_env) popts_default False [] sample_grown"
    unfolding reader_sees_def reads_def
    by (rule exI [of _ "PArray (0, 0) [PLeaf (1, 1) DNull, PLeaf (4, 1) DNull]"],
        simp add: list_env_def list_reader_def sample_entry_defs child_at_def span_of_def)
      (rule exI [of _ "PArray (0, 0) [PLeaf (1, 1) DNull, PLeaf (4, 1) DNull, PLeaf (6, 1) DNull]"],
        simp add: list_env_def list_reader_def sample_entry_defs child_at_def span_of_def)
  have wf: "\<forall>e \<in> set sample_entries. wf_entry False e" "\<forall>e \<in> set sample_grown. wf_entry False e"
    by (simp_all add: sample_entry_defs wf_entry_def json_space_def json_ws_def)
  show "targets list_env root_resolver (asc ''/1'') (asc ''1'') [] False [] sample_entries []"
    "targets list_env root_resolver (asc ''/1'') (asc ''1'') [] False [] sample_grown []"
    using sp rd wf by (auto simp: targets_def root_resolver_def doc_with_def)
qed

lemma sample_index: "parse_index (asc ''1'') = Some 1"
  by (simp add: parse_index_iff dec.simps digit_def asc_def)

lemma sample_doc: "doc_with [] False [] sample_entries [] = asc ''[1, 2]''"
  by (simp add: sample_entry_defs)

theorem remove_refines_witness:
  "op_remove list_env root_resolver sample_emitter (asc ''[1, 2]'') (asc ''/1'') None = Inr (asc ''[1]'', None)"
proof -
  have f: "find_entry False (asc ''1'') sample_entries = Some 1"
    using sample_index by (simp add: find_entry_def sample_entries_def)
  have r: "doc_with [] False [] (remove_entry 1 sample_entries) [] = asc ''[1]''"
    by (simp add: sample_entry_defs remove_entry_def)
  from remove_refines [OF sample_targets(1), of sample_emitter None] show ?thesis
    by (simp add: f r [simplified] sample_doc)
qed

lemma sample_added:
  "added sample_emitter DEFAULT_CONFIG False (asc ''/1'') (asc ''1'') (InsValue (OFix 1)) [] sample_entries = Inr sample_grown"
proof -
  have t: "document_text sample_emitter DEFAULT_CONFIG (OFix 1) = Inr (asc ''1'')"
    by (simp add: sample_print DEFAULT_CONFIG_def gen_defaults_def)
  have "asc ''1'' \<noteq> [0x2D]" by (simp add: asc_def)
  with t sample_index show ?thesis
    by (simp add: added_def insert_entry_def sample_entries_def sample_grown_def) (simp add: new_entry_def)
qed

lemma sample_mode: "mode DEFAULT_CONFIG \<noteq> HtmlSafe"
  by (simp add: DEFAULT_CONFIG_def gen_defaults_def)

theorem add_refines_witness:
  "\<exists>cell'. op_add list_env root_resolver sample_emitter (asc ''[1, 2]'') (asc ''/1'') (InsValue (OFix 1)) DEFAULT_CONFIG None =
     Inr (asc ''[1, 1,2]'', cell')"
proof -
  have "doc_with [] False [] sample_grown [] = asc ''[1, 1,2]''" by (simp add: sample_entry_defs)
  with add_refines [OF sample_targets(1) _ sample_mode sample_emitter_ok, of sample_strs "InsValue (OFix 1)" None]
  show ?thesis by (auto simp: sample_added sample_doc cell_good_def)
qed

theorem add_remove_roundtrip_witness:
  "\<exists>doc' cell'. op_add list_env root_resolver sample_emitter (asc ''[1, 2]'') (asc ''/1'') (InsValue (OFix 1)) DEFAULT_CONFIG None =
      Inr (doc', cell') \<and>
    op_remove list_env root_resolver sample_emitter doc' (asc ''/1'') cell' = Inr (asc ''[1, 2]'', cell')"
proof -
  have "sample_entries \<noteq> []" "asc ''1'' \<noteq> [0x2D]" by (simp_all add: sample_entries_def asc_def)
  with add_remove_roundtrip [OF sample_targets(1) sample_added sample_targets(2) _ _ _ _ sample_mode sample_emitter_ok,
      of sample_strs None]
  show ?thesis by (simp add: sample_doc cell_good_def)
qed

end
