(* ===== verification/Splice.thy ===== *)
theory Splice
  imports Patch_Results
begin

text \<open>
  The properties of \<open>splice_native\<close> in patch.rs: the one sweep over the source is one
  replacement after another, and the targets are refused exactly when two of them overlap.
\<close>

section \<open>The sweep\<close>

text \<open>The replacements made one by one, the last span first, each in the document it is given.\<close>

definition replaced :: "(nat \<times> nat \<times> bytes) list \<Rightarrow> bytes \<Rightarrow> bytes" where
  "replaced spans doc = foldr (\<lambda>(s, e, v) d. take s d @ v @ drop e d) spans doc"

fun in_order :: "nat \<Rightarrow> (nat \<times> nat \<times> 'a) list \<Rightarrow> nat \<Rightarrow> bool" where
  "in_order pos [] n = (pos \<le> n)"
| "in_order pos ((s, e, v) # spans) n = (pos \<le> s \<and> s \<le> e \<and> in_order e spans n)"

lemma in_order_bound: "in_order pos spans n \<Longrightarrow> pos \<le> n"
  by (induction pos spans n rule: in_order.induct) auto

lemma replaced_prefix: "in_order pos spans (length doc) \<Longrightarrow> take pos (replaced spans doc) = take pos doc"
proof (induction pos spans "length doc" arbitrary: rule: in_order.induct)
  case (2 pos s e v spans)
  let ?d = "replaced spans doc"
  from 2 have "take e ?d = take e doc" and pos: "pos \<le> s" "s \<le> e" and n: "e \<le> length doc"
    using in_order_bound by auto
  then have "take s ?d = take s doc" by (metis min.absorb2 min.commute take_take)
  with pos n show ?case by (simp add: replaced_def min_def)
qed (simp add: replaced_def)

definition range_text :: "bytes \<Rightarrow> (nat \<times> nat) list \<Rightarrow> nat \<Rightarrow> bytes" where
  "range_text rendered ranges i = (case ranges ! i of (rs, re) \<Rightarrow> sub rendered rs re)"

lemma in_order_texts:
  "in_order pos (map (\<lambda>(s, e, i). (s, e, f i)) spans) n = in_order pos spans n"
proof (induction spans arbitrary: pos)
  case (Cons span spans)
  then show ?case by (cases span) simp
qed simp

lemma splice_sweep_replaced:
  "in_order pos spans (length input) \<Longrightarrow>
     splice_sweep input rendered ranges pos spans out =
       out @ drop pos (replaced (map (\<lambda>(s, e, i). (s, e, range_text rendered ranges i)) spans) input)"
proof (induction spans arbitrary: pos out)
  case Nil
  then show ?case by (simp add: replaced_def)
next
  case (Cons span spans)
  obtain s e i where span: "span = (s, e, i)" by (cases span) auto
  let ?spans = "map (\<lambda>(s, e, i). (s, e, range_text rendered ranges i)) spans"
  let ?d = "replaced ?spans input"
  from Cons.prems span have o: "pos \<le> s" "s \<le> e" "in_order e spans (length input)" by auto
  from o(3) have e: "take e ?d = take e input" using replaced_prefix [of e ?spans input] by (simp only: in_order_texts)
  then have "take s (take e ?d) = take s (take e input)" by simp
  then have s: "take s ?d = take s input" using o(2) by (simp only: take_take min.absorb1)
  have n: "e \<le> length input" using in_order_bound [OF o(3)] .
  have "drop pos (replaced (map (\<lambda>(s, e, i). (s, e, range_text rendered ranges i)) (span # spans)) input) =
      drop pos (take s ?d @ range_text rendered ranges i @ drop e ?d)"
    by (simp add: span replaced_def)
  also have "\<dots> = sub input pos s @ range_text rendered ranges i @ drop e ?d"
  proof -
    have "length (take s input) = s" using o n by simp
    then show ?thesis using o(1) by (simp only: s sub_def drop_append drop_take) simp
  qed
  finally have swept: "drop pos (replaced (map (\<lambda>(s, e, i). (s, e, range_text rendered ranges i)) (span # spans)) input) =
    sub input pos s @ range_text rendered ranges i @ drop e ?d" .
  have "splice_sweep input rendered ranges pos (span # spans) out =
      splice_sweep input rendered ranges e spans (out @ sub input pos s @ range_text rendered ranges i)"
    by (cases "ranges ! i") (simp add: span range_text_def)
  also have "\<dots> = (out @ sub input pos s @ range_text rendered ranges i) @ drop e ?d"
    by (rule Cons.IH [OF o(3)])
  finally show ?case by (simp only: swept append_assoc)
qed

section \<open>Overlaps\<close>

text \<open>No two spans have a byte in common.\<close>

definition apart :: "(nat \<times> nat \<times> 'a) list \<Rightarrow> bool" where
  "apart spans \<longleftrightarrow> sorted_wrt (\<lambda>p q. fst (snd p) \<le> fst q \<or> fst (snd q) \<le> fst p) spans"

lemma sorted_wrt_insort:
  assumes "symp R"
  shows "sorted_wrt R (insort_key f x xs) \<longleftrightarrow> sorted_wrt R (x # xs)"
  using sympD [OF assms] by (induction xs) (auto simp: set_insort_key)

lemma sorted_wrt_sort: "symp R \<Longrightarrow> sorted_wrt R (sort_key f xs) \<longleftrightarrow> sorted_wrt R xs"
proof (induction xs)
  case (Cons x xs)
  then show ?case by (simp add: sorted_wrt_insort)
qed simp

lemma apart_sort [simp]: "apart (sort_key f spans) = apart spans"
  unfolding apart_def by (rule sorted_wrt_sort) (auto simp: symp_def)

lemma window_apart:
  assumes "sorted (map fst spans)" and "\<forall>sp \<in> set spans. fst sp < fst (snd sp)"
  shows "any_window (\<lambda>p q. fst q < fst (snd p)) spans \<longleftrightarrow> \<not> apart spans"
  using assms
proof (induction "\<lambda>(p :: nat \<times> nat \<times> 'a) q :: nat \<times> nat \<times> 'a. fst q < fst (snd p)" spans rule: any_window.induct)
  case (1 p q spans)
  show ?case
  proof (cases "fst q < fst (snd p)")
    case True
    with 1(2,3) show ?thesis by (auto simp: apart_def)
  next
    case False
    then have "fst (snd p) \<le> fst r" if "r \<in> set (q # spans)" for r
      using 1(2) that by fastforce
    with False 1 show ?thesis by (auto simp: apart_def)
  qed
qed (auto simp: apart_def)

lemma apart_in_order:
  assumes "sorted (map fst spans)" and "\<forall>sp \<in> set spans. fst sp < fst (snd sp) \<and> fst (snd sp) \<le> n"
    and "apart spans" and "\<forall>sp \<in> set spans. pos \<le> fst sp" and "pos \<le> n"
  shows "in_order pos spans n"
  using assms
proof (induction spans arbitrary: pos)
  case (Cons sp spans)
  obtain s e v where sp: "sp = (s, e, v)" by (cases sp) auto
  have "e \<le> fst q" if "q \<in> set spans" for q
    using Cons.prems(1-3) that by (fastforce simp: sp apart_def)
  with Cons sp show ?case by (auto simp: apart_def)
qed simp

lemma map_sort_key: "(\<And>x. f (g x) = h x) \<Longrightarrow> sort_key f (map g xs) = map g (sort_key h xs)"
proof (induction xs)
  case (Cons x xs)
  have "insort_key f (g x) (map g ys) = map g (insort_key h x ys)" for ys
    by (induction ys) (simp_all add: Cons.prems)
  with Cons show ?case by simp
qed simp

section \<open>The texts\<close>

text \<open>The pointers with the texts of their values, or the first error.\<close>

fun edit_texts :: "emitter \<Rightarrow> gen_config \<Rightarrow> ((ruby_error + bytes) option \<times> robj) list \<Rightarrow> ruby_error + (bytes \<times> bytes) list" where
  "edit_texts E cfg [] = Inr []"
| "edit_texts E cfg ((k, v) # edits) =
     tryr (case k of None \<Rightarrow> Inl (ArgumentError (msg ''splice pointers must be Strings'')) | Some s \<Rightarrow> s) (\<lambda>ptr.
     tryr (document_text E cfg v) (\<lambda>t.
     map_ok (\<lambda>pts. (ptr, t) # pts) (edit_texts E cfg edits)))"

fun ranges_from :: "nat \<Rightarrow> bytes list \<Rightarrow> (nat \<times> nat) list" where
  "ranges_from at [] = []"
| "ranges_from at (t # ts) = (at, at + length t) # ranges_from (at + length t) ts"

lemma range_text_at:
  "i < length ts \<Longrightarrow> range_text (pre @ concat ts) (ranges_from (length pre) ts) i = ts ! i"
proof (induction ts arbitrary: pre i)
  case (Cons t ts)
  show ?case
  proof (cases i)
    case (Suc j)
    with Cons.IH [of j "pre @ t"] Cons.prems show ?thesis by (simp add: range_text_def)
  qed (simp add: range_text_def)
qed simp

lemma splice_render_texts:
  assumes "config_ok cfg" and "mode cfg \<noteq> HtmlSafe" and "emitter_ok E"
    and "\<forall>e \<in> set edits. sound_obj strs (snd e)" and "cell_good E strs cell"
  shows "case edit_texts E cfg edits of
      Inl e \<Rightarrow> splice_render E cfg edits rendered cell = Inl e
    | Inr pts \<Rightarrow> \<exists>cell'. splice_render E cfg edits rendered cell =
          Inr ((map fst pts, ranges_from (length rendered) (map snd pts)), rendered @ concat (map snd pts), cell') \<and>
        cell_good E strs cell'"
  using assms(4,5)
proof (induction edits arbitrary: rendered cell)
  case (Cons edit edits)
  obtain k v where edit: "edit = (k, v)" by fastforce
  consider "k = None" | e where "k = Some (Inl e)" | ptr where "k = Some (Inr ptr)"
    by (metis not_Some_eq sum.exhaust)
  then show ?case
  proof cases
    case (3 ptr)
    have y: "yields E strs (settle (emit_into E cfg v rendered cell)) (map_ok ((@) rendered) (document_text E cfg v))"
      by (rule emit_into_yields [OF assms(1-3)]) (use Cons.prems edit in auto)
    show ?thesis
    proof (cases "document_text E cfg v")
      case (Inl e)
      with y 3 edit show ?thesis by (simp add: yields_def)
    next
      case t: (Inr t)
      with y obtain cell1 where c: "settle (emit_into E cfg v rendered cell) = Inr (rendered @ t, cell1)" "cell_good E strs cell1"
        by (auto simp: yields_def)
      have "\<forall>e \<in> set edits. sound_obj strs (snd e)" using Cons.prems(1) by simp
      from Cons.IH [OF this c(2), of "rendered @ t"] c(1) t 3 edit show ?thesis
        by (cases "edit_texts E cfg edits") auto
    qed
  qed (simp_all add: edit arg_error_def)
qed simp

text \<open>The spans the pointers resolve to with their texts, or the first that does not resolve.\<close>

definition located :: "(bytes \<times> bytes) list \<Rightarrow> (nat \<times> nat) option list \<Rightarrow> ruby_error + (nat \<times> nat \<times> bytes) list" where
  "located pts hits =
     collect (\<lambda>((ptr, t), hit). case hit of
         None \<Rightarrow> Inl (KeyError (Fmt ''pointer {} does not resolve'' [ABytes ptr]))
       | Some sl \<Rightarrow> Inr (fst sl, fst sl + snd sl, t)) (zip pts hits)"

lemma located_simps [simp]:
  "located [] [] = Inr []"
  "located ((ptr, t) # pts) (None # hits) = Inl (KeyError (Fmt ''pointer {} does not resolve'' [ABytes ptr]))"
  "located ((ptr, t) # pts) (Some sl # hits) = map_ok ((#) (fst sl, fst sl + snd sl, t)) (located pts hits)"
  by (simp_all add: located_def)

lemma splice_spans_located:
  assumes "length hits = length pts"
  shows "map_ok (map (\<lambda>(s, e, i). (s, e, snd ((done @ pts) ! i)))) (splice_spans (map fst (done @ pts)) (length done) hits) =
    located pts hits"
  using assms
proof (induction pts hits arbitrary: "done" rule: list_induct2')
  case (4 pt pts hit hits)
  from 4 have IH: "map_ok (map (\<lambda>(s, e, i). (s, e, snd ((done @ pt # pts) ! i))))
      (splice_spans (map fst (done @ pt # pts)) (Suc (length done)) hits) = located pts hits"
    using 4(1) [of "done @ [pt]"] by simp
  obtain ptr t where pt: "pt = (ptr, t)" by fastforce
  show ?case
  proof (cases hit)
    case None
    then show ?thesis by (simp add: pt nth_append)
  next
    case (Some sl)
    have "(done @ pt # pts) ! length done = pt" by simp
    with IH [symmetric] Some show ?thesis
      by (cases "splice_spans (map fst (done @ pt # pts)) (Suc (length done)) hits") (auto simp: pt span_of_def)
  qed
qed simp_all


section \<open>Splice\<close>

lemma gen_config_for_is: "gen_config_for opts = config_of opts"
  by (simp add: gen_config_for_def config_of_def)

lemma located_spans:
  assumes "located pts hits = Inr spans" and "\<forall>sl. Some sl \<in> set hits \<longrightarrow> 0 < snd sl \<and> fst sl + snd sl \<le> n"
    and "length hits = length pts"
  shows "\<forall>sp \<in> set spans. fst sp < fst (snd sp) \<and> fst (snd sp) \<le> n"
  using assms
proof (induction pts hits arbitrary: spans rule: list_induct2')
  case (4 pt pts hit hits)
  then show ?case
    by (cases pt; cases hit; cases "located pts hits") auto
qed auto

lemma splice_spans_index:
  "splice_spans ptrs k hits = Inr spans \<Longrightarrow> \<forall>sp \<in> set spans. snd (snd sp) < k + length hits"
proof (induction hits arbitrary: k spans)
  case (Cons hit hits)
  from Cons.prems obtain sl rest where "hit = Some sl" "splice_spans ptrs (k + 1) hits = Inr rest"
    "spans = (fst (span_of sl), snd (span_of sl), k) # rest"
    by (cases hit; cases "splice_spans ptrs (k + 1) hits") (auto split: prod.splits)
  with Cons.IH [of "k + 1" rest] show ?case by force
qed simp

text \<open>
  C16.  \<open>splice\<close> replaces every target by the text of its value as if one by one, from the last
  span to the first, although it makes one sweep: every byte outside the targets is copied.
  It raises \<open>KeyError\<close> for the first pointer that does not resolve, and \<open>ArgumentError\<close>
  exactly when two of the targets share a byte.
\<close>

theorem splice_by_edits:
  assumes "gen_config_for opts = Inr cfg" and "emitter_ok E"
    and "\<forall>e \<in> set edits. sound_obj strs (snd e)" and "cell_good E strs cell"
    and "utf8_input data = Inr was" and "utf8_input data' = Inr input"
    and "edit_texts E cfg edits = Inr pts"
    and "re_pointers re input (map fst pts) popts_default = Inr hits" and "length hits = length pts"
    and "\<forall>sl. Some sl \<in> set hits \<longrightarrow> 0 < snd sl \<and> fst sl + snd sl \<le> length input"
  shows "case located pts hits of
      Inl e \<Rightarrow> splice_native env re E cell data data' edits opts = Inl e
    | Inr spans \<Rightarrow>
        if apart spans
        then \<exists>cell'. splice_native env re E cell data data' edits opts =
            Inr (replaced (sort_key fst spans) input, cell') \<and> cell_good E strs cell'
        else splice_native env re E cell data data' edits opts =
            Inl (ArgumentError (msg ''splice targets overlap (one pointer addresses a value inside another)''))"
proof -
  have cfg: "config_ok cfg" "mode cfg \<noteq> HtmlSafe"
    using assms(1) config_of_ok [of opts] by (auto simp: gen_config_for_is)
  define ranges where "ranges = ranges_from 0 (map snd pts)"
  define body where "body = concat (map snd pts)"
  from splice_render_texts [OF cfg assms(2-4), of "[]"] assms(7) obtain cell' where
    r: "splice_render E cfg edits [] cell = Inr ((map fst pts, ranges), body, cell')" and c: "cell_good E strs cell'"
    by (auto simp: ranges_def body_def)
  let ?f = "\<lambda>(s, e, i). (s, e, snd (pts ! i))" and ?sp = "splice_spans (map fst pts) 0 hits"
  have native: "splice_native env re E cell data data' edits opts =
      tryr ?sp (\<lambda>spans.
        if any_window (\<lambda>p q. fst q < fst (snd p)) (sort_key fst spans)
        then Inl (ArgumentError (msg ''splice targets overlap (one pointer addresses a value inside another)''))
        else Inr (splice_sweep input body ranges 0 (sort_key fst spans) [], cell'))"
    using assms(1,5,6,8) r by (simp add: splice_native_def Let_def arg_error_def cong: if_cong)
  have loc: "map_ok (map ?f) ?sp = located pts hits"
    using splice_spans_located [OF assms(9), of "[]"] by simp
  show ?thesis
  proof (cases ?sp)
    case (Inl e)
    with native loc show ?thesis by (simp flip: loc)
  next
    case (Inr spans)
    with loc have l: "located pts hits = Inr (map ?f spans)" by (simp flip: loc)
    have b: "\<forall>sp \<in> set spans. fst sp < fst (snd sp) \<and> fst (snd sp) \<le> length input \<and> snd (snd sp) < length pts"
    proof
      fix sp assume sp: "sp \<in> set spans"
      obtain s e i where "sp = (s, e, i)" by (cases sp) auto
      with located_spans [OF l assms(10,9)] splice_spans_index [OF Inr] sp assms(9)
      show "fst sp < fst (snd sp) \<and> fst (snd sp) \<le> length input \<and> snd (snd sp) < length pts" by force
    qed
    have a: "apart (map ?f spans) = apart spans"
      by (simp add: apart_def sorted_wrt_map case_prod_unfold)
    show ?thesis
    proof (cases "apart spans")
      case False
      with window_apart [of "sort_key fst spans"] b a l native Inr show ?thesis by simp
    next
      case True
      have o: "in_order 0 (sort_key fst spans) (length input)"
        by (rule apart_in_order) (use b True in auto)
      have t: "map (\<lambda>(s, e, i). (s, e, range_text body ranges i)) (sort_key fst spans) = sort_key fst (map ?f spans)"
      proof -
        have "map ?f (sort_key fst spans) = sort_key fst (map ?f spans)"
          by (rule map_sort_key [symmetric]) auto
        moreover have "range_text body ranges i = snd (pts ! i)" if "i < length pts" for i
          using range_text_at [of i "map snd pts" "[]"] that by (simp add: body_def ranges_def)
        ultimately show ?thesis using b by (auto simp flip: \<open>map ?f (sort_key fst spans) = _\<close>)
      qed
      from True window_apart [of "sort_key fst spans"] b have "\<not> any_window (\<lambda>p q. fst q < fst (snd p)) (sort_key fst spans)"
        by simp
      with native Inr c splice_sweep_replaced [OF o, of body ranges "[]"] t True a l show ?thesis by simp
    qed
  qed
qed


text \<open>A resolver for the elements of \<open>[1, 2]\<close>.\<close>

definition elem_resolver :: resolver where
  "elem_resolver =
     (let h = (\<lambda>p. if p = asc ''/0'' then Some (1, 1) else if p = asc ''/1'' then Some (4, 1) else None)
      in \<lparr>re_pointer = (\<lambda>_ p _. Inr (h p)), re_pointers = (\<lambda>_ ps _. Inr (map h ps))\<rparr>)"

theorem splice_by_edits_witness:
  "\<exists>cell'. splice_native list_env elem_resolver sample_emitter None
      \<lparr>str_encoding = UsAscii, str_bytes = asc ''[1, 2]''\<rparr> \<lparr>str_encoding = UsAscii, str_bytes = asc ''[1, 2]''\<rparr>
      [(Some (Inr (asc ''/1'')), OFix 1), (Some (Inr (asc ''/0'')), OArr [])] ONil = Inr (asc ''[[], 1]'', cell')"
proof -
  let ?data = "\<lparr>str_encoding = UsAscii, str_bytes = asc ''[1, 2]''\<rparr>"
  let ?edits = "[(Some (Inr (asc ''/1'')), OFix 1), (Some (Inr (asc ''/0'')), OArr [])]"
  let ?pts = "[(asc ''/1'', asc ''1''), (asc ''/0'', asc ''[]'')]"
  have cfg: "gen_config_for ONil = Inr DEFAULT_CONFIG" by (simp add: gen_config_for_def)
  have inp: "utf8_input ?data = Inr (asc ''[1, 2]'')" by (simp add: utf8_input_def asc_def)
  have pts: "edit_texts sample_emitter DEFAULT_CONFIG ?edits = Inr ?pts"
    by (simp add: sample_print)
  have hits: "re_pointers elem_resolver (asc ''[1, 2]'') (map fst ?pts) popts_default = Inr [Some (4, 1), Some (1, 1)]"
    by (simp add: elem_resolver_def asc_def)
  have loc: "located ?pts [Some (4, 1), Some (1, 1)] = Inr [(4, 5, asc ''1''), (1, 2, asc ''[]'')]" by simp
  have rep: "replaced [(Suc 0, Suc (Suc 0), asc ''[]''), (4, 5, asc ''1'')] (asc ''[1, 2]'') = asc ''[[], 1]''"
    by (simp add: replaced_def asc_def)
  from splice_by_edits [OF cfg sample_emitter_ok _ _ inp inp pts hits, of sample_strs None list_env] show ?thesis
    by (auto simp: loc rep cell_good_def apart_def)
qed

end
