(* ===== verification/Patch_Ops.thy ===== *)
theory Patch_Ops
  imports Splice
begin

text \<open>
  Operations of a patch that leave the bytes alone: \<open>test\<close> of patch.rs, and \<open>move\<close> where there is
  nothing to move.
\<close>

section \<open>Moving what does not exist\<close>

lemma required_Some [simp]: "required (Inr (Some p)) m = Inr p"
  by (simp add: required_def)

text \<open>
  C37.  A \<open>move\<close> whose source does not exist is a \<open>PatchError\<close>, except that one whose two pointers
  are equal is accepted and changes nothing: that case never looks for its source.
\<close>

theorem move_missing_source:
  assumes "op_str_field op ''op'' = Inr (Some (asc ''move''))" and "op_str_field op ''path'' = Inr (Some path)"
    and "op_str_field op ''from'' = Inr (Some src)" and "take (length src + 1) path \<noteq> src @ [b_slash]"
    and "re_pointer re (ps_doc s) src popts_default = Inr None"
  shows "patch_op env re E equal cfg i op s =
    (if path = src then Inr s else Inl (PatchError (Fmt ''move source {} does not exist'' [ABytes src])))"
proof -
  have "span_at env re (ps_doc s) src = Inr None" using assms(5) by (simp add: span_at_def)
  moreover have "asc ''move'' \<noteq> asc ''add''" "asc ''move'' \<noteq> asc ''replace''" "asc ''move'' \<noteq> asc ''remove''"
    by (simp_all add: asc_def)
  ultimately show ?thesis using assms(1-4) by (simp add: patch_op_def Let_def patch_error_def)
qed

definition sample_move :: op_hash where
  "sample_move = (let text = (\<lambda>t. \<lparr>ov_string = Some (Inr (asc t)), ov_object = ONilV\<rparr>)
     in [(FString ''op'', text ''move''), (FString ''path'', text ''/9''), (FSymbol ''from'', text ''/9'')])"

theorem move_missing_source_witness:
  "patch_op list_env elem_resolver sample_emitter (\<lambda>_ _. Inr True) DEFAULT_CONFIG 0 sample_move
     \<lparr>ps_doc = asc ''[1, 2]'', ps_cell = None, ps_pull = fresh_pull_state\<rparr> =
   Inr \<lparr>ps_doc = asc ''[1, 2]'', ps_cell = None, ps_pull = fresh_pull_state\<rparr>"
proof -
  have f: "op_str_field sample_move ''op'' = Inr (Some (asc ''move''))"
    "op_str_field sample_move ''path'' = Inr (Some (asc ''/9''))"
    "op_str_field sample_move ''from'' = Inr (Some (asc ''/9''))"
    by (simp_all add: sample_move_def op_str_field_def op_field_def Let_def)
  have "re_pointer elem_resolver (asc ''[1, 2]'') (asc ''/9'') popts_default = Inr None"
    by (simp add: elem_resolver_def asc_def)
  then show ?thesis by (subst move_missing_source [OF f]) simp_all
qed

section \<open>Testing a value\<close>

text \<open>
  C36.  \<open>test\<close> compares, with Ruby's own equality, the value \<open>parse\<close> gives the addressed text with
  the expected object; it succeeds without touching the document, fails with \<open>PatchError\<close>, or
  passes on what the comparison raised.
\<close>

theorem test_compares:
  assumes "vm_law (env_vm env)" and "pool_ok (env_vm env) (ps_pull s)"
    and "op_str_field op ''op'' = Inr (Some (asc ''test''))" and "op_str_field op ''path'' = Inr (Some path)"
    and "op_field op ''value'' = Some expected"
    and "re_pointer re (ps_doc s) path popts_default = Inr (Some (at, l))"
    and "scans_as (env_scan env) (sub (ps_doc s) at (at + l)) popts_default d"
    and "parse_accepts parse_opts_default d"
  shows "case equal (value_of (env_vm env) False False d) (ov_object expected) of
      Inl e \<Rightarrow> patch_op env re E equal cfg i op s = Inl e
    | Inr eq \<Rightarrow>
        if eq then \<exists>st'. patch_op env re E equal cfg i op s = Inr (s\<lparr>ps_pull := st'\<rparr>) \<and> pool_ok (env_vm env) st'
        else patch_op env re E equal cfg i op s = Inl (PatchError (Fmt ''test failed at {}'' [ABytes path]))"
proof -
  have po: "popts parse_opts_default = popts_default" "symbolize parse_opts_default = False" "freeze parse_opts_default = False"
    by (simp_all add: parse_opts_default_def)
  from materialize_accepted [OF assms(1,2), of "ps_doc s" at "at + l" parse_opts_default d] assms(7,8)
  obtain st' where st': "materialize_at env (ps_pull s) (ps_doc s) at (at + l) parse_opts_default =
      Inr (value_of (env_vm env) False False d, st')" "pool_ok (env_vm env) st'"
    by (auto simp: po)
  have sp: "span_at env re (ps_doc s) path = Inr (Some (at, at + l))"
    using assms(6) by (simp add: span_at_def span_of_def)
  have names: "asc ''test'' \<noteq> asc ''add''" "asc ''test'' \<noteq> asc ''replace''" "asc ''test'' \<noteq> asc ''remove''"
    "asc ''test'' \<noteq> asc ''move''" "asc ''test'' \<noteq> asc ''copy''"
    by (simp_all add: asc_def)
  have op: "patch_op env re E equal cfg i op s =
      tryr (op_test env re equal (ps_pull s) (ps_doc s) path (ov_object expected)) (\<lambda>st. Inr (s\<lparr>ps_pull := st\<rparr>))"
    using assms(3-5) names by (simp add: patch_op_def Let_def)
  show ?thesis
    using st' sp by (cases "equal (value_of (env_vm env) False False d) (ov_object expected)")
      (auto simp: op op_test_def patch_error_def)
qed

definition sample_test :: op_hash where
  "sample_test =
     [(FString ''op'', \<lparr>ov_string = Some (Inr (asc ''test'')), ov_object = ONilV\<rparr>),
      (FString ''path'', \<lparr>ov_string = Some (Inr []), ov_object = ONilV\<rparr>),
      (FString ''value'', \<lparr>ov_string = None, ov_object = OArr []\<rparr>)]"

text \<open>A parser that reads every text as an empty array.\<close>

definition test_env :: "(term_value, nat \<times> (nat \<times> nat) list) env" where
  "test_env = list_env\<lparr>env_scan := (\<lambda>_ _. (events (DArray []), None))\<rparr>"

theorem test_compares_witness:
  "patch_op test_env root_resolver sample_emitter
     (\<lambda>v obj. Inr (v \<noteq> TArray [])) DEFAULT_CONFIG 0 sample_test
     \<lparr>ps_doc = asc ''[]'', ps_cell = None, ps_pull = fresh_pull_state\<rparr> =
   Inl (PatchError (Fmt ''test failed at {}'' [ABytes []]))"
proof -
  have f: "op_str_field sample_test ''op'' = Inr (Some (asc ''test''))" "op_str_field sample_test ''path'' = Inr (Some [])"
    "op_field sample_test ''value'' = Some \<lparr>ov_string = None, ov_object = OArr []\<rparr>"
    by (simp_all add: sample_test_def op_str_field_def op_field_def)
  have r: "re_pointer root_resolver (ps_doc \<lparr>ps_doc = asc ''[]'', ps_cell = None, ps_pull = fresh_pull_state\<rparr>) []
      popts_default = Inr (Some (0, 2))"
    by (simp add: root_resolver_def)
  have v: "frozen term_vm False (vm_array term_vm []) = TArray []" by (simp add: frozen_def) (simp add: term_vm_def)
  have e: "env_vm test_env = term_vm" "env_scan test_env = (\<lambda>_ _. (events (DArray []), None))"
    by (simp_all add: test_env_def list_env_def)
  have d: "parse_accepts parse_opts_default (DArray [])"
    by (simp add: parse_accepts_def parse_opts_default_def)
  show ?thesis
    using test_compares [OF _ _ f r _ d, where env = test_env and equal = "\<lambda>v obj. Inr (v \<noteq> TArray [])"
        and E = sample_emitter and cfg = DEFAULT_CONFIG and i = 0]
    by (simp add: term_vm_law fresh_pool_ok scans_as_def v e)
qed

end
