(* ===== verification/Walks_End.thy ===== *)
theory Walks_End
  imports Lazy_Results Patch_Edits
begin

text \<open>
  Every loop over the crate's Reader ends, on any input, well-formed or not: the Reader is a
  cursor that moves forward, which is all that is asked of it.  So an entry point that walks
  with it returns a value or raises.
\<close>

section \<open>Progress\<close>

text \<open>
  Stepping into a node and skipping a value move the cursor on; looking for the next entry may
  leave it where it is, but never moves it back.
\<close>

definition progress :: "('r \<Rightarrow> nat) \<Rightarrow> 'r reader \<Rightarrow> bool" where
  "progress left R \<longleftrightarrow>
     (\<forall>r x r'. rd_next_node R r = Inr (x, r') \<longrightarrow> left r' < left r) \<and>
     (\<forall>r x r'. rd_skip_value R r = Inr (x, r') \<longrightarrow> left r' < left r) \<and>
     (\<forall>r x r'. rd_object_first_key R r = Inr (x, r') \<longrightarrow> left r' \<le> left r) \<and>
     (\<forall>r x r'. rd_object_next_key R r = Inr (x, r') \<longrightarrow> left r' \<le> left r) \<and>
     (\<forall>r x r'. rd_array_first R r = Inr (x, r') \<longrightarrow> left r' \<le> left r) \<and>
     (\<forall>r x r'. rd_array_next R r = Inr (x, r') \<longrightarrow> left r' \<le> left r)"

definition reader_progress :: "'r reader \<Rightarrow> bool" where
  "reader_progress R \<longleftrightarrow> (\<exists>left. progress left R)"

lemma progressD:
  assumes "progress left R"
  shows "rd_next_node R r = Inr (n, r') \<Longrightarrow> left r' < left r" and "rd_skip_value R r = Inr (sl, r') \<Longrightarrow> left r' < left r"
    and "rd_object_first_key R r = Inr (k, r') \<Longrightarrow> left r' \<le> left r"
    and "rd_object_next_key R r = Inr (k, r') \<Longrightarrow> left r' \<le> left r"
    and "rd_array_first R r = Inr (h, r') \<Longrightarrow> left r' \<le> left r"
    and "rd_array_next R r = Inr (h, r') \<Longrightarrow> left r' \<le> left r"
  using assms unfolding progress_def by blast+

section \<open>The cold-path walk\<close>

lemma open_node_progress:
  assumes "progress left R" and "open_node R fr r = Inr (f, r')"
  shows "left r' < left r"
proof -
  from assms(2) obtain n r1 where n: "rd_next_node R r = Inr (n, r1)" by (auto simp: open_node_def tryr_Inr_iff)
  have "left r' \<le> left r1"
    using assms(2) n progressD(3,5) [OF assms(1)]
    by (cases n) (auto simp: open_node_def tryr_Inr_iff map_ok_tryr)
  with progressD(1) [OF assms(1) n] show ?thesis by simp
qed

lemma advance_progress: "progress left R \<Longrightarrow> advance R fr inner r = Inr (f, r') \<Longrightarrow> left r' \<le> left r"
  by (auto simp: advance_def Let_def tryr_Inr_iff map_ok_tryr split: if_splits dest: progressD(4) progressD(6))

lemma scan_loop_ends:
  assumes "progress left R"
  shows "left r < n \<Longrightarrow> \<exists>y. scan_loop R fr c r stack = Some y"
proof (induction n arbitrary: c r stack)
  case (Suc n)
  have at: "\<exists>y. scan_loop R fr AtValue r stack = Some y" if "left r < Suc n" for r stack
  proof (cases "open_node R fr r")
    case (Inl e)
    then show ?thesis by (subst scan_loop.simps) simp
  next
    case (Inr res)
    obtain f r1 where res: "res = (f, r1)" by fastforce
    with open_node_progress [OF assms] Inr that have "left r1 < n" by fastforce
    from Suc.IH [OF this] Inr res show ?thesis by (subst scan_loop.simps) (cases f; simp)
  qed
  have "\<exists>y. scan_loop R fr Complete r stack = Some y" if "left r < Suc n" for r
    using that
  proof (induction stack arbitrary: r)
    case Nil
    then show ?case by (subst scan_loop.simps) simp
  next
    case (Cons inner rest)
    show ?case
    proof (cases "advance R fr inner r")
      case (Inl e)
      then show ?thesis by (subst scan_loop.simps) simp
    next
      case (Inr res)
      obtain f r1 where res: "res = (f, r1)" by fastforce
      with advance_progress [OF assms] Inr Cons.prems have "left r1 < Suc n" by fastforce
      with at [OF this] Cons.IH [OF this] Inr res show ?thesis
        by (subst scan_loop.simps) (cases f; cases "fr_repeated inner"; simp)
    qed
  qed
  with at Suc.prems show ?case by (cases c) auto
qed simp

lemma scan_ends: "reader_progress R \<Longrightarrow> \<exists>y. scan R doc po fr = Some y"
proof -
  assume "reader_progress R"
  then obtain left where "progress left R" by (auto simp: reader_progress_def)
  from scan_loop_ends [OF this lessI] show "\<exists>y. scan R doc po fr = Some y" unfolding scan_def .
qed

section \<open>Parsing returns\<close>

lemma push_raw_error: "push_raw v s = Inl a \<Longrightarrow> a \<noteq> Diverged"
  by (auto simp: push_raw_def split: if_splits)

lemma ruby_feed_error: "feed (RubyValueSink vm) ev sm = Inl a \<Longrightarrow> a \<noteq> Diverged"
proof (cases sm)
  case (Pair s ms)
  assume a: "feed (RubyValueSink vm) ev sm = Inl a"
  have m: "map_ok f r = Inl a \<Longrightarrow> r = Inl a" for f :: "'a ruby_sink \<Rightarrow> 'a ruby_sink \<times> nat list" and r
    by (cases r) auto
  show ?thesis
    using a Pair
    by (cases ev; cases ms)
      (auto simp: RubyValueSink_def enter_container_def ruby_big_int_def ruby_str_def ruby_key_def ruby_end_array_def
        ruby_end_object_def Let_def split: if_splits prod.splits dest!: m push_raw_error)
qed

lemma ruby_run_error: "run (RubyValueSink vm) evs sm = Inl a \<Longrightarrow> a \<noteq> Diverged"
  by (induction evs arbitrary: sm) (auto simp: tryr_Inl_iff dest: ruby_feed_error)

lemma ruby_drive_error:
  "drive prs (RubyValueSink vm) input gr s = Inl failure \<Longrightarrow> failure \<noteq> SinkErr Diverged"
  by (cases "run (RubyValueSink vm) (fst (prs input gr)) (s, [])")
    (auto simp: drive_def split: prod.splits option.splits dest: ruby_run_error)

lemma drive_error_returns:
  assumes "reader_progress (env_reader env)" and "failure \<noteq> SinkErr Diverged"
  shows "drive_error env failure po source span \<noteq> Hang"
proof -
  obtain s e where span: "span = (s, e)" by fastforce
  from scan_ends [OF assms(1)] obtain d where d: "duplicate_key (env_reader env) (sub source s e) (popts po) = Some d"
    unfolding duplicate_key_def by fastforce
  from scan_ends [OF assms(1)] obtain w where w: "first_walk_error (env_reader env) (sub source s e) (popts po) = Some w"
    unfolding first_walk_error_def by fastforce
  show ?thesis
    using assms(2) by (auto simp: span drive_error_def Let_def parser_error_def raised_at_def d w
        split: drive_error.splits sink_abort.splits option.splits repeat.splits)
qed

lemma materialize_returns:
  assumes "reader_progress (env_reader env)"
  shows "materialize_at env st source s e po \<noteq> Inl Hang"
proof (cases "drive (env_scan env) (RubyValueSink (env_vm env)) (sub source s e) (popts po) (ruby_sink_for st po)")
  case (Inl failure)
  with drive_error_returns [OF assms ruby_drive_error [OF Inl], of po source "(s, e)"] show ?thesis
    by (simp add: materialize_at_def finish_drive_def)
qed (simp add: materialize_at_def finish_drive_def)

text \<open>
  C18.  Whatever the input and whatever the crate's parser reports, \<open>parse\<close> returns: a value or
  an exception.  In particular the walk that looks for a duplicate key, and the walk that looks
  for a lone surrogate, end on every document, even one the Reader refuses half way.
\<close>

theorem parse_returns:
  assumes "reader_progress (env_reader env)" and "parse_native_opts opts = Inr po" and "utf8_input data = Inr input"
  shows "parse_native env st data opts \<noteq> Inl Hang"
  using materialize_returns [OF assms(1)] by (simp add: parse_native_def materialize_def assms(2,3))

section \<open>Container walks return\<close>

lemma members_loop_ends:
  assumes "progress left R"
  shows "left r < n \<Longrightarrow> \<exists>y. members_loop R start key r out = Some y"
proof (induction n arbitrary: key r out)
  case (Suc n)
  have step: "\<exists>y. members_loop R start k2 r2 out' = Some y"
    if "rd_skip_value R r = Inr (sl, r1)" "rd_object_next_key R r1 = Inr (k2, r2)" for sl r1 k2 r2 out'
    using Suc.IH [of r2] progressD(2) [OF assms that(1)] progressD(4) [OF assms that(2)] Suc.prems by simp
  show ?case
    by (subst members_loop.simps) (use step in \<open>auto split: option.split sum.split\<close>)
qed simp

lemma elems_loop_ends:
  assumes "progress left R"
  shows "left r < n \<Longrightarrow> \<exists>y. elems_loop R start has r out = Some y"
proof (induction n arbitrary: has r out)
  case (Suc n)
  have step: "\<exists>y. elems_loop R start h2 r2 out' = Some y"
    if "rd_skip_value R r = Inr (sl, r1)" "rd_array_next R r1 = Inr (h2, r2)" for sl r1 h2 r2 out'
    using Suc.IH [of r2] progressD(2) [OF assms that(1)] progressD(6) [OF assms that(2)] Suc.prems by simp
  show ?case
    by (subst elems_loop.simps) (use step in \<open>auto split: sum.split\<close>)
qed simp

lemma keys_loop_ends:
  assumes "progress left R"
  shows "left r < n \<Longrightarrow> \<exists>y. keys_loop R has r out = Some y"
proof (induction n arbitrary: has r out)
  case (Suc n)
  have step: "\<exists>y. keys_loop R h2 r2 out' = Some y"
    if "rd_skip_value R r = Inr (sl, r1)" "rd_object_next_key R r1 = Inr (k2, r2)" for sl r1 k2 r2 h2 out'
    using Suc.IH [of r2] progressD(2) [OF assms that(1)] progressD(4) [OF assms that(2)] Suc.prems by simp
  show ?case
    by (subst keys_loop.simps) (use step in \<open>auto split: option.split sum.split\<close>)
qed simp

lemma size_loop_ends:
  assumes "progress left R" and keep: "\<And>r h r'. next r = Inr (h, r') \<Longrightarrow> left r' \<le> left r"
  shows "left r < n \<Longrightarrow> \<exists>y. size_loop next R has r k = Some y"
proof (induction n arbitrary: has r k)
  case (Suc n)
  have step: "\<exists>y. size_loop next R h2 r2 k' = Some y"
    if "rd_skip_value R r = Inr (sl, r1)" "next r1 = Inr (h2, r2)" for sl r1 h2 r2 k'
    using Suc.IH [of r2] progressD(2) [OF assms(1) that(1)] keep [OF that(2)] Suc.prems by simp
  show ?case
    by (subst size_loop.simps) (use step in \<open>auto split: sum.split\<close>)
qed simp

lemma children_walk_ends:
  assumes "progress left R"
  shows "\<exists>y. children_walk R object start r = Some y"
  using members_loop_ends [OF assms lessI] elems_loop_ends [OF assms lessI]
  by (auto simp: children_walk_def split: sum.split)

lemma map_ok_returns: "r \<noteq> Inl e \<Longrightarrow> map_ok f r \<noteq> Inl e"
  by (cases r) auto

lemma wrap_children_returns:
  assumes "reader_progress (env_reader env)"
  shows "wrap_children env d ds st \<noteq> Inl Hang"
proof (induction ds arbitrary: st)
  case (Cons c ds)
  have "resolved_to_value env st d (cs_start c, cs_end c) \<noteq> Inl Hang"
    by (simp add: resolved_to_value_def map_ok_returns [OF materialize_returns [OF assms]] split: list.split)
  with Cons.IH show ?case
    by (cases "resolved_to_value env st d (cs_start c, cs_end c)")
      (auto simp: map_ok_tryr tryr_Inl_iff split: prod.splits)
qed simp

lemma node_walk_returns: "walk = Some y \<Longrightarrow> node_walk env n walk \<noteq> Inl Hang"
  by (cases y) (auto simp: node_walk_def reader_err_def raised_at_def)

text \<open>
  C39.  The container walks end on any span, whatever text it holds: the listings of a lazy node
  and the walk \<open>patch\<close> makes over the parent of its target return or raise.
\<close>

theorem container_walks_return:
  assumes "reader_progress (env_reader env)"
  shows "lazy_size env n \<noteq> Inl Hang \<and> lazy_keys env n \<noteq> Inl Hang \<and> lazy_children env st n \<noteq> Inl Hang \<and>
    container_children env doc s e \<noteq> Inl Hang"
proof -
  let ?R = "env_reader env"
  from assms obtain left where l: "progress left ?R" by (auto simp: reader_progress_def)
  have keyed: "left r' \<le> left r" if "some_key (rd_object_next_key ?R r) = Inr (h, r')" for r h r'
    using that progressD(4) [OF l] by (auto simp: some_key_def map_ok_tryr tryr_Inr_iff)
  note ends = keys_loop_ends [OF l lessI] size_loop_ends [OF l keyed lessI]
    size_loop_ends [OF l progressD(6) [OF l] lessI]
  have "\<exists>y. (case rd_next_node ?R (node_reader env n) of Inl e \<Rightarrow> Some (Inl e)
      | Inr (_, r) \<Rightarrow>
          if ln_kind n = KIND_OBJECT
          then (case some_key (rd_object_first_key ?R r) of Inl e \<Rightarrow> Some (Inl e)
              | Inr (has, r) \<Rightarrow> size_loop (\<lambda>r. some_key (rd_object_next_key ?R r)) ?R has r 0)
          else (case rd_array_first ?R r of Inl e \<Rightarrow> Some (Inl e)
              | Inr (has, r) \<Rightarrow> size_loop (rd_array_next ?R) ?R has r 0)) = Some y"
    using ends(2,3) by (auto split: sum.split)
  then have "lazy_size env n \<noteq> Inl Hang"
    using node_walk_returns unfolding lazy_size_def Let_def by blast
  moreover have "lazy_keys env n \<noteq> Inl Hang"
  proof (cases "ln_kind n \<noteq> KIND_OBJECT")
    case False
    have "\<exists>y. (case rd_next_node ?R (node_reader env n) of Inl e \<Rightarrow> Some (Inl e)
        | Inr (_, r) \<Rightarrow> (case rd_object_first_key ?R r of Inl e \<Rightarrow> Some (Inl e)
            | Inr (Some k, r) \<Rightarrow> keys_loop ?R True r [k] | Inr (None, r) \<Rightarrow> keys_loop ?R False r [])) = Some y"
      using ends(1) by (auto split: sum.split option.split)
    then show ?thesis using False node_walk_returns unfolding lazy_keys_def Let_def by auto
  qed (simp add: lazy_keys_def)
  moreover have "lazy_children env st n \<noteq> Inl Hang"
  proof -
    obtain y where "children_walk ?R (ln_kind n = KIND_OBJECT) (ln_start n) (node_reader env n) = Some y"
      using children_walk_ends [OF l] by blast
    from node_walk_returns [OF this] wrap_children_returns [OF assms] show ?thesis
      by (auto simp: lazy_children_def tryr_Inl_iff)
  qed
  moreover have "container_children env doc s e \<noteq> Inl Hang"
  proof -
    obtain y where "children_walk ?R ((case sub doc s e of [] \<Rightarrow> 0 | b # _ \<Rightarrow> b) = KIND_OBJECT) s
        (rd_open ?R (sub doc s e) popts_default) = Some y"
      using children_walk_ends [OF l] by blast
    then show ?thesis by (cases y) (simp_all add: container_children_def Let_def raised_at_def)
  qed
  ultimately show ?thesis by blast
qed


section \<open>A sample cursor\<close>

text \<open>A Reader that counts down the bytes that are left and refuses at the end.\<close>

definition countdown_reader :: "nat reader" where
  "countdown_reader =
     (let stop = \<lparr>pe_offset = 0, pe_kind = OtherKind ''unexpected end of input''\<rparr>
      in \<lparr>rd_open = (\<lambda>b _. length b), rd_next_node = (\<lambda>r. if r = 0 then Inl stop else Inr (ArrayStart, r - 1)),
          rd_object_first_key = (\<lambda>r. Inr (None, r)), rd_object_next_key = (\<lambda>r. Inr (None, r)),
          rd_array_first = (\<lambda>r. Inr (True, r)), rd_array_next = (\<lambda>r. Inr (True, r)),
          rd_skip_value = (\<lambda>r. if r = 0 then Inl stop else Inr ((0, 1), r - 1))\<rparr>)"

lemma countdown_progress: "reader_progress countdown_reader"
  unfolding reader_progress_def
  by (rule exI [of _ id]) (auto simp: progress_def countdown_reader_def Let_def split: if_splits)

definition countdown_env :: "(term_value, nat) env" where
  "countdown_env = sample_env\<lparr>env_reader := countdown_reader\<rparr>"

lemma countdown_env_progress: "reader_progress (env_reader countdown_env)"
  using countdown_progress by (simp add: countdown_env_def)

theorem parse_returns_witness:
  "parse_native countdown_env fresh_pull_state sample_string ONil \<noteq> Inl Hang"
  using parse_returns [OF countdown_env_progress _ sample_input] by (simp add: parse_native_opts_def)

theorem container_walks_return_witness:
  "lazy_size countdown_env sample_root \<noteq> Inl Hang \<and>
     container_children countdown_env sample_text 0 15 \<noteq> Inl Hang"
  using container_walks_return [OF countdown_env_progress] by blast

end
