(* ===== verification/Exceptions.thy ===== *)
theory Exceptions
  imports Parse
begin

text \<open>
  The exception objects of src/ext/nosj/src/errors.rs.  Elsewhere an exception is a
  \<open>ruby_error\<close>: its class, message and position.  Here it is the object the VM makes: the class
  is looked up under NOSJ each time, RuntimeError standing in while the Ruby layer is not loaded;
  the constructor may be overridden and raise; and the position travels in instance variables,
  each set on its own and a refusal ignored.  The lemmas show what is left of the position in
  every case, and that with the library's own classes the object is exactly the \<open>ruby_error\<close>.
\<close>

section \<open>The VM's part\<close>

datatype ivar = IvNat nat | IvText "nat list"

text \<open>An exception object: \<open>eo_plain\<close> is whether it is a \<open>T_OBJECT\<close>.\<close>

record 'c exception_object =
  eo_class :: 'c
  eo_message :: message
  eo_ivars :: "string \<rightharpoonup> ivar"
  eo_plain :: bool
  eo_frozen :: bool

text \<open>
  Looking up the constant NOSJ as a module and a constant under it as an exception class, each
  of which may raise or find something else, and constructing an exception with a message.
\<close>

record ('m, 'c) exception_api =
  xa_nosj :: "'m option"
  xa_class :: "'m \<Rightarrow> string \<Rightarrow> 'c option"
  xa_runtime_error :: 'c
  xa_new_instance :: "'c \<Rightarrow> message \<Rightarrow> 'c exception_object option"

text \<open>\<open>ivar_set\<close>, which refuses a frozen object; the caller ignores a refusal.\<close>

definition ivar_set :: "string \<Rightarrow> ivar \<Rightarrow> 'c exception_object \<Rightarrow> 'c exception_object" where
  "ivar_set name v exc = (if eo_frozen exc then exc else exc\<lparr>eo_ivars := (eo_ivars exc)(name \<mapsto> v)\<rparr>)"

section \<open>Raising\<close>

text \<open>A magnus \<open>Error\<close>: a class and a message, constructed when it is raised, or an object.\<close>

datatype 'c raised = NewError 'c message | RaisedObject "'c exception_object"

definition nosj_exception :: "('m, 'c) exception_api \<Rightarrow> string \<Rightarrow> 'c" where
  "nosj_exception api name =
     (let lookup = Option.bind (xa_nosj api) (\<lambda>m. xa_class api m name)
      in case lookup of Some class \<Rightarrow> class | None \<Rightarrow> xa_runtime_error api)"

definition parser_error_raised :: "('m, 'c) exception_api \<Rightarrow> message \<Rightarrow> 'c raised" where
  "parser_error_raised api m = NewError (nosj_exception api ''ParserError'') m"

definition nesting_error :: "('m, 'c) exception_api \<Rightarrow> message \<Rightarrow> 'c raised" where
  "nesting_error api m = NewError (nosj_exception api ''NestingError'') m"

definition runtime_error :: "('m, 'c) exception_api \<Rightarrow> message \<Rightarrow> 'c raised" where
  "runtime_error api m = NewError (xa_runtime_error api) m"

definition set_position :: "bytes \<Rightarrow> nat \<Rightarrow> location \<Rightarrow> 'c exception_object \<Rightarrow> 'c exception_object" where
  "set_position source offset loc exc =
     (let exc = ivar_set ''@byte_offset'' (IvNat (min offset (length source))) exc;
          exc = ivar_set ''@line'' (IvNat (line loc)) exc;
          exc = ivar_set ''@column'' (IvNat (column loc)) exc
      in case snippet loc of
           Some snip \<Rightarrow> ivar_set ''@snippet'' (IvText snip) exc
         | None \<Rightarrow> exc)"

definition parser_error_object :: "('m, 'c) exception_api \<Rightarrow> bytes \<Rightarrow> nat \<Rightarrow> message \<Rightarrow> 'c raised" where
  "parser_error_object api source offset m =
     (let class = nosj_exception api ''ParserError'';
          loc = locate source offset
      in case xa_new_instance api class m of
           None \<Rightarrow> NewError class m
         | Some exc \<Rightarrow> RaisedObject (if eo_plain exc then set_position source offset loc exc else exc))"

section \<open>What a rescuer sees\<close>

text \<open>The readers of \<open>NOSJ::ParserError\<close> (src/lib/nosj.rb): one instance variable each, nil if unset.\<close>

definition reads_position :: "'c exception_object \<Rightarrow> error_position \<Rightarrow> bool" where
  "reads_position exc p \<longleftrightarrow>
     eo_ivars exc ''@byte_offset'' = Some (IvNat (at_byte_offset p)) \<and>
     eo_ivars exc ''@line'' = Some (IvNat (at_line p)) \<and>
     eo_ivars exc ''@column'' = Some (IvNat (at_column p)) \<and>
     eo_ivars exc ''@snippet'' = map_option IvText (at_snippet p)"

lemma set_position_reads:
  assumes "\<not> eo_frozen exc" and "eo_ivars exc ''@snippet'' = None"
  shows "reads_position (set_position source offset (locate source offset) exc) (parser_error_at source offset)"
  using assms
  by (simp add: reads_position_def set_position_def parser_error_at_def ivar_set_def Let_def split: option.split)

text \<open>Setting the position changes nothing else, and nothing at all on a frozen object.\<close>

lemma set_position_keeps:
  "eo_class (set_position source offset loc exc) = eo_class exc"
  "eo_message (set_position source offset loc exc) = eo_message exc"
  "eo_frozen exc \<Longrightarrow> set_position source offset loc exc = exc"
  by (simp_all add: set_position_def ivar_set_def Let_def split: option.split)

text \<open>The exceptions of the Ruby layer: the classes are there, each with the inherited constructor.\<close>

definition own_classes :: "('m, 'c) exception_api \<Rightarrow> (string \<rightharpoonup> 'c) \<Rightarrow> bool" where
  "own_classes api classes \<longleftrightarrow>
     (\<exists>m. xa_nosj api = Some m \<and> (\<forall>name class. classes name = Some class \<longrightarrow> xa_class api m name = Some class)) \<and>
     (\<forall>class \<in> ran classes. \<forall>m. xa_new_instance api class m =
        Some \<lparr>eo_class = class, eo_message = m, eo_ivars = Map.empty, eo_plain = True, eo_frozen = False\<rparr>)"

lemma own_nosj_exception: "own_classes api classes \<Longrightarrow> classes name = Some class \<Longrightarrow> nosj_exception api name = class"
  by (auto simp: own_classes_def nosj_exception_def)

text \<open>\<open>exc\<close> is the object a rescuer of \<open>err\<close> holds.\<close>

inductive shows_as :: "(string \<rightharpoonup> 'c) \<Rightarrow> ruby_error \<Rightarrow> 'c exception_object \<Rightarrow> bool" for classes where
  with_position:
    "classes ''ParserError'' = Some (eo_class exc) \<Longrightarrow> eo_message exc = m \<Longrightarrow> reads_position exc p \<Longrightarrow>
     shows_as classes (ParserError m (Some p)) exc"
| without_position:
    "classes ''ParserError'' = Some (eo_class exc) \<Longrightarrow> eo_message exc = m \<Longrightarrow> eo_ivars exc = Map.empty \<Longrightarrow>
     shows_as classes (ParserError m None) exc"
| too_deep:
    "classes ''NestingError'' = Some (eo_class exc) \<Longrightarrow> eo_message exc = m \<Longrightarrow>
     shows_as classes (NestingError m) exc"

text \<open>What Ruby rescues: the object, or what the class makes of the message.\<close>

fun rescued :: "('m, 'c) exception_api \<Rightarrow> 'c raised \<Rightarrow> 'c exception_object option" where
  "rescued api (RaisedObject exc) = Some exc"
| "rescued api (NewError class m) = xa_new_instance api class m"

lemma error_objects:
  assumes own: "own_classes api classes"
  shows "classes ''ParserError'' = Some class \<Longrightarrow>
      \<exists>exc. rescued api (parser_error_object api source offset m) = Some exc \<and>
        shows_as classes (raised_at source offset m) exc"
    and "classes ''ParserError'' = Some class \<Longrightarrow>
      \<exists>exc. rescued api (parser_error_raised api m) = Some exc \<and> shows_as classes (ParserError m None) exc"
    and "classes ''NestingError'' = Some class \<Longrightarrow>
      \<exists>exc. rescued api (nesting_error api m) = Some exc \<and> shows_as classes (NestingError m) exc"
proof -
  have new: "xa_new_instance api class m =
      Some \<lparr>eo_class = class, eo_message = m, eo_ivars = Map.empty, eo_plain = True, eo_frozen = False\<rparr>"
    if "classes name = Some class" for name
    using own that by (auto simp: own_classes_def ran_def)
  show "\<exists>exc. rescued api (parser_error_object api source offset m) = Some exc \<and>
      shows_as classes (raised_at source offset m) exc" if c: "classes ''ParserError'' = Some class"
    unfolding parser_error_object_def own_nosj_exception [OF own c] new [OF c] raised_at_def Let_def
    by (auto intro!: with_position set_position_reads simp: c set_position_keeps)
  show "\<exists>exc. rescued api (parser_error_raised api m) = Some exc \<and> shows_as classes (ParserError m None) exc"
    if c: "classes ''ParserError'' = Some class"
    unfolding parser_error_raised_def own_nosj_exception [OF own c] rescued.simps new [OF c]
    by (auto intro!: without_position simp: c)
  show "\<exists>exc. rescued api (nesting_error api m) = Some exc \<and> shows_as classes (NestingError m) exc"
    if c: "classes ''NestingError'' = Some class"
    unfolding nesting_error_def own_nosj_exception [OF own c] rescued.simps new [OF c]
    by (auto intro!: too_deep simp: c)
qed

text \<open>Without the Ruby layer the message still arrives, in a RuntimeError.\<close>

lemma error_without_layer:
  assumes "xa_nosj api = None \<or> (\<exists>m. xa_nosj api = Some m \<and> xa_class api m name = None)"
  shows "nosj_exception api name = xa_runtime_error api"
  using assms by (auto simp: nosj_exception_def)

text \<open>A constructor that raises costs the position, not the exception.\<close>

lemma error_constructor_raises:
  assumes "xa_new_instance api (nosj_exception api ''ParserError'') m = None"
  shows "parser_error_object api source offset m = parser_error_raised api m"
  using assms by (simp add: parser_error_object_def parser_error_raised_def Let_def)

end
