(* ===== verification/Parse_Sessions.thy ===== *)
theory Parse_Sessions
  imports Reformat Pooled
begin

text \<open>
  A thread's parsing over time: the state that a drive leaves in the pooled \<open>PullState\<close> of
  src/ext/nosj/src/state.rs whether it succeeds or fails (\<open>materialize_at\<close> and \<open>valid_native\<close> of
  parse.rs, \<open>reformat_over\<close> of reformat.rs), any sequence of such calls, calls lost to a longjmp,
  and garbage collections that free every interned key the shadow does not mark.
\<close>

section \<open>What a drive leaves\<close>

text \<open>
  The sink's state when the drive ends: after the events that were taken, and what the failing
  method had already done when it returned its error, which \<open>left\<close> gives.
\<close>

fun run_left :: "'s sink \<Rightarrow> (event \<Rightarrow> 's \<times> nat list \<Rightarrow> 's) \<Rightarrow> event list \<Rightarrow> 's \<times> nat list \<Rightarrow> 's" where
  "run_left k left [] st = fst st"
| "run_left k left (e # es) st =
     (case feed k e st of Inr st \<Rightarrow> run_left k left es st | Inl _ \<Rightarrow> left e st)"

definition drive_left :: "scanner \<Rightarrow> 's sink \<Rightarrow> (event \<Rightarrow> 's \<times> nat list \<Rightarrow> 's) \<Rightarrow> bytes \<Rightarrow> popts \<Rightarrow> 's \<Rightarrow> 's" where
  "drive_left prs k left input po s = run_left k left (fst (prs input po)) (s, [])"

lemma run_left_done: "run k es st = Inr st' \<Longrightarrow> run_left k left es st = fst st'"
  by (induction es arbitrary: st) (auto simp: tryr_Inr_iff)

lemma drive_left_done: "drive prs k input po s = Inr s' \<Longrightarrow> drive_left prs k left input po s = s'"
  by (auto simp: drive_def drive_left_def tryr_Inr_iff split: prod.splits option.splits)
    (metis Inl_Inr_False fst_conv map_err.elims run_left_done sum.inject(2))

lemma run_left_inv:
  assumes "\<And>e s ms s' ms'. I s \<Longrightarrow> feed k e (s, ms) = Inr (s', ms') \<Longrightarrow> I s'"
    and "\<And>e s ms. I s \<Longrightarrow> I (left e (s, ms))"
  shows "I (fst st) \<Longrightarrow> I (run_left k left es st)"
proof (induction es arbitrary: st)
  case (Cons e es)
  show ?case
  proof (cases "feed k e st")
    case (Inl a)
    with Cons.prems assms(2) [of "fst st" e "snd st"] show ?thesis by simp
  next
    case (Inr st')
    with Cons.prems assms(1) [of "fst st" e "snd st" "fst st'" "snd st'"] have "I (fst st')" by simp
    with Cons.IH Inr show ?thesis by simp
  qed
qed simp

section \<open>The sinks' methods when they fail\<close>

text \<open>\<open>RubyValueSink\<close>: a key is cached before pushing it may overflow, a level counted before it is too deep.\<close>

fun ruby_left :: "'v vm \<Rightarrow> event \<Rightarrow> 'v ruby_sink \<times> nat list \<Rightarrow> 'v ruby_sink" where
  "ruby_left vm (EvKey key) (s, ms) =
     (if rs_symbolize s
      then case intern_symbol_cached vm key (rs_keys s) of (raw, m) \<Rightarrow> s\<lparr>rs_keys := m\<rparr>
      else case intern_key_cached vm key (rs_keys s) (rs_key_shadow s) of
             (raw, m, shadow) \<Rightarrow> s\<lparr>rs_keys := m, rs_key_shadow := shadow\<rparr>)"
| "ruby_left vm EvBeginArray (s, ms) = s\<lparr>rs_depth := rs_depth s + 1\<rparr>"
| "ruby_left vm EvBeginObject (s, ms) = s\<lparr>rs_depth := rs_depth s + 1\<rparr>"
| "ruby_left vm (EvEndArray n) (s, m # ms) = s\<lparr>rs_depth := rs_depth s - 1, rs_stack := take m (rs_stack s)\<rparr>"
| "ruby_left vm (EvEndObject n) (s, m # ms) = s\<lparr>rs_depth := rs_depth s - 1, rs_stack := take m (rs_stack s)\<rparr>"
| "ruby_left vm _ (s, ms) = s"

definition dup_close_left :: "nat \<Rightarrow> dup_keys \<Rightarrow> dup_keys" where
  "dup_close_left mark d = (case dup_close_full mark d of Some (_, d') \<Rightarrow> d' | None \<Rightarrow> d)"

fun null_left :: "event \<Rightarrow> null_sink \<times> nat list \<Rightarrow> null_sink" where
  "null_left EvBeginArray (s, ms) = s\<lparr>ns_depth := ns_depth s + 1\<rparr>"
| "null_left EvBeginObject (s, ms) = s\<lparr>ns_depth := ns_depth s + 1\<rparr>"
| "null_left (EvEndObject n) (s, m # ms) =
     s\<lparr>ns_depth := ns_depth s - 1, ns_dup_keys := dup_close_left m (ns_dup_keys s)\<rparr>"
| "null_left _ (s, ms) = s"

fun pipe_left :: "event \<Rightarrow> pipe_sink \<times> nat list \<Rightarrow> pipe_sink" where
  "pipe_left EvBeginArray (s, ms) = s\<lparr>pp_depth := pp_depth s + 1\<rparr>"
| "pipe_left EvBeginObject (s, ms) = s\<lparr>pp_depth := pp_depth s + 1\<rparr>"
| "pipe_left (EvEndObject n) (s, m # ms) =
     s\<lparr>pp_depth := pp_depth s - 1, pp_dup_keys := dup_close_left m (pp_dup_keys s)\<rparr>"
| "pipe_left _ (s, ms) = s"

section \<open>What a call leaves in the pool\<close>

definition materialize_left ::
  "('v, 'r) env \<Rightarrow> bytes \<Rightarrow> nat \<Rightarrow> nat \<Rightarrow> parse_opts \<Rightarrow> 'v pull_state \<Rightarrow> 'v pull_state" where
  "materialize_left env source start end po st =
     store_caches po
       (drive_left (env_scan env) (RubyValueSink (env_vm env)) (ruby_left (env_vm env)) (sub source start end)
         (popts po) (ruby_sink_for st po)) st"

definition valid_left :: "('v, 'r) env \<Rightarrow> bytes \<Rightarrow> parse_opts \<Rightarrow> bool \<Rightarrow> 'v pull_state \<Rightarrow> 'v pull_state" where
  "valid_left env input po check_dups st =
     st\<lparr>pl_table := dk_table (ns_dup_keys
       (drive_left (env_scan env) (NullSink (env_fingerprint env)) null_left input (popts po)
         (null_sink_new (max_nesting po) (pl_table st) check_dups)))\<rparr>"

definition pipe_drive_left ::
  "('v, 'r) env \<Rightarrow> bytes \<Rightarrow> parse_opts \<Rightarrow> gen_config \<Rightarrow> bool \<Rightarrow> 'v pull_state \<Rightarrow> 'v pull_state" where
  "pipe_drive_left env input po cfg check_dups st =
     st\<lparr>pl_table := dk_table (pp_dup_keys
       (drive_left (env_scan env) (PipeSink (env_fingerprint env)) pipe_left input (popts po)
         (pipe_sink_new (max_nesting po) (gc_allow_nan cfg) (pl_table st) check_dups)))\<rparr>"

text \<open>A parse that returns leaves what \<open>materialize_at\<close> says it does.\<close>

lemma materialize_leaves:
  assumes "materialize_at env st source start end po = Inr (v, st')"
  shows "st' = materialize_left env source start end po st"
  using assms
  by (auto simp: materialize_at_def materialize_left_def finish_drive_def Let_def map_ok_tryr tryr_Inr_iff
      drive_left_done split: sum.splits)

section \<open>Each keeps the pool\<close>

lemma ruby_key_caches:
  assumes "cache_ok vm s" and "rs_symbolize s = sy" and "sy \<longrightarrow> rs_key_shadow s = sh"
  shows "cache_ok vm (ruby_left vm (EvKey key) (s, ms)) \<and> rs_symbolize (ruby_left vm (EvKey key) (s, ms)) = sy \<and>
    (sy \<longrightarrow> rs_key_shadow (ruby_left vm (EvKey key) (s, ms)) = sh)"
  using assms cache_hit [OF assms(1)]
  by (auto simp: intern_symbol_cached_def intern_key_cached_def Let_def key_value_def cache_ok_def
      split: if_splits option.splits)

lemma ruby_feed_caches:
  assumes "feed (RubyValueSink vm) e (s, ms) = Inr (s', ms')"
  shows "rs_symbolize s' = rs_symbolize s \<and>
    (case e of
       EvKey key \<Rightarrow> rs_keys s' = rs_keys (ruby_left vm e (s, ms)) \<and> rs_key_shadow s' = rs_key_shadow (ruby_left vm e (s, ms))
     | _ \<Rightarrow> rs_keys s' = rs_keys s \<and> rs_key_shadow s' = rs_key_shadow s)"
  using assms
  by (cases e; cases ms)
    (auto simp: RubyValueSink_def push_raw_def enter_container_def ruby_big_int_def ruby_str_def ruby_key_def
      ruby_end_array_def ruby_end_object_def Let_def map_ok_tryr tryr_Inr_iff split: if_splits prod.splits)

lemma ruby_left_caches:
  "\<not> (\<exists>key. e = EvKey key) \<Longrightarrow> rs_keys (ruby_left vm e (s, ms)) = rs_keys s \<and>
     rs_key_shadow (ruby_left vm e (s, ms)) = rs_key_shadow s \<and> rs_symbolize (ruby_left vm e (s, ms)) = rs_symbolize s"
  by (cases e; cases ms) auto

lemma materialize_left_ok:
  assumes "pool_ok (env_vm env) st"
  shows "pool_ok (env_vm env) (materialize_left env source start end po st)"
proof -
  let ?vm = "env_vm env"
  define I where "I = (\<lambda>s. cache_ok ?vm s \<and> rs_symbolize s = symbolize po \<and>
    (symbolize po \<longrightarrow> rs_key_shadow s = pl_key_shadow st))"
  let ?s = "drive_left (env_scan env) (RubyValueSink ?vm) (ruby_left ?vm) (sub source start end) (popts po) (ruby_sink_for st po)"
  have left: "I (ruby_left ?vm e (s, ms))" if "I s" for e s ms
  proof (cases "\<exists>key. e = EvKey key")
    case True
    then obtain key where "e = EvKey key" by blast
    with that ruby_key_caches [of ?vm s "symbolize po" "pl_key_shadow st" key ms] show ?thesis by (simp add: I_def)
  next
    case False
    from ruby_left_caches [OF this, of ?vm s ms] that show ?thesis by (auto simp: I_def cache_ok_def)
  qed
  have feed: "I s'" if "I s" "feed (RubyValueSink ?vm) e (s, ms) = Inr (s', ms')" for e s ms s' ms'
    using ruby_feed_caches [OF that(2)] left [OF that(1), of e ms] that(1)
    by (cases e) (auto simp: I_def cache_ok_def simp del: ruby_left.simps(1)
        split: if_splits)
  have "I ?s"
    unfolding drive_left_def
  proof (rule run_left_inv [where I = I], goal_cases)
    case (1 e s ms s' ms')
    then show ?case by (rule feed)
  next
    case (2 e s ms)
    then show ?case by (rule left)
  next
    case 3
    from pool_cache_ok [OF assms, of po] show ?case by (simp add: I_def) (simp add: ruby_sink_for_def)
  qed
  then show ?thesis
    using assms by (auto simp: materialize_left_def store_caches_def I_def cache_ok_def pool_ok_def)
qed

lemma dup_close_left_inv:
  assumes "dup_inv d"
  shows "dup_inv (dup_close_left m d)"
proof (cases "dk_enabled d")
  case True
  from dup_close_full_correct [OF assms True, of m] show ?thesis
    using True by (auto simp: dup_close_left_def dup_inv_def)
qed (use assms in \<open>simp add: dup_close_left_def dup_close_full_def\<close>)

lemma dup_close_left_done: "dup_close m d = Inr d' \<Longrightarrow> d' = dup_close_left m d"
  by (auto simp: dup_close_def dup_close_left_def split: option.splits bool.splits)

lemma dup_key_inv: "dup_inv d \<Longrightarrow> dup_inv (dup_key fp key d)"
  by (simp add: dup_inv_def dup_key_def)

lemma null_left_inv: "dup_inv (ns_dup_keys s) \<Longrightarrow> dup_inv (ns_dup_keys (null_left e (s, ms)))"
  by (cases e; cases ms) (simp_all add: dup_close_left_inv)

lemma null_feed_inv:
  "dup_inv (ns_dup_keys s) \<Longrightarrow> feed (NullSink fp) e (s, ms) = Inr (s', ms') \<Longrightarrow> dup_inv (ns_dup_keys s')"
  by (cases e; cases ms)
    (auto simp: NullSink_def null_enter_def Let_def map_ok_tryr tryr_Inr_iff dup_key_inv
      dest!: dup_close_left_done intro: dup_close_left_inv split: if_splits)

lemma pipe_left_inv: "dup_inv (pp_dup_keys s) \<Longrightarrow> dup_inv (pp_dup_keys (pipe_left e (s, ms)))"
  by (cases e; cases ms) (simp_all add: dup_close_left_inv)

lemma pipe_feed_inv:
  "dup_inv (pp_dup_keys s) \<Longrightarrow> feed (PipeSink fp) e (s, ms) = Inr (s', ms') \<Longrightarrow> dup_inv (pp_dup_keys s')"
  by (cases e; cases ms)
    (auto simp: PipeSink_def pipe_enter_def pipe_float_def emit_def Let_def map_ok_tryr tryr_Inr_iff dup_key_inv
      dest!: dup_close_left_done intro: dup_close_left_inv split: if_splits)

lemma valid_left_ok:
  assumes "pool_ok vm st"
  shows "pool_ok vm (valid_left env input po check_dups st)"
proof -
  have "dup_inv (ns_dup_keys (run_left (NullSink fp) null_left evs (null_sink_new limit (pl_table st) check, [])))"
    for fp evs limit check
    by (rule run_left_inv [where I = "\<lambda>s. dup_inv (ns_dup_keys s)"])
      (use assms in \<open>auto simp: null_sink_new_def dup_new_inv pool_ok_def intro: null_feed_inv null_left_inv\<close>)
  then show ?thesis using assms by (simp add: valid_left_def drive_left_def pool_ok_def dup_inv_def)
qed

lemma pipe_drive_left_ok:
  assumes "pool_ok vm st"
  shows "pool_ok vm (pipe_drive_left env input po cfg check_dups st)"
proof -
  have "dup_inv (pp_dup_keys (run_left (PipeSink fp) pipe_left evs (pipe_sink_new limit nan (pl_table st) check, [])))"
    for fp evs limit nan check
    by (rule run_left_inv [where I = "\<lambda>s. dup_inv (pp_dup_keys s)"])
      (use assms in \<open>auto simp: pipe_sink_new_def dup_new_inv pool_ok_def intro: pipe_feed_inv pipe_left_inv\<close>)
  then show ?thesis using assms by (simp add: pipe_drive_left_def drive_left_def pool_ok_def dup_inv_def)
qed

section \<open>Sessions\<close>

text \<open>
  The calls that use the pool beyond the scratch buffers: a parse of a span under options, and one
  drive of the validator or the pipe, with the duplicate check on or off.
\<close>

datatype pull_op =
    PullParse bytes nat nat parse_opts
  | PullValid bytes parse_opts bool
  | PullPipe bytes parse_opts gen_config bool

fun pull_left :: "('v, 'r) env \<Rightarrow> pull_op \<Rightarrow> 'v pull_state \<Rightarrow> 'v pull_state" where
  "pull_left env (PullParse source start end po) st = materialize_left env source start end po st"
| "pull_left env (PullValid input po check_dups) st = valid_left env input po check_dups st"
| "pull_left env (PullPipe input po cfg check_dups) st = pipe_drive_left env input po cfg check_dups st"

definition run_pull :: "('v, 'r) env \<Rightarrow> pull_op \<Rightarrow> 'v pull_state option \<Rightarrow> 'v pull_state option" where
  "run_pull env op cell = snd (with_pull_state fresh_pull_state (\<lambda>st. ((), pull_left env op st)) cell)"

definition pull_slot_ok :: "'v vm \<Rightarrow> 'v pull_state option \<Rightarrow> bool" where
  "pull_slot_ok vm cell \<longleftrightarrow> (case cell of None \<Rightarrow> True | Some st \<Rightarrow> pool_ok vm st)"

abbreviation pull_state_of :: "'v pull_state option \<Rightarrow> 'v pull_state" where
  "pull_state_of cell \<equiv> (case cell of Some st \<Rightarrow> st | None \<Rightarrow> fresh_pull_state)"

lemma slot_pool: "pull_slot_ok vm cell \<Longrightarrow> pool_ok vm (pull_state_of cell)"
  by (simp add: pull_slot_ok_def fresh_pool_ok split: option.splits)

interpretation pull_pool: pooled None "run_pull env" "pull_slot_ok (env_vm env)" "\<lambda>_. True" for env
proof unfold_locales
  show "pull_slot_ok (env_vm env) None" for env by (simp add: pull_slot_ok_def)
  show "pull_slot_ok (env_vm env) (run_pull env op cell)" if "pull_slot_ok (env_vm env) cell" for env op cell
    using slot_pool [OF that]
    by (cases op) (simp_all add: run_pull_def with_pull_state_def pull_slot_ok_def materialize_left_ok valid_left_ok pipe_drive_left_ok)
qed

text \<open>
  A step of a thread: a call of any shape, or a collection.  An interned string that no shadow
  marks may be freed, and interning its bytes again gives another VALUE; symbols from
  \<open>rb_intern3\<close> are permanent.
\<close>

definition collected_vm :: "'v pull_state option \<Rightarrow> 'v vm \<Rightarrow> 'v vm \<Rightarrow> bool" where
  "collected_vm cell vm vm' \<longleftrightarrow> vm_symbol vm' = vm_symbol vm \<and>
     (\<forall>k. vm_interned_str vm k \<in> set (pl_key_shadow (pull_state_of cell)) \<longrightarrow> vm_interned_str vm' k = vm_interned_str vm k)"

inductive pull_step :: "('v, 'r) env \<times> 'v pull_state option \<Rightarrow> ('v, 'r) env \<times> 'v pull_state option \<Rightarrow> bool" where
  called: "pull_step (env, cell) (env, run_call None (run_pull env) call cell)"
| collected: "collected_vm cell (env_vm env) vm' \<Longrightarrow> pull_step (env, cell) (env\<lparr>env_vm := vm'\<rparr>, cell)"

lemma pool_collected:
  assumes "pool_ok vm st" and "collected_vm (Some st) vm vm'"
  shows "pool_ok vm' st"
proof -
  have "v = key_value vm' False k" if "(k, v) \<in> set (pl_keys st)" for k v
  proof -
    have "v = vm_interned_str vm k" using assms(1) that by (auto simp: pool_ok_def key_value_def)
    moreover have "v \<in> set (pl_key_shadow st)" using assms(1) that by (force simp: pool_ok_def)
    ultimately show ?thesis using assms(2) by (simp add: collected_vm_def key_value_def)
  qed
  moreover have "key_value vm' True = key_value vm True"
    using assms(2) by (auto simp: collected_vm_def key_value_def)
  ultimately show ?thesis using assms(1) by (auto simp: pool_ok_def)
qed

lemma pull_step_ok:
  assumes "pull_step st st'" and "pull_slot_ok (env_vm (fst st)) (snd st)"
  shows "pull_slot_ok (env_vm (fst st')) (snd st')"
  using assms
proof cases
  case (called env cell call)
  then show ?thesis using pull_pool.run_good(1) [of call env cell] assms(2) by simp
next
  case (collected cell env vm')
  then show ?thesis
    using assms(2) pool_collected [of "env_vm env" _ vm'] by (cases cell) (simp_all add: pull_slot_ok_def)
qed

lemma pull_steps_ok:
  "pull_step\<^sup>*\<^sup>* st st' \<Longrightarrow> pull_slot_ok (env_vm (fst st)) (snd st) \<Longrightarrow> pull_slot_ok (env_vm (fst st')) (snd st')"
  by (induction rule: rtranclp_induct) (auto intro: pull_step_ok)

text \<open>
  C23.  Symbol and String VALUEs never share a cache: after any history of a thread's parsing (calls
  that succeed or fail at any event, that are lost, and collections), the string cache maps each
  key to its interned String, the symbol cache to its Symbol, neither exceeds its cap, and every
  cached String is one the shadow keeps alive.
\<close>

theorem caches_typed:
  assumes "pull_step\<^sup>*\<^sup>* (env0, None) (env, Some st)"
  shows "(\<forall>k v. map_of (pl_keys st) k = Some v \<longrightarrow> v = vm_interned_str (env_vm env) k \<and> v \<in> set (pl_key_shadow st)) \<and>
    (\<forall>k v. map_of (pl_sym_keys st) k = Some v \<longrightarrow> v = vm_symbol (env_vm env) k) \<and>
    length (pl_keys st) \<le> KEY_CACHE_CAP \<and> length (pl_sym_keys st) \<le> KEY_CACHE_CAP"
proof -
  have ok: "pool_ok (env_vm env) st" using pull_steps_ok [OF assms] by (simp add: pull_slot_ok_def)
  have "v = vm_interned_str (env_vm env) k \<and> v \<in> set (pl_key_shadow st)" if "map_of (pl_keys st) k = Some v" for k v
    using ok map_of_SomeD [OF that] by (force simp: pool_ok_def key_value_def)
  moreover have "v = vm_symbol (env_vm env) k" if "map_of (pl_sym_keys st) k = Some v" for k v
    using ok map_of_SomeD [OF that] by (auto simp: pool_ok_def key_value_def)
  ultimately show ?thesis using ok by (simp add: pool_ok_def)
qed

text \<open>A parse that fails at the end of an object, with its key cached by then, and a collection.\<close>

abbreviation sample_failing :: "pull_op call" where
  "sample_failing \<equiv> Call [Own (PullParse sample_text 0 (length sample_text) parse_opts_default)] True"

definition sample_left :: "term_value pull_state" where
  "sample_left = fresh_pull_state\<lparr>pl_keys := [(asc ''a'', TInterned (asc ''a''))], pl_key_shadow := [TInterned (asc ''a'')]\<rparr>"

lemma sample_failed: "run_call None (run_pull sample_env) sample_failing None = Some sample_left"
proof -
  have scan: "fst (sample_scan sample_text (popts parse_opts_default)) = events (strip sample_pdoc)"
    using sample_scans [of "popts parse_opts_default"] by (simp add: scans_as_def)
  have whole: "sub sample_text 0 (length sample_text) = sample_text" by (simp add: sub_def)
  show ?thesis
    by (simp add: call_returns run_pull_def with_pull_state_def materialize_left_def drive_left_def whole scan
        sample_strip del: run_call.simps)
      (simp add: RubyValueSink_def ruby_sink_for_def fresh_pull_state_def parse_opts_default_def enter_container_def
        ruby_key_def intern_key_cached_def push_raw_def ruby_end_object_def frozen_def store_caches_def sample_left_def
        Let_def, simp add: term_vm_def asc_def)
qed

theorem caches_typed_witness:
  "map_of (pl_keys sample_left) (asc ''a'') = Some (TInterned (asc ''a'')) \<and>
   TInterned (asc ''a'') \<in> set (pl_key_shadow sample_left)"
proof -
  have "pull_step (sample_env, None) (sample_env, Some sample_left)"
    using pull_step.called [of sample_env None sample_failing] unfolding sample_failed .
  from caches_typed [OF r_into_rtranclp [of pull_step, OF this]]
  have "\<forall>k v. map_of (pl_keys sample_left) k = Some v \<longrightarrow> v \<in> set (pl_key_shadow sample_left)" by blast
  moreover have "map_of (pl_keys sample_left) (asc ''a'') = Some (TInterned (asc ''a''))" by (simp add: sample_left_def)
  ultimately show ?thesis by blast
qed

text \<open>
  C8.  What a thread parsed before never shows: after any such history, \<open>parse\<close> returns the value of
  the document in the VM as it is now, exactly when the options and limits admit it.
\<close>

theorem parse_after_history:
  assumes "pull_step\<^sup>*\<^sup>* (env0, None) (env, cell)" and "vm_law (env_vm env)"
    and "parse_native_opts opts = Inr po" and "utf8_input data = Inr input"
    and "scans_as (env_scan env) input (popts po) d"
  shows "if parse_accepts po d
    then \<exists>st'. parse_native env (pull_state_of cell) data opts =
           Inr (value_of (env_vm env) (symbolize po) (freeze po) d, st')
    else \<not> is_ok (parse_native env (pull_state_of cell) data opts)"
proof -
  have pool: "pool_ok (env_vm env) (pull_state_of cell)"
    using pull_steps_ok [OF assms(1)] by (intro slot_pool) (simp add: pull_slot_ok_def)
  have whole: "sub input 0 (length input) = input" by (simp add: sub_def)
  have p: "parse_native env (pull_state_of cell) data opts = materialize_at env (pull_state_of cell) input 0 (length input) po"
    using assms(3,4) by (simp add: parse_native_def materialize_def)
  have "scans_as (env_scan env) (sub input 0 (length input)) (popts po) d" using assms(5) by (simp add: whole)
  from materialize_accepted [OF assms(2) pool this] materialize_refused [OF assms(2) pool this] p
  show ?thesis by fastforce
qed

theorem parse_after_history_witness:
  "\<exists>st'. parse_native sample_env sample_left sample_string (OHash [(KSym ''allow_duplicate_key'', RTrue)]) =
     Inr (TArray [THash [TInterned (asc ''a''), TInt 1, TInterned (asc ''a''), TInt 2]], st')"
proof -
  let ?po = "parse_opts_default\<lparr>allow_duplicate_key := True\<rparr>"
  have "pull_step (sample_env, None) (sample_env, Some sample_left)"
    using pull_step.called [of sample_env None sample_failing] unfolding sample_failed .
  then have hist: "pull_step\<^sup>*\<^sup>* (sample_env, None) (sample_env, Some sample_left)" by (rule r_into_rtranclp)
  have acc: "parse_accepts ?po (strip sample_pdoc)"
    by (simp add: parse_accepts_def sample_strip parse_opts_default_def)
  have v: "value_of term_vm (symbolize ?po) (freeze ?po) (strip sample_pdoc)
      = TArray [THash [TInterned (asc ''a''), TInt 1, TInterned (asc ''a''), TInt 2]]"
    by (simp add: sample_strip parse_opts_default_def frozen_def key_value_def, simp add: term_vm_def)
  have law: "vm_law (env_vm sample_env)" "scans_as (env_scan sample_env) sample_text (popts ?po) (strip sample_pdoc)"
    by (simp_all add: term_vm_law sample_scans)
  show ?thesis
    using parse_after_history [OF hist law(1) parse_opts_allow_duplicates sample_input law(2)] acc v by simp
qed

end
