(* ===== verification/Hash_Iter.thy ===== *)
theory Hash_Iter
  imports Gen_Results
begin

text \<open>
  src/ext/nosj/src/gen/hash_iter.rs: iteration over a Hash through a C callback with a
  Continue/Stop signal, and the walker's two uses of it, \<open>emit_object\<close> and
  \<open>check_duplicate_keys\<close> of gen/walker.rs, with their closures as they are written.  The VM's
  \<open>rb_hash_foreach\<close> is a parameter.  The theorems show that what the closures write is the text
  of the reference printer.
\<close>

section \<open>Iteration\<close>

text \<open>
  \<open>rb_hash_foreach\<close> of the VM, for callbacks whose captured variables are an \<open>'s\<close>: the Hash, by
  its pairs, and the callback, which returns an \<open>st_retval\<close>.
\<close>

type_synonym ('k, 'v, 's) hash_foreach =
  "('k \<times> 'v) list \<Rightarrow> ('k \<Rightarrow> 'v \<Rightarrow> 's \<Rightarrow> int \<times> 's) \<Rightarrow> 's \<Rightarrow> 's"

abbreviation ST_CONTINUE :: int where "ST_CONTINUE \<equiv> 0"
abbreviation ST_STOP :: int where "ST_STOP \<equiv> 1"

text \<open>
  What the VM documents of it: the pairs in order, while the callback returns \<open>ST_CONTINUE\<close>; no
  more of them once it returns \<open>ST_STOP\<close>.
\<close>

definition foreach_law :: "('k, 'v, 's) hash_foreach \<Rightarrow> bool" where
  "foreach_law rb_hash_foreach \<longleftrightarrow>
     (\<forall>callback s. rb_hash_foreach [] callback s = s) \<and>
     (\<forall>k v kvs callback s s'.
        (callback k v s = (ST_CONTINUE, s') \<longrightarrow>
           rb_hash_foreach ((k, v) # kvs) callback s = rb_hash_foreach kvs callback s') \<and>
        (callback k v s = (ST_STOP, s') \<longrightarrow> rb_hash_foreach ((k, v) # kvs) callback s = s'))"

datatype iter_step = Continue | Stop

definition trampoline :: "('k \<Rightarrow> 'v \<Rightarrow> 's \<Rightarrow> iter_step \<times> 's) \<Rightarrow> 'k \<Rightarrow> 'v \<Rightarrow> 's \<Rightarrow> int \<times> 's" where
  "trampoline f k v s = (case f k v s of (Continue, s) \<Rightarrow> (0, s) | (Stop, s) \<Rightarrow> (1, s))"

definition foreach_raw ::
  "('k, 'v, 's) hash_foreach \<Rightarrow> ('k \<times> 'v) list \<Rightarrow> ('k \<Rightarrow> 'v \<Rightarrow> 's \<Rightarrow> iter_step \<times> 's) \<Rightarrow> 's \<Rightarrow> 's" where
  "foreach_raw rb_hash_foreach hash f s = rb_hash_foreach hash (trampoline f) s"

lemma foreach_raw_Nil: "foreach_law rb \<Longrightarrow> foreach_raw rb [] f s = s"
  by (simp add: foreach_raw_def foreach_law_def)

lemma foreach_raw_Cons:
  assumes "foreach_law rb"
  shows "foreach_raw rb ((k, v) # kvs) f s =
    (case f k v s of (Continue, s) \<Rightarrow> foreach_raw rb kvs f s | (Stop, s) \<Rightarrow> s)"
proof -
  obtain step s' where "f k v s = (step, s')" by fastforce
  with assms show ?thesis by (cases step) (simp_all add: foreach_raw_def foreach_law_def trampoline_def)
qed

section \<open>The pairs of an object\<close>

text \<open>A method call in a closure: stop when it failed, otherwise go on.\<close>

fun or_stop :: "walk \<Rightarrow> (gen_state \<Rightarrow> iter_step \<times> gen_state) \<Rightarrow> iter_step \<times> gen_state" where
  "or_stop (Inl s) k = (Stop, s)"
| "or_stop (Inr s) k = k s"

text \<open>
  What the two closures capture: \<open>mixed\<close>, \<open>first\<close> (the pretty one only) and the walker.
\<close>

type_synonym captured = "mixed_keys \<times> bool \<times> gen_state"

text \<open>The closure of the pretty walk.\<close>

definition pretty_pair ::
  "emitter \<Rightarrow> gen_config \<Rightarrow> exc + bytes \<Rightarrow> rkey list \<Rightarrow> nat \<Rightarrow> rkey \<Rightarrow> robj \<Rightarrow>
     captured \<Rightarrow> iter_step \<times> captured" where
  "pretty_pair E cfg hash_inspect ks inner k v = (\<lambda>(m, first, s).
     case needs_check (kind_of_key k) m of (check, m) \<Rightarrow>
     case ask s (if check then check_duplicate_keys E hash_inspect ks else Inr ()) (\<lambda>_. Inr s) of
       Inl s \<Rightarrow> (Stop, m, first, s)
     | Inr s \<Rightarrow>
         apsnd (\<lambda>s. (m, False, s))
          (let s = (if first then s else put [b_comma] s);
               s = put (indents cfg inner) (put (object_nl cfg) s)
           in or_stop (emit_key E cfg k s) (\<lambda>s.
              let s = put (space cfg) (put [b_colon] (put (space_before cfg) s))
              in or_stop (emit_value E cfg True v inner s) (Pair Continue))))"

text \<open>The closure of the compact walk, with its fast arms.\<close>

definition compact_pair ::
  "emitter \<Rightarrow> gen_config \<Rightarrow> exc + bytes \<Rightarrow> rkey list \<Rightarrow> nat \<Rightarrow> rkey \<Rightarrow> robj \<Rightarrow>
     captured \<Rightarrow> iter_step \<times> captured" where
  "compact_pair E cfg hash_inspect ks inner k v = (\<lambda>(m, first, s).
     case needs_check (kind_of_key k) m of (check, m) \<Rightarrow>
     apsnd (\<lambda>s. (m, first, s))
      (or_stop (ask s (if check then check_duplicate_keys E hash_inspect ks else Inr ()) (\<lambda>_. Inr s)) (\<lambda>s.
       let comma = (last (gn_out s) \<noteq> b_lbrace)
       in case v of
            OFix i \<Rightarrow> or_stop (emit_pair_int_compact E cfg k comma i s) (Pair Continue)
          | _ \<Rightarrow>
              or_stop (emit_pair_prefix_compact E cfg k comma s) (\<lambda>s.
              case v of
                OStr str \<Rightarrow> or_stop (emit_rstring_quoted E cfg str s) (Pair Continue)
              | ONilV \<Rightarrow> (Continue, put (asc ''null'') s)
              | OTrueV \<Rightarrow> (Continue, put (asc ''true'') s)
              | OFalseV \<Rightarrow> (Continue, put (asc ''false'') s)
              | OFlonum f \<Rightarrow> or_stop (emit_float E cfg f s) (Pair Continue)
              | _ \<Rightarrow> or_stop (emit_value E cfg False v inner s) (Pair Continue)))))"

definition emit_object ::
  "(rkey, robj, captured) hash_foreach \<Rightarrow> emitter \<Rightarrow> gen_config \<Rightarrow> bool \<Rightarrow> exc + bytes \<Rightarrow>
     (rkey \<times> robj) list \<Rightarrow> nat \<Rightarrow> gen_state \<Rightarrow> walk" where
  "emit_object rb_hash_foreach E cfg pty hash_inspect kvs depth s =
     (let inner = depth + 1
      in ask s (nesting_check cfg inner) (\<lambda>_.
         let s = put [b_lbrace] s
         in if kvs = [] then Inr (put [b_rbrace] s)
            else
              let m = mixed_keys_new (gc_allow_duplicate_key cfg);
                  (_, _, s) =
                    (if pty
                     then foreach_raw rb_hash_foreach kvs (pretty_pair E cfg hash_inspect (map fst kvs) inner) (m, True, s)
                     else foreach_raw rb_hash_foreach kvs (compact_pair E cfg hash_inspect (map fst kvs) inner) (m, True, s))
              in if gn_fail s \<noteq> None then Inl s
                 else let s = (if pty \<and> object_nl cfg \<noteq> [] then put (indents cfg depth) (put (object_nl cfg) s) else s)
                      in Inr (put [b_rbrace] s)))"

lemma walk_state_ask [simp]: "walk_state (failing f s) = s\<lparr>gn_fail := Some f\<rparr>"
  by (simp add: failing_def)

lemma pretty_pairs:
  assumes "foreach_law rb"
  shows "snd (snd (foreach_raw rb kvs (pretty_pair E cfg hi ks inner) (m, first, s))) =
     walk_state (emit_pairs E cfg True hi ks m first kvs inner s)"
proof (induction kvs arbitrary: m first s)
  case (Cons kv kvs)
  obtain k v where kv: "kv = (k, v)" by fastforce
  obtain check m' where nc: "needs_check (kind_of_key k) m = (check, m')" by fastforce
  let ?s = "put (object_nl cfg @ indents cfg inner) (if first then s else put [b_comma] s)"
  note raw = foreach_raw_Cons [OF assms]
  show ?case
  proof (cases "if check then check_duplicate_keys E hi ks else Inr ()")
    case (Inl f)
    then show ?thesis by (simp add: kv nc raw pretty_pair_def failing_def split: if_splits)
  next
    case (Inr u)
    note chk = this
    show ?thesis
    proof (cases "emit_key E cfg k ?s")
      case (Inr t)
      let ?t = "put (space_before cfg @ [b_colon] @ space cfg) t"
      show ?thesis
        using Cons.IH chk Inr by (cases "emit_value E cfg True v inner ?t")
          (simp_all add: kv nc raw pretty_pair_def Let_def)
    qed (use chk in \<open>simp add: kv nc raw pretty_pair_def Let_def\<close>)
  qed
qed (simp add: foreach_raw_Nil [OF assms])

lemma or_stop_continue:
  "or_stop r (Pair Continue) = (case r of Inl s \<Rightarrow> (Stop, s) | Inr s \<Rightarrow> (Continue, s))"
  by (cases r) simp_all

lemma compact_pairs:
  assumes "foreach_law rb"
  shows "snd (snd (foreach_raw rb kvs (compact_pair E cfg hi ks inner) (m, first', s))) =
     walk_state (emit_pairs E cfg False hi ks m first kvs inner s)"
proof (induction kvs arbitrary: m first s)
  case (Cons kv kvs)
  obtain k v where kv: "kv = (k, v)" by fastforce
  obtain check m' where nc: "needs_check (kind_of_key k) m = (check, m')" by fastforce
  note raw = foreach_raw_Cons [OF assms]
  let ?comma = "last (gn_out s) \<noteq> b_lbrace"
  show ?case
  proof (cases "if check then check_duplicate_keys E hi ks else Inr ()")
    case (Inl f)
    then show ?thesis by (simp add: kv nc raw compact_pair_def failing_def split: if_splits)
  next
    case (Inr u)
    note chk = this
    define r where "r = (case v of OFix i \<Rightarrow> emit_pair_int_compact E cfg k ?comma i s
      | _ \<Rightarrow> tryr (emit_pair_prefix_compact E cfg k ?comma s) (emit_value E cfg False v inner))"
    have closure: "compact_pair E cfg hi ks inner k v (m, first', s) = apsnd (\<lambda>s. (m', first', s)) (or_stop r (Pair Continue))"
      using chk by (cases v; cases "emit_pair_prefix_compact E cfg k ?comma s")
        (simp_all add: compact_pair_def nc r_def Let_def)
    have pairs: "emit_pairs E cfg False hi ks m first ((k, v) # kvs) inner s =
        tryr r (emit_pairs E cfg False hi ks m' False kvs inner)"
      using chk unfolding emit_pairs.simps(2) pair_arm nc prod.case Let_def r_def by simp
    show ?thesis
      unfolding kv pairs raw closure
      using Cons.IH by (cases r) simp_all
  qed
qed (simp add: foreach_raw_Nil [OF assms])

lemma emit_object_walks:
  assumes "foreach_law rb"
  shows "emit_object rb E cfg pty hash_inspect kvs depth s = emit_value E cfg pty (OHsh hash_inspect kvs) depth s"
proof -
  note pretty = pretty_pairs [OF assms] and compact = compact_pairs [OF assms, where first = True]
  show ?thesis
    by (cases pty) (simp_all add: emit_object_def Let_def case_prod_unfold pretty compact cong: if_cong)
qed

text \<open>
  C9.  A Hash is written through the C callback as the reference printer writes it: whatever
  \<open>rb_hash_foreach\<close> is within its documentation, \<open>emit_object\<close> with its closure as it is written
  (the compact one with its fused and fast arms, or the pretty one), their stop signals and the
  look at the fail flag when the iteration is over, appends exactly the printer's text of the
  Hash, or stops with the printer's failure recorded, and leaves the key cache good.  The Hash is one
  the walker theorems are about (\<open>walkable\<close>: a frozen key's VALUE stands for one rendering, and
  no text spliced from Ruby ends in an opening brace).
\<close>

theorem emit_object_prints:
  assumes "foreach_law rb_hash_foreach" and "emitter_ok E" and "pty \<or> compact cfg"
    and "walkable E cfg rendering (OHsh hash_inspect kvs)" and "ready rendering s"
  shows "refines rendering (emit_object rb_hash_foreach E cfg pty hash_inspect kvs depth s) s
    (printed E cfg (OHsh hash_inspect kvs) depth)"
  unfolding emit_object_walks [OF assms(1)]
  by (rule walker_refines_below(1) [OF assms(3,2) lessI assms(4,5)])

text \<open>An iteration within the documentation, on a Hash of two pairs.\<close>

fun sample_foreach :: "('k, 'v, 's) hash_foreach" where
  "sample_foreach [] callback s = s"
| "sample_foreach ((k, v) # kvs) callback s =
     (case callback k v s of (ret, s) \<Rightarrow> if ret = ST_CONTINUE then sample_foreach kvs callback s else s)"

lemma sample_foreach_law: "foreach_law sample_foreach"
  by (auto simp: foreach_law_def)

definition sample_pairs :: "(rkey \<times> robj) list" where
  "sample_pairs = [(KSymbol (sample_str 1 ''a''), OFix 1), (KSymbol (sample_str 2 ''b''), ONilV)]"

theorem emit_object_prints_witness:
  "\<exists>s'. emit_object sample_foreach sample_emitter DEFAULT_CONFIG False (Inr []) sample_pairs 0
       \<lparr>gn_out = [], gn_keys = kc_empty, gn_fail = None\<rparr> = Inr s' \<and>
     gn_out s' = [b_lbrace, b_quote, 0x61, b_quote, b_colon, 0x31, b_comma, b_quote, 0x62, b_quote, b_colon] @
       asc ''null'' @ [b_rbrace]"
proof -
  let ?s = "\<lparr>gn_out = [], gn_keys = kc_empty, gn_fail = None\<rparr>"
  have fmt: "False \<or> compact DEFAULT_CONFIG" by (simp add: compact_def)
  have walk: "walkable sample_emitter DEFAULT_CONFIG (\<lambda>_. None) (OHsh (Inr []) sample_pairs)"
    by (simp add: sample_pairs_def key_known_def)
  have ready: "ready (\<lambda>_. None) ?s" by (simp add: ready_def kc_good_def kc_empty_def)
  have prints: "printed sample_emitter DEFAULT_CONFIG (OHsh (Inr []) sample_pairs) 0 =
      Inr ([b_lbrace, b_quote, 0x61, b_quote, b_colon, 0x31, b_comma, b_quote, 0x62, b_quote, b_colon] @
        asc ''null'' @ [b_rbrace])"
    by (simp add: sample_pairs_def sample_print)
  from emit_object_prints [OF sample_foreach_law sample_emitter_ok fmt walk ready, of 0, unfolded prints] show ?thesis
    by (simp add: refines_def) blast
qed

section \<open>The duplicate-key check\<close>

text \<open>The closure of \<open>check_duplicate_keys\<close>, over \<open>seen\<close> and \<open>outcome\<close>.\<close>

definition seen_key ::
  "rkey \<Rightarrow> 'v \<Rightarrow> bytes set \<times> (exc + gstr option) \<Rightarrow> iter_step \<times> bytes set \<times> (exc + gstr option)" where
  "seen_key k v = (\<lambda>(seen, outcome).
     case key_string k of
       Inl exc \<Rightarrow> (Stop, seen, Inl exc)
     | Inr key_str \<Rightarrow>
         if gs_bytes key_str \<notin> seen then (Continue, insert (gs_bytes key_str) seen, outcome)
         else (Stop, seen, Inr (Some key_str)))"

text \<open>The iteration finds what the walk over the keys finds.\<close>

lemma foreach_dup_walk:
  assumes "foreach_law rb"
  shows "snd (foreach_raw rb kvs seen_key (seen, Inr None)) = dup_walk seen (map fst kvs)"
proof (induction kvs arbitrary: seen)
  case (Cons kv kvs)
  obtain k v where "kv = (k, v)" by fastforce
  with Cons show ?case by (cases "key_string k") (simp_all add: seen_key_def foreach_raw_Cons [OF assms])
qed (simp add: foreach_raw_Nil [OF assms])

end
