(* ===== verification/Gen_Sessions.thy ===== *)
theory Gen_Sessions
  imports Hash_Iter
begin

text \<open>
  A thread's generation over time: any sequence of calls of the entries of
  src/ext/nosj/src/gen/mod.rs on its scratch cell, with the calls nested in them through
  \<open>to_json\<close> and \<open>as_json\<close>, calls that fail, calls lost to a longjmp, and garbage collections
  between them that free and reuse every VALUE the shadows do not mark.
\<close>

section \<open>Operations on the cell\<close>

datatype gen_op =
    OpGenerate robj options_arg
  | OpRails robj bool bool
  | OpLines "robj list" options_arg
  | OpEmit gen_config robj bytes

fun run_op :: "emitter \<Rightarrow> gen_op \<Rightarrow> gen_scratch option \<Rightarrow> gen_scratch option" where
  "run_op E (OpGenerate obj opts) cell = snd (generate_entry E (TwoArgs obj opts) cell)"
| "run_op E (OpRails obj html js) cell = snd (generate_rails_native E obj html js cell)"
| "run_op E (OpLines objs opts) cell = snd (generate_lines_native E objs opts cell)"
| "run_op E (OpEmit cfg obj out) cell = snd (emit_into E cfg obj out cell)"

text \<open>Operations on objects of the current heap; \<open>emit_into\<close> gets the patch entries' configurations.\<close>

fun op_sound :: "(nat \<Rightarrow> gstr option) \<Rightarrow> gen_op \<Rightarrow> bool" where
  "op_sound strs (OpGenerate obj opts) = sound_obj strs obj"
| "op_sound strs (OpRails obj html js) = sound_obj strs obj"
| "op_sound strs (OpLines objs opts) = (\<forall>obj \<in> set objs. sound_obj strs obj)"
| "op_sound strs (OpEmit cfg obj out) = (config_ok cfg \<and> mode cfg \<noteq> HtmlSafe \<and> sound_obj strs obj)"

lemma scratch_body_good:
  assumes "cell_good E strs cell"
    and "\<And>sc. cell_good E strs (Some sc) \<Longrightarrow> cell_good E strs (Some (snd (f sc)))"
  shows "cell_good E strs (snd (with_scratch cell f))"
proof -
  define sc where "sc = (case cell of Some sc \<Rightarrow> sc | None \<Rightarrow> scratch_fresh)"
  have "cell_good E strs (Some sc)"
    using assms(1) by (auto simp: sc_def cell_good_def scratch_fresh_def kc_good_empty split: option.splits)
  from assms(2) [OF this] show ?thesis by (simp add: with_scratch_run sc_def [symmetric])
qed

lemma lines_loop_good:
  assumes "config_ok cfg" and "emitter_ok E"
  shows "\<forall>obj \<in> set objs. sound_obj strs obj \<Longrightarrow> kc_good (heap_rendering E strs (cache_mode cfg)) keys \<Longrightarrow>
    kc_good (heap_rendering E strs (cache_mode cfg)) (snd (snd (lines_loop E cfg objs out keys)))"
proof (induction objs arbitrary: out keys)
  case (Cons obj objs)
  from emit_one_refines [OF assms, of strs obj keys out] Cons.prems obtain out1 keys1
    where "emit_one E cfg obj out keys = (map_ok (\<lambda>_. ()) (document_text E cfg obj), out1, keys1)"
      "kc_good (heap_rendering E strs (cache_mode cfg)) keys1" by auto
  with Cons.IH Cons.prems(1) show ?case by (cases "document_text E cfg obj") simp_all
qed simp

lemma lines_op_good:
  assumes "emitter_ok E" and "\<forall>obj \<in> set objs. sound_obj strs obj" and "cell_good E strs cell"
  shows "cell_good E strs (snd (generate_lines_native E objs opts cell))"
proof (cases "if opts = ONil then Inr (DEFAULT_CONFIG, 0) else parse_gen_opts opts")
  case (Inr r)
  obtain cfg hint where r: "r = (cfg, hint)" by fastforce
  have "config_of opts = Inr cfg" using Inr r by (auto simp: config_of_def split: if_splits)
  from config_of_ok [OF this] have cfg: "config_ok cfg" "cache_mode cfg = Standard" by (simp_all add: cache_mode_def)
  have "cell_good E strs (snd (with_scratch cell (\<lambda>sc.
      let (result, out, keys) = generate_lines_with E cfg objs (sc_buf sc) (sc_keys sc) finish_rstring
      in (result, sc\<lparr>sc_buf := out, sc_keys := keys\<rparr>))))"
  proof (rule scratch_body_good [OF assms(3)], goal_cases)
    case (1 sc)
    with lines_loop_good [OF cfg(1) assms(1,2), of "sc_keys sc" "[]"] cfg(2) show ?case
      by (auto simp: generate_lines_with_def cell_good_def split: prod.split)
  qed
  with Inr r assms(3) show ?thesis
    by (simp add: generate_lines_native_def generate_lines_bytes_into_def)
qed (use assms(3) in \<open>simp add: generate_lines_native_def generate_lines_bytes_into_def\<close>)

lemma run_op_good:
  assumes "emitter_ok E" and "op_sound strs op" and "cell_good E strs cell"
  shows "cell_good E strs (run_op E op cell)"
proof (cases op)
  case (OpGenerate obj opts)
  with entry_leaves [OF assms(1) _ assms(3), of obj opts] assms(2) show ?thesis by (simp add: leaves_def)
next
  case (OpRails obj html js)
  with scratched_leaves [OF _ assms(1) _ assms(3), of _ obj] assms(2) show ?thesis
    by (simp add: leaves_def generate_rails_native_def split: bool.split)
next
  case (OpEmit cfg obj out)
  with emit_into_leaves [OF _ _ assms(1) _ assms(3), of cfg obj out] assms(2) show ?thesis by (simp add: leaves_def)
qed (use lines_op_good [OF assms(1) _ assms(3)] assms(2) in simp)

interpretation gen_pool: pooled None "run_op E" "cell_good E strs" "\<lambda>op. emitter_ok E \<and> op_sound strs op"
  for E strs
  by unfold_locales (simp_all add: run_op_good)

section \<open>Collections\<close>

text \<open>What the shadows of a cell's caches mark.\<close>

definition marked :: "gen_scratch option \<Rightarrow> nat set" where
  "marked cell =
     (case cell of None \<Rightarrow> {} | Some sc \<Rightarrow> set (kc_shadow (sc_keys sc)) \<union> set (kc_shadow (sc_html_keys sc)))"

lemma kc_good_collect:
  assumes "kc_good (heap_rendering E strs md) c" and "\<forall>k \<in> set (kc_shadow c). strs' k = strs k"
  shows "kc_good (heap_rendering E strs' md) c"
  using assms by (fastforce simp: kc_good_def heap_rendering_def)

lemma cell_good_collect:
  assumes "cell_good E strs cell" and "\<forall>k \<in> marked cell. strs' k = strs k"
  shows "cell_good E strs' cell"
  using assms by (auto simp: cell_good_def marked_def intro: kc_good_collect split: option.splits)

text \<open>
  One step of a thread, over the live frozen strings by VALUE and its cell: a call of any shape,
  or a collection, after which every unmarked VALUE may be another string or none.
\<close>

inductive gen_step :: "emitter \<Rightarrow> (nat \<Rightarrow> gstr option) \<times> gen_scratch option \<Rightarrow>
    (nat \<Rightarrow> gstr option) \<times> gen_scratch option \<Rightarrow> bool" for E where
  called: "\<forall>op \<in> set (all_ops call). op_sound strs op \<Longrightarrow>
     gen_step E (strs, cell) (strs, run_call None (run_op E) call cell)"
| collected: "\<forall>k \<in> marked cell. strs' k = strs k \<Longrightarrow> gen_step E (strs, cell) (strs', cell)"

lemma gen_step_good:
  assumes "gen_step E st st'" and "emitter_ok E" and "cell_good E (fst st) (snd st)"
  shows "cell_good E (fst st') (snd st')"
  using assms(1,3)
proof cases
  case (called call strs cell)
  then show ?thesis using gen_pool.run_good(1) [of call E strs cell] assms(2,3) by simp
next
  case (collected cell strs' strs)
  then show ?thesis using cell_good_collect [of E strs cell strs'] assms(3) by simp
qed

lemma gen_steps_good:
  assumes "(gen_step E)\<^sup>*\<^sup>* st st'" and "emitter_ok E" and "cell_good E (fst st) (snd st)"
  shows "cell_good E (fst st') (snd st')"
  using assms(1)
proof (induction rule: rtranclp_induct)
  case (step st1 st2)
  with gen_step_good [OF step(2) assms(2)] show ?case by simp
qed (rule assms(3))

text \<open>
  C7.  The key caches never go stale: after any history of a thread, with calls that succeed, fail,
  run other calls from their callbacks or are lost to a longjmp, and collections that give the
  VALUE of any unmarked string to another, generating an object returns exactly the text the
  printer gives it (or its error), as a fresh process would.
\<close>

theorem caches_never_stale:
  assumes "(gen_step E)\<^sup>*\<^sup>* (strs0, None) (strs, cell)" and "emitter_ok E" and "sound_obj strs obj"
  shows "leaves E strs (generate_entry E (TwoArgs obj opts) cell)
    (tryr (config_of opts) (\<lambda>cfg. document_text E cfg obj))"
proof (rule entry_leaves [OF assms(2,3)])
  from gen_steps_good [OF assms(1,2)] show "cell_good E strs cell" by simp
qed

text \<open>
  A first call caches the key at VALUE 1; a collection gives the unmarked VALUE 2 to another
  string; a key at VALUE 2 is then rendered as what it is now.
\<close>

definition sample_keyed :: "gstr \<Rightarrow> robj" where
  "sample_keyed k = OHsh (Inr (asc ''{}'')) [(KStr k, OFix 1)]"

abbreviation sample_call :: "gen_op call" where
  "sample_call \<equiv> Call [Own (OpGenerate (sample_keyed (sample_str 1 ''a'')) ONil)] True"

lemma sample_marked: "marked (run_call None (run_op sample_emitter) sample_call None) = {1}"
  by (simp add: call_returns del: run_call.simps)
    (simp add: generate_scratched_def generate_scratched_into_def with_scratch_run scratch_fresh_def
      generate_with_def emit_one_def sample_keyed_def Let_def put_def nesting_check_def sample_print
      emit_pair_int_compact_def emit_pair_prefix_compact_def emit_key_cached_def kc_get_def kc_empty_def
      emit_rstring_quoted_def kc_store_def marked_def DEFAULT_CONFIG_def gen_defaults_def)

theorem caches_never_stale_witness:
  "fst (generate_entry sample_emitter (TwoArgs (sample_keyed (sample_str 2 ''c'')) ONil)
       (run_call None (run_op sample_emitter) sample_call None)) =
     Inr ([b_lbrace, b_quote, 0x63, b_quote, b_colon, 0x31, b_rbrace])"
proof -
  let ?cell = "run_call None (run_op sample_emitter) sample_call None"
  let ?strs = "sample_strs(2 := Some (sample_str 2 ''c''))"
  have "gen_step sample_emitter (sample_strs, None) (sample_strs, ?cell)"
    by (rule gen_step.called) (simp add: sample_keyed_def sample_strs_def sample_str_def)
  moreover have "gen_step sample_emitter (sample_strs, ?cell) (?strs, ?cell)"
    by (rule gen_step.collected) (unfold sample_marked, simp)
  ultimately have steps: "(gen_step sample_emitter)\<^sup>*\<^sup>* (sample_strs, None) (?strs, ?cell)" by simp
  have sound: "sound_obj ?strs (sample_keyed (sample_str 2 ''c''))"
    by (simp add: sample_keyed_def sample_str_def)
  have t: "document_text sample_emitter DEFAULT_CONFIG (sample_keyed (sample_str 2 ''c'')) =
      Inr [b_lbrace, b_quote, 0x63, b_quote, b_colon, 0x31, b_rbrace]"
    by (simp add: sample_print sample_keyed_def)
  from caches_never_stale [OF steps sample_emitter_ok sound, of ONil] show ?thesis by (simp add: leaves_def t)
qed

end
