(* ===== verification/Evictions.thy ===== *)
theory Evictions
  imports Parse_Sessions Gen_Sessions
begin

text \<open>
  The key caches let go: both the interned-key cache of src/ext/nosj/src/sink.rs and the rendered
  keys of src/ext/nosj/src/gen/keys.rs are cleared as a whole when full, shadow included, so a key
  cached once is not kept alive forever.  The contract the two share is the locale
  \<open>epoch_cache\<close>; the theorem is about parsing after any history of a thread.
\<close>

section \<open>Caches cleared by epochs\<close>

text \<open>
  A key is skipped, found, added, or added after everything else was dropped; \<open>marks\<close> is what
  the cache keeps alive.
\<close>

locale epoch_cache =
  fixes touch :: "'k \<Rightarrow> 'c \<Rightarrow> 'c" and cached :: "'c \<Rightarrow> 'k list" and marks :: "'c \<Rightarrow> 'm set"
    and mark_of :: "'k \<Rightarrow> 'm" and cacheable :: "'k \<Rightarrow> bool" and cap :: nat
  assumes skip: "\<not> cacheable k \<Longrightarrow> touch k c = c"
    and hit: "cacheable k \<Longrightarrow> k \<in> set (cached c) \<Longrightarrow> touch k c = c"
    and miss: "cacheable k \<Longrightarrow> k \<notin> set (cached c) \<Longrightarrow> length (cached c) < cap \<Longrightarrow>
      cached (touch k c) = k # cached c \<and> marks (touch k c) = insert (mark_of k) (marks c)"
    and evict: "cacheable k \<Longrightarrow> k \<notin> set (cached c) \<Longrightarrow> cap \<le> length (cached c) \<Longrightarrow>
      cached (touch k c) = [k] \<and> marks (touch k c) = {mark_of k}"
    and cap_pos: "0 < cap"
begin

text \<open>As long as nothing was evicted every key met is still there; afterwards only keys met are marked.\<close>

lemma touched:
  assumes "length (cached c) \<le> cap"
  shows "length (cached (fold touch ks c)) \<le> cap \<and>
    marks (fold touch ks c) \<subseteq> marks c \<union> mark_of ` {k \<in> set ks. cacheable k} \<and>
    (marks (fold touch ks c) \<subseteq> mark_of ` {k \<in> set ks. cacheable k} \<or>
     set (cached c) \<union> {k \<in> set ks. cacheable k} \<subseteq> set (cached (fold touch ks c)))"
  using assms
proof (induction ks arbitrary: c)
  case (Cons k ks)
  consider "\<not> cacheable k" | "cacheable k" "k \<in> set (cached c)"
    | "cacheable k" "k \<notin> set (cached c)" "length (cached c) < cap"
    | "cacheable k" "k \<notin> set (cached c)" "cap \<le> length (cached c)"
    by linarith
  then show ?case
  proof cases
    case 1
    with Cons.IH [OF Cons.prems] show ?thesis by (simp add: skip) blast
  next
    case 2
    with Cons.IH [OF Cons.prems] show ?thesis by (simp add: hit) blast
  next
    case 3
    from miss [OF this] Cons.IH [of "touch k c"] 3 show ?thesis by simp blast
  next
    case 4
    from evict [OF this] Cons.IH [of "touch k c"] 4 cap_pos show ?thesis by simp blast
  qed
qed simp

lemma released:
  assumes "length (cached c) \<le> cap" and "cap < card {k \<in> set ks. cacheable k}"
  shows "marks (fold touch ks c) \<subseteq> mark_of ` {k \<in> set ks. cacheable k}"
proof (rule ccontr)
  assume "\<not> ?thesis"
  with touched [OF assms(1), of ks] have len: "length (cached (fold touch ks c)) \<le> cap"
    and all: "{k \<in> set ks. cacheable k} \<subseteq> set (cached (fold touch ks c))" by auto
  have "card {k \<in> set ks. cacheable k} \<le> length (cached (fold touch ks c))"
    using card_mono [OF _ all] card_length [of "cached (fold touch ks c)"] by simp
  with len assms(2) show False by simp
qed

end

section \<open>The two caches\<close>

definition short_key :: "bytes \<Rightarrow> bool" where
  "short_key key \<longleftrightarrow> key \<noteq> [] \<and> length key \<le> 64"

definition touch_key :: "'v vm \<Rightarrow> bytes \<Rightarrow> 'v key_cache \<times> 'v list \<Rightarrow> 'v key_cache \<times> 'v list" where
  "touch_key vm key = (\<lambda>(m, shadow). snd (intern_key_cached vm key m shadow))"

interpretation interned: epoch_cache "touch_key vm" "\<lambda>c. map fst (fst c)" "\<lambda>c. set (snd c)"
    "vm_interned_str vm" short_key KEY_CACHE_CAP for vm :: "'v vm"
proof unfold_locales
  fix k :: bytes and c :: "'v key_cache \<times> 'v list"
  show "touch_key vm k c = c" if sk: "short_key k" and mem: "k \<in> set (map fst (fst c))"
  proof -
    obtain v where "map_of (fst c) k = Some v" using mem by (cases "map_of (fst c) k") (auto simp: map_of_eq_None_iff)
    with sk show ?thesis by (auto simp: touch_key_def intern_key_cached_def short_key_def split: prod.split)
  qed
  show "map fst (fst (touch_key vm k c)) = k # map fst (fst c) \<and>
      set (snd (touch_key vm k c)) = insert (vm_interned_str vm k) (set (snd c))"
    if "short_key k" "k \<notin> set (map fst (fst c))" "length (map fst (fst c)) < KEY_CACHE_CAP"
  proof -
    have "map_of (fst c) k = None" using that(2) by (simp add: map_of_eq_None_iff)
    with that(1,3) show ?thesis
      by (auto simp: touch_key_def intern_key_cached_def short_key_def Let_def split: prod.split)
  qed
  show "map fst (fst (touch_key vm k c)) = [k] \<and> set (snd (touch_key vm k c)) = {vm_interned_str vm k}"
    if "short_key k" "k \<notin> set (map fst (fst c))" "KEY_CACHE_CAP \<le> length (map fst (fst c))"
  proof -
    have "map_of (fst c) k = None" using that(2) by (simp add: map_of_eq_None_iff)
    with that(1,3) show ?thesis
      by (auto simp: touch_key_def intern_key_cached_def short_key_def Let_def split: prod.split)
  qed
qed (auto simp: touch_key_def intern_key_cached_def short_key_def split: prod.splits)

text \<open>\<open>emit_key_cached\<close>'s use of the cache on a frozen key that renders as \<open>rendering\<close> says.\<close>

definition touch_rendered :: "(nat \<Rightarrow> bytes) \<Rightarrow> nat \<Rightarrow> gen_key_cache \<Rightarrow> gen_key_cache" where
  "touch_rendered rendering k c = (case kc_get c k of Some _ \<Rightarrow> c | None \<Rightarrow> kc_store k (rendering k) c)"

interpretation rendered: epoch_cache "touch_rendered rendering" "\<lambda>c. map fst (kc_map c)" "\<lambda>c. set (kc_shadow c)"
    id "\<lambda>_. True" GEN_KEY_CACHE_CAP for rendering
proof unfold_locales
  fix k and c :: gen_key_cache
  have get: "kc_get c k = None \<longleftrightarrow> k \<notin> set (map fst (kc_map c))"
    by (simp add: kc_get_def map_of_eq_None_iff)
  show "touch_rendered rendering k c = c" if "k \<in> set (map fst (kc_map c))"
    using that get by (auto simp: touch_rendered_def split: option.split)
  show "map fst (kc_map (touch_rendered rendering k c)) = k # map fst (kc_map c) \<and>
      set (kc_shadow (touch_rendered rendering k c)) = insert (id k) (set (kc_shadow c))"
    if "k \<notin> set (map fst (kc_map c))" "length (map fst (kc_map c)) < GEN_KEY_CACHE_CAP"
    using that get by (simp add: touch_rendered_def kc_store_def)
  show "map fst (kc_map (touch_rendered rendering k c)) = [k] \<and>
      set (kc_shadow (touch_rendered rendering k c)) = {id k}"
    if "k \<notin> set (map fst (kc_map c))" "GEN_KEY_CACHE_CAP \<le> length (map fst (kc_map c))"
    using that get by (simp add: touch_rendered_def kc_store_def kc_empty_def Let_def)
qed simp_all

section \<open>Parsing\<close>

fun event_keys :: "event list \<Rightarrow> bytes list" where
  "event_keys [] = []"
| "event_keys (EvKey key # es) = key # event_keys es"
| "event_keys (_ # es) = event_keys es"

lemma event_keys_append [simp]: "event_keys (xs @ ys) = event_keys xs @ event_keys ys"
  by (induction xs rule: event_keys.induct) simp_all

text \<open>A run that succeeds touches the caches with its keys in order and with nothing else.\<close>

lemma run_touches:
  assumes "\<not> rs_symbolize s" and "run (RubyValueSink vm) es (s, ms) = Inr (s', ms')"
  shows "(rs_keys s', rs_key_shadow s') = fold (touch_key vm) (event_keys es) (rs_keys s, rs_key_shadow s)"
  using assms
proof (induction es arbitrary: s ms)
  case (Cons e es)
  then obtain s1 ms1 where f: "feed (RubyValueSink vm) e (s, ms) = Inr (s1, ms1)"
    and r: "run (RubyValueSink vm) es (s1, ms1) = Inr (s', ms')"
    by (auto simp: tryr_Inr_iff)
  have sy: "\<not> rs_symbolize s1" using ruby_feed_caches [OF f] Cons.prems(1) by simp
  from Cons.IH [OF sy r] ruby_feed_caches [OF f] Cons.prems(1) show ?case
    by (cases e) (auto simp: touch_key_def split: prod.splits)
qed simp

text \<open>The keys of a document that the cache takes.\<close>

definition short_keys :: "doc \<Rightarrow> bytes set" where
  "short_keys d = {key \<in> set (event_keys (events d)). short_key key}"

lemma drive_touches:
  assumes "scans_as prs input gr d" and "\<not> rs_symbolize s" and "drive prs (RubyValueSink vm) input gr s = Inr s'"
  shows "(rs_keys s', rs_key_shadow s') = fold (touch_key vm) (event_keys (events d)) (rs_keys s, rs_key_shadow s)"
  using assms run_touches [of s vm "events d" "[]" s']
  by (auto simp: drive_scans map_ok_tryr tryr_Inr_iff elim!: map_err.elims)

text \<open>
  C22.  No cached key is kept alive for good: after any history of a thread, one successful parse of a
  document with more than 2048 different keys the cache takes leaves marked only keys of that
  document, so every key cached before that is not among them can be collected.
\<close>

theorem old_keys_released:
  assumes "pull_step\<^sup>*\<^sup>* (env0, None) (env, cell)"
    and "parse_native_opts opts = Inr po" and "\<not> symbolize po" and "utf8_input data = Inr input"
    and "scans_as (env_scan env) input (popts po) d" and "KEY_CACHE_CAP < card (short_keys d)"
    and "parse_native env (pull_state_of cell) data opts = Inr (v, st')"
  shows "set (pl_key_shadow st') \<subseteq> vm_interned_str (env_vm env) ` short_keys d"
proof -
  let ?st = "pull_state_of cell" and ?vm = "env_vm env"
  have pool: "pool_ok ?vm ?st"
    using pull_steps_ok [OF assms(1)] by (intro slot_pool) (simp add: pull_slot_ok_def)
  have whole: "sub input 0 (length input) = input" by (simp add: sub_def)
  have at: "materialize_at env ?st input 0 (length input) po = Inr (v, st')"
    using assms(2,4,7) by (simp add: parse_native_def materialize_def)
  obtain s' where s': "drive (env_scan env) (RubyValueSink ?vm) input (popts po) (ruby_sink_for ?st po) = Inr s'"
    and st': "st' = store_caches po s' ?st"
    using at by (cases "drive (env_scan env) (RubyValueSink ?vm) input (popts po) (ruby_sink_for ?st po)")
      (simp_all add: materialize_at_def finish_drive_def whole Let_def)
  have "(rs_keys s', rs_key_shadow s') =
      fold (touch_key ?vm) (event_keys (events d)) (pl_keys ?st, pl_key_shadow ?st)"
    using drive_touches [OF assms(5) _ s'] assms(3) by (simp add: ruby_sink_for_def)
  moreover have "length (pl_keys ?st) \<le> KEY_CACHE_CAP" using pool by (simp add: pool_ok_def)
  ultimately have "set (rs_key_shadow s') \<subseteq> vm_interned_str ?vm ` short_keys d"
    using interned.released [of "(pl_keys ?st, pl_key_shadow ?st)" "event_keys (events d)" ?vm] assms(6)
    by (simp add: short_keys_def) (metis snd_conv)
  then show ?thesis using assms(3) by (simp add: st' store_caches_def)
qed

text \<open>A document of 2049 keys, two characters each.\<close>

definition wide_key :: "nat \<Rightarrow> bytes" where
  "wide_key i = [of_nat (48 + i div 64), of_nat (48 + i mod 64)]"

definition wide_doc :: doc where
  "wide_doc = DObject (map (\<lambda>i. (DKey (wide_key i), DNull)) [0..<2049])"

definition wide_members_text :: bytes where
  "wide_members_text =
     concat (map (\<lambda>i. [b_comma, b_quote] @ wide_key i @ [b_quote] @ asc '':null'') [0..<2049])"

definition wide_text :: bytes where
  "wide_text = b_lbrace # tl wide_members_text @ [b_rbrace]"

definition wide_env :: "(term_value, nat) env" where
  "wide_env = sample_env\<lparr>env_scan := \<lambda>input gr.
     if input = wide_text then (events wide_doc, None)
     else ([], Some \<lparr>pe_offset = 0, pe_kind = OtherKind ''unexpected byte''\<rparr>)\<rparr>"

lemma wide_keys: "inj_on wide_key {0..<2049}"
proof (rule inj_onI)
  fix i j :: nat
  assume ij: "i \<in> {0..<2049}" "j \<in> {0..<2049}" and "wide_key i = wide_key j"
  then have w: "(of_nat (48 + i div 64) :: byte) = of_nat (48 + j div 64)"
    "(of_nat (48 + i mod 64) :: byte) = of_nat (48 + j mod 64)"
    by (simp_all add: wide_key_def)
  have "i div 64 \<le> 32" "j div 64 \<le> 32" using ij by auto
  with w have "i div 64 = j div 64" "i mod 64 = j mod 64"
    by (simp_all add: word_of_nat_eq_iff take_bit_eq_mod)
  then show "i = j" by (metis div_mult_mod_eq)
qed

lemma wide_events: "event_keys (events_members (map (\<lambda>i. (DKey (wide_key i), DNull)) xs)) = map wide_key xs"
  by (induction xs) simp_all

lemma wide_key_short: "short_key (wide_key i)"
  by (simp add: short_key_def wide_key_def)

lemma wide_short: "short_keys wide_doc = wide_key ` {0..<2049}"
  by (auto simp: short_keys_def wide_doc_def wide_events wide_key_short simp del: upt_conv_Cons)

lemma wide_card: "card (short_keys wide_doc) = 2049"
  by (simp add: wide_short card_image [OF wide_keys])

lemma wide_need: "need_members (map (\<lambda>i. (DKey (wide_key i), DNull)) xs) = 2 * length xs"
  by (induction xs) simp_all

lemma wide_nesting: "nesting_members (map (\<lambda>i. (DKey (wide_key i), DNull)) xs) = 0"
  by (induction xs) simp_all

lemma wide_members: "doc_all_members P (map (\<lambda>i. (DKey (wide_key i), DNull)) xs) \<longleftrightarrow> xs = [] \<or> P DNull"
  by (induction xs) auto

lemma wide_texts: "texts (map (\<lambda>i. (DKey (wide_key i), DNull)) xs) = map wide_key xs"
  by (simp add: texts_def)

lemma wide_accepts: "parse_accepts parse_opts_default wide_doc"
  using wide_keys
  by (simp add: parse_accepts_def wide_doc_def wide_members wide_texts wide_need wide_nesting distinct_map
      parse_opts_default_def del: upt_conv_Cons)
lemma set_tl_subset: "set (tl xs) \<subseteq> set xs"
  by (cases xs) auto

lemma wide_ascii: "\<forall>b \<in> set wide_text. b < 0x80"
proof -
  have digit: "(of_nat (48 + n) :: byte) < 0x80" if "n < 64" for n
    using that by (simp add: word_less_nat_alt unat_word_ariths unat_of_nat take_bit_eq_mod)
  have key: "\<forall>b \<in> set (wide_key i). b < 0x80" if "i < 2049" for i
    using that digit [of "i div 64"] digit [of "i mod 64"] by (simp add: wide_key_def)
  have all: "\<forall>b \<in> set wide_members_text. b < 0x80"
    unfolding wide_members_text_def using key by (auto simp: asc_def simp del: upt_conv_Cons)
  have "b < 0x80" if "b \<in> set (tl wide_members_text)" for b
    by (rule bspec [OF all subsetD [OF set_tl_subset that]])
  then show ?thesis by (simp add: wide_text_def)
qed

abbreviation wide_string :: rstring where
  "wide_string \<equiv> \<lparr>str_encoding = UsAscii, str_bytes = wide_text\<rparr>"

lemma wide_input: "utf8_input wide_string = Inr wide_text"
  using wide_ascii by (simp add: utf8_input_def list_all_iff)

theorem old_keys_released_witness:
  "\<exists>v st'. parse_native wide_env fresh_pull_state wide_string ONil = Inr (v, st') \<and>
     TInterned (asc ''an older key'') \<notin> set (pl_key_shadow st')"
proof -
  let ?po = parse_opts_default
  have scan: "scans_as (env_scan wide_env) wide_text (popts ?po) wide_doc"
    by (simp add: scans_as_def wide_env_def)
  have law: "vm_law (env_vm wide_env)" "pool_ok (env_vm wide_env) fresh_pull_state"
    by (simp_all add: wide_env_def term_vm_law fresh_pool_ok)
  have opts: "parse_native_opts ONil = Inr ?po" by (simp add: parse_native_opts_def)
  have plain: "\<not> symbolize ?po" by (simp add: parse_opts_default_def)
  from parse_value [OF law opts wide_input scan] wide_accepts obtain v st'
    where p: "parse_native wide_env fresh_pull_state wide_string ONil = Inr (v, st')" by auto
  have "set (pl_key_shadow st') \<subseteq> vm_interned_str (env_vm wide_env) ` short_keys wide_doc"
    by (rule old_keys_released [OF rtranclp.rtrancl_refl [of pull_step "(wide_env, None)"] opts plain wide_input scan])
      (simp_all add: wide_card p)
  moreover have "TInterned (asc ''an older key'') \<notin> vm_interned_str (env_vm wide_env) ` short_keys wide_doc"
    by (auto simp: wide_short wide_env_def term_vm_def wide_key_def asc_def)
  ultimately show ?thesis using p by blast
qed

end
