(* ===== verification/Gen_Ruby.thy ===== *)
theory Gen_Ruby
  imports Hash_Iter
begin

unbundle bit_operations_syntax

text \<open>
  src/ext/nosj/src/gen/ruby.rs: the protected calls of generation, its once-initialized statics,
  the lazily resolved \<open>JSON::Fragment\<close>, and the inline readers of a String's header flags.
  The functions of the VM and the constants of its headers are the parameter \<open>ruby_api\<close>.  The
  theorems connect this level of VALUEs and flags with the strings and outcomes (\<open>gstr\<close>,
  \<open>other_info\<close>) the walker is modelled over.
\<close>

section \<open>The VM\<close>

type_synonym VALUE = u64

text \<open>
  The calls that can run user code give an exception or a result; \<open>rb_sys::protect\<close> is what
  turns the raise into the former.
\<close>

record ruby_api =
  ra_intern :: "string \<Rightarrow> nat"
  ra_object :: VALUE
  ra_const_defined :: "VALUE \<Rightarrow> nat \<Rightarrow> bool"
  ra_const_get :: "VALUE \<Rightarrow> nat \<Rightarrow> exc + VALUE"
  ra_is_kind_of :: "VALUE \<Rightarrow> VALUE \<Rightarrow> VALUE"
  ra_respond_to :: "VALUE \<Rightarrow> nat \<Rightarrow> exc + int"
  ra_funcall :: "VALUE \<Rightarrow> nat \<Rightarrow> exc + VALUE"
  ra_as_string :: "VALUE \<Rightarrow> exc + VALUE"
  ra_inspect :: "VALUE \<Rightarrow> exc + VALUE"
  ra_encode_utf8 :: "VALUE \<Rightarrow> exc + VALUE"
  ra_utf8_encindex :: int
  ra_usascii_encindex :: int
  ra_flags :: "VALUE \<Rightarrow> u64"
  ra_str_coderange :: "VALUE \<Rightarrow> int"
  ra_get_index :: "VALUE \<Rightarrow> int"
  ra_bytes :: "VALUE \<Rightarrow> bytes"
  QUNDEF :: VALUE
  QFALSE :: VALUE
  CR_MASK :: u64
  CR_7BIT :: u64
  CR_VALID :: u64
  ENC_SHIFT :: u64
  ENC_MASK :: u64
  ENC_INLINE_MAX :: int
  FL_FREEZE :: u64

section \<open>Statics\<close>

text \<open>The \<open>OnceLock\<close>s and the atomic of the module, 0 while no class is cached.\<close>

record gen_statics =
  AS_JSON :: "nat option"
  TO_JSON :: "nat option"
  IDX :: "(int \<times> int) option"
  FRAGMENT :: VALUE

definition statics_new :: gen_statics where
  "statics_new = \<lparr>AS_JSON = None, TO_JSON = None, IDX = None, FRAGMENT = 0\<rparr>"

fun get_or_init :: "'a option \<Rightarrow> 'a \<Rightarrow> 'a" where
  "get_or_init (Some x) y = x"
| "get_or_init None y = y"

definition as_json_id :: "ruby_api \<Rightarrow> gen_statics \<Rightarrow> nat \<times> gen_statics" where
  "as_json_id api st =
     (let id = get_or_init (AS_JSON st) (ra_intern api ''as_json'') in (id, st\<lparr>AS_JSON := Some id\<rparr>))"

definition to_json_id :: "ruby_api \<Rightarrow> gen_statics \<Rightarrow> nat \<times> gen_statics" where
  "to_json_id api st =
     (let id = get_or_init (TO_JSON st) (ra_intern api ''to_json'') in (id, st\<lparr>TO_JSON := Some id\<rparr>))"

definition utf8_encindexes :: "ruby_api \<Rightarrow> gen_statics \<Rightarrow> (int \<times> int) \<times> gen_statics" where
  "utf8_encindexes api st =
     (let idx = get_or_init (IDX st) (ra_utf8_encindex api, ra_usascii_encindex api)
      in (idx, st\<lparr>IDX := Some idx\<rparr>))"

definition warm_up :: "ruby_api \<Rightarrow> gen_statics \<Rightarrow> gen_statics" where
  "warm_up api st = snd (utf8_encindexes api (snd (to_json_id api (snd (as_json_id api st)))))"

text \<open>Once warmed up, no initializer enters the VM again, whatever the VM would answer.\<close>

lemma warmed_up:
  assumes "st = warm_up api st0"
  shows "as_json_id api' st = as_json_id api st" "snd (as_json_id api' st) = st"
    "to_json_id api' st = to_json_id api st" "snd (to_json_id api' st) = st"
    "utf8_encindexes api' st = utf8_encindexes api st" "snd (utf8_encindexes api' st) = st"
  unfolding assms
  by (simp_all add: warm_up_def as_json_id_def to_json_id_def utf8_encindexes_def Let_def)

section \<open>Protected calls\<close>

definition protected_to_s :: "ruby_api \<Rightarrow> VALUE \<Rightarrow> exc + VALUE" where
  "protected_to_s api v = ra_as_string api v"

definition protected_inspect :: "ruby_api \<Rightarrow> VALUE \<Rightarrow> exc + VALUE" where
  "protected_inspect api v = ra_inspect api v"

definition protected_to_json :: "ruby_api \<Rightarrow> gen_statics \<Rightarrow> VALUE \<Rightarrow> exc + VALUE" where
  "protected_to_json api st v = ra_funcall api v (fst (to_json_id api st))"

definition protected_as_json :: "ruby_api \<Rightarrow> gen_statics \<Rightarrow> VALUE \<Rightarrow> exc + VALUE" where
  "protected_as_json api st v = ra_funcall api v (fst (as_json_id api st))"

definition protected_to_json_if_responds :: "ruby_api \<Rightarrow> gen_statics \<Rightarrow> VALUE \<Rightarrow> exc + VALUE option" where
  "protected_to_json_if_responds api st v =
     tryr (tryr (ra_respond_to api v (fst (to_json_id api st))) (\<lambda>responds.
           if responds \<noteq> 0 then ra_funcall api v (fst (to_json_id api st)) else Inr (QUNDEF api))) (\<lambda>json.
     Inr (if json \<noteq> QUNDEF api then Some json else None))"

text \<open>
  The guard and the call are one: a \<open>respond_to?\<close> that raises, one that says no, and the
  outcome of \<open>to_json\<close>, which never returns the VM's internal undefined value.
\<close>

lemma responds_cases:
  assumes "ra_funcall api v (fst (to_json_id api st)) \<noteq> Inr (QUNDEF api)"
  shows "protected_to_json_if_responds api st v =
    (case ra_respond_to api v (fst (to_json_id api st)) of
       Inl e \<Rightarrow> Inl e
     | Inr r \<Rightarrow> if r = 0 then Inr None else map_ok Some (protected_to_json api st v))"
  using assms
  by (cases "ra_funcall api v (fst (to_json_id api st))")
    (auto simp: protected_to_json_if_responds_def protected_to_json_def split: sum.split)

definition protected_encode_utf8 :: "ruby_api \<Rightarrow> VALUE \<Rightarrow> exc + VALUE" where
  "protected_encode_utf8 api v = ra_encode_utf8 api v"

section \<open>JSON::Fragment\<close>

definition resolve_json_fragment :: "ruby_api \<Rightarrow> exc + VALUE" where
  "resolve_json_fragment api =
     (let json_id = ra_intern api ''JSON''
      in if \<not> ra_const_defined api (ra_object api) json_id then Inr 0
         else tryr (ra_const_get api (ra_object api) json_id) (\<lambda>json.
              let fragment_id = ra_intern api ''Fragment''
              in if \<not> ra_const_defined api json fragment_id then Inr 0
                 else ra_const_get api json fragment_id))"

definition is_json_fragment :: "ruby_api \<Rightarrow> VALUE \<Rightarrow> gen_statics \<Rightarrow> (exc + bool) \<times> gen_statics" where
  "is_json_fragment api v st =
     (let kind_of = (\<lambda>cls. Inr (ra_is_kind_of api v cls \<noteq> QFALSE api))
      in if FRAGMENT st = 0
         then case resolve_json_fragment api of
                Inl e \<Rightarrow> (Inl e, st)
              | Inr cls \<Rightarrow> if cls = 0 then (Inr False, st) else (kind_of cls, st\<lparr>FRAGMENT := cls\<rparr>)
         else (kind_of (FRAGMENT st), st))"

text \<open>The answer without a cache: no class, no fragment.\<close>

definition fragment_now :: "ruby_api \<Rightarrow> VALUE \<Rightarrow> exc + bool" where
  "fragment_now api v =
     tryr (resolve_json_fragment api) (\<lambda>cls. Inr (cls \<noteq> 0 \<and> ra_is_kind_of api v cls \<noteq> QFALSE api))"

text \<open>A later state of the VM, in which a class that was defined still is.\<close>

definition grows :: "ruby_api \<Rightarrow> ruby_api \<Rightarrow> bool" where
  "grows api api' \<longleftrightarrow>
     (\<forall>cls. resolve_json_fragment api = Inr cls \<and> cls \<noteq> 0 \<longrightarrow> resolve_json_fragment api' = Inr cls)"

fun fragment_answers :: "(ruby_api \<times> VALUE) list \<Rightarrow> gen_statics \<Rightarrow> (exc + bool) list" where
  "fragment_answers [] st = []"
| "fragment_answers ((api, v) # qs) st =
     (case is_json_fragment api v st of (answer, st) \<Rightarrow> answer # fragment_answers qs st)"

lemma fragment_answers_from:
  assumes "sorted_wrt grows (map fst qs)"
    and "FRAGMENT st \<noteq> 0 \<Longrightarrow> \<forall>q \<in> set qs. resolve_json_fragment (fst q) = Inr (FRAGMENT st)"
  shows "fragment_answers qs st = map (\<lambda>(api, v). fragment_now api v) qs"
  using assms
proof (induction qs arbitrary: st)
  case (Cons q qs)
  obtain api v where q: "q = (api, v)" by fastforce
  show ?case
  proof (cases "FRAGMENT st = 0")
    case False
    with Cons q show ?thesis by (simp add: is_json_fragment_def fragment_now_def)
  next
    case True
    show ?thesis
    proof (cases "resolve_json_fragment api")
      case (Inl e)
      with True Cons q show ?thesis by (simp add: is_json_fragment_def fragment_now_def)
    next
      case (Inr cls)
      have "\<forall>q' \<in> set qs. resolve_json_fragment (fst q') = Inr cls" if "cls \<noteq> 0"
        using Cons.prems(1) that Inr q by (simp add: grows_def)
      with True Inr Cons q show ?thesis by (simp add: is_json_fragment_def fragment_now_def)
    qed
  qed
qed simp

text \<open>
  Caching \<open>JSON::Fragment\<close> only once it is found is invisible: over any sequence of
  questions, with the json gem loaded at any point of it (or its autoload failing for a while),
  every answer is the one looking the constant up again would give.
\<close>

theorem fragment_cache_invisible:
  assumes "sorted_wrt grows (map fst qs)"
  shows "fragment_answers qs statics_new = map (\<lambda>(api, v). fragment_now api v) qs"
  by (rule fragment_answers_from [OF assms]) (simp add: statics_new_def)

text \<open>A VM without the json gem, with one String whose flags record what the VM would say.\<close>

definition sample_api :: ruby_api where
  "sample_api =
     \<lparr>ra_intern = (\<lambda>name. length name), ra_object = 16, ra_const_defined = (\<lambda>_ _. False),
      ra_const_get = (\<lambda>_ _. Inr 24), ra_is_kind_of = (\<lambda>v cls. if v = 8 then 20 else 0),
      ra_respond_to = (\<lambda>_ _. Inr 0), ra_funcall = (\<lambda>_ _. Inr 8), ra_as_string = Inr, ra_inspect = Inr,
      ra_encode_utf8 = (\<lambda>_. Inr 8), ra_utf8_encindex = 1, ra_usascii_encindex = 2,
      ra_flags = (\<lambda>_. 0x600000), ra_str_coderange = (\<lambda>_. 0x200000), ra_get_index = (\<lambda>_. 1),
      ra_bytes = (\<lambda>_. [0x61]), QUNDEF = 36, QFALSE = 0, CR_MASK = 0x300000, CR_7BIT = 0x100000,
      CR_VALID = 0x200000, ENC_SHIFT = 22, ENC_MASK = 0x1FC00000, ENC_INLINE_MAX = 127, FL_FREEZE = 0x800\<rparr>"

theorem fragment_cache_invisible_witness:
  "fragment_answers [(sample_api, 8), (sample_api\<lparr>ra_const_defined := \<lambda>_ _. True\<rparr>, 8),
     (sample_api\<lparr>ra_const_defined := \<lambda>_ _. True\<rparr>, 40)] statics_new = [Inr False, Inr True, Inr False]"
proof -
  let ?qs = "[(sample_api, 8), (sample_api\<lparr>ra_const_defined := \<lambda>_ _. True\<rparr>, 8),
     (sample_api\<lparr>ra_const_defined := \<lambda>_ _. True\<rparr>, 40)] :: (ruby_api \<times> VALUE) list"
  have "sorted_wrt grows (map fst ?qs)"
    by (simp add: grows_def resolve_json_fragment_def sample_api_def)
  from fragment_cache_invisible [OF this] show ?thesis
    by (simp add: fragment_now_def resolve_json_fragment_def sample_api_def)
qed

section \<open>Strings by their flags\<close>

definition str_coderange :: "ruby_api \<Rightarrow> VALUE \<Rightarrow> u64" where
  "str_coderange api s =
     (let flags = ra_flags api s;
          cr = flags AND CR_MASK api
      in if cr \<noteq> 0 then cr else word_of_int (ra_str_coderange api s) AND CR_MASK api)"

text \<open>The cast to \<open>c_int\<close> keeps the low 32 bits.\<close>

definition inline_index :: "ruby_api \<Rightarrow> u64 \<Rightarrow> int" where
  "inline_index api flags = sint (ucast (drop_bit (unat (ENC_SHIFT api)) (flags AND ENC_MASK api)) :: 32 word)"

definition str_enc_index :: "ruby_api \<Rightarrow> VALUE \<Rightarrow> int" where
  "str_enc_index api s =
     (let idx = inline_index api (ra_flags api s)
      in if idx = ENC_INLINE_MAX api then ra_get_index api s else idx)"

definition key_frozen :: "ruby_api \<Rightarrow> VALUE \<Rightarrow> bool" where
  "key_frozen api k \<longleftrightarrow> ra_flags api k AND FL_FREEZE api \<noteq> 0"

text \<open>
  The layout of the header, as the VM documents it: a coderange that is recorded in the flags is
  the one the VM computes, and an index stored inline is the one it reports.
\<close>

definition header_law :: "ruby_api \<Rightarrow> VALUE \<Rightarrow> bool" where
  "header_law api s \<longleftrightarrow>
     (ra_flags api s AND CR_MASK api \<noteq> 0 \<longrightarrow>
        ra_flags api s AND CR_MASK api = word_of_int (ra_str_coderange api s) AND CR_MASK api) \<and>
     (inline_index api (ra_flags api s) \<noteq> ENC_INLINE_MAX api \<longrightarrow>
        inline_index api (ra_flags api s) = ra_get_index api s)"

lemma read_header:
  assumes "header_law api s"
  shows "str_coderange api s = word_of_int (ra_str_coderange api s) AND CR_MASK api"
    and "str_enc_index api s = ra_get_index api s"
  using assms by (auto simp: header_law_def str_coderange_def str_enc_index_def Let_def)

text \<open>The walker's quoting of a String VALUE, as written over the flags.\<close>

definition convert_invalid_value :: "ruby_api \<Rightarrow> gen_statics \<Rightarrow> VALUE \<Rightarrow> gen_fail + VALUE" where
  "convert_invalid_value api st s =
     (case fst (utf8_encindexes api st) of (utf8, _) \<Rightarrow>
      if str_enc_index api s = utf8 then Inl malformed
      else case protected_encode_utf8 api s of
             Inr v \<Rightarrow> if str_coderange api v = CR_7BIT api \<or> str_coderange api v = CR_VALID api
                       then Inr v else Inl malformed
           | Inl exc \<Rightarrow> Inl (GeneratorFrom exc))"

definition quoted_value :: "ruby_api \<Rightarrow> gen_statics \<Rightarrow> emitter \<Rightarrow> escape_mode \<Rightarrow> VALUE \<Rightarrow> gen_fail + bytes" where
  "quoted_value api st E md s =
     (let cr = str_coderange api s;
          valid = (cr = CR_7BIT api \<or> cr = CR_VALID api \<and>
            (case fst (utf8_encindexes api st) of (utf8, usascii) \<Rightarrow>
               str_enc_index api s = utf8 \<or> str_enc_index api s = usascii))
      in map_ok (\<lambda>s. [b_quote] @ em_escape E md (ra_bytes api s) @ [b_quote])
           (if valid then Inr s else convert_invalid_value api st s))"

text \<open>The String a VALUE is, as the walker sees it.\<close>

definition coderange_of :: "ruby_api \<Rightarrow> VALUE \<Rightarrow> coderange" where
  "coderange_of api s =
     (let cr = word_of_int (ra_str_coderange api s) AND CR_MASK api
      in if cr = CR_7BIT api then Cr7Bit else if cr = CR_VALID api then CrValid else CrBroken)"

definition encoding_of :: "ruby_api \<Rightarrow> VALUE \<Rightarrow> str_enc" where
  "encoding_of api s =
     (if ra_get_index api s = ra_utf8_encindex api then EncUtf8
      else if ra_get_index api s = ra_usascii_encindex api then EncUsAscii else EncOther)"

definition gstr_of :: "ruby_api \<Rightarrow> VALUE \<Rightarrow> gstr" where
  "gstr_of api s =
     \<lparr>gs_id = unat s, gs_frozen = key_frozen api s, gs_cr = coderange_of api s, gs_enc = encoding_of api s,
      gs_bytes = ra_bytes api s,
      gs_encoded = map_ok (\<lambda>v. (coderange_of api v, ra_bytes api v)) (protected_encode_utf8 api s)\<rparr>"

lemma coderange_of_iff:
  assumes "CR_7BIT api \<noteq> CR_VALID api" and "header_law api s"
  shows "coderange_of api s = Cr7Bit \<longleftrightarrow> str_coderange api s = CR_7BIT api"
    and "coderange_of api s = CrValid \<longleftrightarrow> str_coderange api s = CR_VALID api"
  using assms by (auto simp: coderange_of_def read_header Let_def)

lemma encoding_of_iff:
  assumes "ra_utf8_encindex api \<noteq> ra_usascii_encindex api" and "header_law api s"
  shows "encoding_of api s = EncUtf8 \<longleftrightarrow> str_enc_index api s = ra_utf8_encindex api"
    and "encoding_of api s = EncUsAscii \<longleftrightarrow> str_enc_index api s = ra_usascii_encindex api"
  using assms by (auto simp: encoding_of_def read_header)

definition api_law :: "ruby_api \<Rightarrow> bool" where
  "api_law api \<longleftrightarrow> CR_7BIT api \<noteq> CR_VALID api \<and> ra_utf8_encindex api \<noteq> ra_usascii_encindex api"

lemma warmed_encindexes: "fst (utf8_encindexes api (warm_up api statics_new)) = (ra_utf8_encindex api, ra_usascii_encindex api)"
  by (simp add: warm_up_def statics_new_def as_json_id_def to_json_id_def utf8_encindexes_def Let_def)

text \<open>
  Reading a String's coderange and encoding index inline from its header flags, with the
  VM asked only for what is not recorded there, decides exactly what asking the VM would: the
  quoting of a VALUE, transcoding and refusals included, is the quoting of the String it is.
\<close>

theorem quoted_by_flags:
  assumes "api_law api" and "header_law api s"
    and "\<And>v. protected_encode_utf8 api s = Inr v \<Longrightarrow> header_law api v"
  shows "quoted_value api (warm_up api statics_new) E md s = quoted E md (gstr_of api s)"
proof -
  note law = coderange_of_iff [OF _ assms(2)] encoding_of_iff [OF _ assms(2)]
  have conv: "map_ok (ra_bytes api) (convert_invalid_value api (warm_up api statics_new) s) =
      convert_invalid_encoding (gstr_of api s)"
    using assms(1) law coderange_of_iff [OF _ assms(3)]
    by (cases "protected_encode_utf8 api s")
      (auto simp: convert_invalid_value_def warmed_encindexes gstr_of_def api_law_def)
  have valid: "(gs_cr (gstr_of api s) = Cr7Bit \<or> gs_cr (gstr_of api s) = CrValid \<and>
        (gs_enc (gstr_of api s) = EncUtf8 \<or> gs_enc (gstr_of api s) = EncUsAscii)) \<longleftrightarrow>
      (str_coderange api s = CR_7BIT api \<or> str_coderange api s = CR_VALID api \<and>
        (str_enc_index api s = ra_utf8_encindex api \<or> str_enc_index api s = ra_usascii_encindex api))"
    using assms(1) law by (auto simp: gstr_of_def api_law_def)
  have "map_ok (\<lambda>v. [b_quote] @ em_escape E md (ra_bytes api v) @ [b_quote]) r =
      map_ok (\<lambda>b. [b_quote] @ em_escape E md b @ [b_quote]) (map_ok (ra_bytes api) r)" for r :: "gen_fail + VALUE"
    by (cases r) simp_all
  then show ?thesis
    unfolding quoted_value_def quoted_def Let_def valid warmed_encindexes prod.case
    by (simp add: conv [symmetric] del: convert_invalid_encoding.simps) (auto simp: gstr_of_def)
qed

theorem quoted_by_flags_witness:
  "quoted_value sample_api (warm_up sample_api statics_new) sample_emitter Standard 8 = Inr [b_quote, 0x61, b_quote]"
proof -
  have law: "api_law sample_api" by (simp add: api_law_def sample_api_def)
  have header: "header_law sample_api 8" by (simp add: header_law_def sample_api_def inline_index_def)
  have string: "quoted sample_emitter Standard (gstr_of sample_api 8) = Inr [b_quote, 0x61, b_quote]"
    by (simp add: quoted_def gstr_of_def coderange_of_def encoding_of_def sample_api_def sample_emitter_def)
  from quoted_by_flags [OF law header, of sample_emitter Standard] header string show ?thesis
    by (simp add: protected_encode_utf8_def sample_api_def)
qed

end
