(* ===== verification/Extension_Init.thy ===== *)
theory Extension_Init
  imports Gen_Ruby
begin

text \<open>
  The load of the extension, \<open>init\<close> of src/ext/nosj/src/lib.rs: the sequence of definitions it asks
  the VM for, each of which may raise and end it, over what the VM has registered so far.  The
  lemmas show that no method is registered before the extension is declared safe for Ractors,
  that each is registered once, and that a load that succeeds leaves nothing to be initialized
  lazily, so no call of a method enters the VM through an initializer.
\<close>

section \<open>What the VM has registered\<close>

text \<open>A method of the module itself or of its class \<open>Lazy\<close>, with the arity Ruby checks (-1: variadic).\<close>

datatype receiver = OnModule | OnLazy

record native_method =
  nm_receiver :: receiver
  nm_name :: string
  nm_arity :: int
  nm_ractor_safe :: bool

text \<open>\<open>vr_typed\<close> are the classes of wrapped data that magnus has resolved.\<close>

record registry =
  vr_ractor_safe :: bool
  vr_module :: bool
  vr_classes :: "string list"
  vr_private :: "string list"
  vr_no_alloc :: "string list"
  vr_methods :: "native_method list"
  vr_typed :: "string list"
  vr_statics :: gen_statics

definition nothing_registered :: registry where
  "nothing_registered =
     \<lparr>vr_ractor_safe = False, vr_module = False, vr_classes = [], vr_private = [], vr_no_alloc = [],
      vr_methods = [], vr_typed = [], vr_statics = statics_new\<rparr>"

section \<open>The steps\<close>

datatype init_step =
    RactorSafe | DefineModule | DefineClass string | PrivateConstant string
  | DefineSingleton string int | UndefAlloc string | DefineMethod string int
  | ResolveClass string | WarmUp

definition init_steps :: "init_step list" where
  "init_steps =
     [RactorSafe,
      DefineModule,
      DefineClass ''ValueStackShadow'',
      PrivateConstant ''ValueStackShadow'',
      DefineSingleton ''parse_native'' 2,
      DefineSingleton ''valid_native'' 2,
      DefineSingleton ''dig_native'' 2,
      DefineSingleton ''dig_many_native'' 3,
      DefineSingleton ''at_pointer_native'' 3,
      DefineSingleton ''at_pointers_native'' 3,
      DefineSingleton ''lazy_native'' 2,
      DefineSingleton ''load_file_native'' 2,
      DefineSingleton ''write_file_native'' 3,
      DefineSingleton ''load_lazy_file_native'' 2,
      DefineSingleton ''at_pointer_file_native'' 3,
      DefineSingleton ''dig_file_native'' 2,
      DefineSingleton ''stats_native'' 2,
      DefineSingleton ''stats_file_native'' 2,
      DefineSingleton ''each_line_native'' 2,
      DefineSingleton ''each_line_file_native'' 2,
      DefineSingleton ''generate_lines_native'' 2,
      DefineSingleton ''write_lines_native'' 3,
      DefineSingleton ''splice_native'' 3,
      DefineSingleton ''patch_native'' 3,
      DefineSingleton ''reformat_native'' 2,
      DefineSingleton ''reformat_file_native'' 2,
      DefineClass ''Lazy'',
      UndefAlloc ''Lazy'',
      DefineMethod ''__get'' 1,
      DefineMethod ''__dig'' 1,
      DefineMethod ''__at_pointer'' 1,
      DefineMethod ''__materialize'' 0,
      DefineMethod ''__kind'' 0,
      DefineMethod ''__byte_size'' 0,
      DefineMethod ''__keys'' 0,
      DefineMethod ''__size'' 0,
      DefineMethod ''__children'' 0,
      DefineSingleton ''generate_native'' 2,
      DefineSingleton ''generate_rails_native'' 3,
      DefineSingleton ''generate'' (-1),
      ResolveClass ''ValueStackShadow'',
      ResolveClass ''Lazy'',
      WarmUp]"

text \<open>The steps whose result \<open>?\<close> passes on; the others cannot fail.\<close>

fun may_raise :: "init_step \<Rightarrow> bool" where
  "may_raise DefineModule = True"
| "may_raise (DefineClass _) = True"
| "may_raise (PrivateConstant _) = True"
| "may_raise (DefineSingleton _ _) = True"
| "may_raise (DefineMethod _ _) = True"
| "may_raise _ = False"

text \<open>A method defined while the extension is declared safe may be called from every Ractor.\<close>

definition native :: "receiver \<Rightarrow> string \<Rightarrow> int \<Rightarrow> registry \<Rightarrow> registry" where
  "native on name arity r =
     r\<lparr>vr_methods := vr_methods r @ [\<lparr>nm_receiver = on, nm_name = name, nm_arity = arity,
       nm_ractor_safe = vr_ractor_safe r\<rparr>]\<rparr>"

fun perform :: "ruby_api \<Rightarrow> init_step \<Rightarrow> registry \<Rightarrow> registry" where
  "perform api RactorSafe r = r\<lparr>vr_ractor_safe := True\<rparr>"
| "perform api DefineModule r = r\<lparr>vr_module := True\<rparr>"
| "perform api (DefineClass name) r = r\<lparr>vr_classes := vr_classes r @ [name]\<rparr>"
| "perform api (PrivateConstant name) r = r\<lparr>vr_private := vr_private r @ [name]\<rparr>"
| "perform api (DefineSingleton name arity) r = native OnModule name arity r"
| "perform api (UndefAlloc name) r = r\<lparr>vr_no_alloc := vr_no_alloc r @ [name]\<rparr>"
| "perform api (DefineMethod name arity) r = native OnLazy name arity r"
| "perform api (ResolveClass name) r = r\<lparr>vr_typed := vr_typed r @ [name]\<rparr>"
| "perform api WarmUp r = r\<lparr>vr_statics := warm_up api (vr_statics r)\<rparr>"

text \<open>\<open>raises\<close> says which requests the VM answers with an exception; the first one ends the load.\<close>

fun run_init :: "ruby_api \<Rightarrow> (init_step \<Rightarrow> exc option) \<Rightarrow> init_step list \<Rightarrow> registry \<Rightarrow> (exc + unit) \<times> registry" where
  "run_init api raises [] r = (Inr (), r)"
| "run_init api raises (s # ss) r =
     (case raises s of
        Some e \<Rightarrow> if may_raise s then (Inl e, r) else run_init api raises ss (perform api s r)
      | None \<Rightarrow> run_init api raises ss (perform api s r))"

definition init :: "ruby_api \<Rightarrow> (init_step \<Rightarrow> exc option) \<Rightarrow> (exc + unit) \<times> registry" where
  "init api raises = run_init api raises init_steps nothing_registered"

section \<open>After a load\<close>

text \<open>What is registered when a load ends is what its first steps do.\<close>

lemma run_init_prefix:
  "\<exists>performed rest. ss = performed @ rest \<and> snd (run_init api raises ss r) = fold (perform api) performed r \<and>
     (fst (run_init api raises ss r) = Inr () \<longrightarrow> rest = [])"
proof (induction ss arbitrary: r)
  case (Cons s ss)
  show ?case
  proof (cases "(\<exists>e. raises s = Some e) \<and> may_raise s")
    case True
    then show ?thesis by (intro exI [of _ "[]"] exI [of _ "s # ss"]) auto
  next
    case False
    then have "run_init api raises (s # ss) r = run_init api raises ss (perform api s r)"
      by (cases "raises s") simp_all
    moreover from Cons.IH [of "perform api s r"] obtain performed rest where "ss = performed @ rest"
      "snd (run_init api raises ss (perform api s r)) = fold (perform api) performed (perform api s r)"
      "fst (run_init api raises ss (perform api s r)) = Inr () \<longrightarrow> rest = []" by blast
    ultimately show ?thesis by (intro exI [of _ "s # performed"] exI [of _ rest]) simp
  qed
qed simp

definition all_safe :: "registry \<Rightarrow> bool" where
  "all_safe r \<longleftrightarrow> vr_ractor_safe r \<and> (\<forall>nm \<in> set (vr_methods r). nm_ractor_safe nm)"

lemma perform_safe: "all_safe r \<Longrightarrow> all_safe (perform api s r)"
  by (cases s) (auto simp: all_safe_def native_def)

lemma performed_safe: "all_safe r \<Longrightarrow> all_safe (fold (perform api) ss r)"
  by (induction ss arbitrary: r) (simp_all add: perform_safe)

text \<open>Whatever the VM raises, every method that got registered is safe to call from every Ractor.\<close>

lemma init_ractor_safe: "\<forall>nm \<in> set (vr_methods (snd (init api raises))). nm_ractor_safe nm"
proof -
  obtain rest where first: "init_steps = RactorSafe # rest" by (simp add: init_steps_def)
  define r where "r = perform api RactorSafe nothing_registered"
  have run: "init api raises = run_init api raises rest r"
    unfolding init_def first r_def by (simp split: option.split)
  obtain performed where "snd (run_init api raises rest r) = fold (perform api) performed r"
    using run_init_prefix [of rest api raises r] by blast
  moreover have "all_safe r" by (simp add: r_def all_safe_def nothing_registered_def)
  ultimately have "all_safe (snd (init api raises))" using performed_safe [of r api performed] by (simp add: run)
  then show ?thesis by (simp add: all_safe_def)
qed

text \<open>Each method is registered once per receiver, and a load that succeeds registers them all.\<close>

definition step_methods :: "init_step list \<Rightarrow> (receiver \<times> string \<times> int) list" where
  "step_methods ss = concat (map (\<lambda>s. case s of
     DefineSingleton name arity \<Rightarrow> [(OnModule, name, arity)]
   | DefineMethod name arity \<Rightarrow> [(OnLazy, name, arity)]
   | _ \<Rightarrow> []) ss)"

lemma performed_methods:
  "map (\<lambda>nm. (nm_receiver nm, nm_name nm, nm_arity nm)) (vr_methods (fold (perform api) ss r)) =
     map (\<lambda>nm. (nm_receiver nm, nm_name nm, nm_arity nm)) (vr_methods r) @ step_methods ss"
proof (induction ss arbitrary: r)
  case (Cons s ss)
  from Cons.IH [of "perform api s r"] show ?case
    by (cases s) (simp_all add: native_def step_methods_def)
qed (simp add: step_methods_def)

lemma init_methods_distinct: "distinct (map (\<lambda>(on, name, arity). (on, name)) (step_methods init_steps))"
  by (simp add: step_methods_def init_steps_def)

lemma init_all:
  assumes "fst (init api raises) = Inr ()"
  shows "snd (init api raises) = fold (perform api) init_steps nothing_registered"
  using assms run_init_prefix [of init_steps api raises nothing_registered] by (auto simp: init_def)

lemma init_registers_all:
  assumes "fst (init api raises) = Inr ()"
  shows "map (\<lambda>nm. (nm_receiver nm, nm_name nm, nm_arity nm)) (vr_methods (snd (init api raises))) =
    step_methods init_steps"
  unfolding init_all [OF assms] performed_methods by (simp add: nothing_registered_def)

text \<open>
  Then every class of wrapped data and every static is resolved, with the answers of the VM at
  load time, and no later use of a static asks it again.
\<close>

lemma init_warm:
  assumes "fst (init api raises) = Inr ()"
  shows "set (vr_typed (snd (init api raises))) = set (vr_classes (snd (init api raises)))"
    and "vr_statics (snd (init api raises)) = warm_up api statics_new"
    and "as_json_id api' (vr_statics (snd (init api raises))) = (ra_intern api ''as_json'', vr_statics (snd (init api raises)))"
    and "to_json_id api' (vr_statics (snd (init api raises))) = (ra_intern api ''to_json'', vr_statics (snd (init api raises)))"
    and "utf8_encindexes api' (vr_statics (snd (init api raises))) =
      ((ra_utf8_encindex api, ra_usascii_encindex api), vr_statics (snd (init api raises)))"
proof -
  show st: "vr_statics (snd (init api raises)) = warm_up api statics_new"
    unfolding init_all [OF assms] by (simp add: init_steps_def nothing_registered_def native_def)
  show "set (vr_typed (snd (init api raises))) = set (vr_classes (snd (init api raises)))"
    unfolding init_all [OF assms] by (simp add: init_steps_def nothing_registered_def native_def)
  show "as_json_id api' (vr_statics (snd (init api raises))) = (ra_intern api ''as_json'', vr_statics (snd (init api raises)))"
    "to_json_id api' (vr_statics (snd (init api raises))) = (ra_intern api ''to_json'', vr_statics (snd (init api raises)))"
    "utf8_encindexes api' (vr_statics (snd (init api raises))) =
      ((ra_utf8_encindex api, ra_usascii_encindex api), vr_statics (snd (init api raises)))"
    unfolding st
    by (simp_all add: warm_up_def statics_new_def as_json_id_def to_json_id_def utf8_encindexes_def Let_def)
qed

end
