(* ===== verification/Round_Trip.thy ===== *)
theory Round_Trip
  imports Parse_Sessions Gen_Sessions Pointer
begin

text \<open>
  Generation and parsing together: what \<open>generate\<close> writes for an object of native classes is a
  JSON text of the document the object denotes, whatever the formatting, escaping and caches, so
  \<open>parse\<close> gives back the value of that document.  Of the crate only this is used: its parser reads
  the texts of the document, written with its own kernels and any white space, as the document.
\<close>

section \<open>The texts of a document\<close>

definition ws :: "bytes \<Rightarrow> bool" where
  "ws w \<longleftrightarrow> set w \<subseteq> {b_space, b_tab, b_nl, b_cr}"

lemma ws_simps [simp]: "ws []" "ws (u @ w) \<longleftrightarrow> ws u \<and> ws w"
  by (auto simp: ws_def)

definition big_digits :: "bytes \<Rightarrow> bool" where
  "big_digits digits \<longleftrightarrow>
     (\<exists>n. digits = dec n \<and> \<not> i64_range (int n) \<or> digits = asc ''-'' @ dec n \<and> \<not> i64_range (- int n))"

inductive json_text :: "emitter \<Rightarrow> doc \<Rightarrow> bytes \<Rightarrow> bool"
  and elems_text :: "emitter \<Rightarrow> doc list \<Rightarrow> bytes \<Rightarrow> bool"
  and members_text :: "emitter \<Rightarrow> (dkey \<times> doc) list \<Rightarrow> bytes \<Rightarrow> bool"
  for E where
  null: "json_text E DNull (asc ''null'')"
| true: "json_text E (DBool True) (asc ''true'')"
| false: "json_text E (DBool False) (asc ''false'')"
| int: "i64_range i \<Longrightarrow> json_text E (DInt i) (em_i64 E i)"
| float: "f64_is_finite f \<Longrightarrow> json_text E (DFloat f) (em_f64 E f)"
| big: "big_digits digits \<Longrightarrow> json_text E (DBigInt digits) digits"
| str: "valid_utf8 b \<Longrightarrow> json_text E (DStr b) ([b_quote] @ em_escape E md b @ [b_quote])"
| arr_empty: "ws w \<Longrightarrow> json_text E (DArray []) ([b_lbracket] @ w @ [b_rbracket])"
| arr: "elems_text E ds t \<Longrightarrow> json_text E (DArray ds) ([b_lbracket] @ t @ [b_rbracket])"
| obj_empty: "ws w \<Longrightarrow> json_text E (DObject []) ([b_lbrace] @ w @ [b_rbrace])"
| obj: "members_text E kvs t \<Longrightarrow> json_text E (DObject kvs) ([b_lbrace] @ t @ [b_rbrace])"
| last_elem: "ws u \<Longrightarrow> ws w \<Longrightarrow> json_text E d t \<Longrightarrow> elems_text E [d] (u @ t @ w)"
| more_elems: "ws u \<Longrightarrow> ws w \<Longrightarrow> json_text E d t \<Longrightarrow> elems_text E ds ts \<Longrightarrow>
    elems_text E (d # ds) (u @ t @ w @ [b_comma] @ ts)"
| last_member: "ws u \<Longrightarrow> ws v \<Longrightarrow> ws w \<Longrightarrow> ws x \<Longrightarrow> valid_utf8 b \<Longrightarrow> json_text E d t \<Longrightarrow>
    members_text E [(DKey b, d)] (u @ [b_quote] @ em_escape E md b @ [b_quote] @ v @ [b_colon] @ w @ t @ x)"
| more_members: "ws u \<Longrightarrow> ws v \<Longrightarrow> ws w \<Longrightarrow> ws x \<Longrightarrow> valid_utf8 b \<Longrightarrow> json_text E d t \<Longrightarrow> members_text E kvs ts \<Longrightarrow>
    members_text E ((DKey b, d) # kvs)
      (u @ [b_quote] @ em_escape E md b @ [b_quote] @ v @ [b_colon] @ w @ t @ x @ [b_comma] @ ts)"

text \<open>The law of the crate's parser, for the texts of one document under one grammar.\<close>

definition parses_texts :: "scanner \<Rightarrow> emitter \<Rightarrow> popts \<Rightarrow> doc \<Rightarrow> bool" where
  "parses_texts prs E gr d \<longleftrightarrow> (\<forall>t. json_text E d t \<longrightarrow> scans_as prs t gr d)"

text \<open>The law of its kernels: they write UTF-8.\<close>

definition writes_utf8 :: "emitter \<Rightarrow> bool" where
  "writes_utf8 E \<longleftrightarrow> (\<forall>i. valid_utf8 (em_i64 E i)) \<and> (\<forall>f. valid_utf8 (em_f64 E f)) \<and>
     (\<forall>md b. valid_utf8 b \<longrightarrow> valid_utf8 (em_escape E md b))"

lemma ascii_cons: "b < 0x80 \<Longrightarrow> valid_utf8 (b # bs) \<longleftrightarrow> valid_utf8 bs"
proof -
  assume "b < 0x80"
  then have "utf8_step (b # bs) = Some (unat b, 1)" by (simp add: utf8_step_def in_range_def word_less_nat_alt)
  then show ?thesis by (simp add: valid_utf8_def utf8_decode.simps [of "b # bs"])
qed

lemma valid_Nil: "valid_utf8 []"
  by (simp add: valid_utf8_def)

lemma ascii_valid_text: "\<forall>b \<in> set bs. b < 0x80 \<Longrightarrow> valid_utf8 bs"
  by (induction bs) (simp_all add: valid_Nil ascii_cons)

lemma ws_valid: "ws w \<Longrightarrow> valid_utf8 w"
  by (rule ascii_valid_text) (auto simp: ws_def)

lemma dec_ascii: "\<forall>b \<in> set (dec n). b < 0x80"
proof
  fix b
  assume "b \<in> set (dec n)"
  then have "is_digit b" using dec_digits [of n] by (simp add: list_all_iff)
  then show "b < 0x80" unfolding is_digit_def by (auto simp: word_le_nat_alt word_less_nat_alt)
qed

lemma big_valid: "big_digits digits \<Longrightarrow> valid_utf8 digits"
  using dec_ascii by (intro ascii_valid_text) (auto simp: big_digits_def asc_def)

lemma json_text_valid:
  assumes "writes_utf8 E"
  shows "json_text E d t \<Longrightarrow> valid_utf8 t" "elems_text E ds t \<Longrightarrow> valid_utf8 t" "members_text E kvs t \<Longrightarrow> valid_utf8 t"
  using assms
  by (induction rule: json_text_elems_text_members_text.inducts)
    (auto simp: writes_utf8_def asc_def ascii_cons valid_Nil ws_valid big_valid
      intro!: valid_utf8_append)

section \<open>The document an object denotes\<close>

definition str_content :: "gstr \<Rightarrow> bytes" where
  "str_content s =
     (if gs_cr s = Cr7Bit \<or> gs_cr s = CrValid \<and> (gs_enc s = EncUtf8 \<or> gs_enc s = EncUsAscii) then gs_bytes s
      else case gs_encoded s of Inr (_, b) \<Rightarrow> b | Inl _ \<Rightarrow> [])"

definition key_content :: "rkey \<Rightarrow> bytes" where
  "key_content k = (case key_string k of Inr s \<Rightarrow> str_content s | Inl _ \<Rightarrow> [])"

fun doc_of :: "robj \<Rightarrow> doc" where
  "doc_of ONilV = DNull"
| "doc_of OTrueV = DBool True"
| "doc_of OFalseV = DBool False"
| "doc_of (OFix i) = DInt i"
| "doc_of (OFlonum f) = DFloat f"
| "doc_of (OHeapFloat f) = DFloat f"
| "doc_of (OBig digits) = DBigInt digits"
| "doc_of (OStr s) = DStr (str_content s)"
| "doc_of (OSym s) = DStr (str_content s)"
| "doc_of (OArr vs) = DArray (map doc_of vs)"
| "doc_of (OHsh hi kvs) = DObject (map (\<lambda>kv. (DKey (key_content (fst kv)), doc_of (snd kv))) kvs)"
| "doc_of (OOther info asj) = DNull"

text \<open>
  The laws of the VM's Strings: a coderange says what it means, for the String and for what it
  is transcoded to; Integers are Fixnums in range or the digits of one that is not.
\<close>

definition string_law :: "gstr \<Rightarrow> bool" where
  "string_law s \<longleftrightarrow>
     (gs_cr s = Cr7Bit \<or> gs_cr s = CrValid \<and> (gs_enc s = EncUtf8 \<or> gs_enc s = EncUsAscii) \<longrightarrow> valid_utf8 (gs_bytes s)) \<and>
     (\<forall>cr b. gs_encoded s = Inr (cr, b) \<and> cr \<noteq> CrBroken \<longrightarrow> valid_utf8 b)"

definition key_law :: "rkey \<Rightarrow> bool" where
  "key_law k \<longleftrightarrow> (\<forall>s. key_string k = Inr s \<longrightarrow> string_law s)"

text \<open>Objects of native classes only, all the way down.\<close>

fun native :: "robj \<Rightarrow> bool" where
  "native (OFix i) = i64_range i"
| "native (OBig digits) = big_digits digits"
| "native (OStr s) = string_law s"
| "native (OSym s) = string_law s"
| "native (OArr vs) = (\<forall>v \<in> set vs. native v)"
| "native (OHsh hi kvs) = (\<forall>kv \<in> set kvs. key_law (fst kv) \<and> native (snd kv))"
| "native (OOther info asj) = False"
| "native _ = True"

text \<open>Formatting strings of white space, as all the presets have.\<close>

definition ws_config :: "gen_config \<Rightarrow> bool" where
  "ws_config cfg \<longleftrightarrow> ws (indent cfg) \<and> ws (space cfg) \<and> ws (space_before cfg) \<and> ws (object_nl cfg) \<and> ws (array_nl cfg)"

lemma ws_indents: "ws_config cfg \<Longrightarrow> ws (indents cfg n)"
  by (induction n) (simp_all add: indents_def ws_config_def)

section \<open>What generation writes\<close>

lemma quoted_content:
  assumes "quoted E md s = Inr t" and "string_law s"
  shows "t = [b_quote] @ em_escape E md (str_content s) @ [b_quote] \<and> valid_utf8 (str_content s)"
  using assms
  by (auto simp: quoted_def str_content_def string_law_def Let_def map_ok_tryr tryr_Inr_iff
      split: if_splits sum.splits prod.splits coderange.splits)

lemma quoted_str: "quoted E md s = Inr t \<Longrightarrow> string_law s \<Longrightarrow> json_text E (DStr (str_content s)) t"
  using quoted_content [of E md s t] json_text_elems_text_members_text.str [of "str_content s" E md] by auto

lemma key_text_content:
  assumes "key_text E cfg k = Inr t" and "key_law k"
  shows "t = [b_quote] @ em_escape E (mode cfg) (key_content k) @ [b_quote] \<and> valid_utf8 (key_content k)"
  using assms quoted_content [of E "mode cfg" _ t]
  by (auto simp: key_text_def key_content_def key_law_def tryr_Inr_iff)

lemma scalar_text_json:
  assumes "scalar_text E cfg v = Inr t" and "native v" and "\<not> gc_allow_nan cfg" and "\<not> rails cfg"
    and "\<forall>vs. v \<noteq> OArr vs" and "\<forall>hi kvs. v \<noteq> OHsh hi kvs"
  shows "json_text E (doc_of v) t"
  using assms
  by (cases v) (auto simp: scalar_text_def float_text_def intro: json_text_elems_text_members_text.intros quoted_str split: if_splits)

lemmas scalars_json =
  scalar_text_json [where v = ONilV, simplified] scalar_text_json [where v = OTrueV, simplified]
  scalar_text_json [where v = OFalseV, simplified] scalar_text_json [where v = "OFix i" for i, simplified]
  scalar_text_json [where v = "OFlonum f" for f, simplified] scalar_text_json [where v = "OHeapFloat f" for f, simplified]
  scalar_text_json [where v = "OBig digits" for digits, simplified]
  scalar_text_json [where v = "OStr s" for s, simplified] scalar_text_json [where v = "OSym s" for s, simplified]

text \<open>Elements and pairs, with the white space before the closing bracket.\<close>

lemma printed_json:
  assumes "ws_config cfg" and "\<not> gc_allow_nan cfg" and "\<not> rails cfg"
  shows "printed E cfg v depth = Inr t \<Longrightarrow> native v \<Longrightarrow> json_text E (doc_of v) t"
    and "printed_elems E cfg later vs inner = Inr t \<Longrightarrow> \<forall>v \<in> set vs. native v \<Longrightarrow> vs \<noteq> [] \<Longrightarrow> ws w \<Longrightarrow>
      \<exists>t'. t = (if later then [b_comma] else []) @ t' \<and> elems_text E (map doc_of vs) (t' @ w)"
    and "printed_pairs E cfg hi ks m first kvs inner = Inr t \<Longrightarrow>
      \<forall>kv \<in> set kvs. key_law (fst kv) \<and> native (snd kv) \<Longrightarrow> kvs \<noteq> [] \<Longrightarrow> ws w \<Longrightarrow>
      \<exists>t'. t = (if first then [] else [b_comma]) @ t' \<and>
        members_text E (map (\<lambda>kv. (DKey (key_content (fst kv)), doc_of (snd kv))) kvs) (t' @ w)"
  using assms
proof (induction E cfg v depth and E cfg later vs inner and E cfg hi ks m first kvs inner arbitrary: t and t w and t w
    rule: printed_printed_elems_printed_pairs.induct)
  case (1 E cfg vs depth)
  show ?case
  proof (cases "vs = []")
    case True
    with "1.prems" json_text_elems_text_members_text.arr_empty [of "[]" E] show ?thesis by (simp add: tryr_Inr_iff)
  next
    case False
    let ?w = "if array_nl cfg \<noteq> [] then array_nl cfg @ indents cfg depth else []"
    from "1.prems"(1) False obtain b where n: "nesting_check cfg (depth + 1) = Inr ()"
      and b: "printed_elems E cfg False vs (depth + 1) = Inr b" and t: "t = [b_lbracket] @ (b @ ?w) @ [b_rbracket]"
      by (auto simp: tryr_Inr_iff cat_Inr_iff)
    have "ws ?w" using "1.prems" ws_indents by (auto simp: ws_config_def)
    with "1.IH" [OF n False b _ False, of ?w] "1.prems" have "elems_text E (map doc_of vs) (b @ ?w)" by simp
    from arr [OF this] show ?thesis unfolding t doc_of.simps .
  qed
next
  case (2 E cfg hi kvs depth)
  show ?case
  proof (cases "kvs = []")
    case True
    with "2.prems" json_text_elems_text_members_text.obj_empty [of "[]" E] show ?thesis by (simp add: tryr_Inr_iff)
  next
    case False
    let ?w = "if object_nl cfg \<noteq> [] then object_nl cfg @ indents cfg depth else []"
    let ?m = "mixed_keys_new (gc_allow_duplicate_key cfg)"
    from "2.prems"(1) False obtain b where n: "nesting_check cfg (depth + 1) = Inr ()"
      and b: "printed_pairs E cfg hi (map fst kvs) ?m True kvs (depth + 1) = Inr b"
      and t: "t = [b_lbrace] @ (b @ ?w) @ [b_rbrace]"
      by (auto simp: tryr_Inr_iff cat_Inr_iff)
    have "ws ?w" using "2.prems" ws_indents by (auto simp: ws_config_def)
    with "2.IH" [OF n False b _ False, of ?w] "2.prems"
    have "members_text E (map (\<lambda>kv. (DKey (key_content (fst kv)), doc_of (snd kv))) kvs) (b @ ?w)" by simp
    from obj [OF this] show ?thesis unfolding t doc_of.simps .
  qed
next
  case (6 E cfg later v vs inner)
  let ?u = "array_nl cfg @ indents cfg inner"
  from "6.prems"(1) obtain b1 b2 where b1: "printed E cfg v inner = Inr b1"
    and b2: "printed_elems E cfg True vs inner = Inr b2"
    and t: "t = (if later then [b_comma] else []) @ ?u @ b1 @ b2"
    by (auto simp: cat_Inr_iff)
  have u: "ws ?u" using "6.prems" ws_indents by (auto simp: ws_config_def)
  have v: "json_text E (doc_of v) b1" using "6.IH"(1) [OF b1] "6.prems" by simp
  show ?case
  proof (cases "vs = []")
    case True
    with b2 last_elem [OF u "6.prems"(4) v] t show ?thesis by (intro exI [of _ "?u @ b1"]) simp
  next
    case False
    with "6.IH"(2) [OF b2 _ False "6.prems"(4)] "6.prems" obtain t' where
      t': "b2 = [b_comma] @ t'" "elems_text E (map doc_of vs) (t' @ w)" by auto
    from more_elems [OF u ws_simps(1) v t'(2)] t' t show ?thesis by (intro exI [of _ "?u @ b1 @ [b_comma] @ t'"]) simp
  qed
next
  case (8 E cfg hi ks m first k v kvs inner)
  obtain check m' where nc: "needs_check (kind_of_key k) m = (check, m')" by fastforce
  let ?u = "object_nl cfg @ indents cfg inner"
  from "8.prems"(1) obtain bk b1 b2 where c: "(if check then check_duplicate_keys E hi ks else Inr ()) = Inr ()"
    and bk: "key_text E cfg k = Inr bk" and b1: "printed E cfg v inner = Inr b1"
    and b2: "printed_pairs E cfg hi ks m' False kvs inner = Inr b2"
    and t: "t = (if first then [] else [b_comma]) @ ?u @ bk @ space_before cfg @ [b_colon] @ space cfg @ b1 @ b2"
    by (auto simp: cat_Inr_iff tryr_Inr_iff nc)
  have u: "ws ?u" using "8.prems" ws_indents by (auto simp: ws_config_def)
  have sp: "ws (space_before cfg)" "ws (space cfg)" using "8.prems" by (auto simp: ws_config_def)
  have v: "json_text E (doc_of v) b1" using "8.IH"(1) [OF nc [symmetric] c b1] "8.prems" by simp
  have kt: "bk = [b_quote] @ em_escape E (mode cfg) (key_content k) @ [b_quote]" "valid_utf8 (key_content k)"
    using key_text_content [OF bk] "8.prems" by auto
  show ?case
  proof (cases "kvs = []")
    case True
    with b2 last_member [OF u sp "8.prems"(4) kt(2) v] t kt(1) show ?thesis
      by (intro exI [of _ "?u @ bk @ space_before cfg @ [b_colon] @ space cfg @ b1"]) simp
  next
    case False
    with "8.IH"(2) [OF nc [symmetric] c b2 _ False "8.prems"(4)] "8.prems" obtain t' where
      t': "b2 = [b_comma] @ t'"
        "members_text E (map (\<lambda>kv. (DKey (key_content (fst kv)), doc_of (snd kv))) kvs) (t' @ w)" by auto
    from more_members [OF u sp ws_simps(1) kt(2) v t'(2)] t' t kt(1) show ?thesis
      by (intro exI [of _ "?u @ bk @ space_before cfg @ [b_colon] @ space cfg @ b1 @ [b_comma] @ t'"]) simp
  qed
qed (auto intro: scalars_json)

text \<open>Whatever the caches hold, a text that generation returns is one of the document.\<close>

lemma generated_json:
  assumes "(gen_step E)\<^sup>*\<^sup>* (strs0, None) (strs, gcell)" and "emitter_ok E" and "sound_obj strs obj"
    and "native obj" and "config_of gopts = Inr cfg" and "ws_config cfg" and "\<not> gc_allow_nan cfg"
    and "fst (generate_entry E (TwoArgs obj gopts) gcell) = Inr t"
  shows "json_text E (doc_of obj) t"
proof -
  have good: "cell_good E strs gcell" using gen_steps_good [OF assms(1,2)] by simp
  have "document_text E cfg obj = Inr t"
    using entry_leaves [OF assms(2,3) good, of gopts] assms(5,8) by (simp add: leaves_def)
  then have p: "printed E cfg obj (start_depth cfg) = Inr t"
    by (cases "printed E cfg obj (start_depth cfg)") (simp_all add: document_text_def)
  have "\<not> rails cfg" using config_of_ok [OF assms(5)] by simp
  from printed_json(1) [OF assms(6,7) this p assms(4)] show ?thesis .
qed

text \<open>
  C6.  What \<open>generate\<close> writes, \<open>parse\<close> reads back: after any history of a thread's generation and
  parsing, with any formatting of white space, any escape mode and any cached keys, if \<open>generate\<close>
  returns a text for an object of native classes then \<open>parse\<close> returns for it exactly the value of the document
  the object denotes, when the options and limits admit that document, and raises otherwise.
\<close>

theorem generate_parse_roundtrip:
  assumes "(gen_step E)\<^sup>*\<^sup>* (strs0, None) (strs, gcell)" and "pull_step\<^sup>*\<^sup>* (env0, None) (env, pcell)"
    and "emitter_ok E" and "writes_utf8 E" and "vm_law (env_vm env)"
    and "sound_obj strs obj" and "native obj"
    and "config_of gopts = Inr cfg" and "ws_config cfg" and "\<not> gc_allow_nan cfg"
    and "parse_native_opts popts' = Inr po" and "parses_texts (env_scan env) E (popts po) (doc_of obj)"
    and "fst (generate_entry E (TwoArgs obj gopts) gcell) = Inr t"
  shows "let result = parse_native env (pull_state_of pcell) \<lparr>str_encoding = Utf8, str_bytes = t\<rparr> popts'
    in if parse_accepts po (doc_of obj)
       then map_ok fst result = Inr (value_of (env_vm env) (symbolize po) (freeze po) (doc_of obj))
       else \<not> is_ok result"
proof -
  have json: "json_text E (doc_of obj) t" by (rule generated_json [OF assms(1,3,6-10,13)])
  have inp: "utf8_input \<lparr>str_encoding = Utf8, str_bytes = t\<rparr> = Inr t"
    using json_text_valid(1) [OF assms(4) json] by (simp add: utf8_input_def)
  have scan: "scans_as (env_scan env) (sub t 0 (length t)) (popts po) (doc_of obj)"
    using assms(12) json by (simp add: parses_texts_def sub_def)
  have pool: "pool_ok (env_vm env) (pull_state_of pcell)"
    using pull_steps_ok [OF assms(2)] by (intro slot_pool) (simp add: pull_slot_ok_def)
  have p: "parse_native env (pull_state_of pcell) \<lparr>str_encoding = Utf8, str_bytes = t\<rparr> popts' =
      materialize_at env (pull_state_of pcell) t 0 (length t) po"
    using assms(11) inp by (simp add: parse_native_def materialize_def)
  show ?thesis
    using materialize_accepted [OF assms(5) pool scan] materialize_refused [OF assms(5) pool scan]
    by (auto simp: p Let_def)
qed

text \<open>\<open>{"a":[1,2,null],"b":"a"}\<close>, read by a parser that ignores white space.\<close>

definition sample_doc :: doc where
  "sample_doc = DObject [(DKey (asc ''a''), DArray [DInt 1, DInt 2, DNull]), (DKey (asc ''b''), DStr (asc ''a''))]"

definition sample_json :: bytes where
  "sample_json = [b_lbrace, b_quote, 0x61, b_quote, b_colon] @ asc ''[1,2,null]'' @
     [b_comma, b_quote, 0x62, b_quote, b_colon, b_quote, 0x61, b_quote, b_rbrace]"

definition squeeze :: "bytes \<Rightarrow> bytes" where
  "squeeze t = filter (\<lambda>b. b \<notin> {b_space, b_tab, b_nl, b_cr}) t"

lemma squeeze_simps:
  "squeeze [] = []"
  "squeeze (b # t) = (if b \<in> {b_space, b_tab, b_nl, b_cr} then squeeze t else b # squeeze t)"
  "squeeze (t @ t') = squeeze t @ squeeze t'"
  "ws w \<Longrightarrow> squeeze w = []"
  by (auto simp: squeeze_def ws_def filter_empty_conv)

definition json_env :: "(term_value, nat) env" where
  "json_env = sample_env\<lparr>env_scan := \<lambda>input gr.
     if squeeze input = sample_json then (events sample_doc, None)
     else ([], Some \<lparr>pe_offset = 0, pe_kind = OtherKind ''unexpected byte''\<rparr>)\<rparr>"

inductive_simps json_shapes:
  "json_text E DNull t" "json_text E (DInt i) t" "json_text E (DStr b) t"
  "json_text E (DArray (d # ds)) t" "json_text E (DObject (kv # kvs)) t"
  "elems_text E [d] t" "elems_text E (d # d' # ds) t"
  "members_text E [(k, d)] t" "members_text E ((k, d) # kv # kvs) t"
  "elems_text E [] t" "members_text E [] t"

lemma json_env_parses: "parses_texts (env_scan json_env) sample_emitter gr sample_doc"
  unfolding parses_texts_def scans_as_def json_env_def
  by (auto simp: sample_doc_def json_shapes sample_emitter_def squeeze_simps sample_json_def asc_def)

text \<open>The sample kernel drops two ASCII bytes, which leaves UTF-8 as it was.\<close>

lemma sample_escape_utf8: "valid_utf8 b \<Longrightarrow> valid_utf8 (em_escape sample_emitter md b)"
proof -
  let ?keep = "\<lambda>c. c \<noteq> b_quote \<and> c \<noteq> b_nl"
  have "utf8_decode b = Some cs \<Longrightarrow> valid_utf8 (filter ?keep b)" for cs
  proof (induction rule: utf8_decode_induct)
    case Nil
    show ?case by (simp add: valid_Nil)
  next
    case (Step c tl rest ch cs)
    have "filter ?keep tl = tl"
      using Step.hyps(3) by (auto simp: filter_id_conv is_cont_iff in_range_def)
    moreover have "tl = []" if "\<not> ?keep c"
      using that Step.hyps(1) by (auto simp: utf8_step_def in_range_def)
    moreover have "valid_utf8 (c # tl)" using valid_char [OF Step.hyps(1)] by simp
    ultimately show ?case
      using valid_utf8_append [of "c # tl" "filter ?keep rest"] Step.IH by auto
  qed
  then show "valid_utf8 b \<Longrightarrow> valid_utf8 (em_escape sample_emitter md b)"
    by (auto simp: valid_utf8_def [of b] sample_emitter_def)
qed

lemma sample_utf8_emitter: "writes_utf8 sample_emitter"
  unfolding writes_utf8_def using sample_escape_utf8
  by (simp add: sample_emitter_def ascii_cons valid_Nil asc_def)

lemma sample_doc_of: "doc_of sample_obj = sample_doc"
  by (simp add: sample_obj_def sample_doc_def sample_str_def key_content_def str_content_def)

lemma sample_native: "native sample_obj"
  by (simp add: sample_obj_def sample_str_def key_law_def string_law_def i64_range_def ascii_valid_text asc_def)

lemma sample_accepts: "parse_accepts parse_opts_default sample_doc"
  by (simp add: parse_accepts_def sample_doc_def parse_opts_default_def asc_def)

lemma sample_value:
  "value_of (env_vm json_env) (symbolize parse_opts_default) (freeze parse_opts_default) sample_doc =
     THash [TInterned (asc ''a''), TArray [TInt 1, TInt 2, TNil], TInterned (asc ''b''), TStr (asc ''a'')]"
  by (simp add: sample_doc_def parse_opts_default_def json_env_def frozen_def key_value_def, simp add: term_vm_def)

theorem generate_parse_roundtrip_witness:
  "map_ok fst (parse_native json_env fresh_pull_state \<lparr>str_encoding = Utf8, str_bytes = sample_json\<rparr> ONil) =
     Inr (THash [TInterned (asc ''a''), TArray [TInt 1, TInt 2, TNil], TInterned (asc ''b''), TStr (asc ''a'')])"
proof -
  have cfg: "ws_config DEFAULT_CONFIG" "\<not> gc_allow_nan DEFAULT_CONFIG"
    by (simp_all add: ws_config_def DEFAULT_CONFIG_def gen_defaults_def)
  have law: "vm_law (env_vm json_env)" by (simp add: json_env_def term_vm_law)
  have opts: "parse_native_opts ONil = Inr parse_opts_default" by (simp add: parse_native_opts_def)
  have parses: "parses_texts (env_scan json_env) sample_emitter (popts parse_opts_default) (doc_of sample_obj)"
    unfolding sample_doc_of by (rule json_env_parses)
  have gen: "fst (generate_entry sample_emitter (TwoArgs sample_obj ONil) None) = Inr sample_json"
    using entry_leaves [OF sample_emitter_ok sample_sound cell_good_None, of ONil]
    by (simp add: leaves_def sample_text sample_json_def)
  from generate_parse_roundtrip [OF rtranclp.rtrancl_refl [of "gen_step sample_emitter" "(sample_strs, None)"]
      rtranclp.rtrancl_refl [of pull_step "(json_env, None)"] sample_emitter_ok sample_utf8_emitter law sample_sound
      sample_native default_config cfg opts parses gen]
  show ?thesis by (simp add: Let_def sample_doc_of sample_accepts sample_value)
qed

end
