(* ===== verification/Lines_Round_Trip.thy ===== *)
theory Lines_Round_Trip
  imports Round_Trip Lines_Framing
begin

text \<open>
  JSON Lines written and read back: the values \<open>each_line\<close> (src/ext/nosj/src/lines.rs) hands its
  block for what \<open>generate_lines\<close> (src/ext/nosj/src/gen/mod.rs) wrote are the values of the
  documents of the objects, in order.
\<close>

section \<open>Generated lines\<close>

text \<open>The law of the kernels for numbers: their text is not blank.\<close>

definition writes_numbers :: "emitter \<Rightarrow> bool" where
  "writes_numbers E \<longleftrightarrow> (\<forall>i. \<not> blank (em_i64 E i)) \<and> (\<forall>f. \<not> blank (em_f64 E f))"

lemma blank_simps [simp]:
  "blank []" "blank (x # xs) \<longleftrightarrow> x \<in> set LINE_WS \<and> blank xs" "blank (xs @ ys) \<longleftrightarrow> blank xs \<and> blank ys"
  by (auto simp: blank_def)

lemma dec_not_blank: "\<not> blank (dec n)"
proof -
  obtain b bs where "dec n = b # bs" using dec_digits [of n] by (cases "dec n") auto
  moreover have "is_digit b" using dec_digits [of n] calculation by simp
  then have "b \<notin> set LINE_WS" unfolding is_digit_def by (auto simp: word_le_nat_alt)
  ultimately show ?thesis by simp
qed

lemma json_not_blank:
  assumes "writes_numbers E" and "json_text E d t"
  shows "\<not> blank t"
  using assms(2,1) dec_not_blank
  by cases (auto simp: writes_numbers_def asc_def big_digits_def)

lemma big_flat: "big_digits digits \<Longrightarrow> flat digits"
proof -
  have "b_nl \<notin> set (dec n)" for n
    using dec_digits [of n] by (auto simp: list_all_iff is_digit_def)
  then show "big_digits digits \<Longrightarrow> flat digits" by (auto simp: big_digits_def flat_def asc_def)
qed

lemma native_flat: "native v \<Longrightarrow> flat_obj v"
proof (induction "weight v" arbitrary: v rule: less_induct)
  case less
  have part: "weight v < weight (OArr vs)" if "v \<in> set vs" for v vs
    using member_le_sum_list [of "Suc (weight v)" "map (\<lambda>v. Suc (weight v)) vs"] that by auto
  have member: "weight (snd kv) < weight (OHsh hi kvs)" if "kv \<in> set kvs" for kv hi kvs
    using member_le_sum_list [of "Suc (weight (snd kv))" "map (\<lambda>kv. Suc (weight (snd kv))) kvs"] that by auto
  show ?case
    using less part member by (cases v) (auto simp: big_flat)
qed

text \<open>The texts of the objects, one by one.\<close>

lemma collect_json:
  assumes "ws_config cfg" and "\<not> gc_allow_nan cfg" and "\<not> rails cfg"
  shows "\<forall>obj \<in> set objs. native obj \<Longrightarrow> collect (document_text E cfg) objs = Inr ts \<Longrightarrow>
    list_all2 (\<lambda>obj t. json_text E (doc_of obj) t) objs ts"
proof (induction objs arbitrary: ts)
  case (Cons obj objs)
  from Cons.prems(2) obtain t ts' where t: "document_text E cfg obj = Inr t" "ts = t # ts'"
    "collect (document_text E cfg) objs = Inr ts'"
    by (cases "document_text E cfg obj"; cases "collect (document_text E cfg) objs") auto
  from t(1) have "printed E cfg obj (start_depth cfg) = Inr t"
    by (cases "printed E cfg obj (start_depth cfg)") (simp_all add: document_text_def)
  with printed_json(1) [OF assms this] Cons t show ?case by simp
qed simp

lemma lines_text_valid: "\<forall>t \<in> set ts. valid_utf8 t \<Longrightarrow> valid_utf8 (lines_text ts)"
  by (induction ts) (simp_all add: lines_text_def valid_Nil valid_utf8_append ascii_cons)

section \<open>Read back\<close>

text \<open>Lines that are not blank and that the parser reads as admitted documents, read one by one.\<close>

lemma read_lines:
  assumes "vm_law (env_vm env)" and "pool_ok (env_vm env) st" and "parse_native_opts opts = Inr po"
    and ts: "\<forall>t \<in> set ts. flat t \<and> valid_utf8 t \<and> \<not> blank t"
    and docs: "list_all2 (\<lambda>d t. scans_as (env_scan env) t (popts po) d \<and> parse_accepts po d) ds ts"
    and "\<forall>handed v. blk handed v = Inr ()"
  shows "\<exists>st'. each_line_native env blk st \<lparr>str_encoding = Utf8, str_bytes = lines_text ts\<rparr> opts =
    (map (value_of (env_vm env) (symbolize po) (freeze po)) ds, Inr st')"
proof -
  let ?out = "lines_text ts"
  define doc_at where "doc_at t = (SOME d. scans_as (env_scan env) t (popts po) d)" for t
  have doc: "doc_at t = d" if "scans_as (env_scan env) t (popts po) d" for t d
  proof -
    have "scans_as (env_scan env) t (popts po) (doc_at t)"
      unfolding doc_at_def using that by (rule someI [where P = "\<lambda>d. scans_as (env_scan env) t (popts po) d"])
    from scans_as_unique [OF this that] show ?thesis .
  qed
  have at: "doc_at (ts ! i) = ds ! i \<and> line_parses env po doc_at (ts ! i)" if "i < length ts" for i
    using docs that doc by (auto simp: list_all2_conv_all_nth line_parses_def)
  have cut: "map snd (lines_from 0 ?out) = ts" by (rule lines_from_texts) (use ts in blast)
  have line: "l \<in> set ts" if "(pos, l) \<in> set (lines_from 0 ?out)" for pos l
    using that by (subst cut [symmetric]) force
  have parses: "line_parses env po doc_at t" if "t \<in> set ts" for t
    using at that by (auto simp: in_set_conv_nth)
  have filled: "filled (lines_from 0 ?out) = lines_from 0 ?out"
    using line ts by (auto simp: filled_def filter_id_conv)
  have "\<forall>(pos, l) \<in> set (lines_from 0 ?out). sub ?out pos (pos + length l) = l \<and>
      (blank l \<or> line_parses env po doc_at l)"
    using line parses line_slice by fastforce
  from each_line_prefix [OF assms(1,2) this assms(6), of "[]" "[]"] filled obtain st' where
    walk: "each_line env blk ?out po (lines_from 0 ?out) [] st = (map (line_value env po doc_at) (lines_from 0 ?out), Inr st')"
    by auto
  have "map (line_value env po doc_at) (lines_from 0 ?out) =
      map (\<lambda>t. value_of (env_vm env) (symbolize po) (freeze po) (doc_at t)) (map snd (lines_from 0 ?out))"
    by (simp add: line_value_def case_prod_unfold)
  also have "\<dots> = map (value_of (env_vm env) (symbolize po) (freeze po)) ds"
    unfolding cut using at docs by (auto simp: list_all2_conv_all_nth intro!: nth_equalityI)
  finally have vals: "map (line_value env po doc_at) (lines_from 0 ?out) = map (value_of (env_vm env) (symbolize po) (freeze po)) ds" .
  have inp: "utf8_input \<lparr>str_encoding = Utf8, str_bytes = ?out\<rparr> = Inr ?out"
    using lines_text_valid [of ts] ts by (simp add: utf8_input_def)
  show ?thesis using walk_whole [OF assms(3) inp, of env blk st] walk vals by auto
qed

text \<open>What \<open>generate_lines\<close> returned.\<close>

lemma generated_lines:
  assumes "(gen_step E)\<^sup>*\<^sup>* (strs0, None) (strs, gcell)" and "emitter_ok E" and "writes_utf8 E"
    and "flat_emitter E" and "writes_numbers E" and "\<forall>obj \<in> set objs. sound_obj strs obj \<and> native obj"
    and "config_of gopts = Inr cfg" and "ws_config cfg" and "\<not> gc_allow_nan cfg"
    and "fst (generate_lines_native E objs gopts gcell) = Inr out"
  shows "\<exists>ts. out = lines_text ts \<and> (\<forall>t \<in> set ts. flat t \<and> valid_utf8 t \<and> \<not> blank t) \<and>
    list_all2 (\<lambda>obj t. json_text E (doc_of obj) t) objs ts"
proof -
  have good: "cell_good E strs gcell" using gen_steps_good [OF assms(1,2)] by simp
  have sound: "\<forall>obj \<in> set objs. sound_obj strs obj" and native: "\<forall>obj \<in> set objs. native obj"
    using assms(6) by auto
  note g = lines_native_leaves [OF assms(2) sound good, of gopts]
  have fl: "\<not> breaks_line_framing cfg" using g assms(7,10) by (auto simp: leaves_def split: if_splits)
  with g assms(7,10) obtain ts where ts: "collect (document_text E cfg) objs = Inr ts" and out: "out = lines_text ts"
    by (cases "collect (document_text E cfg) objs") (auto simp: leaves_def)
  have json: "list_all2 (\<lambda>obj t. json_text E (doc_of obj) t) objs ts"
    using config_of_ok [OF assms(7)] by (intro collect_json [OF assms(8,9) _ native ts]) simp
  have "\<forall>t \<in> set ts. flat t"
    using collect_texts_flat [OF assms(4) framing_flat [OF fl] _ ts] native native_flat by blast
  moreover have "\<exists>obj. json_text E (doc_of obj) t" if "t \<in> set ts" for t
    using json that by (auto simp: list_all2_conv_all_nth in_set_conv_nth)
  ultimately show ?thesis
    using out json json_text_valid(1) [OF assms(3)] json_not_blank [OF assms(5)] by blast
qed

text \<open>
  C21.  JSON Lines round trip: after any history of a thread's generation and parsing, when
  \<open>generate_lines\<close> returns a text for objects of native classes, \<open>each_line\<close> hands a block that returns
  exactly the values of the documents of the objects, in order, provided the options and limits
  admit each.
\<close>

theorem lines_write_read:
  assumes "(gen_step E)\<^sup>*\<^sup>* (strs0, None) (strs, gcell)" and "pull_step\<^sup>*\<^sup>* (env0, None) (env, pcell)"
    and "emitter_ok E" and "writes_utf8 E" and "flat_emitter E" and "writes_numbers E" and "vm_law (env_vm env)"
    and "\<forall>obj \<in> set objs. sound_obj strs obj \<and> native obj"
    and "config_of gopts = Inr cfg" and "ws_config cfg" and "\<not> gc_allow_nan cfg"
    and "parse_native_opts popts' = Inr po"
    and "\<forall>obj \<in> set objs. parses_texts (env_scan env) E (popts po) (doc_of obj) \<and> parse_accepts po (doc_of obj)"
    and "\<forall>handed v. blk handed v = Inr ()"
    and "fst (generate_lines_native E objs gopts gcell) = Inr out"
  shows "\<exists>st'. each_line_native env blk (pull_state_of pcell) \<lparr>str_encoding = Utf8, str_bytes = out\<rparr> popts' =
    (map (\<lambda>obj. value_of (env_vm env) (symbolize po) (freeze po) (doc_of obj)) objs, Inr st')"
proof -
  from generated_lines [OF assms(1,3-6,8-11,15)] obtain ts where out: "out = lines_text ts"
    and ts: "\<forall>t \<in> set ts. flat t \<and> valid_utf8 t \<and> \<not> blank t"
    and json: "list_all2 (\<lambda>obj t. json_text E (doc_of obj) t) objs ts" by blast
  have pool: "pool_ok (env_vm env) (pull_state_of pcell)"
    using pull_steps_ok [OF assms(2)] by (intro slot_pool) (simp add: pull_slot_ok_def)
  have "list_all2 (\<lambda>d t. scans_as (env_scan env) t (popts po) d \<and> parse_accepts po d) (map doc_of objs) ts"
    using json assms(13) by (auto simp: list_all2_conv_all_nth parses_texts_def)
  from read_lines [OF assms(7) pool assms(12) ts this assms(14)] show ?thesis by (simp add: out o_def)
qed

theorem lines_write_read_witness:
  "\<exists>st'. each_line_native json_env (\<lambda>_ _. Inr ()) fresh_pull_state
      \<lparr>str_encoding = Utf8, str_bytes = sample_json @ [b_nl] @ sample_json @ [b_nl]\<rparr> ONil =
    (replicate 2 (THash [TInterned (asc ''a''), TArray [TInt 1, TInt 2, TNil], TInterned (asc ''b''), TStr (asc ''a'')]),
     Inr st')"
proof -
  let ?objs = "[sample_obj, sample_obj]"
  have law: "vm_law (env_vm json_env)" by (simp add: json_env_def term_vm_law)
  have opts: "parse_native_opts ONil = Inr parse_opts_default" by (simp add: parse_native_opts_def)
  have flat: "flat_emitter sample_emitter" by (auto simp: flat_emitter_def sample_emitter_def flat_def asc_def)
  have nums: "writes_numbers sample_emitter" by (auto simp: writes_numbers_def sample_emitter_def asc_def)
  have cfg: "ws_config DEFAULT_CONFIG" "\<not> gc_allow_nan DEFAULT_CONFIG"
    by (simp_all add: ws_config_def DEFAULT_CONFIG_def gen_defaults_def)
  have objs: "\<forall>obj \<in> set ?objs. sound_obj sample_strs obj \<and> native obj" by (simp add: sample_sound sample_native)
  have docs: "\<forall>obj \<in> set ?objs. parses_texts (env_scan json_env) sample_emitter (popts parse_opts_default) (doc_of obj) \<and>
      parse_accepts parse_opts_default (doc_of obj)"
    by (simp add: sample_doc_of json_env_parses sample_accepts)
  have gen: "fst (generate_lines_native sample_emitter ?objs ONil None) = Inr (sample_json @ [b_nl] @ sample_json @ [b_nl])"
    using lines_native_leaves [OF sample_emitter_ok _ cell_good_None, of ?objs sample_strs ONil]
    by (simp add: leaves_def sample_sound sample_text sample_json_def breaks_line_framing_def lines_text_def)
  from lines_write_read [OF rtranclp.rtrancl_refl [of "gen_step sample_emitter" "(sample_strs, None)"]
      rtranclp.rtrancl_refl [of pull_step "(json_env, None)"] sample_emitter_ok sample_utf8_emitter flat nums law objs
      default_config cfg opts docs _ gen, of "\<lambda>_ _. Inr ()"]
  show ?thesis by (simp add: sample_doc_of sample_value numeral_2_eq_2)
qed

end
