(* ===== verification/Vm_Memory.thy ===== *)
theory Vm_Memory
  imports Gen_Ruby
begin

text \<open>
  The memory of the VM as src/ext/nosj/src/gen/walker.rs sees it through raw VALUEs: tagged
  immediates and objects on a heap that every call into Ruby may change, by what the callback
  does and by the collector, which frees whatever is not held.  Reads of objects, and writes
  through raw pointers, are guarded: one that is not allowed has the outcome \<open>Undefined\<close>.
\<close>

section \<open>Outcomes\<close>

text \<open>
  Undefined behaviour; no result within the fuel; \<open>Err(())\<close>, with the state it leaves; \<open>Ok\<close>.
\<close>

datatype ('a, 's) outcome = Undefined | Unfinished | Failed 's | Returned 'a 's

type_synonym ('s, 'a) action = "'s \<Rightarrow> ('a, 's) outcome"

definition give :: "'a \<Rightarrow> ('s, 'a) action" where
  "give x s = Returned x s"

definition andthen :: "('s, 'a) action \<Rightarrow> ('a \<Rightarrow> ('s, 'b) action) \<Rightarrow> ('s, 'b) action" where
  "andthen m k s =
     (case m s of
        Undefined \<Rightarrow> Undefined
      | Unfinished \<Rightarrow> Unfinished
      | Failed s \<Rightarrow> Failed s
      | Returned x s \<Rightarrow> k x s)"

definition only_if :: "bool \<Rightarrow> ('s, unit) action \<Rightarrow> ('s, unit) action" where
  "only_if c m = (if c then m else give ())"

section \<open>The VM\<close>

datatype value_type = T_STRING | T_HASH | T_ARRAY | T_FLOAT | T_BIGNUM | T_SYMBOL | T_OTHER

text \<open>The calls into the VM that run Ruby code or allocate.\<close>

datatype vm_call =
  CallToS | CallInspect | CallRespondTo | CallToJson | CallAsJson | CallEncode | CallConstants | CallBig2str

text \<open>
  \<open>'w\<close> is the state of the VM.  \<open>wd_type\<close> is the type of the object at an address, None where
  no object lives; \<open>wd_api\<close> what the calls answer in a state, \<open>wd_after\<close> the state a call on a
  receiver leaves when the VALUEs of the list are still held by the caller; \<open>wd_next\<close> the pair
  \<open>rb_hash_foreach\<close> visits at a position, and the position after it.
\<close>

record 'w vm_world =
  SPECIAL_CONST_P :: "VALUE \<Rightarrow> bool"
  FIXNUM_P :: "VALUE \<Rightarrow> bool"
  FLONUM_P :: "VALUE \<Rightarrow> bool"
  STATIC_SYM_P :: "VALUE \<Rightarrow> bool"
  FIX2LONG :: "VALUE \<Rightarrow> int"
  wd_QNIL :: VALUE
  wd_QTRUE :: VALUE
  wd_QFALSE :: VALUE
  wd_type :: "'w \<Rightarrow> VALUE \<Rightarrow> value_type option"
  wd_num2dbl :: "'w \<Rightarrow> VALUE \<Rightarrow> f64"
  wd_array :: "'w \<Rightarrow> VALUE \<Rightarrow> VALUE list"
  wd_hash_size :: "'w \<Rightarrow> VALUE \<Rightarrow> nat"
  wd_next :: "'w \<Rightarrow> VALUE \<Rightarrow> nat \<Rightarrow> (VALUE \<times> VALUE \<times> nat) option"
  wd_sym2str :: "'w \<Rightarrow> VALUE \<Rightarrow> VALUE"
  wd_big2str :: "'w \<Rightarrow> VALUE \<Rightarrow> VALUE"
  wd_classname :: "'w \<Rightarrow> VALUE \<Rightarrow> string"
  wd_api :: "'w \<Rightarrow> ruby_api"
  wd_after :: "vm_call \<Rightarrow> VALUE \<Rightarrow> VALUE list \<Rightarrow> 'w \<Rightarrow> 'w"

text \<open>The state of a walk: the fields of \<open>Gen\<close>, the statics of gen/ruby.rs, and the VM.\<close>

record 'w vm_state =
  wk_gen :: gen_state
  wk_statics :: gen_statics
  wk_world :: 'w

definition valid :: "('w, 'e) vm_world_scheme \<Rightarrow> 'w \<Rightarrow> VALUE \<Rightarrow> bool" where
  "valid W w v \<longleftrightarrow> SPECIAL_CONST_P W v \<or> wd_type W w v \<noteq> None"

section \<open>Reads\<close>

text \<open>\<open>RB_BUILTIN_TYPE\<close> reads the object's header.\<close>

definition type_of :: "('w, 'e) vm_world_scheme \<Rightarrow> VALUE \<Rightarrow> ('w vm_state, value_type) action" where
  "type_of W v s =
     (if SPECIAL_CONST_P W v then Undefined
      else case wd_type W (wk_world s) v of None \<Rightarrow> Undefined | Some t \<Rightarrow> Returned t s)"

definition expect :: "('w, 'e) vm_world_scheme \<Rightarrow> value_type \<Rightarrow> VALUE \<Rightarrow> ('w vm_state, unit) action" where
  "expect W t v = andthen (type_of W v) (\<lambda>t' s. if t' = t then Returned () s else Undefined)"

text \<open>A read of an object of a type, by a function of the state.\<close>

definition read_as ::
  "('w, 'e) vm_world_scheme \<Rightarrow> value_type \<Rightarrow> VALUE \<Rightarrow> ('w \<Rightarrow> 'a) \<Rightarrow> ('w vm_state, 'a) action" where
  "read_as W t v f = andthen (expect W t v) (\<lambda>_ s. Returned (f (wk_world s)) s)"

definition array_len :: "('w, 'e) vm_world_scheme \<Rightarrow> VALUE \<Rightarrow> ('w vm_state, nat) action" where
  "array_len W ary = read_as W T_ARRAY ary (\<lambda>w. length (wd_array W w ary))"

text \<open>\<open>RARRAY_CONST_PTR\<close>: the slots it points to.\<close>

definition array_ptr :: "('w, 'e) vm_world_scheme \<Rightarrow> VALUE \<Rightarrow> ('w vm_state, VALUE list) action" where
  "array_ptr W ary = read_as W T_ARRAY ary (\<lambda>w. wd_array W w ary)"

definition slot :: "VALUE list \<Rightarrow> nat \<Rightarrow> ('s, VALUE) action" where
  "slot ptr i s = (if i < length ptr then Returned (ptr ! i) s else Undefined)"

definition hash_size :: "('w, 'e) vm_world_scheme \<Rightarrow> VALUE \<Rightarrow> ('w vm_state, nat) action" where
  "hash_size W hash = read_as W T_HASH hash (\<lambda>w. wd_hash_size W w hash)"

definition rstring_bytes :: "('w, 'e) vm_world_scheme \<Rightarrow> VALUE \<Rightarrow> ('w vm_state, bytes) action" where
  "rstring_bytes W v = read_as W T_STRING v (\<lambda>w. ra_bytes (wd_api W w) v)"

definition coderange_at :: "('w, 'e) vm_world_scheme \<Rightarrow> VALUE \<Rightarrow> ('w vm_state, u64) action" where
  "coderange_at W v = read_as W T_STRING v (\<lambda>w. str_coderange (wd_api W w) v)"

definition enc_index_at :: "('w, 'e) vm_world_scheme \<Rightarrow> VALUE \<Rightarrow> ('w vm_state, int) action" where
  "enc_index_at W v = read_as W T_STRING v (\<lambda>w. str_enc_index (wd_api W w) v)"

text \<open>The bit of the header that says an object is frozen.\<close>

definition frozen_at :: "('w, 'e) vm_world_scheme \<Rightarrow> VALUE \<Rightarrow> ('w vm_state, bool) action" where
  "frozen_at W v = andthen (type_of W v) (\<lambda>_ s. Returned (key_frozen (wd_api W (wk_world s)) v) s)"

text \<open>\<open>NUM2DBL\<close> decodes a flonum or reads a Float; on anything else it would raise.\<close>

definition num2dbl :: "('w, 'e) vm_world_scheme \<Rightarrow> VALUE \<Rightarrow> ('w vm_state, f64) action" where
  "num2dbl W v =
     (if FLONUM_P W v then (\<lambda>s. Returned (wd_num2dbl W (wk_world s) v) s)
      else read_as W T_FLOAT v (\<lambda>w. wd_num2dbl W w v))"

definition sym2str :: "('w, 'e) vm_world_scheme \<Rightarrow> VALUE \<Rightarrow> ('w vm_state, VALUE) action" where
  "sym2str W v =
     (if STATIC_SYM_P W v then (\<lambda>s. Returned (wd_sym2str W (wk_world s) v) s)
      else read_as W T_SYMBOL v (\<lambda>w. wd_sym2str W w v))"

definition obj_classname :: "('w, 'e) vm_world_scheme \<Rightarrow> VALUE \<Rightarrow> ('w vm_state, string) action" where
  "obj_classname W v s =
     (if valid W (wk_world s) v then Returned (wd_classname W (wk_world s) v) s else Undefined)"

text \<open>The constants of the headers.\<close>

definition headers :: "('w, 'e) vm_world_scheme \<Rightarrow> ('w vm_state, ruby_api) action" where
  "headers W s = Returned (wd_api W (wk_world s)) s"

definition encindexes :: "('w, 'e) vm_world_scheme \<Rightarrow> ('w vm_state, int \<times> int) action" where
  "encindexes W s =
     (case utf8_encindexes (wd_api W (wk_world s)) (wk_statics s) of
        (idx, st) \<Rightarrow> Returned idx (s\<lparr>wk_statics := st\<rparr>))"

section \<open>Calls\<close>

text \<open>
  A protected call on a receiver, by what it answers; \<open>held\<close> are the VALUEs that the frames
  below use again afterwards.
\<close>

definition protect ::
  "('w, 'e) vm_world_scheme \<Rightarrow> vm_call \<Rightarrow> VALUE \<Rightarrow> VALUE list \<Rightarrow> (ruby_api \<Rightarrow> gen_statics \<Rightarrow> 'a) \<Rightarrow>
     ('w vm_state, 'a) action" where
  "protect W c v held answer s =
     (if valid W (wk_world s) v
      then Returned (answer (wd_api W (wk_world s)) (wk_statics s)) (s\<lparr>wk_world := wd_after W c v held (wk_world s)\<rparr>)
      else Undefined)"

definition call_to_s :: "('w, 'e) vm_world_scheme \<Rightarrow> VALUE list \<Rightarrow> VALUE \<Rightarrow> ('w vm_state, exc + VALUE) action" where
  "call_to_s W held v = protect W CallToS v held (\<lambda>api _. protected_to_s api v)"

definition call_inspect :: "('w, 'e) vm_world_scheme \<Rightarrow> VALUE list \<Rightarrow> VALUE \<Rightarrow> ('w vm_state, exc + VALUE) action" where
  "call_inspect W held v = protect W CallInspect v held (\<lambda>api _. protected_inspect api v)"

definition call_to_json :: "('w, 'e) vm_world_scheme \<Rightarrow> VALUE list \<Rightarrow> VALUE \<Rightarrow> ('w vm_state, exc + VALUE) action" where
  "call_to_json W held v = protect W CallToJson v held (\<lambda>api st. protected_to_json api st v)"

definition call_as_json :: "('w, 'e) vm_world_scheme \<Rightarrow> VALUE list \<Rightarrow> VALUE \<Rightarrow> ('w vm_state, exc + VALUE) action" where
  "call_as_json W held v = protect W CallAsJson v held (\<lambda>api st. protected_as_json api st v)"

definition call_encode_utf8 :: "('w, 'e) vm_world_scheme \<Rightarrow> VALUE list \<Rightarrow> VALUE \<Rightarrow> ('w vm_state, exc + VALUE) action" where
  "call_encode_utf8 W held v = protect W CallEncode v held (\<lambda>api _. protected_encode_utf8 api v)"

text \<open>\<open>respond_to?\<close> and then \<open>to_json\<close>; between the two the receiver is still held.\<close>

definition call_to_json_if_responds ::
  "('w, 'e) vm_world_scheme \<Rightarrow> VALUE list \<Rightarrow> VALUE \<Rightarrow> ('w vm_state, exc + VALUE option) action" where
  "call_to_json_if_responds W held v =
     andthen (protect W CallRespondTo v (v # held) (\<lambda>api st. ra_respond_to api v (fst (to_json_id api st)))) (\<lambda>r.
     case r of
       Inl e \<Rightarrow> give (Inl e)
     | Inr responds \<Rightarrow>
         andthen (if responds \<noteq> 0 then call_to_json W held v
                  else andthen (headers W) (\<lambda>api. give (Inr (QUNDEF api)))) (\<lambda>json.
         andthen (headers W) (\<lambda>api.
         give (map_ok (\<lambda>json. if json \<noteq> QUNDEF api then Some json else None) json))))"

text \<open>The class is looked up, which can run an autoload, only while none is cached.\<close>

definition kind_of_fragment :: "('w, 'e) vm_world_scheme \<Rightarrow> VALUE \<Rightarrow> ('w vm_state, exc + bool) action" where
  "kind_of_fragment W v s =
     (let api = wd_api W (wk_world s)
      in if valid W (wk_world s) v
         then Returned (Inr (ra_is_kind_of api v (FRAGMENT (wk_statics s)) \<noteq> QFALSE api)) s
         else Undefined)"

definition call_is_json_fragment ::
  "('w, 'e) vm_world_scheme \<Rightarrow> VALUE list \<Rightarrow> VALUE \<Rightarrow> ('w vm_state, exc + bool) action" where
  "call_is_json_fragment W held v s =
     (if FRAGMENT (wk_statics s) \<noteq> 0 then kind_of_fragment W v s
      else andthen (protect W CallConstants v (v # held) (\<lambda>api _. resolve_json_fragment api)) (\<lambda>r.
           case r of
             Inl e \<Rightarrow> give (Inl e)
           | Inr cls \<Rightarrow>
               if cls = 0 then give (Inr False)
               else (\<lambda>s. kind_of_fragment W v (s\<lparr>wk_statics := (wk_statics s)\<lparr>FRAGMENT := cls\<rparr>\<rparr>))) s)"

text \<open>\<open>rb_big2str\<close> allocates.\<close>

definition big2str :: "('w, 'e) vm_world_scheme \<Rightarrow> VALUE list \<Rightarrow> VALUE \<Rightarrow> ('w vm_state, VALUE) action" where
  "big2str W held v =
     andthen (read_as W T_BIGNUM v (\<lambda>w. wd_big2str W w v)) (\<lambda>str.
     protect W CallBig2str v held (\<lambda>_ _. str))"

section \<open>The walker's own state\<close>

definition push_bytes :: "bytes \<Rightarrow> ('w vm_state, unit) action" where
  "push_bytes b s = Returned () (s\<lparr>wk_gen := put b (wk_gen s)\<rparr>)"

definition fails :: "gen_fail \<Rightarrow> ('w vm_state, 'a) action" where
  "fails f s = Failed (s\<lparr>wk_gen := (wk_gen s)\<lparr>gn_fail := Some f\<rparr>\<rparr>)"

fun or_fail :: "gen_fail + 'a \<Rightarrow> ('w vm_state, 'a) action" where
  "or_fail (Inl f) = fails f"
| "or_fail (Inr x) = give x"

definition reraised :: "('w vm_state, exc + 'a) action \<Rightarrow> ('w vm_state, 'a) action" where
  "reraised m = andthen m (\<lambda>r. or_fail (reraise r))"

text \<open>
  \<open>reserve\<close> gives the length up to which a raw cursor may write; the raw stores advance it.
  A number kernel needs room for the longest number, whatever it writes.
\<close>

definition reserve :: "nat \<Rightarrow> ('w vm_state, nat) action" where
  "reserve n s = Returned (length (gn_out (wk_gen s)) + n) s"

definition raw_store :: "nat \<Rightarrow> bytes \<Rightarrow> ('w vm_state, unit) action" where
  "raw_store limit b s =
     (if length (gn_out (wk_gen s)) + length b \<le> limit then push_bytes b s else Undefined)"

definition raw_number :: "nat \<Rightarrow> nat \<Rightarrow> bytes \<Rightarrow> ('w vm_state, unit) action" where
  "raw_number limit longest t s =
     (if length (gn_out (wk_gen s)) + max longest (length t) \<le> limit then push_bytes t s else Undefined)"

text \<open>\<open>unwrap_unchecked\<close> of the last byte.\<close>

definition last_byte :: "('w vm_state, byte) action" where
  "last_byte s = (if gn_out (wk_gen s) = [] then Undefined else Returned (last (gn_out (wk_gen s))) s)"

end
