(* ===== verification/Value_Walk.thy ===== *)
theory Value_Walk
  imports Vm_Memory
begin

text \<open>
  The walker of src/ext/nosj/src/gen/walker.rs over raw VALUEs and the memory of the VM: the
  dispatch on tag bits and builtin types, the array loop that reads length and slot again for
  every element, the Hash iteration, and the writes through raw cursors.  A Hash or an Array may
  be changed by the callbacks that run while it is walked.  \<open>fuel\<close> bounds the recursion and each
  loop; a list of VALUEs named \<open>held\<close> is what the frames below use again.
\<close>

section \<open>Configuration\<close>

text \<open>A walk's constants: the VM's functions, the kernels with the longest texts they write, the options.\<close>

record 'w walk_env = "'w vm_world" +
  we_emitter :: emitter
  F64_MAX_LEN :: nat
  I64_MAX_LEN :: nat
  we_cfg :: gen_config

type_synonym 'w step = "('w vm_state, unit) action"

text \<open>The recursive call: the VALUEs held, the value and the depth.\<close>

type_synonym 'w walk_rec = "VALUE list \<Rightarrow> VALUE \<Rightarrow> nat \<Rightarrow> 'w step"

section \<open>Strings and floats\<close>

definition vw_convert :: "'w walk_env \<Rightarrow> VALUE list \<Rightarrow> VALUE \<Rightarrow> ('w vm_state, VALUE) action" where
  "vw_convert W held s =
     andthen (encindexes W) (\<lambda>(utf8, _).
     andthen (enc_index_at W s) (\<lambda>idx.
     if idx = utf8 then fails malformed
     else andthen (call_encode_utf8 W held s) (\<lambda>r.
          case r of
            Inl exc \<Rightarrow> fails (GeneratorFrom exc)
          | Inr v \<Rightarrow>
              andthen (coderange_at W v) (\<lambda>cr.
              andthen (headers W) (\<lambda>api.
              if cr = CR_7BIT api \<or> cr = CR_VALID api then give v else fails malformed)))))"

definition vw_quoted :: "'w walk_env \<Rightarrow> VALUE list \<Rightarrow> VALUE \<Rightarrow> 'w step" where
  "vw_quoted W held s =
     andthen (coderange_at W s) (\<lambda>cr.
     andthen (headers W) (\<lambda>api.
     andthen
       (if cr = CR_7BIT api then give True
        else if cr = CR_VALID api
        then andthen (enc_index_at W s) (\<lambda>idx.
             andthen (encindexes W) (\<lambda>(utf8, usascii).
             give (idx = utf8 \<or> idx = usascii)))
        else give False) (\<lambda>valid.
     andthen (if valid then give s else vw_convert W held s) (\<lambda>s.
     andthen (rstring_bytes W s) (\<lambda>b.
     push_bytes ([b_quote] @ em_escape (we_emitter W) (mode (we_cfg W)) b @ [b_quote]))))))"

definition vw_float :: "'w walk_env \<Rightarrow> VALUE \<Rightarrow> 'w step" where
  "vw_float W v =
     andthen (num2dbl W v) (\<lambda>f.
     andthen (or_fail (float_text (we_emitter W) (we_cfg W) f)) push_bytes)"

section \<open>Keys\<close>

definition vw_key_kind :: "'w walk_env \<Rightarrow> VALUE \<Rightarrow> ('w vm_state, key_kind) action" where
  "vw_key_kind W k =
     (if \<not> SPECIAL_CONST_P W k
      then andthen (type_of W k) (\<lambda>t.
           give (case t of T_STRING \<Rightarrow> KindString | T_SYMBOL \<Rightarrow> KindSymbol | _ \<Rightarrow> KindOther))
      else give (if STATIC_SYM_P W k then KindSymbol else KindOther))"

definition vw_key_string ::
  "'w walk_env \<Rightarrow> VALUE list \<Rightarrow> VALUE \<Rightarrow> key_kind \<Rightarrow> ('w vm_state, exc + VALUE) action" where
  "vw_key_string W held k kind =
     (case kind of
        KindString \<Rightarrow> give (Inr k)
      | KindSymbol \<Rightarrow> andthen (sym2str W k) (\<lambda>s. give (Inr s))
      | KindOther \<Rightarrow> call_to_s W held k)"

text \<open>
  \<open>emit_key_cached\<close>: the key goes to the cache and its shadow after it was rendered, so it is
  held meanwhile, and marking it needs it alive.
\<close>

definition vw_store_key :: "'w walk_env \<Rightarrow> VALUE \<Rightarrow> nat \<Rightarrow> 'w step" where
  "vw_store_key W k start =
     andthen (type_of W k) (\<lambda>_ s.
     Returned () (s\<lparr>wk_gen := (wk_gen s)\<lparr>gn_keys :=
       kc_store (unat k) (drop start (gn_out (wk_gen s))) (gn_keys (wk_gen s))\<rparr>\<rparr>))"

definition vw_cached :: "VALUE \<Rightarrow> ('w vm_state, bytes option) action" where
  "vw_cached k s = Returned (kc_get (gn_keys (wk_gen s)) (unat k)) s"

definition vw_key_cached :: "'w walk_env \<Rightarrow> VALUE list \<Rightarrow> VALUE \<Rightarrow> 'w step" where
  "vw_key_cached W held k =
     andthen (frozen_at W k) (\<lambda>frozen.
     if \<not> frozen \<or> \<not> mode_cacheable (mode (we_cfg W)) then vw_quoted W held k
     else andthen (vw_cached k) (\<lambda>hit.
          case hit of
            Some b \<Rightarrow> push_bytes b
          | None \<Rightarrow>
              (\<lambda>s. let start = length (gn_out (wk_gen s))
                   in andthen (vw_quoted W (k # held) k) (\<lambda>_. vw_store_key W k start) s)))"

definition vw_key :: "'w walk_env \<Rightarrow> VALUE list \<Rightarrow> VALUE \<Rightarrow> key_kind \<Rightarrow> 'w step" where
  "vw_key W held k kind =
     (if kind = KindString then vw_key_cached W held k
      else andthen (reraised (vw_key_string W held k kind)) (vw_quoted W held))"

definition vw_cached_key_bytes :: "'w walk_env \<Rightarrow> VALUE \<Rightarrow> key_kind \<Rightarrow> ('w vm_state, bytes option) action" where
  "vw_cached_key_bytes W k kind =
     (if kind = KindString \<and> mode_cacheable (mode (we_cfg W))
      then andthen (frozen_at W k) (\<lambda>frozen. if frozen then vw_cached k else give None)
      else give None)"

definition vw_pair_prefix :: "'w walk_env \<Rightarrow> VALUE list \<Rightarrow> VALUE \<Rightarrow> key_kind \<Rightarrow> bool \<Rightarrow> 'w step" where
  "vw_pair_prefix W held k kind comma =
     andthen (vw_cached_key_bytes W k kind) (\<lambda>hit.
     case hit of
       Some b \<Rightarrow>
         andthen (reserve (length b + 2)) (\<lambda>limit.
         andthen (only_if comma (raw_store limit [b_comma])) (\<lambda>_.
         andthen (raw_store limit b) (\<lambda>_.
         raw_store limit [b_colon])))
     | None \<Rightarrow>
         andthen (only_if comma (push_bytes [b_comma])) (\<lambda>_.
         andthen (vw_key W held k kind) (\<lambda>_.
         push_bytes [b_colon])))"

definition vw_pair_int :: "'w walk_env \<Rightarrow> VALUE list \<Rightarrow> VALUE \<Rightarrow> key_kind \<Rightarrow> bool \<Rightarrow> int \<Rightarrow> 'w step" where
  "vw_pair_int W held k kind comma i =
     andthen (vw_cached_key_bytes W k kind) (\<lambda>hit.
     case hit of
       Some b \<Rightarrow>
         andthen (reserve (length b + 2 + I64_MAX_LEN W)) (\<lambda>limit.
         andthen (only_if comma (raw_store limit [b_comma])) (\<lambda>_.
         andthen (raw_store limit b) (\<lambda>_.
         andthen (raw_store limit [b_colon]) (\<lambda>_.
         raw_number limit (I64_MAX_LEN W) (em_i64 (we_emitter W) i)))))
     | None \<Rightarrow>
         andthen (vw_pair_prefix W held k kind comma) (\<lambda>_.
         push_bytes (em_i64 (we_emitter W) i)))"

section \<open>Iteration\<close>

text \<open>
  \<open>rb_hash_foreach\<close> with the callback's captured variables as \<open>a\<close>: whatever pair is next in the
  Hash as it stands, until the callback stops or none is left.
\<close>

fun vw_foreach ::
  "'w walk_env \<Rightarrow> nat \<Rightarrow> VALUE \<Rightarrow> nat \<Rightarrow> ('a \<Rightarrow> VALUE \<Rightarrow> VALUE \<Rightarrow> ('w vm_state, iter_step \<times> 'a) action) \<Rightarrow>
     'a \<Rightarrow> ('w vm_state, 'a) action" where
  "vw_foreach W 0 hash pos f a = (\<lambda>s. Unfinished)"
| "vw_foreach W (Suc fuel) hash pos f a =
     andthen (read_as W T_HASH hash (\<lambda>w. wd_next W w hash pos)) (\<lambda>pair.
     case pair of
       None \<Rightarrow> give a
     | Some (k, v, pos) \<Rightarrow>
         andthen (f a k v) (\<lambda>(step, a).
         case step of Continue \<Rightarrow> vw_foreach W fuel hash pos f a | Stop \<Rightarrow> give a))"

text \<open>A method call in a callback: stop when it failed.\<close>

definition or_stop_at :: "('s, 'a) action \<Rightarrow> 'a \<Rightarrow> ('s, iter_step \<times> 'a) action" where
  "or_stop_at m a s =
     (case m s of
        Returned a s \<Rightarrow> Returned (Continue, a) s
      | Failed s \<Rightarrow> Returned (Stop, a) s
      | Undefined \<Rightarrow> Undefined
      | Unfinished \<Rightarrow> Unfinished)"

definition vw_seen_key ::
  "'w walk_env \<Rightarrow> VALUE list \<Rightarrow> bytes set \<times> (exc + VALUE option) \<Rightarrow> VALUE \<Rightarrow> VALUE \<Rightarrow>
     ('w vm_state, iter_step \<times> bytes set \<times> (exc + VALUE option)) action" where
  "vw_seen_key W held = (\<lambda>(seen, outcome) k v.
     andthen (vw_key_kind W k) (\<lambda>kind.
     andthen (vw_key_string W held k kind) (\<lambda>r.
     case r of
       Inl exc \<Rightarrow> give (Stop, seen, Inl exc)
     | Inr key_str \<Rightarrow>
         andthen (rstring_bytes W key_str) (\<lambda>b.
         give (if b \<notin> seen then (Continue, insert b seen, outcome) else (Stop, seen, Inr (Some key_str)))))))"

definition vw_check_duplicate_keys :: "'w walk_env \<Rightarrow> nat \<Rightarrow> VALUE list \<Rightarrow> VALUE \<Rightarrow> 'w step" where
  "vw_check_duplicate_keys W fuel held hash =
     andthen (vw_foreach W fuel hash 0 (vw_seen_key W (hash # held)) ({}, Inr None)) (\<lambda>(_, outcome).
     andthen (or_fail (reraise outcome)) (\<lambda>hit.
     case hit of
       None \<Rightarrow> give ()
     | Some key_str \<Rightarrow>
         andthen (reraised (call_inspect W (hash # held) key_str)) (\<lambda>key_inspect.
         andthen (reraised (call_inspect W (key_inspect # hash # held) hash)) (\<lambda>hash_inspect.
         andthen (rstring_bytes W key_inspect) (\<lambda>ki.
         andthen (rstring_bytes W hash_inspect) (\<lambda>hi.
         fails (FailGenerator (Fmt ''detected duplicate key {} in {}''
           [ABytes (from_utf8_lossy ki), ABytes (from_utf8_lossy hi)]))))))))"

section \<open>Arrays\<close>

text \<open>
  A numeric run: \<open>ptr\<close> are the slots behind the array's pointer, \<open>limit\<close> the end of the reserved
  bytes, \<open>n\<close> what is left of the chunk; the result is the index after the run.
\<close>

fun vw_run :: "'w walk_env \<Rightarrow> VALUE list \<Rightarrow> nat \<Rightarrow> nat \<Rightarrow> nat \<Rightarrow> bool \<Rightarrow> ('w vm_state, nat) action" where
  "vw_run W ptr limit 0 i first = give i"
| "vw_run W ptr limit (Suc n) i first =
     andthen (slot ptr i) (\<lambda>e.
     if FLONUM_P W e
     then andthen (num2dbl W e) (\<lambda>f.
          if \<not> f64_is_finite f then give i
          else andthen (only_if (\<not> first) (raw_store limit [b_comma])) (\<lambda>_.
               andthen (raw_number limit (F64_MAX_LEN W) (em_f64 (we_emitter W) f)) (\<lambda>_.
               vw_run W ptr limit n (i + 1) False)))
     else if \<not> FIXNUM_P W e then give i
     else andthen (only_if (\<not> first) (raw_store limit [b_comma])) (\<lambda>_.
          andthen (raw_number limit (I64_MAX_LEN W) (em_i64 (we_emitter W) (FIX2LONG W e))) (\<lambda>_.
          vw_run W ptr limit n (i + 1) False)))"

definition vw_run_from :: "'w walk_env \<Rightarrow> VALUE \<Rightarrow> nat \<Rightarrow> nat \<Rightarrow> ('w vm_state, nat) action" where
  "vw_run_from W ary len i =
     (let chunk = min (len - i) RUN_CHUNK
      in andthen (reserve (chunk * (F64_MAX_LEN W + 1))) (\<lambda>limit.
         andthen (array_ptr W ary) (\<lambda>ptr.
         vw_run W ptr limit chunk i True)))"

text \<open>The loop of \<open>emit_array\<close>; length, pointer and slot are read again for every element.\<close>

fun vw_elems ::
  "'w walk_env \<Rightarrow> bool \<Rightarrow> 'w walk_rec \<Rightarrow> VALUE list \<Rightarrow> VALUE \<Rightarrow> nat \<Rightarrow> nat \<Rightarrow> nat \<Rightarrow> 'w step" where
  "vw_elems W pty rec held ary inner 0 i = (\<lambda>s. Unfinished)"
| "vw_elems W pty rec held ary inner (Suc fuel) i =
     andthen (array_len W ary) (\<lambda>len.
     if len \<le> i then give ()
     else
       andthen (andthen (array_ptr W ary) (\<lambda>ptr. slot ptr i)) (\<lambda>elem.
       andthen (only_if (0 < i) (push_bytes [b_comma])) (\<lambda>_.
       andthen (only_if pty (push_bytes (array_nl (we_cfg W) @ indents (we_cfg W) inner))) (\<lambda>_.
       andthen (if \<not> pty \<and> (FLONUM_P W elem \<or> FIXNUM_P W elem) then vw_run_from W ary len i else give i) (\<lambda>j.
       if i < j then vw_elems W pty rec held ary inner fuel j
       else
         andthen
           (if FLONUM_P W elem then vw_float W elem
            else if \<not> SPECIAL_CONST_P W elem
            then andthen (type_of W elem) (\<lambda>t.
                 if t = T_FLOAT then vw_float W elem else rec (ary # held) elem inner)
            else rec (ary # held) elem inner) (\<lambda>_.
         vw_elems W pty rec held ary inner fuel (i + 1)))))))"

definition vw_array :: "'w walk_env \<Rightarrow> bool \<Rightarrow> 'w walk_rec \<Rightarrow> nat \<Rightarrow> VALUE list \<Rightarrow> VALUE \<Rightarrow> nat \<Rightarrow> 'w step" where
  "vw_array W pty rec fuel held ary depth =
     (let inner = depth + 1
      in andthen (or_fail (nesting_check (we_cfg W) inner)) (\<lambda>_.
         andthen (push_bytes [b_lbracket]) (\<lambda>_.
         andthen (array_len W ary) (\<lambda>len.
         if len = 0 then push_bytes [b_rbracket]
         else andthen (vw_elems W pty rec held ary inner fuel 0) (\<lambda>_.
              andthen (only_if (pty \<and> array_nl (we_cfg W) \<noteq> [])
                        (push_bytes (array_nl (we_cfg W) @ indents (we_cfg W) depth))) (\<lambda>_.
              push_bytes [b_rbracket]))))))"

section \<open>Objects\<close>

definition vw_pretty_pair ::
  "'w walk_env \<Rightarrow> 'w walk_rec \<Rightarrow> nat \<Rightarrow> VALUE list \<Rightarrow> VALUE \<Rightarrow> nat \<Rightarrow> mixed_keys \<times> bool \<Rightarrow> VALUE \<Rightarrow> VALUE \<Rightarrow>
     ('w vm_state, iter_step \<times> mixed_keys \<times> bool) action" where
  "vw_pretty_pair W rec fuel held hash inner = (\<lambda>(m, first) k v.
     andthen (vw_key_kind W k) (\<lambda>kind.
     case needs_check kind m of (check, m) \<Rightarrow>
     or_stop_at
       (andthen (only_if check (vw_check_duplicate_keys W fuel (k # v # held) hash)) (\<lambda>_.
        andthen (only_if (\<not> first) (push_bytes [b_comma])) (\<lambda>_.
        andthen (push_bytes (object_nl (we_cfg W) @ indents (we_cfg W) inner)) (\<lambda>_.
        andthen (vw_key W (v # hash # held) k kind) (\<lambda>_.
        andthen (push_bytes (space_before (we_cfg W) @ [b_colon] @ space (we_cfg W))) (\<lambda>_.
        andthen (rec (hash # held) v inner) (\<lambda>_.
        give (m, False))))))))
       (m, first)))"

text \<open>The rest of a compact pair, with its fast arms: from the comma to the value.\<close>

definition vw_key_value ::
  "'w walk_env \<Rightarrow> 'w walk_rec \<Rightarrow> VALUE list \<Rightarrow> VALUE \<Rightarrow> nat \<Rightarrow> VALUE \<Rightarrow> key_kind \<Rightarrow> VALUE \<Rightarrow> bool \<Rightarrow> 'w step" where
  "vw_key_value W rec held hash inner k kind v comma =
     (if FIXNUM_P W v then vw_pair_int W (hash # held) k kind comma (FIX2LONG W v)
      else andthen (vw_pair_prefix W (v # hash # held) k kind comma) (\<lambda>_.
           if \<not> SPECIAL_CONST_P W v
           then andthen (type_of W v) (\<lambda>t.
                if t = T_STRING then vw_quoted W (hash # held) v else rec (hash # held) v inner)
           else if v = wd_QNIL W then push_bytes (asc ''null'')
           else if v = wd_QTRUE W then push_bytes (asc ''true'')
           else if v = wd_QFALSE W then push_bytes (asc ''false'')
           else if FLONUM_P W v then vw_float W v
           else rec (hash # held) v inner))"

definition vw_compact_pair ::
  "'w walk_env \<Rightarrow> 'w walk_rec \<Rightarrow> nat \<Rightarrow> VALUE list \<Rightarrow> VALUE \<Rightarrow> nat \<Rightarrow> mixed_keys \<Rightarrow> VALUE \<Rightarrow> VALUE \<Rightarrow>
     ('w vm_state, iter_step \<times> mixed_keys) action" where
  "vw_compact_pair W rec fuel held hash inner = (\<lambda>m k v.
     andthen (vw_key_kind W k) (\<lambda>kind.
     case needs_check kind m of (check, m) \<Rightarrow>
     or_stop_at
       (andthen (only_if check (vw_check_duplicate_keys W fuel (k # v # held) hash)) (\<lambda>_.
        andthen last_byte (\<lambda>b.
        andthen (vw_key_value W rec held hash inner k kind v (b \<noteq> b_lbrace)) (\<lambda>_.
        give m))))
       m))"

definition vw_object :: "'w walk_env \<Rightarrow> bool \<Rightarrow> 'w walk_rec \<Rightarrow> nat \<Rightarrow> VALUE list \<Rightarrow> VALUE \<Rightarrow> nat \<Rightarrow> 'w step" where
  "vw_object W pty rec fuel held hash depth =
     (let inner = depth + 1; m = mixed_keys_new (gc_allow_duplicate_key (we_cfg W))
      in andthen (or_fail (nesting_check (we_cfg W) inner)) (\<lambda>_.
         andthen (push_bytes [b_lbrace]) (\<lambda>_.
         andthen (hash_size W hash) (\<lambda>size.
         if size = 0 then push_bytes [b_rbrace]
         else
           andthen
             (if pty then andthen (vw_foreach W fuel hash 0 (vw_pretty_pair W rec fuel held hash inner) (m, True)) (\<lambda>_. give ())
              else andthen (vw_foreach W fuel hash 0 (vw_compact_pair W rec fuel held hash inner) m) (\<lambda>_. give ())) (\<lambda>_.
           andthen (\<lambda>s. if gn_fail (wk_gen s) \<noteq> None then Failed s else Returned () s) (\<lambda>_.
           andthen (only_if (pty \<and> object_nl (we_cfg W) \<noteq> [])
                     (push_bytes (object_nl (we_cfg W) @ indents (we_cfg W) depth))) (\<lambda>_.
           push_bytes [b_rbrace])))))))"

section \<open>Other objects\<close>

text \<open>A VALUE that is a String, appended as it is; whether it was one.\<close>

definition vw_append_string :: "'w walk_env \<Rightarrow> VALUE \<Rightarrow> ('w vm_state, bool) action" where
  "vw_append_string W json =
     (if SPECIAL_CONST_P W json then give False
      else andthen (type_of W json) (\<lambda>t.
           if t = T_STRING then andthen (rstring_bytes W json) (\<lambda>b. andthen (push_bytes b) (\<lambda>_. give True))
           else give False))"

definition vw_splice :: "'w walk_env \<Rightarrow> VALUE list \<Rightarrow> VALUE \<Rightarrow> 'w step" where
  "vw_splice W held raw =
     andthen (reraised (call_to_json W held raw)) (\<lambda>json.
     andthen (vw_append_string W json) (\<lambda>done.
     if done then give ()
     else fails (FailGenerator (msg ''JSON::Fragment#to_json did not return a String''))))"

definition vw_rails_fallback :: "'w walk_env \<Rightarrow> 'w walk_rec \<Rightarrow> VALUE list \<Rightarrow> VALUE \<Rightarrow> nat \<Rightarrow> 'w step" where
  "vw_rails_fallback W rec held raw depth =
     andthen (reraised (call_is_json_fragment W (raw # held) raw)) (\<lambda>fragment.
     if fragment then vw_splice W held raw
     else
       andthen (reraised (call_as_json W (raw # held) raw)) (\<lambda>json.
       if json = raw
       then andthen (obj_classname W raw) (\<lambda>name.
            fails (FailGenerator (Fmt ''{}#as_json returned the receiver'' [AText name])))
       else rec held json depth))"

definition vw_fallback :: "'w walk_env \<Rightarrow> 'w walk_rec \<Rightarrow> VALUE list \<Rightarrow> VALUE \<Rightarrow> nat \<Rightarrow> 'w step" where
  "vw_fallback W rec held raw depth =
     (if rails (we_cfg W) then vw_rails_fallback W rec held raw depth
      else if strict (we_cfg W)
      then andthen (reraised (call_is_json_fragment W (raw # held) raw)) (\<lambda>fragment.
           if fragment then vw_splice W held raw
           else andthen (obj_classname W raw) (\<lambda>name.
                fails (FailGenerator (Fmt ''{} not allowed in JSON'' [AText name]))))
      else andthen (reraised (call_to_json_if_responds W (raw # held) raw)) (\<lambda>json.
           andthen (case json of Some json \<Rightarrow> vw_append_string W json | None \<Rightarrow> give False) (\<lambda>done.
           if done then give ()
           else andthen (reraised (call_to_s W held raw)) (vw_quoted W held))))"

section \<open>Values\<close>

definition vw_dispatch :: "'w walk_env \<Rightarrow> bool \<Rightarrow> 'w walk_rec \<Rightarrow> nat \<Rightarrow> 'w walk_rec" where
  "vw_dispatch W pty rec fuel held raw depth =
     (if \<not> SPECIAL_CONST_P W raw
      then andthen (type_of W raw) (\<lambda>t.
           case t of
             T_STRING \<Rightarrow> vw_quoted W held raw
           | T_HASH \<Rightarrow> vw_object W pty rec fuel held raw depth
           | T_ARRAY \<Rightarrow> vw_array W pty rec fuel held raw depth
           | T_FLOAT \<Rightarrow> vw_float W raw
           | T_BIGNUM \<Rightarrow> andthen (big2str W held raw) (\<lambda>s. andthen (rstring_bytes W s) push_bytes)
           | T_SYMBOL \<Rightarrow> andthen (sym2str W raw) (vw_quoted W held)
           | T_OTHER \<Rightarrow> vw_fallback W rec held raw depth)
      else if FIXNUM_P W raw then push_bytes (em_i64 (we_emitter W) (FIX2LONG W raw))
      else if FLONUM_P W raw then vw_float W raw
      else if raw = wd_QNIL W then push_bytes (asc ''null'')
      else if raw = wd_QTRUE W then push_bytes (asc ''true'')
      else if raw = wd_QFALSE W then push_bytes (asc ''false'')
      else if STATIC_SYM_P W raw then andthen (sym2str W raw) (vw_quoted W held)
      else vw_fallback W rec held raw depth)"

primrec vw_value :: "'w walk_env \<Rightarrow> bool \<Rightarrow> nat \<Rightarrow> 'w walk_rec" where
  "vw_value W pty 0 = (\<lambda>held raw depth s. Unfinished)"
| "vw_value W pty (Suc fuel) = vw_dispatch W pty (vw_value W pty fuel) fuel"

end
