(* ===== verification/Value_Walk_Safe.thy ===== *)
theory Value_Walk_Safe
  imports Value_Walk
begin

text \<open>
  The walk over VALUEs has no undefined behaviour, whatever the callbacks do to the objects it
  walks and whatever the collector frees that is not held: no dangling VALUE is read, no slot
  beyond the length an Array has at the time, nothing is written beyond a reservation, and no
  byte is asked of an empty buffer.
\<close>

section \<open>What the VM promises\<close>

text \<open>
  A held object survives a call, with its type; what an Array or a Hash holds is alive; the
  conversions return Strings and the methods some live value; immediates are immediates; and a
  kernel writes no more than its longest text.
\<close>

definition memory_law :: "'w walk_env \<Rightarrow> bool" where
  "memory_law W \<longleftrightarrow>
     (\<forall>c v held w x t. x \<in> set held \<longrightarrow> wd_type W w x = Some t \<longrightarrow> wd_type W (wd_after W c v held w) x = Some t) \<and>
     (\<forall>w a e. wd_type W w a = Some T_ARRAY \<longrightarrow> e \<in> set (wd_array W w a) \<longrightarrow> valid W w e) \<and>
     (\<forall>w h pos k v pos'. wd_type W w h = Some T_HASH \<longrightarrow> wd_next W w h pos = Some (k, v, pos') \<longrightarrow>
        valid W w k \<and> valid W w v)"

lemma memory_lawD:
  assumes "memory_law W"
  shows "x \<in> set held \<Longrightarrow> wd_type W w x = Some t \<Longrightarrow> wd_type W (wd_after W c v held w) x = Some t"
    and "wd_type W w a = Some T_ARRAY \<Longrightarrow> e \<in> set (wd_array W w a) \<Longrightarrow> valid W w e"
    and "wd_type W w h = Some T_HASH \<Longrightarrow> wd_next W w h pos = Some (k, v, pos') \<Longrightarrow> valid W w k \<and> valid W w v"
  using assms unfolding memory_law_def by metis+

definition result_law :: "'w walk_env \<Rightarrow> bool" where
  "result_law W \<longleftrightarrow>
     (\<forall>w v. STATIC_SYM_P W v \<or> wd_type W w v = Some T_SYMBOL \<longrightarrow> wd_type W w (wd_sym2str W w v) = Some T_STRING) \<and>
     (\<forall>w v held. wd_type W w v = Some T_BIGNUM \<longrightarrow>
        wd_type W (wd_after W CallBig2str v held w) (wd_big2str W w v) = Some T_STRING) \<and>
     (\<forall>w v held r. protected_to_s (wd_api W w) v = Inr r \<longrightarrow> wd_type W (wd_after W CallToS v held w) r = Some T_STRING) \<and>
     (\<forall>w v held r. protected_inspect (wd_api W w) v = Inr r \<longrightarrow> wd_type W (wd_after W CallInspect v held w) r = Some T_STRING) \<and>
     (\<forall>w v held r. protected_encode_utf8 (wd_api W w) v = Inr r \<longrightarrow> wd_type W (wd_after W CallEncode v held w) r = Some T_STRING) \<and>
     (\<forall>w v held st r. protected_to_json (wd_api W w) st v = Inr r \<longrightarrow> valid W (wd_after W CallToJson v held w) r) \<and>
     (\<forall>w v held st r. protected_as_json (wd_api W w) st v = Inr r \<longrightarrow> valid W (wd_after W CallAsJson v held w) r)"

lemma result_lawD:
  assumes "result_law W"
  shows "STATIC_SYM_P W v \<Longrightarrow> wd_type W w (wd_sym2str W w v) = Some T_STRING"
    and "wd_type W w v = Some T_SYMBOL \<Longrightarrow> wd_type W w (wd_sym2str W w v) = Some T_STRING"
    and "wd_type W w v = Some T_BIGNUM \<Longrightarrow> wd_type W (wd_after W CallBig2str v held w) (wd_big2str W w v) = Some T_STRING"
    and "protected_to_s (wd_api W w) v = Inr r \<Longrightarrow> wd_type W (wd_after W CallToS v held w) r = Some T_STRING"
    and "protected_inspect (wd_api W w) v = Inr r \<Longrightarrow> wd_type W (wd_after W CallInspect v held w) r = Some T_STRING"
    and "protected_encode_utf8 (wd_api W w) v = Inr r \<Longrightarrow> wd_type W (wd_after W CallEncode v held w) r = Some T_STRING"
    and "protected_to_json (wd_api W w) st v = Inr r \<Longrightarrow> valid W (wd_after W CallToJson v held w) r"
    and "protected_as_json (wd_api W w) st v = Inr r \<Longrightarrow> valid W (wd_after W CallAsJson v held w) r"
  using assms unfolding result_law_def by simp_all

definition tag_law :: "'w walk_env \<Rightarrow> bool" where
  "tag_law W \<longleftrightarrow>
     (\<forall>v. FIXNUM_P W v \<or> FLONUM_P W v \<or> STATIC_SYM_P W v \<longrightarrow> SPECIAL_CONST_P W v) \<and>
     (\<forall>v. FIXNUM_P W v \<longrightarrow> i64_range (FIX2LONG W v)) \<and>
     (\<forall>w v. SPECIAL_CONST_P W v \<longrightarrow> wd_type W w v = None)"

definition kernel_law :: "'w walk_env \<Rightarrow> bool" where
  "kernel_law W \<longleftrightarrow>
     (\<forall>f. f64_is_finite f \<longrightarrow> length (em_f64 (we_emitter W) f) \<le> F64_MAX_LEN W) \<and>
     (\<forall>i. i64_range i \<longrightarrow> length (em_i64 (we_emitter W) i) \<le> I64_MAX_LEN W) \<and> I64_MAX_LEN W \<le> F64_MAX_LEN W"

definition world_law :: "'w walk_env \<Rightarrow> bool" where
  "world_law W \<longleftrightarrow> memory_law W \<and> result_law W \<and> tag_law W \<and> kernel_law W"

lemma valid_object: "tag_law W \<Longrightarrow> wd_type W w v = Some t \<Longrightarrow> valid W w v \<and> \<not> SPECIAL_CONST_P W v"
  by (auto simp: valid_def tag_law_def)

section \<open>Safe steps\<close>

text \<open>What a step keeps for the frames below: their objects, and a buffer that is not empty.\<close>

definition keeps :: "'w walk_env \<Rightarrow> VALUE list \<Rightarrow> 'w vm_state \<Rightarrow> 'w vm_state \<Rightarrow> bool" where
  "keeps W held s s' \<longleftrightarrow>
     (\<forall>x \<in> set held. \<forall>t. wd_type W (wk_world s) x = Some t \<longrightarrow> wd_type W (wk_world s') x = Some t) \<and>
     (gn_out (wk_gen s) \<noteq> [] \<longrightarrow> gn_out (wk_gen s') \<noteq> [])"

definition safe :: "'w walk_env \<Rightarrow> VALUE list \<Rightarrow> ('w vm_state, 'a) action \<Rightarrow> 'w vm_state \<Rightarrow> ('a \<Rightarrow> 'w vm_state \<Rightarrow> bool) \<Rightarrow> bool" where
  "safe W held m s Q \<longleftrightarrow>
     (case m s of
        Undefined \<Rightarrow> False
      | Unfinished \<Rightarrow> True
      | Failed s' \<Rightarrow> keeps W held s s'
      | Returned x s' \<Rightarrow> keeps W held s s' \<and> Q x s')"

lemma keeps_refl [simp]: "keeps W held s s"
  by (simp add: keeps_def)

lemma keeps_trans [trans]: "keeps W held s s' \<Longrightarrow> keeps W held s' s'' \<Longrightarrow> keeps W held s s''"
  by (simp add: keeps_def)

lemma keeps_fewer: "keeps W held s s' \<Longrightarrow> set held' \<subseteq> set held \<Longrightarrow> keeps W held' s s'"
  by (auto simp: keeps_def)

lemma keeps_valid: "keeps W held s s' \<Longrightarrow> x \<in> set held \<Longrightarrow> valid W (wk_world s) x \<Longrightarrow> valid W (wk_world s') x"
  by (auto simp: keeps_def valid_def)

lemma keeps_type:
  "keeps W held s s' \<Longrightarrow> x \<in> set held \<Longrightarrow> wd_type W (wk_world s) x = Some t \<Longrightarrow> wd_type W (wk_world s') x = Some t"
  by (simp add: keeps_def)

lemma safe_held:
  assumes "safe W held' m s P" and "set held \<subseteq> set held'"
    and "\<And>x s'. keeps W held' s s' \<Longrightarrow> P x s' \<Longrightarrow> Q x s'"
  shows "safe W held m s Q"
  using assms keeps_fewer unfolding safe_def by (fastforce split: outcome.splits)

lemma safe_andthen:
  assumes "safe W held m s (\<lambda>x s'. safe W held (k x) s' Q)"
  shows "safe W held (andthen m k) s Q"
proof (cases "m s")
  case (Returned x s')
  with assms have "keeps W held s s'" "safe W held (k x) s' Q" by (simp_all add: safe_def)
  with Returned show ?thesis
    by (auto simp: safe_def andthen_def split: outcome.splits intro: keeps_trans)
qed (use assms in \<open>auto simp: safe_def andthen_def\<close>)

lemma safe_then:
  assumes "safe W held' m s P" and "set held \<subseteq> set held'"
    and "\<And>x s'. keeps W held' s s' \<Longrightarrow> P x s' \<Longrightarrow> safe W held (k x) s' Q"
  shows "safe W held (andthen m k) s Q"
  using safe_held [OF assms(1,2), of "\<lambda>x s'. safe W held (k x) s' Q"] assms(3) by (intro safe_andthen) simp

abbreviation safe_always :: "'w walk_env \<Rightarrow> VALUE list \<Rightarrow> ('w vm_state, 'a) action \<Rightarrow> 'w vm_state \<Rightarrow> bool" where
  "safe_always W held m s \<equiv> safe W held m s (\<lambda>_ _. True)"

lemma safe_always: "safe W held m s Q \<Longrightarrow> safe_always W held m s"
  by (rule safe_held) auto

lemma safe_give: "Q x s \<Longrightarrow> safe W held (give x) s Q"
  by (simp add: safe_def give_def)

lemma safe_fails [simp]: "safe W held (fails f) s Q"
  by (simp add: safe_def fails_def keeps_def)

lemma safe_or_fail: "(\<And>x. r = Inr x \<Longrightarrow> Q x s) \<Longrightarrow> safe W held (or_fail r) s Q"
  by (cases r) (auto intro: safe_give)

lemma safe_only_if: "(c \<Longrightarrow> safe W held m s Q) \<Longrightarrow> (\<not> c \<Longrightarrow> Q () s) \<Longrightarrow> safe W held (only_if c m) s Q"
  by (simp add: only_if_def safe_give)

lemma safe_push:
  "(\<And>s'. wk_world s' = wk_world s \<Longrightarrow> gn_out (wk_gen s') = gn_out (wk_gen s) @ b \<Longrightarrow> Q () s') \<Longrightarrow>
    safe W held (push_bytes b) s Q"
  by (simp add: safe_def push_bytes_def keeps_def)

lemma safe_only_push: "(\<And>s'. wk_world s' = wk_world s \<Longrightarrow> Q () s') \<Longrightarrow> safe W held (only_if c (push_bytes b)) s Q"
  by (rule safe_only_if) (auto intro: safe_push)

lemma safe_state:
  "m s = Returned x s' \<Longrightarrow> wk_world s' = wk_world s \<Longrightarrow> wk_gen s' = wk_gen s \<Longrightarrow> Q x s' \<Longrightarrow> safe W held m s Q"
  by (simp add: safe_def keeps_def)

section \<open>Reads and calls\<close>

lemma safe_type_of:
  assumes "wd_type W (wk_world s) v = Some t" and "tag_law W" and "Q t s"
  shows "safe W held (type_of W v) s Q"
  using assms valid_object [OF assms(2,1)] by (simp add: safe_def type_of_def)

lemma safe_read_as:
  assumes "wd_type W (wk_world s) v = Some t" and "tag_law W" and "Q (f (wk_world s)) s"
  shows "safe W held (read_as W t v f) s Q"
  using assms valid_object [OF assms(2,1)]
  by (simp add: safe_def read_as_def expect_def andthen_def type_of_def)

lemma safe_headers: "Q (wd_api W (wk_world s)) s \<Longrightarrow> safe W held (headers W) s Q"
  by (simp add: safe_def headers_def)

lemma safe_encindexes:
  "(\<And>idx s'. wk_world s' = wk_world s \<Longrightarrow> wk_gen s' = wk_gen s \<Longrightarrow> Q idx s') \<Longrightarrow> safe W held (encindexes W) s Q"
  by (simp add: safe_def encindexes_def keeps_def split: prod.split)

lemma safe_protect:
  assumes "valid W (wk_world s) v" and "memory_law W" and "set held \<subseteq> set held'"
    and "\<And>s'. keeps W held' s s' \<Longrightarrow> wk_world s' = wd_after W c v held' (wk_world s) \<Longrightarrow>
      Q (answer (wd_api W (wk_world s)) (wk_statics s)) s'"
  shows "safe W held (protect W c v held' answer) s Q"
proof -
  have "keeps W held' s (s\<lparr>wk_world := wd_after W c v held' (wk_world s)\<rparr>)"
    using memory_lawD(1) [OF assms(2)] by (simp add: keeps_def)
  with assms keeps_fewer [OF this assms(3)] show ?thesis by (simp add: safe_def protect_def)
qed

text \<open>A call whose result is a String, or an exception; one whose result is some value.\<close>

abbreviation string_result :: "'w walk_env \<Rightarrow> exc + VALUE \<Rightarrow> 'w vm_state \<Rightarrow> bool" where
  "string_result W r s \<equiv> \<forall>v. r = Inr v \<longrightarrow> wd_type W (wk_world s) v = Some T_STRING"

abbreviation value_result :: "'w walk_env \<Rightarrow> exc + VALUE \<Rightarrow> 'w vm_state \<Rightarrow> bool" where
  "value_result W r s \<equiv> \<forall>v. r = Inr v \<longrightarrow> valid W (wk_world s) v"

lemma safe_calls:
  assumes "world_law W" and "valid W (wk_world s) v"
  shows "safe W held (call_to_s W held v) s (string_result W)"
    and "safe W held (call_inspect W held v) s (string_result W)"
    and "safe W held (call_encode_utf8 W held v) s (string_result W)"
    and "safe W held (call_to_json W held v) s (value_result W)"
    and "safe W held (call_as_json W held v) s (value_result W)"
  unfolding call_to_s_def call_inspect_def call_encode_utf8_def call_to_json_def call_as_json_def
  using assms result_lawD [of W] by (auto simp: world_law_def intro!: safe_protect)

lemma safe_reraised:
  assumes "safe W held m s (\<lambda>r s'. \<forall>v. r = Inr v \<longrightarrow> P v s')"
  shows "safe W held (reraised m) s P"
  unfolding reraised_def
  by (rule safe_then [OF assms order_refl]) (auto simp: reraise_def intro!: safe_or_fail elim!: map_err.elims)

lemma safe_to_json_if_responds:
  assumes "world_law W" and "valid W (wk_world s) v"
  shows "safe W held (call_to_json_if_responds W held v) s
    (\<lambda>r s'. \<forall>json. r = Inr (Some json) \<longrightarrow> valid W (wk_world s') json)"
proof -
  have mem: "memory_law W" using assms(1) by (simp add: world_law_def)
  have rest: "safe W held (andthen (headers W) (\<lambda>api. give (map_ok (\<lambda>json. if json \<noteq> QUNDEF api then Some json else None) json))) s2
      (\<lambda>r s'. \<forall>json. r = Inr (Some json) \<longrightarrow> valid W (wk_world s') json)"
    if "value_result W json s2 \<or> json = Inr (QUNDEF (wd_api W (wk_world s2)))" for json s2
    using that by (cases json) (auto intro!: safe_andthen safe_headers safe_give split: if_splits)
  show ?thesis
    unfolding call_to_json_if_responds_def
  proof (rule safe_andthen, rule safe_protect [OF assms(2) mem], force, goal_cases)
    case (1 s')
    have v: "valid W (wk_world s') v" by (rule keeps_valid [OF 1(1)]) (use assms(2) in simp_all)
    show ?case
      by (auto split: sum.split intro!: safe_give safe_andthen safe_headers rest safe_held [OF safe_calls(4) [OF assms(1) v] order_refl])
  qed
qed

lemma safe_kind_of_fragment: "valid W (wk_world s) v \<Longrightarrow> safe_always W held (kind_of_fragment W v) s"
  by (simp add: safe_def kind_of_fragment_def Let_def)

lemma safe_is_json_fragment:
  assumes "world_law W" and "valid W (wk_world s) v"
  shows "safe_always W held (call_is_json_fragment W held v) s"
proof (cases "FRAGMENT (wk_statics s) = 0")
  case False
  with safe_kind_of_fragment [OF assms(2)] show ?thesis by (simp add: safe_def call_is_json_fragment_def)
next
  case True
  let ?look = "andthen (protect W CallConstants v (v # held) (\<lambda>api _. resolve_json_fragment api)) (\<lambda>r.
    case r of
      Inl e \<Rightarrow> give (Inl e)
    | Inr cls \<Rightarrow>
        if cls = 0 then give (Inr False)
        else (\<lambda>s. kind_of_fragment W v (s\<lparr>wk_statics := (wk_statics s)\<lparr>FRAGMENT := cls\<rparr>\<rparr>)))"
  have mem: "memory_law W" using assms(1) by (simp add: world_law_def)
  have "safe_always W held ?look s"
  proof (rule safe_andthen, rule safe_protect [OF assms(2) mem], force, goal_cases)
    case (1 s')
    have "valid W (wk_world s') v" by (rule keeps_valid [OF 1(1)]) (use assms(2) in simp_all)
    then show ?case
      by (auto split: sum.split intro!: safe_give) (simp add: safe_def kind_of_fragment_def keeps_def Let_def)
  qed
  with True show ?thesis by (simp add: safe_def call_is_json_fragment_def)
qed

lemma safe_num2dbl:
  assumes "FLONUM_P W v \<or> wd_type W (wk_world s) v = Some T_FLOAT" and "tag_law W" and "\<And>f. Q f s"
  shows "safe W held (num2dbl W v) s Q"
  using assms by (cases "FLONUM_P W v") (auto simp: num2dbl_def safe_def intro!: safe_read_as [unfolded safe_def])

lemma safe_sym2str:
  assumes "STATIC_SYM_P W v \<or> wd_type W (wk_world s) v = Some T_SYMBOL" and "world_law W"
    and "\<And>str. wd_type W (wk_world s) str = Some T_STRING \<Longrightarrow> Q str s"
  shows "safe W held (sym2str W v) s Q"
proof (cases "STATIC_SYM_P W v")
  case True
  with assms result_lawD(1) [of W v] show ?thesis by (simp add: sym2str_def safe_def world_law_def)
next
  case False
  with assms result_lawD(2) [of W _ v] show ?thesis
    by (auto simp: sym2str_def world_law_def intro!: safe_read_as)
qed

section \<open>Strings and keys\<close>

lemma safe_convert:
  assumes "world_law W" and "wd_type W (wk_world s) v = Some T_STRING"
  shows "safe W held (vw_convert W held v) s (\<lambda>v' s'. wd_type W (wk_world s') v' = Some T_STRING)"
proof -
  have tag: "tag_law W" using assms(1) by (simp add: world_law_def)
  show ?thesis
    unfolding vw_convert_def
  proof (rule safe_andthen, rule safe_encindexes, unfold split_def, rule safe_andthen, goal_cases)
    case (1 idx s')
    have call: "safe W held (call_encode_utf8 W held v) s' (string_result W)"
      using safe_calls(3) [OF assms(1)] valid_object [OF tag assms(2)] 1 by simp
    have t: "wd_type W (wk_world s') v = Some T_STRING" using assms(2) 1 by simp
    show ?case
      unfolding enc_index_at_def coderange_at_def
      by (rule safe_read_as [OF t tag])
        (auto intro!: safe_held [OF call order_refl] safe_andthen safe_read_as tag safe_headers safe_give split: sum.split)
  qed
qed

lemma safe_quoted:
  assumes "world_law W" and "wd_type W (wk_world s) v = Some T_STRING"
  shows "safe_always W held (vw_quoted W held v) s"
proof -
  have tag: "tag_law W" using assms(1) by (simp add: world_law_def)
  have body: "safe_always W held
      (andthen (if valid then give v else vw_convert W held v) (\<lambda>v. andthen (rstring_bytes W v) (\<lambda>b. push_bytes (f b)))) s'"
    if "wd_type W (wk_world s') v = Some T_STRING" for valid s' and f :: "bytes \<Rightarrow> bytes"
  proof (rule safe_then [OF _ order_refl])
    show "safe W held (if valid then give v else vw_convert W held v) s'
        (\<lambda>v' s'. wd_type W (wk_world s') v' = Some T_STRING)"
      using safe_convert [OF assms(1) that] that by (auto intro!: safe_give)
  qed (auto simp: rstring_bytes_def intro!: safe_andthen safe_read_as tag safe_push)
  show ?thesis
    unfolding vw_quoted_def coderange_at_def enc_index_at_def
    by (rule safe_andthen, rule safe_read_as [OF assms(2) tag])
      (auto intro!: safe_andthen safe_headers safe_give safe_read_as tag safe_encindexes body simp: assms(2))
qed

lemma safe_float:
  assumes "world_law W" and "FLONUM_P W v \<or> wd_type W (wk_world s) v = Some T_FLOAT"
  shows "safe_always W held (vw_float W v) s"
  unfolding vw_float_def
  using assms by (auto simp: world_law_def intro!: safe_andthen safe_num2dbl safe_or_fail safe_push)

text \<open>What the kind says of the key as long as it lives.\<close>

definition kind_ok :: "'w walk_env \<Rightarrow> 'w vm_state \<Rightarrow> VALUE \<Rightarrow> key_kind \<Rightarrow> bool" where
  "kind_ok W s k kind \<longleftrightarrow> valid W (wk_world s) k \<and>
     (kind = KindString \<longrightarrow> wd_type W (wk_world s) k = Some T_STRING) \<and>
     (kind = KindSymbol \<longrightarrow> STATIC_SYM_P W k \<or> wd_type W (wk_world s) k = Some T_SYMBOL)"

lemma kind_ok_keeps: "keeps W held s s' \<Longrightarrow> k \<in> set held \<Longrightarrow> kind_ok W s k kind \<Longrightarrow> kind_ok W s' k kind"
  unfolding kind_ok_def by (metis keeps_valid keeps_type)

lemma safe_key_kind:
  assumes "world_law W" and "valid W (wk_world s) k" and "\<And>kind. kind_ok W s k kind \<Longrightarrow> Q kind s"
  shows "safe W held (vw_key_kind W k) s Q"
proof (cases "SPECIAL_CONST_P W k")
  case True
  with assms(2,3) show ?thesis by (auto simp: vw_key_kind_def kind_ok_def intro!: safe_give)
next
  case False
  with assms(2) obtain t where t: "wd_type W (wk_world s) k = Some t" by (auto simp: valid_def)
  have "tag_law W" using assms(1) by (simp add: world_law_def)
  with False t assms(2,3) show ?thesis
    by (auto simp: vw_key_kind_def kind_ok_def intro!: safe_andthen safe_type_of safe_give split: value_type.split)
qed

lemma safe_key_string:
  assumes "world_law W" and "kind_ok W s k kind"
  shows "safe W held (vw_key_string W held k kind) s (string_result W)"
  using assms safe_calls(1) [OF assms(1), of s k held]
  by (cases kind) (auto simp: vw_key_string_def kind_ok_def intro!: safe_give safe_andthen safe_sym2str)

lemma safe_frozen:
  "wd_type W (wk_world s) k = Some t \<Longrightarrow> tag_law W \<Longrightarrow> (\<And>frozen. Q frozen s) \<Longrightarrow> safe W held (frozen_at W k) s Q"
  by (auto simp: frozen_at_def intro!: safe_andthen safe_type_of) (simp add: safe_def)

lemma safe_cached: "(\<And>hit. Q hit s) \<Longrightarrow> safe W held (vw_cached k) s Q"
  by (simp add: safe_def vw_cached_def)

lemma safe_store_key:
  "wd_type W (wk_world s) k = Some t \<Longrightarrow> tag_law W \<Longrightarrow> safe_always W held (vw_store_key W k start) s"
  by (auto simp: vw_store_key_def intro!: safe_andthen safe_type_of) (simp add: safe_def keeps_def)

lemma safe_key_cached:
  assumes "world_law W" and "wd_type W (wk_world s) k = Some T_STRING"
  shows "safe_always W held (vw_key_cached W held k) s"
proof -
  have tag: "tag_law W" using assms(1) by (simp add: world_law_def)
  have miss: "safe_always W held (andthen (vw_quoted W (k # held) k) (\<lambda>_. vw_store_key W k start)) s" for start
    by (rule safe_then [OF safe_quoted [OF assms]], force, rule safe_store_key [OF keeps_type [OF _ _ assms(2)] tag]) auto
  then have "safe_always W held (\<lambda>s. let start = length (gn_out (wk_gen s))
      in andthen (vw_quoted W (k # held) k) (\<lambda>_. vw_store_key W k start) s) s"
    by (simp add: safe_def Let_def)
  with assms safe_quoted [OF assms] show ?thesis
    unfolding vw_key_cached_def
    by (auto intro!: safe_andthen safe_frozen tag safe_cached safe_push split: option.split)
qed

lemma safe_key:
  assumes "world_law W" and "kind_ok W s k kind"
  shows "safe_always W held (vw_key W held k kind) s"
proof (cases "kind = KindString")
  case True
  with assms safe_key_cached [OF assms(1)] show ?thesis by (simp add: vw_key_def kind_ok_def)
next
  case False
  have r: "safe W held (reraised (vw_key_string W held k kind)) s (\<lambda>str s'. wd_type W (wk_world s') str = Some T_STRING)"
    by (rule safe_reraised [OF safe_key_string [OF assms]])
  show ?thesis
    using False by (simp add: vw_key_def) (rule safe_then [OF r order_refl safe_quoted [OF assms(1)]])
qed

lemma safe_cached_key_bytes:
  assumes "world_law W" and "kind_ok W s k kind" and "\<And>hit. Q hit s"
  shows "safe W held (vw_cached_key_bytes W k kind) s Q"
  using assms by (auto simp: vw_cached_key_bytes_def kind_ok_def world_law_def
      intro!: safe_andthen safe_frozen safe_cached safe_give)

text \<open>The raw stores of a fused prefix stay within what was reserved for them.\<close>

lemma safe_reserve: "Q (length (gn_out (wk_gen s)) + n) s \<Longrightarrow> safe W held (reserve n) s Q"
  by (simp add: safe_def reserve_def)

lemma safe_raw_store:
  assumes "length (gn_out (wk_gen s)) + length b \<le> limit"
    and "\<And>s'. wk_world s' = wk_world s \<Longrightarrow> gn_out (wk_gen s') = gn_out (wk_gen s) @ b \<Longrightarrow> Q () s'"
  shows "safe W held (raw_store limit b) s Q"
  using assms safe_push [of s b Q W held] by (simp add: safe_def raw_store_def)

lemma safe_raw_number:
  assumes "length (gn_out (wk_gen s)) + longest \<le> limit" and "length t \<le> longest"
    and "\<And>s'. wk_world s' = wk_world s \<Longrightarrow> gn_out (wk_gen s') = gn_out (wk_gen s) @ t \<Longrightarrow> Q () s'"
  shows "safe W held (raw_number limit longest t) s Q"
  using assms safe_push [of s t Q W held] by (simp add: safe_def raw_number_def)

lemmas safe_raw = safe_andthen safe_reserve safe_only_if safe_raw_store safe_raw_number safe_push

lemma safe_pair_prefix:
  assumes "world_law W" and "kind_ok W s k kind"
  shows "safe_always W held (vw_pair_prefix W held k kind comma) s"
proof -
  have key: "safe_always W held (andthen (vw_key W held k kind) (\<lambda>_. push_bytes t)) s'"
    if "wk_world s' = wk_world s" for s' t
    by (rule safe_then [OF safe_key [OF assms(1)] order_refl])
      (use assms(2) that in \<open>auto simp: kind_ok_def intro!: safe_push\<close>)
  show ?thesis
    unfolding vw_pair_prefix_def
    by (rule safe_andthen, rule safe_cached_key_bytes [OF assms])
      (auto split: option.split intro!: safe_raw key)
qed

lemma safe_pair_int:
  assumes "world_law W" and "kind_ok W s k kind" and "i64_range i"
  shows "safe_always W held (vw_pair_int W held k kind comma i) s"
proof -
  have short: "length (em_i64 (we_emitter W) i) \<le> I64_MAX_LEN W"
    using assms(1,3) by (simp add: world_law_def kernel_law_def)
  have miss: "safe_always W held (andthen (vw_pair_prefix W held k kind comma) (\<lambda>_. push_bytes t)) s" for t
    by (rule safe_then [OF safe_pair_prefix [OF assms(1,2)] order_refl]) (auto intro!: safe_push)
  show ?thesis
    unfolding vw_pair_int_def
    by (rule safe_andthen, rule safe_cached_key_bytes [OF assms(1,2)])
      (auto split: option.split intro!: safe_raw miss short)
qed

section \<open>Iteration\<close>

text \<open>
  An iteration is safe when its callback is, at every state in which the Hash is alive: \<open>I\<close> holds
  before every pair, \<open>J\<close> when the iteration is over.
\<close>

lemma safe_foreach:
  assumes "world_law W" and "hash \<in> set held" and "wd_type W (wk_world s) hash = Some T_HASH" and "I s a"
    and "\<And>s a k v. wd_type W (wk_world s) hash = Some T_HASH \<Longrightarrow> valid W (wk_world s) k \<Longrightarrow> valid W (wk_world s) v \<Longrightarrow> I s a \<Longrightarrow>
      safe W held (f a k v) s (\<lambda>(step, a) s'. case step of Continue \<Rightarrow> I s' a | Stop \<Rightarrow> J s' a)"
    and "\<And>s a. I s a \<Longrightarrow> J s a"
  shows "safe W held (vw_foreach W fuel hash pos f a) s (\<lambda>a s'. J s' a)"
  using assms(3,4)
proof (induction fuel arbitrary: pos a s)
  case 0
  then show ?case by (simp add: safe_def)
next
  case (Suc fuel)
  have mem: "memory_law W" and tag: "tag_law W" using assms(1) by (simp_all add: world_law_def)
  show ?case
  proof (simp only: vw_foreach.simps, rule safe_andthen, rule safe_read_as [OF Suc.prems(1) tag], goal_cases)
    case 1
    show ?case
    proof (cases "wd_next W (wk_world s) hash pos")
      case None
      with Suc.prems assms(6) show ?thesis by (simp add: safe_give)
    next
      case (Some p)
      obtain k v pos' where p: "p = (k, v, pos')" by (cases p) auto
      from memory_lawD(3) [OF mem Suc.prems(1)] Some p have kv: "valid W (wk_world s) k" "valid W (wk_world s) v" by auto
      have "safe W held (andthen (f a k v) (\<lambda>(step, a). case step of Continue \<Rightarrow> vw_foreach W fuel hash pos' f a | Stop \<Rightarrow> give a)) s
          (\<lambda>a s'. J s' a)"
      proof (rule safe_then [OF assms(5) [OF Suc.prems(1) kv Suc.prems(2)] order_refl], goal_cases)
        case (1 x s')
        then show ?case
          using Suc.IH keeps_type [OF 1(1) assms(2) Suc.prems(1)]
          by (auto split: iter_step.split prod.split intro!: safe_give)
      qed
      with Some p show ?thesis by simp
    qed
  qed
qed

lemma safe_or_stop:
  "safe W held m s Q \<Longrightarrow> (\<And>x s'. Q x s' \<Longrightarrow> R (Continue, x) s') \<Longrightarrow> (\<And>s'. R (Stop, a) s') \<Longrightarrow> safe W held (or_stop_at m a) s R"
  by (auto simp: safe_def or_stop_at_def split: outcome.splits)

text \<open>The walk over the keys ends with a String if it found one.\<close>

lemma safe_seen_key:
  assumes "world_law W" and "valid W (wk_world s) k" and "outcome = Inr None"
  shows "safe W held (vw_seen_key W held (seen, outcome) k v) s
    (\<lambda>(step, seen, outcome) s'. case step of
        Continue \<Rightarrow> outcome = Inr None
      | Stop \<Rightarrow> \<forall>str. outcome = Inr (Some str) \<longrightarrow> wd_type W (wk_world s') str = Some T_STRING)"
proof -
  have tag: "tag_law W" using assms(1) by (simp add: world_law_def)
  show ?thesis
    unfolding vw_seen_key_def prod.case
  proof (rule safe_andthen, rule safe_key_kind [OF assms(1,2)], goal_cases)
    case (1 kind)
    show ?case
      by (rule safe_then [OF safe_key_string [OF assms(1) 1] order_refl])
        (auto simp: rstring_bytes_def assms(3) split: sum.split iter_step.split if_splits intro!: safe_give safe_andthen safe_read_as tag)
  qed
qed

lemma safe_check_duplicate_keys:
  assumes "world_law W" and "wd_type W (wk_world s) hash = Some T_HASH"
  shows "safe_always W (hash # held) (vw_check_duplicate_keys W fuel held hash) s"
proof -
  have tag: "tag_law W" using assms(1) by (simp add: world_law_def)
  let ?I = "\<lambda>s (seen, outcome). outcome = Inr None"
  let ?J = "\<lambda>s (seen, outcome). \<forall>str. outcome = Inr (Some str) \<longrightarrow> wd_type W (wk_world s) str = Some T_STRING"
  have iter: "safe W (hash # held) (vw_foreach W fuel hash 0 (vw_seen_key W (hash # held)) ({}, Inr None)) s (\<lambda>a s'. ?J s' a)"
  proof (rule safe_foreach [OF assms(1) _ assms(2), where I = ?I])
    show "safe W (hash # held) (vw_seen_key W (hash # held) a k v) s
        (\<lambda>(step, a) s'. case step of Continue \<Rightarrow> ?I s' a | Stop \<Rightarrow> ?J s' a)"
      if "valid W (wk_world s) k" "?I s a" for s a k v
      using safe_seen_key [OF assms(1) that(1) refl, of "hash # held" "fst a" v] that(2)
      by (cases a) (auto elim!: safe_held simp: split_beta)
  qed auto
  show ?thesis
    unfolding vw_check_duplicate_keys_def
  proof (rule safe_then [OF iter order_refl], unfold split_def, rule safe_andthen, rule safe_or_fail, goal_cases)
    case (1 a s1 hit)
    show ?case
    proof (cases hit)
      case None
      then show ?thesis by (simp add: safe_give)
    next
      case (Some str)
      have hash1: "wd_type W (wk_world s1) hash = Some T_HASH" by (rule keeps_type [OF 1(1) _ assms(2)]) simp
      have "wd_type W (wk_world s1) str = Some T_STRING" using 1 Some by (cases "snd a") (simp_all add: reraise_def split_beta)
      then have str: "valid W (wk_world s1) str" using valid_object [OF tag] by blast
      show ?thesis
        unfolding Some option.case
      proof (rule safe_then [OF safe_reraised [OF safe_calls(2) [OF assms(1) str]] order_refl], goal_cases)
        case (1 ki s2)
        have "wd_type W (wk_world s2) hash = Some T_HASH" by (rule keeps_type [OF 1(1) _ hash1]) simp
        then have h: "valid W (wk_world s2) hash" using valid_object [OF tag] by blast
        show ?case
        proof (rule safe_then [OF safe_reraised [OF safe_calls(2) [OF assms(1) h]]], force, goal_cases)
          case (1 hi s3)
          have "wd_type W (wk_world s3) ki = Some T_STRING"
            by (rule keeps_type [OF 1(1)]) (use \<open>wd_type W (wk_world s2) ki = Some T_STRING\<close> in simp_all)
          with 1 show ?case by (auto simp: rstring_bytes_def intro!: safe_andthen safe_read_as tag)
        qed
      qed
    qed
  qed
qed

section \<open>Arrays\<close>

lemma safe_slot: "i < length ptr \<Longrightarrow> Q (ptr ! i) s \<Longrightarrow> safe W held (slot ptr i) s Q"
  by (simp add: safe_def slot_def)

lemma safe_array_ptr:
  "wd_type W (wk_world s) ary = Some T_ARRAY \<Longrightarrow> tag_law W \<Longrightarrow> Q (wd_array W (wk_world s) ary) s \<Longrightarrow>
     safe W held (array_ptr W ary) s Q"
  by (auto simp: array_ptr_def intro: safe_read_as)

lemma safe_array_len:
  "wd_type W (wk_world s) ary = Some T_ARRAY \<Longrightarrow> tag_law W \<Longrightarrow> Q (length (wd_array W (wk_world s) ary)) s \<Longrightarrow>
     safe W held (array_len W ary) s Q"
  by (auto simp: array_len_def intro: safe_read_as)

text \<open>
  A numeric run reads its chunk only and writes no more than was reserved for it: a longest
  number and a comma for every element that is left.
\<close>

lemma safe_run:
  assumes "world_law W" and "i + n \<le> length ptr" and "length (gn_out (wk_gen s)) + n * (F64_MAX_LEN W + 1) \<le> limit"
  shows "safe W held (vw_run W ptr limit n i first) s (\<lambda>j s'. wk_world s' = wk_world s)"
  using assms(2,3)
proof (induction n arbitrary: i first s)
  case 0
  then show ?case by (simp add: safe_give)
next
  case (Suc n)
  have lens: "f64_is_finite f \<Longrightarrow> length (em_f64 (we_emitter W) f) \<le> F64_MAX_LEN W"
    "FIXNUM_P W v \<Longrightarrow> length (em_i64 (we_emitter W) (FIX2LONG W v)) \<le> I64_MAX_LEN W"
    "I64_MAX_LEN W \<le> F64_MAX_LEN W" "tag_law W" for f v
    using assms(1) by (simp_all add: world_law_def kernel_law_def tag_law_def)
  have rest: "safe W held (only_if (\<not> first) (raw_store limit [b_comma])) s (\<lambda>_ s'. safe W held
      (andthen (raw_number limit longest t) (\<lambda>_. vw_run W ptr limit n (Suc i) False)) s' (\<lambda>j s'. wk_world s' = wk_world s))"
    if "length t \<le> longest" "longest \<le> F64_MAX_LEN W" for t longest
  proof -
    have next': "safe W held (vw_run W ptr limit n (Suc i) False) s' (\<lambda>j s'. wk_world s' = wk_world s)"
      if "wk_world s' = wk_world s" "length (gn_out (wk_gen s')) \<le> length (gn_out (wk_gen s)) + 1 + F64_MAX_LEN W" for s'
    proof -
      have "length (gn_out (wk_gen s')) + n * (F64_MAX_LEN W + 1) \<le> limit" using Suc.prems(2) that(2) by simp
      with Suc.IH [of "Suc i" s' False] Suc.prems(1) that(1) show ?thesis by simp
    qed
    show ?thesis
      using that Suc.prems(2) by (auto intro!: safe_raw next')
  qed
  have "i < length ptr" using Suc.prems(1) by simp
  then show ?case
    by (auto intro!: safe_andthen safe_slot safe_num2dbl rest lens safe_give)
qed

lemma safe_run_from:
  assumes "world_law W" and "wd_type W (wk_world s) ary = Some T_ARRAY"
    and "len = length (wd_array W (wk_world s) ary)" and "i \<le> len"
  shows "safe W held (vw_run_from W ary len i) s (\<lambda>j s'. wk_world s' = wk_world s)"
proof -
  have tag: "tag_law W" using assms(1) by (simp add: world_law_def)
  show ?thesis
    unfolding vw_run_from_def Let_def
    by (rule safe_andthen, rule safe_reserve, rule safe_andthen, rule safe_array_ptr [OF assms(2) tag],
        rule safe_run [OF assms(1)]) (use assms(3,4) in simp_all)
qed

text \<open>What the recursive call is assumed to be.\<close>

definition rec_safe :: "'w walk_env \<Rightarrow> 'w walk_rec \<Rightarrow> bool" where
  "rec_safe W rec \<longleftrightarrow> (\<forall>s held v depth. valid W (wk_world s) v \<longrightarrow> safe_always W held (rec held v depth) s)"

lemma rec_safeD: "rec_safe W rec \<Longrightarrow> valid W (wk_world s) v \<Longrightarrow> safe_always W held (rec held v depth) s"
  by (simp add: rec_safe_def)

text \<open>An element or a value of a pair, by the arms before the recursive call.\<close>

lemma safe_elem:
  assumes "world_law W" and "rec_safe W rec" and "valid W (wk_world s) v"
  shows "safe_always W held
     (if FLONUM_P W v then vw_float W v
      else if \<not> SPECIAL_CONST_P W v
      then andthen (type_of W v) (\<lambda>t. if t = T_FLOAT then vw_float W v else rec held v inner)
      else rec held v inner) s"
  using assms rec_safeD [OF assms(2,3)]
  by (auto simp: valid_def world_law_def intro!: safe_andthen safe_type_of safe_float)

lemma safe_elems:
  assumes "world_law W" and "rec_safe W rec" and "wd_type W (wk_world s) ary = Some T_ARRAY"
  shows "safe_always W (ary # held) (vw_elems W pty rec held ary inner fuel i) s"
  using assms(3)
proof (induction fuel arbitrary: i s)
  case 0
  then show ?case by (simp add: safe_def)
next
  case (Suc fuel)
  have mem: "memory_law W" and tag: "tag_law W" using assms(1) by (simp_all add: world_law_def)
  let ?H = "ary # held" and ?xs = "wd_array W (wk_world s) ary"
  show ?case
  proof (simp only: vw_elems.simps, rule safe_andthen, rule safe_array_len [OF Suc.prems tag],
      cases "length ?xs \<le> i", goal_cases)
    case 1
    then show ?case by (simp add: safe_give)
  next
    case False: 2
    then have v: "valid W (wk_world s) (?xs ! i)" using memory_lawD(2) [OF mem Suc.prems] by simp
    have go: "safe_always W ?H
        (if i < j then vw_elems W pty rec held ary inner fuel j
         else andthen (if FLONUM_P W v then vw_float W v
                       else if \<not> SPECIAL_CONST_P W v
                       then andthen (type_of W v) (\<lambda>t. if t = T_FLOAT then vw_float W v else rec ?H v inner)
                       else rec ?H v inner) (\<lambda>_. vw_elems W pty rec held ary inner fuel (i + 1))) s'"
      if "wk_world s' = wk_world s" "v = ?xs ! i" for j s' v
    proof -
      have t: "wd_type W (wk_world s') ary = Some T_ARRAY" and v': "valid W (wk_world s') v"
        using that Suc.prems v by simp_all
      show ?thesis
      proof (cases "i < j")
        case True
        with Suc.IH [OF t] show ?thesis by simp
      next
        case False
        show ?thesis
          unfolding if_not_P [OF False]
          by (rule safe_then [OF safe_elem [OF assms(1,2) v'] order_refl], rule Suc.IH, erule keeps_type) (simp_all add: t)
      qed
    qed
    have run: "safe W ?H (if c then vw_run_from W ary (length ?xs) i else give i) s' (\<lambda>j s''. wk_world s'' = wk_world s)"
      if "wk_world s' = wk_world s" for c s'
      using safe_run_from [OF assms(1), of s' ary "length ?xs" i ?H] that Suc.prems False by (auto intro: safe_give)
    have len: "i < length ?xs" using False by simp
    show ?case
      unfolding if_not_P [OF False]
      by (rule safe_andthen, rule safe_andthen, rule safe_array_ptr [OF Suc.prems tag], rule safe_slot [OF len],
          rule safe_andthen, rule safe_only_push, rule safe_andthen, rule safe_only_push,
          rule safe_andthen, rule safe_held [OF run order_refl], simp, rule go) simp_all
  qed
qed

lemma safe_array:
  assumes "world_law W" and "rec_safe W rec" and "wd_type W (wk_world s) ary = Some T_ARRAY"
  shows "safe_always W held (vw_array W pty rec fuel held ary depth) s"
proof -
  have tag: "tag_law W" using assms(1) by (simp add: world_law_def)
  have body: "safe_always W held (andthen (vw_elems W pty rec held ary inner fuel 0) (\<lambda>_.
      andthen (only_if c (push_bytes b)) (\<lambda>_. push_bytes b'))) s'"
    if "wk_world s' = wk_world s" for inner c b b' s'
    by (rule safe_then [OF safe_elems [OF assms(1,2)]])
      (use assms(3) that in \<open>auto intro!: safe_andthen safe_only_push safe_push\<close>)
  show ?thesis
    unfolding vw_array_def Let_def
    by (rule safe_andthen, rule safe_or_fail, rule safe_andthen, rule safe_push, rule safe_andthen,
        rule safe_array_len [OF _ tag]) (use assms(3) in \<open>auto intro!: safe_push body\<close>)
qed

section \<open>Objects\<close>

lemma safe_last_byte: "gn_out (wk_gen s) \<noteq> [] \<Longrightarrow> (\<And>b. Q b s) \<Longrightarrow> safe W held last_byte s Q"
  by (simp add: safe_def last_byte_def)

lemma safe_only_check:
  assumes "world_law W" and "wd_type W (wk_world s) hash = Some T_HASH" and "set held' \<subseteq> set (hash # held)"
    and "\<And>s'. keeps W (hash # held) s s' \<Longrightarrow> safe W held' (k ()) s' Q"
  shows "safe W held' (andthen (only_if check (vw_check_duplicate_keys W fuel held hash)) k) s Q"
proof (rule safe_then [OF _ assms(3)])
  show "safe_always W (hash # held) (only_if check (vw_check_duplicate_keys W fuel held hash)) s"
    by (rule safe_only_if) (use safe_check_duplicate_keys [OF assms(1,2)] in auto)
qed (use assms(4) in simp)

text \<open>Key and value of a pair are alive while they are needed, the Hash all along.\<close>

lemma safe_pretty_pair:
  assumes "world_law W" and "rec_safe W rec" and "wd_type W (wk_world s) hash = Some T_HASH"
    and "valid W (wk_world s) k" and "valid W (wk_world s) v"
  shows "safe_always W (hash # held) (vw_pretty_pair W rec fuel held hash inner (m, first) k v) s"
proof -
  have body: "safe_always W (hash # held)
      (andthen (only_if check (vw_check_duplicate_keys W fuel (k # v # held) hash)) (\<lambda>_.
       andthen (only_if (\<not> first) (push_bytes [b_comma])) (\<lambda>_.
       andthen (push_bytes b) (\<lambda>_.
       andthen (vw_key W (v # hash # held) k kind) (\<lambda>_.
       andthen (push_bytes b') (\<lambda>_.
       andthen (rec (hash # held) v inner) (\<lambda>_. give x))))))) s"
    if kind: "kind_ok W s k kind" for check b b' kind and x :: "mixed_keys \<times> bool"
  proof (rule safe_only_check [OF assms(1,3)], force, goal_cases)
    case (1 s1)
    have k: "kind_ok W s1 k kind" and v: "valid W (wk_world s1) v"
      using kind_ok_keeps [OF 1 _ kind] keeps_valid [OF 1 _ assms(5)] by simp_all
    have tail: "safe_always W (hash # held) (andthen (vw_key W (v # hash # held) k kind) (\<lambda>_.
        andthen (push_bytes b') (\<lambda>_. andthen (rec (hash # held) v inner) (\<lambda>_. give x)))) s2"
      if "wk_world s2 = wk_world s1" for s2
    proof (rule safe_then [OF safe_key [OF assms(1)]], use k that in \<open>simp add: kind_ok_def\<close>, force, goal_cases)
      case (1 u s3)
      have v3: "valid W (wk_world s3) v" by (rule keeps_valid [OF 1(1)]) (use v that in simp_all)
      show ?case
        by (rule safe_andthen, rule safe_push, rule safe_then [OF rec_safeD [OF assms(2)] order_refl])
          (use v3 in \<open>auto intro: safe_give\<close>)
    qed
    show ?case
      by (rule safe_andthen, rule safe_only_push, rule safe_andthen, rule safe_push, rule tail) simp
  qed
  show ?thesis
    unfolding vw_pretty_pair_def prod.case
    by (rule safe_andthen, rule safe_key_kind [OF assms(1,4)])
      (auto split: prod.split intro!: safe_or_stop [OF body])
qed

text \<open>The value of a pair, by the arms before the recursive call.\<close>

lemma safe_pair_value:
  assumes "world_law W" and "rec_safe W rec" and "valid W (wk_world s) v"
  shows "safe_always W held
     (if \<not> SPECIAL_CONST_P W v
      then andthen (type_of W v) (\<lambda>t. if t = T_STRING then vw_quoted W held v else rec held v inner)
      else if v = wd_QNIL W then push_bytes (asc ''null'')
      else if v = wd_QTRUE W then push_bytes (asc ''true'')
      else if v = wd_QFALSE W then push_bytes (asc ''false'')
      else if FLONUM_P W v then vw_float W v
      else rec held v inner) s"
  using assms rec_safeD [OF assms(2,3)]
  by (auto simp: valid_def world_law_def intro!: safe_andthen safe_type_of safe_float safe_push safe_quoted)

lemma safe_key_value:
  assumes "world_law W" and "rec_safe W rec" and "kind_ok W s k kind" and "valid W (wk_world s) v"
  shows "safe_always W (hash # held) (vw_key_value W rec held hash inner k kind v comma) s"
proof (cases "FIXNUM_P W v")
  case True
  with safe_pair_int [OF assms(1,3)] assms(1) show ?thesis by (simp add: vw_key_value_def world_law_def tag_law_def)
next
  case False
  show ?thesis
    unfolding vw_key_value_def if_not_P [OF False]
  proof (rule safe_then [OF safe_pair_prefix [OF assms(1,3)]], force, goal_cases)
    case (1 u s2)
    have v2: "valid W (wk_world s2) v" by (rule keeps_valid [OF 1(1)]) (use assms(4) in simp_all)
    show ?case by (rule safe_pair_value [OF assms(1,2) v2])
  qed
qed

lemma safe_compact_pair:
  assumes "world_law W" and "rec_safe W rec" and "wd_type W (wk_world s) hash = Some T_HASH"
    and "valid W (wk_world s) k" and "valid W (wk_world s) v" and "gn_out (wk_gen s) \<noteq> []"
  shows "safe_always W (hash # held) (vw_compact_pair W rec fuel held hash inner m k v) s"
proof -
  have body: "safe_always W (hash # held)
      (andthen (only_if check (vw_check_duplicate_keys W fuel (k # v # held) hash)) (\<lambda>_.
       andthen last_byte (\<lambda>b.
       andthen (vw_key_value W rec held hash inner k kind v (b \<noteq> b_lbrace)) (\<lambda>_. give x)))) s"
    if kind: "kind_ok W s k kind" for check kind and x :: mixed_keys
  proof (rule safe_only_check [OF assms(1,3)], force, goal_cases)
    case (1 s1)
    have k: "kind_ok W s1 k kind" and v: "valid W (wk_world s1) v" and out: "gn_out (wk_gen s1) \<noteq> []"
      using kind_ok_keeps [OF 1 _ kind] keeps_valid [OF 1 _ assms(5)] assms(6) 1 by (simp_all add: keeps_def)
    show ?case
      by (rule safe_andthen, rule safe_last_byte [OF out], rule safe_then [OF safe_key_value [OF assms(1,2) k v] order_refl])
        (simp add: safe_give)
  qed
  show ?thesis
    unfolding vw_compact_pair_def
    by (rule safe_andthen, rule safe_key_kind [OF assms(1,4)])
      (auto split: prod.split intro!: safe_or_stop [OF body])
qed

text \<open>\<open>out\<close> is not empty while pairs are written, so that its last byte exists.\<close>

lemma safe_pairs:
  assumes "world_law W" and "rec_safe W rec" and "wd_type W (wk_world s) hash = Some T_HASH" and "gn_out (wk_gen s) \<noteq> []"
  shows "safe_always W (hash # held) (vw_foreach W fuel hash pos (vw_pretty_pair W rec n held hash inner) (m, first)) s"
    and "safe_always W (hash # held) (vw_foreach W fuel hash pos (vw_compact_pair W rec n held hash inner) m) s"
proof -
  let ?out = "\<lambda>s _. gn_out (wk_gen s) \<noteq> []"
  have "safe W (hash # held) (vw_pretty_pair W rec n held hash inner a k v) s
      (\<lambda>(step, a) s'. case step of Continue \<Rightarrow> ?out s' a | Stop \<Rightarrow> True)"
    if "wd_type W (wk_world s) hash = Some T_HASH" "valid W (wk_world s) k" "valid W (wk_world s) v" "?out s a" for s a k v
    using safe_pretty_pair [OF assms(1,2) that(1-3), of held n inner "fst a" "snd a"] that(4)
    by (auto elim!: safe_held simp: keeps_def split: iter_step.split)
  then show "safe_always W (hash # held) (vw_foreach W fuel hash pos (vw_pretty_pair W rec n held hash inner) (m, first)) s"
    by (intro safe_foreach [OF assms(1) _ assms(3), where I = ?out and J = "\<lambda>_ _. True"]) (simp_all add: assms(4))
  have "safe W (hash # held) (vw_compact_pair W rec n held hash inner a k v) s
      (\<lambda>(step, a) s'. case step of Continue \<Rightarrow> ?out s' a | Stop \<Rightarrow> True)"
    if "wd_type W (wk_world s) hash = Some T_HASH" "valid W (wk_world s) k" "valid W (wk_world s) v" "?out s a" for s a k v
    by (rule safe_held [OF safe_compact_pair [OF assms(1,2) that] order_refl]) (use that(4) in \<open>auto simp: keeps_def split: iter_step.split\<close>)
  then show "safe_always W (hash # held) (vw_foreach W fuel hash pos (vw_compact_pair W rec n held hash inner) m) s"
    by (intro safe_foreach [OF assms(1) _ assms(3), where I = ?out and J = "\<lambda>_ _. True"]) (simp_all add: assms(4))
qed

lemma safe_no_fail: "Q () s \<Longrightarrow> safe W held (\<lambda>s. if gn_fail (wk_gen s) \<noteq> None then Failed s else Returned () s) s Q"
  by (simp add: safe_def)

lemma safe_object:
  assumes "world_law W" and "rec_safe W rec" and "wd_type W (wk_world s) hash = Some T_HASH"
  shows "safe_always W held (vw_object W pty rec fuel held hash depth) s"
proof -
  have tag: "tag_law W" using assms(1) by (simp add: world_law_def)
  have close: "safe_always W held (andthen (\<lambda>s. if gn_fail (wk_gen s) \<noteq> None then Failed s else Returned () s) (\<lambda>_.
      andthen (only_if c (push_bytes b)) (\<lambda>_. push_bytes b'))) s'" for c b b' s'
    by (rule safe_andthen, rule safe_no_fail) (auto intro!: safe_andthen safe_only_push safe_push)
  have body: "safe_always W held (andthen
      (if pty then andthen (vw_foreach W fuel hash 0 (vw_pretty_pair W rec fuel held hash inner) (m, True)) (\<lambda>_. give ())
       else andthen (vw_foreach W fuel hash 0 (vw_compact_pair W rec fuel held hash inner) m) (\<lambda>_. give ())) (\<lambda>_.
      andthen (\<lambda>s. if gn_fail (wk_gen s) \<noteq> None then Failed s else Returned () s) (\<lambda>_.
      andthen (only_if c (push_bytes b)) (\<lambda>_. push_bytes b')))) s'"
    if "wk_world s' = wk_world s" "gn_out (wk_gen s') \<noteq> []" for inner m c b b' s'
  proof -
    have t: "wd_type W (wk_world s') hash = Some T_HASH" using that assms(3) by simp
    have "safe_always W held
       (if pty then andthen (vw_foreach W fuel hash 0 (vw_pretty_pair W rec fuel held hash inner) (m, True)) (\<lambda>_. give ())
        else andthen (vw_foreach W fuel hash 0 (vw_compact_pair W rec fuel held hash inner) m) (\<lambda>_. give ())) s'"
      using safe_pairs [OF assms(1,2) t that(2)]
      by (auto intro!: safe_then [where held' = "hash # held" and P = "\<lambda>_ _. True"] safe_give)
    then show ?thesis by (rule safe_then [OF _ order_refl close])
  qed
  show ?thesis
    unfolding vw_object_def Let_def hash_size_def
    by (rule safe_andthen, rule safe_or_fail, rule safe_andthen, rule safe_push, rule safe_andthen,
        rule safe_read_as [OF _ tag], simp add: assms(3), split if_split, intro conjI impI, rule safe_push, simp, rule body)
      simp_all
qed

section \<open>The walk\<close>

lemma safe_append_string:
  assumes "world_law W" and "valid W (wk_world s) json"
  shows "safe_always W held (vw_append_string W json) s"
  using assms
  by (auto simp: vw_append_string_def valid_def world_law_def rstring_bytes_def
      intro!: safe_give safe_andthen safe_type_of safe_read_as safe_push)

lemma safe_splice:
  assumes "world_law W" and "valid W (wk_world s) raw"
  shows "safe_always W held (vw_splice W held raw) s"
  unfolding vw_splice_def
proof (rule safe_then [OF safe_reraised [OF safe_calls(4) [OF assms]] order_refl], goal_cases)
  case (1 json s')
  show ?case
    by (rule safe_then [OF safe_append_string [OF assms(1) 1(2)] order_refl]) (simp add: safe_give)
qed

lemma safe_fragment:
  assumes "world_law W" and "valid W (wk_world s) raw"
    and "\<And>fragment s'. valid W (wk_world s') raw \<Longrightarrow> safe_always W held (k fragment) s'"
  shows "safe_always W held (andthen (reraised (call_is_json_fragment W (raw # held) raw)) k) s"
proof (rule safe_then [where held' = "raw # held" and P = "\<lambda>_ _. True"], goal_cases)
  case 1
  show ?case by (rule safe_reraised, rule safe_held [OF safe_is_json_fragment [OF assms(1,2)] order_refl]) simp
next
  case (3 fragment s')
  show ?case by (rule assms(3), rule keeps_valid [OF 3(1) _ assms(2)]) simp
qed auto

lemma safe_classname:
  "valid W (wk_world s) raw \<Longrightarrow> (\<And>name. Q name s) \<Longrightarrow> safe W held (obj_classname W raw) s Q"
  by (simp add: safe_def obj_classname_def)

lemma safe_rails_fallback:
  assumes "world_law W" and "rec_safe W rec" and "valid W (wk_world s) raw"
  shows "safe_always W held (vw_rails_fallback W rec held raw depth) s"
  unfolding vw_rails_fallback_def
proof (rule safe_fragment [OF assms(1,3)], goal_cases)
  case (1 fragment s1)
  have "safe_always W held (andthen (reraised (call_as_json W (raw # held) raw)) (\<lambda>json.
       if json = raw
       then andthen (obj_classname W raw) (\<lambda>name.
            fails (FailGenerator (Fmt ''{}#as_json returned the receiver'' [AText name])))
       else rec held json depth)) s1"
  proof (rule safe_then [OF safe_reraised [OF safe_calls(5) [OF assms(1) 1]]], force, goal_cases)
    case (1 json s2)
    then show ?case
      using rec_safeD [OF assms(2)] by (auto intro!: safe_andthen safe_classname)
  qed
  with safe_splice [OF assms(1) 1] show ?case by simp
qed

lemma safe_fallback:
  assumes "world_law W" and "rec_safe W rec" and "valid W (wk_world s) raw"
  shows "safe_always W held (vw_fallback W rec held raw depth) s"
proof -
  have strict: "safe_always W held (andthen (reraised (call_is_json_fragment W (raw # held) raw)) (\<lambda>fragment.
      if fragment then vw_splice W held raw
      else andthen (obj_classname W raw) (\<lambda>name. fails (f name)))) s" for f
    by (rule safe_fragment [OF assms(1,3)]) (auto intro!: safe_splice [OF assms(1)] safe_andthen safe_classname)
  have to_s: "safe_always W held (andthen (reraised (call_to_s W held raw)) (vw_quoted W held)) s'"
    if "valid W (wk_world s') raw" for s'
    by (rule safe_then [OF safe_reraised [OF safe_calls(1) [OF assms(1) that]] order_refl]) (rule safe_quoted [OF assms(1)])
  have plain: "safe_always W held (andthen (reraised (call_to_json_if_responds W (raw # held) raw)) (\<lambda>json.
      andthen (case json of Some json \<Rightarrow> vw_append_string W json | None \<Rightarrow> give False) (\<lambda>done.
      if done then give () else andthen (reraised (call_to_s W held raw)) (vw_quoted W held)))) s"
  proof (rule safe_then [where held' = "raw # held" and P = "\<lambda>j s'. \<forall>json. j = Some json \<longrightarrow> valid W (wk_world s') json"],
      goal_cases)
    case 1
    show ?case
      by (rule safe_reraised, rule safe_held [OF safe_to_json_if_responds [OF assms(1,3)] order_refl]) auto
  next
    case (3 j s1)
    have v: "valid W (wk_world s1) raw" by (rule keeps_valid [OF 3(1) _ assms(3)]) simp
    have "safe_always W (raw # held) (case j of Some json \<Rightarrow> vw_append_string W json | None \<Rightarrow> give False) s1"
      using 3(2) by (auto split: option.split intro!: safe_give safe_append_string [OF assms(1)])
    then show ?case
      by (rule safe_then) (auto intro!: safe_give to_s dest: keeps_valid [OF _ _ v])
  qed auto
  show ?thesis
    using strict safe_rails_fallback [OF assms] plain by (simp add: vw_fallback_def)
qed

lemma safe_dispatch:
  fixes W :: "'w walk_env"
  assumes "world_law W" and "rec_safe W rec"
  shows "rec_safe W (vw_dispatch W pty rec fuel)"
  unfolding rec_safe_def
proof (intro allI impI)
  fix s :: "'w vm_state" and held v depth
  assume v: "valid W (wk_world s) v"
  have tag: "tag_law W" using assms(1) by (simp add: world_law_def)
  show "safe_always W held (vw_dispatch W pty rec fuel held v depth) s"
  proof (cases "SPECIAL_CONST_P W v")
    case True
    with assms safe_fallback [OF assms v] show ?thesis
      by (auto simp: vw_dispatch_def intro!: safe_push safe_float safe_andthen safe_sym2str safe_quoted)
  next
    case False
    with v obtain t where t: "wd_type W (wk_world s) v = Some t" by (auto simp: valid_def)
    have big: "safe_always W held (andthen (big2str W held v) (\<lambda>s. andthen (rstring_bytes W s) push_bytes)) s"
      if big: "wd_type W (wk_world s) v = Some T_BIGNUM"
    proof -
      have "wd_type W (wd_after W CallBig2str v held (wk_world s)) (wd_big2str W (wk_world s) v) = Some T_STRING"
        using assms(1) result_lawD(3) [OF _ big] by (simp add: world_law_def)
      then show ?thesis
        unfolding big2str_def rstring_bytes_def using assms(1)
        by (auto simp: world_law_def intro!: safe_andthen safe_read_as [OF big tag] safe_protect [OF v] safe_read_as [OF _ tag] safe_push)
    qed
    have "safe_always W held (case t of
             T_STRING \<Rightarrow> vw_quoted W held v
           | T_HASH \<Rightarrow> vw_object W pty rec fuel held v depth
           | T_ARRAY \<Rightarrow> vw_array W pty rec fuel held v depth
           | T_FLOAT \<Rightarrow> vw_float W v
           | T_BIGNUM \<Rightarrow> andthen (big2str W held v) (\<lambda>s. andthen (rstring_bytes W s) push_bytes)
           | T_SYMBOL \<Rightarrow> andthen (sym2str W v) (vw_quoted W held)
           | T_OTHER \<Rightarrow> vw_fallback W rec held v depth) s"
      using t assms safe_fallback [OF assms v] safe_object [OF assms] safe_array [OF assms] safe_quoted [OF assms(1)] big
      by (cases t) (auto intro!: safe_float safe_andthen safe_sym2str)
    then show ?thesis
      unfolding vw_dispatch_def if_P [OF False] by (intro safe_andthen safe_type_of [OF t tag])
  qed
qed

lemma safe_value: "world_law W \<Longrightarrow> rec_safe W (vw_value W pty fuel)"
  by (induction fuel) (simp_all add: safe_dispatch, simp add: rec_safe_def safe_def)

text \<open>
  C5.  The walk never does anything undefined: whatever \<open>to_json\<close>, \<open>to_s\<close>, \<open>as_json\<close>, \<open>inspect\<close> and
  \<open>respond_to?\<close> do to the arrays and hashes being walked (shrinking or growing them included), and
  whatever the collector frees that no frame uses again, no dangling VALUE is read, no slot beyond
  the length an Array has at that moment, no byte is written beyond what was reserved for a fused
  pair or a numeric run, and the last byte is never asked of an empty buffer.
\<close>

theorem value_walk_safe:
  assumes "world_law W" and "valid W (wk_world s) obj"
  shows "vw_value W pty fuel held obj depth s \<noteq> Undefined"
proof -
  have "safe_always W held (vw_value W pty fuel held obj depth) s"
    by (rule rec_safeD [OF safe_value [OF assms(1)] assms(2)])
  then show ?thesis by (auto simp: safe_def)
qed

text \<open>
  An Array of an object and an Integer; the object's \<open>to_json\<close> removes the Integer.  The state of
  the VM is whether it did.
\<close>

definition popping_api :: ruby_api where
  "popping_api =
     sample_api\<lparr>ra_respond_to := (\<lambda>_ _. Inr 1), ra_funcall := (\<lambda>_ _. Inr 24), ra_as_string := (\<lambda>_. Inr 24),
       ra_inspect := (\<lambda>_. Inr 24), ra_encode_utf8 := (\<lambda>_. Inr 24)\<rparr>"

definition popping_world :: "bool walk_env" where
  "popping_world =
     \<lparr>SPECIAL_CONST_P = (\<lambda>v. v \<in> {0, 3, 4, 20}), FIXNUM_P = (\<lambda>v. v = 3), FLONUM_P = (\<lambda>v. False),
      STATIC_SYM_P = (\<lambda>v. False), FIX2LONG = (\<lambda>v. 1), wd_QNIL = 4, wd_QTRUE = 20, wd_QFALSE = 0,
      wd_type = (\<lambda>w v. if v = 8 then Some T_ARRAY else if v = 16 then Some T_OTHER
        else if v = 24 then Some T_STRING else None),
      wd_num2dbl = (\<lambda>w v. 0), wd_array = (\<lambda>w v. if w then [16] else [16, 3]), wd_hash_size = (\<lambda>w v. 0),
      wd_next = (\<lambda>w v pos. None), wd_sym2str = (\<lambda>w v. 24), wd_big2str = (\<lambda>w v. 24), wd_classname = (\<lambda>w v. ''Popper''),
      wd_api = (\<lambda>w. popping_api), wd_after = (\<lambda>c v held w. w \<or> c = CallToJson),
      we_emitter = sample_emitter, F64_MAX_LEN = 3, I64_MAX_LEN = 1, we_cfg = DEFAULT_CONFIG\<rparr>"

definition popping_start :: "bool vm_state" where
  "popping_start =
     \<lparr>wk_gen = \<lparr>gn_out = [], gn_keys = kc_empty, gn_fail = None\<rparr>,
      wk_statics = warm_up popping_api statics_new, wk_world = False\<rparr>"

lemma popping_law: "world_law popping_world"
proof -
  have "memory_law popping_world" by (auto simp: memory_law_def popping_world_def valid_def split: if_splits)
  moreover have "result_law popping_world"
    by (simp add: result_law_def popping_world_def popping_api_def sample_api_def valid_def protected_to_s_def
        protected_inspect_def protected_encode_utf8_def protected_to_json_def protected_as_json_def)
  moreover have "tag_law popping_world" by (auto simp: tag_law_def popping_world_def i64_range_def)
  moreover have "kernel_law popping_world" by (simp add: kernel_law_def popping_world_def sample_emitter_def asc_def)
  ultimately show ?thesis by (simp add: world_law_def)
qed

text \<open>The removed Integer is not read: the walk writes \<open>[a]\<close>, the text of the String \<open>to_json\<close> gave.\<close>

definition written :: "(unit, 'w vm_state) outcome \<Rightarrow> bytes option" where
  "written r = (case r of Returned u s \<Rightarrow> Some (gn_out (wk_gen s)) | _ \<Rightarrow> None)"

theorem value_walk_safe_witness:
  "vw_value popping_world False 3 [] 8 0 popping_start \<noteq> Undefined \<and>
   written (vw_value popping_world False 3 [] 8 0 popping_start) = Some (asc ''[a]'')"
proof
  have "valid popping_world (wk_world popping_start) 8" by (simp add: valid_def popping_world_def)
  from value_walk_safe [OF popping_law this]
  show "vw_value popping_world False 3 [] 8 0 popping_start \<noteq> Undefined" .
  show "written (vw_value popping_world False 3 [] 8 0 popping_start) = Some (asc ''[a]'')" by code_simp
qed

end
