(* ===== verification/Value_Objects.thy ===== *)
theory Value_Objects
  imports Value_Walk_Safe
begin

text \<open>
  The object a VALUE denotes in a state of the VM, and steps of the walk over VALUEs that do
  what the walker over objects (Gen_Walker) does.  An object denotes the same as long as a frame
  holds it and no callback changes it: what a VALUE is, is said of every state that calls holding
  it can lead to.
\<close>

section \<open>Later states\<close>

definition holding_step :: "'w walk_env \<Rightarrow> VALUE \<Rightarrow> 'w \<Rightarrow> 'w \<Rightarrow> bool" where
  "holding_step W x w w' \<longleftrightarrow> (\<exists>c v held. x \<in> set held \<and> w' = wd_after W c v held w)"

abbreviation while_held :: "'w walk_env \<Rightarrow> VALUE \<Rightarrow> 'w \<Rightarrow> 'w \<Rightarrow> bool" where
  "while_held W x \<equiv> (holding_step W x)\<^sup>*\<^sup>*"

lemma while_held_call: "x \<in> set held \<Longrightarrow> while_held W x w (wd_after W c v held w)"
  by (rule r_into_rtranclp) (auto simp: holding_step_def)

section \<open>What calls answer\<close>

text \<open>A String as the walker sees it: its bytes and header, and what transcoding it gives.\<close>

definition string_at :: "'w walk_env \<Rightarrow> 'w \<Rightarrow> VALUE \<Rightarrow> gstr \<Rightarrow> bool" where
  "string_at W w v g \<longleftrightarrow>
     wd_type W w v = Some T_STRING \<and> header_law (wd_api W w) v \<and> gs_id g = unat v \<and>
     gs_frozen g = key_frozen (wd_api W w) v \<and> gs_cr g = coderange_of (wd_api W w) v \<and>
     gs_enc g = encoding_of (wd_api W w) v \<and> gs_bytes g = ra_bytes (wd_api W w) v \<and>
     (\<forall>held. case protected_encode_utf8 (wd_api W w) v of
        Inl e \<Rightarrow> gs_encoded g = Inl e
      | Inr u \<Rightarrow>
          let w' = wd_after W CallEncode v held w
          in wd_type W w' u = Some T_STRING \<and> header_law (wd_api W w') u \<and>
             gs_encoded g = Inr (coderange_of (wd_api W w') u, ra_bytes (wd_api W w') u))"

text \<open>A call on a VALUE that answers a String, or raises.\<close>

definition answers_string :: "'w walk_env \<Rightarrow> vm_call \<Rightarrow> 'w \<Rightarrow> VALUE \<Rightarrow> exc + VALUE \<Rightarrow> exc + gstr \<Rightarrow> bool" where
  "answers_string W c w v answer r \<longleftrightarrow>
     (case answer of
        Inl e \<Rightarrow> r = Inl e
      | Inr str \<Rightarrow> \<exists>g. r = Inr g \<and> (\<forall>held. string_at W (wd_after W c v held w) str g))"

text \<open>\<open>inspect\<close>: its String keeps its bytes while it is held.\<close>

definition inspects :: "'w walk_env \<Rightarrow> 'w \<Rightarrow> VALUE \<Rightarrow> exc + bytes \<Rightarrow> bool" where
  "inspects W w v r \<longleftrightarrow>
     (case protected_inspect (wd_api W w) v of
        Inl e \<Rightarrow> r = Inl e
      | Inr str \<Rightarrow> \<exists>b. r = Inr b \<and>
          (\<forall>held w'. while_held W str (wd_after W CallInspect v held w) w' \<longrightarrow>
             wd_type W w' str = Some T_STRING \<and> ra_bytes (wd_api W w') str = b))"

text \<open>What \<open>to_json\<close> returned, if it is a String.\<close>

definition string_of :: "'w walk_env \<Rightarrow> 'w \<Rightarrow> VALUE \<Rightarrow> bytes option" where
  "string_of W w json =
     (if \<not> SPECIAL_CONST_P W json \<and> wd_type W w json = Some T_STRING then Some (ra_bytes (wd_api W w) json) else None)"

definition answers_json :: "'w walk_env \<Rightarrow> gen_statics \<Rightarrow> 'w \<Rightarrow> VALUE \<Rightarrow> exc + bytes option \<Rightarrow> bool" where
  "answers_json W st w v r \<longleftrightarrow>
     (case protected_to_json (wd_api W w) st v of
        Inl e \<Rightarrow> r = Inl e
      | Inr json \<Rightarrow>
          \<forall>held. let w' = wd_after W CallToJson v held w
                 in valid W w' json \<and> json \<noteq> QUNDEF (wd_api W w') \<and> r = Inr (string_of W w' json))"

definition answers_if_responds :: "'w walk_env \<Rightarrow> gen_statics \<Rightarrow> 'w \<Rightarrow> VALUE \<Rightarrow> exc + bytes option \<Rightarrow> bool" where
  "answers_if_responds W st w v r \<longleftrightarrow>
     (case ra_respond_to (wd_api W w) v (fst (to_json_id (wd_api W w) st)) of
        Inl e \<Rightarrow> r = Inl e
      | Inr responds \<Rightarrow>
          if responds = 0 then r = Inr None
          else \<forall>held. answers_json W st (wd_after W CallRespondTo v (v # held) w) v r)"

section \<open>Keys and objects\<close>

definition symbol_at :: "'w walk_env \<Rightarrow> 'w \<Rightarrow> VALUE \<Rightarrow> gstr \<Rightarrow> bool" where
  "symbol_at W w v g \<longleftrightarrow>
     (STATIC_SYM_P W v \<or> wd_type W w v = Some T_SYMBOL) \<and> string_at W w (wd_sym2str W w v) g"

fun key_at :: "'w walk_env \<Rightarrow> 'w \<Rightarrow> VALUE \<Rightarrow> rkey \<Rightarrow> bool" where
  "key_at W w k (KStr g) = string_at W w k g"
| "key_at W w k (KSymbol g) = symbol_at W w k g"
| "key_at W w k (KOtherKey r) =
     (valid W w k \<and> \<not> STATIC_SYM_P W k \<and> wd_type W w k \<notin> {Some T_STRING, Some T_SYMBOL} \<and>
      answers_string W CallToS w k (protected_to_s (wd_api W w) k) r)"

text \<open>The text of a key as \<open>inspect\<close> shows it in the message of the duplicate check.\<close>

definition inspected_key :: "'w walk_env \<Rightarrow> 'w \<Rightarrow> VALUE \<Rightarrow> rkey \<Rightarrow> bool" where
  "inspected_key W w k rk \<longleftrightarrow>
     (case rk of
        KStr g \<Rightarrow> inspects W w k (em_inspect (we_emitter W) g)
      | KSymbol g \<Rightarrow> inspects W w (wd_sym2str W w k) (em_inspect (we_emitter W) g)
      | KOtherKey r \<Rightarrow>
          (\<forall>str g held. protected_to_s (wd_api W w) k = Inr str \<and> r = Inr g \<longrightarrow>
             inspects W (wd_after W CallToS k held w) str (em_inspect (we_emitter W) g)))"

text \<open>An object without a builtin representation, and an immediate that is none of the known ones.\<close>

definition other_at :: "'w walk_env \<Rightarrow> gen_statics \<Rightarrow> 'w \<Rightarrow> VALUE \<Rightarrow> other_info \<Rightarrow> bool" where
  "other_at W st w v info \<longleftrightarrow>
     (if SPECIAL_CONST_P W v
      then \<not> FIXNUM_P W v \<and> \<not> FLONUM_P W v \<and> \<not> STATIC_SYM_P W v \<and> v \<notin> {wd_QNIL W, wd_QTRUE W, wd_QFALSE W}
      else wd_type W w v = Some T_OTHER) \<and>
     wd_classname W w v = oi_class info \<and>
     fragment_now (wd_api W w) v = oi_is_fragment info \<and>
     answers_json W st w v (oi_to_json info) \<and>
     answers_if_responds W st w v (oi_to_json_if_responds info) \<and>
     answers_string W CallToS w v (protected_to_s (wd_api W w) v) (oi_to_s info)"

text \<open>The pairs \<open>rb_hash_foreach\<close> visits from a position on.\<close>

fun visits :: "(nat \<Rightarrow> (VALUE \<times> VALUE \<times> nat) option) \<Rightarrow> nat \<Rightarrow> (VALUE \<times> VALUE) list \<Rightarrow> bool" where
  "visits next pos [] = (next pos = None)"
| "visits next pos ((k, v) # ps) = (\<exists>pos'. next pos = Some (k, v, pos') \<and> visits next pos' ps)"

inductive denotes :: "'w walk_env \<Rightarrow> gen_statics \<Rightarrow> 'w \<Rightarrow> VALUE \<Rightarrow> robj \<Rightarrow> bool"
  for W :: "'w walk_env" and st :: gen_statics
where
  Nil: "denotes W st w (wd_QNIL W) ONilV"
| True: "denotes W st w (wd_QTRUE W) OTrueV"
| False: "denotes W st w (wd_QFALSE W) OFalseV"
| Fixnum: "FIXNUM_P W v \<Longrightarrow> denotes W st w v (OFix (FIX2LONG W v))"
| Flonum: "FLONUM_P W v \<Longrightarrow> (\<And>w'. wd_num2dbl W w' v = f) \<Longrightarrow> denotes W st w v (OFlonum f)"
| Float: "(\<And>w'. while_held W v w w' \<Longrightarrow> wd_type W w' v = Some T_FLOAT \<and> wd_num2dbl W w' v = f) \<Longrightarrow>
    denotes W st w v (OHeapFloat f)"
| Bignum: "(\<And>w'. while_held W v w w' \<Longrightarrow> wd_type W w' v = Some T_BIGNUM \<and>
      (\<forall>held. let w2 = wd_after W CallBig2str v held w'
              in wd_type W w2 (wd_big2str W w' v) = Some T_STRING \<and> ra_bytes (wd_api W w2) (wd_big2str W w' v) = digits)) \<Longrightarrow>
    denotes W st w v (OBig digits)"
| String: "(\<And>w'. while_held W v w w' \<Longrightarrow> string_at W w' v g) \<Longrightarrow> denotes W st w v (OStr g)"
| Symbol: "(\<And>w'. while_held W v w w' \<Longrightarrow> symbol_at W w' v g) \<Longrightarrow> denotes W st w v (OSym g)"
| Array: "(\<And>w'. while_held W v w w' \<Longrightarrow>
      wd_type W w' v = Some T_ARRAY \<and> wd_array W w' v = xs \<and> list_all2 (denotes W st w') xs vs) \<Longrightarrow>
    denotes W st w v (OArr vs)"
| Hash: "visits next 0 ps \<Longrightarrow>
    (\<And>w'. while_held W v w w' \<Longrightarrow>
      wd_type W w' v = Some T_HASH \<and> wd_hash_size W w' v = length ps \<and> wd_next W w' v = next \<and>
      inspects W w' v hash_inspect \<and>
      list_all2 (\<lambda>p kv. key_at W w' (fst p) (fst kv) \<and> inspected_key W w' (fst p) (fst kv) \<and>
        denotes W st w' (snd p) (snd kv)) ps kvs) \<Longrightarrow>
    denotes W st w v (OHsh hash_inspect kvs)"
| Other: "(\<And>w'. while_held W v w w' \<Longrightarrow> other_at W st w' v info) \<Longrightarrow>
    (\<And>w' e. while_held W v w w' \<Longrightarrow> protected_as_json (wd_api W w') st v = Inl e \<Longrightarrow> asj = AsRaise e) \<Longrightarrow>
    (\<And>w'. while_held W v w w' \<Longrightarrow> protected_as_json (wd_api W w') st v = Inr v \<Longrightarrow> asj = AsSelf) \<Longrightarrow>
    (\<And>w' json held. while_held W v w w' \<Longrightarrow> protected_as_json (wd_api W w') st v = Inr json \<Longrightarrow> json \<noteq> v \<Longrightarrow>
      \<exists>obj. asj = AsValue obj \<and> denotes W st (wd_after W CallAsJson v held w') json obj) \<Longrightarrow>
    denotes W st w v (OOther info asj)"

inductive_cases denotesE:
  "denotes W st w v ONilV" "denotes W st w v OTrueV" "denotes W st w v OFalseV" "denotes W st w v (OFix i)"
  "denotes W st w v (OFlonum f)" "denotes W st w v (OHeapFloat f)" "denotes W st w v (OBig b)"
  "denotes W st w v (OStr g)" "denotes W st w v (OSym g)" "denotes W st w v (OArr vs)"
  "denotes W st w v (OHsh hi kvs)" "denotes W st w v (OOther info asj)"

end
