(* ===== verification/Value_Steps.thy ===== *)
theory Value_Steps
  imports Value_Objects
begin

text \<open>
  Steps of the walk over VALUEs that do what steps of the walker over objects do: the relation
  between the two, its rules, and the steps below arrays and hashes (strings, floats, keys,
  pairs, objects of other classes).
\<close>

section \<open>A VM without surprises\<close>

text \<open>
  What the VM and its headers promise: coderanges and encodings are told apart, the encoding
  indexes and immediates are constants, a class that is found stays, tags exclude each other, and
  the kernels write no more than their longest text.
\<close>

definition vm_contract :: "'w walk_env \<Rightarrow> gen_statics \<Rightarrow> bool" where
  "vm_contract W st \<longleftrightarrow>
     (\<forall>w. api_law (wd_api W w)) \<and>
     (\<forall>w. utf8_encindexes (wd_api W w) st = ((ra_utf8_encindex (wd_api W w), ra_usascii_encindex (wd_api W w)), st)) \<and>
     (\<forall>w c v held cls. resolve_json_fragment (wd_api W w) = Inr cls \<longrightarrow> cls \<noteq> 0 \<longrightarrow>
        resolve_json_fragment (wd_api W (wd_after W c v held w)) = Inr cls) \<and>
     {wd_QNIL W, wd_QTRUE W, wd_QFALSE W} \<subseteq> {v. SPECIAL_CONST_P W v \<and> \<not> FIXNUM_P W v \<and> \<not> FLONUM_P W v} \<and>
     distinct [wd_QNIL W, wd_QTRUE W, wd_QFALSE W] \<and>
     (\<forall>v. FIXNUM_P W v \<longrightarrow> \<not> FLONUM_P W v) \<and>
     (\<forall>v. STATIC_SYM_P W v \<longrightarrow> \<not> FIXNUM_P W v \<and> \<not> FLONUM_P W v \<and> v \<notin> {wd_QNIL W, wd_QTRUE W, wd_QFALSE W}) \<and>
     tag_law W \<and> kernel_law W"

lemma vm_contractD:
  assumes "vm_contract W st"
  shows "api_law (wd_api W w)"
    and "utf8_encindexes (wd_api W w) st = ((ra_utf8_encindex (wd_api W w), ra_usascii_encindex (wd_api W w)), st)"
    and "resolve_json_fragment (wd_api W w) = Inr cls \<Longrightarrow> cls \<noteq> 0 \<Longrightarrow>
      resolve_json_fragment (wd_api W (wd_after W c v held w)) = Inr cls"
    and "tag_law W" and "kernel_law W"
  using assms unfolding vm_contract_def by simp_all

section \<open>Steps\<close>

text \<open>The statics as they were warmed up; a cached class is the one the VM has.\<close>

definition statics_fine :: "'w walk_env \<Rightarrow> gen_statics \<Rightarrow> 'w vm_state \<Rightarrow> bool" where
  "statics_fine W st s \<longleftrightarrow>
     wk_statics s = st\<lparr>FRAGMENT := FRAGMENT (wk_statics s)\<rparr> \<and>
     (FRAGMENT (wk_statics s) = 0 \<or> resolve_json_fragment (wd_api W (wk_world s)) = Inr (FRAGMENT (wk_statics s)))"

definition leads :: "'w walk_env \<Rightarrow> gen_statics \<Rightarrow> VALUE list \<Rightarrow> 'w vm_state \<Rightarrow> 'w vm_state \<Rightarrow> bool" where
  "leads W st held s s' \<longleftrightarrow>
     statics_fine W st s' \<and> (\<forall>x \<in> set held. while_held W x (wk_world s) (wk_world s')) \<and>
     (gn_out (wk_gen s) \<noteq> [] \<longrightarrow> gn_out (wk_gen s') \<noteq> [])"

text \<open>
  \<open>does m s p\<close>: from \<open>s\<close> the step does what the walker over objects does to the fields of \<open>Gen\<close>.
  \<open>gets m s Q\<close>: it gives a result for which \<open>Q\<close> holds, and leaves them alone.
\<close>

definition does :: "'w walk_env \<Rightarrow> gen_statics \<Rightarrow> VALUE list \<Rightarrow> 'w step \<Rightarrow> 'w vm_state \<Rightarrow> walk \<Rightarrow> bool" where
  "does W st held m s p \<longleftrightarrow> (statics_fine W st s \<longrightarrow>
     (case p of
        Inl g \<Rightarrow> \<exists>s'. m s = Failed s' \<and> wk_gen s' = g \<and> leads W st held s s'
      | Inr g \<Rightarrow> \<exists>s'. m s = Returned () s' \<and> wk_gen s' = g \<and> leads W st held s s'))"

definition gets ::
  "'w walk_env \<Rightarrow> gen_statics \<Rightarrow> VALUE list \<Rightarrow> ('w vm_state, 'a) action \<Rightarrow> 'w vm_state \<Rightarrow> ('a \<Rightarrow> 'w vm_state \<Rightarrow> bool) \<Rightarrow> bool" where
  "gets W st held m s Q \<longleftrightarrow> (statics_fine W st s \<longrightarrow>
     (\<exists>x s'. m s = Returned x s' \<and> wk_gen s' = wk_gen s \<and> leads W st held s s' \<and> Q x s'))"

lemma leads_refl: "statics_fine W st s \<Longrightarrow> leads W st held s s"
  by (simp add: leads_def)

lemma leads_trans:
  "leads W st held s s' \<Longrightarrow> leads W st held' s' s'' \<Longrightarrow> set held \<subseteq> set held' \<Longrightarrow> leads W st held s s''"
  by (auto simp: leads_def intro: rtranclp_trans)

lemma leads_fewer: "leads W st held' s s' \<Longrightarrow> set held \<subseteq> set held' \<Longrightarrow> leads W st held s s'"
  by (auto simp: leads_def)

lemma leads_held: "leads W st held s s' \<Longrightarrow> x \<in> set held \<Longrightarrow> while_held W x (wk_world s) (wk_world s')"
  by (simp add: leads_def)

lemma leads_fine: "leads W st held s s' \<Longrightarrow> statics_fine W st s'"
  by (simp add: leads_def)

lemma does_fewer: "does W st held' m s p \<Longrightarrow> set held \<subseteq> set held' \<Longrightarrow> does W st held m s p"
  unfolding does_def by (fastforce split: sum.splits intro: leads_fewer)

lemma does_then:
  assumes "does W st held' m s p" and "set held \<subseteq> set held'"
    and "\<And>s'. leads W st held' s s' \<Longrightarrow> p = Inr (wk_gen s') \<Longrightarrow> does W st held (k ()) s' (q (wk_gen s'))"
  shows "does W st held (andthen m k) s (tryr p q)"
proof (cases p)
  case (Inl g)
  with assms(1,2) show ?thesis by (fastforce simp: does_def andthen_def intro: leads_fewer)
next
  case (Inr g)
  show ?thesis
    unfolding does_def
  proof
    assume "statics_fine W st s"
    with assms(1) Inr obtain s' where s': "m s = Returned () s'" "wk_gen s' = g" "leads W st held' s s'"
      by (auto simp: does_def)
    from assms(3) [OF s'(3)] s' Inr have "does W st held (k ()) s' (q g)" by simp
    with leads_fine [OF s'(3)] leads_trans [OF leads_fewer [OF s'(3) assms(2)]] Inr s'
    show "case tryr p q of
        Inl g \<Rightarrow> \<exists>s'. andthen m k s = Failed s' \<and> wk_gen s' = g \<and> leads W st held s s'
      | Inr g \<Rightarrow> \<exists>s'. andthen m k s = Returned () s' \<and> wk_gen s' = g \<and> leads W st held s s'"
      by (fastforce simp: does_def andthen_def split: sum.splits)
  qed
qed

lemma gets_does:
  assumes "gets W st held' m s Q" and "set held \<subseteq> set held'"
    and "\<And>x s'. Q x s' \<Longrightarrow> wk_gen s' = wk_gen s \<Longrightarrow> leads W st held' s s' \<Longrightarrow> does W st held (k x) s' p"
  shows "does W st held (andthen m k) s p"
  unfolding does_def
proof
  assume "statics_fine W st s"
  with assms(1) obtain x s' where s': "m s = Returned x s'" "wk_gen s' = wk_gen s" "leads W st held' s s'" "Q x s'"
    by (auto simp: gets_def)
  from assms(3) [OF s'(4,2,3)] leads_fine [OF s'(3)] leads_trans [OF leads_fewer [OF s'(3) assms(2)]] s'
  show "case p of
      Inl g \<Rightarrow> \<exists>s'. andthen m k s = Failed s' \<and> wk_gen s' = g \<and> leads W st held s s'
    | Inr g \<Rightarrow> \<exists>s'. andthen m k s = Returned () s' \<and> wk_gen s' = g \<and> leads W st held s s'"
    by (fastforce simp: does_def andthen_def split: sum.splits)
qed

lemma gets_then:
  assumes "gets W st held' m s Q" and "set held \<subseteq> set held'"
    and "\<And>x s'. Q x s' \<Longrightarrow> wk_gen s' = wk_gen s \<Longrightarrow> leads W st held' s s' \<Longrightarrow> gets W st held (k x) s' R"
  shows "gets W st held (andthen m k) s R"
  unfolding gets_def
proof
  assume "statics_fine W st s"
  with assms(1) obtain x s' where s': "m s = Returned x s'" "wk_gen s' = wk_gen s" "leads W st held' s s'" "Q x s'"
    by (auto simp: gets_def)
  from assms(3) [OF s'(4,2,3)] leads_fine [OF s'(3)] leads_trans [OF leads_fewer [OF s'(3) assms(2)]] s'
  show "\<exists>x s'. andthen m k s = Returned x s' \<and> wk_gen s' = wk_gen s \<and> leads W st held s s' \<and> R x s'"
    by (fastforce simp: gets_def andthen_def)
qed

lemma gets_weaken:
  "gets W st held' m s Q \<Longrightarrow> set held \<subseteq> set held' \<Longrightarrow> (\<And>x s'. leads W st held' s s' \<Longrightarrow> Q x s' \<Longrightarrow> R x s') \<Longrightarrow> gets W st held m s R"
  unfolding gets_def by (blast intro: leads_fewer)

text \<open>A step whose result is known and that leaves the state as it is.\<close>

lemma gets_pure: "m s = Returned x s \<Longrightarrow> Q x s \<Longrightarrow> gets W st held m s Q"
  by (auto simp: gets_def intro: leads_refl)

lemma gets_give: "Q x s \<Longrightarrow> gets W st held (give x) s Q"
  by (rule gets_pure) (simp add: give_def)

lemma pure_does: "m s = Returned x s \<Longrightarrow> does W st held (k x) s p \<Longrightarrow> does W st held (andthen m k) s p"
  by (rule gets_does [OF gets_pure [where Q = "\<lambda>y s'. y = x \<and> s' = s"]]) auto

lemma pure_gets: "m s = Returned x s \<Longrightarrow> gets W st held (k x) s R \<Longrightarrow> gets W st held (andthen m k) s R"
  by (rule gets_then [OF gets_pure [where Q = "\<lambda>y s'. y = x \<and> s' = s"]]) auto

lemma does_give: "does W st held (give ()) s (Inr (wk_gen s))"
  by (simp add: does_def give_def leads_refl)

lemma does_push: "does W st held (push_bytes b) s (Inr (put b (wk_gen s)))"
  by (auto simp: does_def push_bytes_def leads_def statics_fine_def)

lemma does_fails: "does W st held (fails f) s (failing f (wk_gen s))"
  by (auto simp: does_def fails_def failing_def leads_def statics_fine_def)

lemma andthen_give [simp]: "andthen (give x) k = k x"
  by (rule ext) (simp add: andthen_def give_def)

lemma andthen_fails [simp]: "andthen (fails f) k = fails f"
  by (rule ext) (simp add: andthen_def fails_def)

lemma andthen_assoc: "andthen (andthen m f) k = andthen m (\<lambda>x. andthen (f x) k)"
  by (rule ext) (simp add: andthen_def split: outcome.split)

lemma does_or_fail:
  "(\<And>x. r = Inr x \<Longrightarrow> does W st held (k x) s (q x)) \<Longrightarrow> does W st held (andthen (or_fail r) k) s (ask (wk_gen s) r q)"
  by (cases r) (simp_all add: does_fails)

text \<open>A push, and one under a condition, before the rest.\<close>

lemma does_push_then:
  assumes "\<And>s'. wk_world s' = wk_world s \<Longrightarrow> wk_statics s' = wk_statics s \<Longrightarrow> wk_gen s' = put b (wk_gen s) \<Longrightarrow>
      does W st held (k ()) s' p"
  shows "does W st held (andthen (push_bytes b) k) s p"
proof -
  have "does W st held (k ()) (s\<lparr>wk_gen := put b (wk_gen s)\<rparr>) p" by (rule assms) simp_all
  moreover have "statics_fine W st (s\<lparr>wk_gen := put b (wk_gen s)\<rparr>) = statics_fine W st s" by (simp add: statics_fine_def)
  moreover have "leads W st held (s\<lparr>wk_gen := put b (wk_gen s)\<rparr>) s' \<Longrightarrow> leads W st held s s'" for s'
    by (auto simp: leads_def)
  ultimately show ?thesis
    by (fastforce simp: does_def andthen_def push_bytes_def split: sum.splits)
qed

lemma does_only_push_then:
  assumes "\<And>s'. wk_world s' = wk_world s \<Longrightarrow> wk_statics s' = wk_statics s \<Longrightarrow>
      wk_gen s' = (if c then put b (wk_gen s) else wk_gen s) \<Longrightarrow> does W st held (k ()) s' p"
  shows "does W st held (andthen (only_if c (push_bytes b)) k) s p"
proof (cases c)
  case True
  then show ?thesis by (simp add: only_if_def) (rule does_push_then, rule assms, simp_all)
next
  case False
  then show ?thesis by (simp add: only_if_def) (rule assms, simp_all)
qed

text \<open>The statics may be assumed fine.\<close>

lemma doesI: "(statics_fine W st s \<Longrightarrow> does W st held m s p) \<Longrightarrow> does W st held m s p"
  by (simp add: does_def)

lemma getsI: "(statics_fine W st s \<Longrightarrow> gets W st held m s Q) \<Longrightarrow> gets W st held m s Q"
  by (simp add: gets_def)

text \<open>A protected call whose exception is raised again.\<close>

lemma does_reraised:
  assumes "gets W st held' m s Q" and "set held \<subseteq> set held'"
    and "\<And>e s'. Q (Inl e) s' \<Longrightarrow> r = Inl e"
    and "\<And>v s'. Q (Inr v) s' \<Longrightarrow> wk_gen s' = wk_gen s \<Longrightarrow> leads W st held' s s' \<Longrightarrow>
      \<exists>y. r = Inr y \<and> does W st held (k v) s' (q y)"
  shows "does W st held (andthen (reraised m) k) s (ask (wk_gen s) (reraise r) q)"
  unfolding reraised_def andthen_assoc
proof (rule gets_does [OF assms(1,2)], goal_cases)
  case (1 x s')
  show ?case
  proof (cases x)
    case (Inl e)
    with 1 assms(3) have "r = Inl e" by blast
    with Inl 1 does_fails [of W st held "Reraise e" s'] show ?thesis by (simp add: reraise_def)
  next
    case (Inr v)
    with 1 assms(4) obtain y where "r = Inr y" "does W st held (k v) s' (q y)" by blast
    with Inr show ?thesis by (simp add: reraise_def)
  qed
qed

lemma gets_protect:
  assumes "vm_contract W st" and "valid W (wk_world s) v" and "set held \<subseteq> set held'"
    and "\<And>s'. wk_world s' = wd_after W c v held' (wk_world s) \<Longrightarrow> wk_statics s' = wk_statics s \<Longrightarrow>
      leads W st held' s s' \<Longrightarrow> Q (answer (wd_api W (wk_world s)) (wk_statics s)) s'"
  shows "gets W st held (protect W c v held' answer) s Q"
proof (rule getsI)
  assume fine: "statics_fine W st s"
  let ?s = "s\<lparr>wk_world := wd_after W c v held' (wk_world s)\<rparr>"
  have "statics_fine W st ?s"
    using fine vm_contractD(3) [OF assms(1), of "wk_world s" "FRAGMENT (wk_statics s)"]
    by (auto simp: statics_fine_def)
  then have "leads W st held' s ?s" by (simp add: leads_def while_held_call)
  with leads_fewer [OF this assms(3)] assms(2,4) show "gets W st held (protect W c v held' answer) s Q"
    by (auto simp: gets_def protect_def)
qed

text \<open>Reads.\<close>

lemma read_as_type:
  "wd_type W (wk_world s) v = Some t \<Longrightarrow> tag_law W \<Longrightarrow> read_as W t v f s = Returned (f (wk_world s)) s"
  by (auto simp: read_as_def expect_def andthen_def type_of_def tag_law_def)

lemma type_of_type: "wd_type W (wk_world s) v = Some t \<Longrightarrow> tag_law W \<Longrightarrow> type_of W v s = Returned t s"
  by (auto simp: type_of_def tag_law_def)

lemma fine_encindexes:
  assumes "vm_contract W st" and "statics_fine W st s"
  shows "encindexes W s = Returned (ra_utf8_encindex (wd_api W (wk_world s)), ra_usascii_encindex (wd_api W (wk_world s))) s"
proof -
  obtain f where f: "wk_statics s = st\<lparr>FRAGMENT := f\<rparr>" using assms(2) by (auto simp: statics_fine_def)
  have i: "utf8_encindexes (wd_api W (wk_world s)) st =
      ((ra_utf8_encindex (wd_api W (wk_world s)), ra_usascii_encindex (wd_api W (wk_world s))), st)"
    by (rule vm_contractD(2) [OF assms(1)])
  have st: "st\<lparr>IDX := IDX st\<rparr> = st" "st\<lparr>FRAGMENT := f\<rparr>\<lparr>IDX := IDX st\<rparr> = st\<lparr>FRAGMENT := f\<rparr>" by simp_all
  from i have idx: "Some (get_or_init (IDX st) (ra_utf8_encindex (wd_api W (wk_world s)), ra_usascii_encindex (wd_api W (wk_world s)))) = IDX st"
    by (simp add: utf8_encindexes_def Let_def) (metis gen_statics.select_convs(3) gen_statics.surjective gen_statics.update_convs(3))
  from i idx f st(2) show ?thesis
    by (cases s) (simp add: encindexes_def utf8_encindexes_def Let_def)
qed

section \<open>Strings\<close>

lemma string_header:
  assumes "vm_contract W st" and "string_at W w v g"
  shows "gs_cr g = Cr7Bit \<longleftrightarrow> str_coderange (wd_api W w) v = CR_7BIT (wd_api W w)"
    and "gs_cr g = CrValid \<longleftrightarrow> str_coderange (wd_api W w) v = CR_VALID (wd_api W w)"
    and "gs_enc g = EncUtf8 \<longleftrightarrow> str_enc_index (wd_api W w) v = ra_utf8_encindex (wd_api W w)"
    and "gs_enc g = EncUsAscii \<longleftrightarrow> str_enc_index (wd_api W w) v = ra_usascii_encindex (wd_api W w)"
    and "wd_type W w v = Some T_STRING" and "gs_bytes g = ra_bytes (wd_api W w) v"
    and "gs_id g = unat v" and "gs_frozen g = key_frozen (wd_api W w) v"
  using assms vm_contractD(1) [OF assms(1), of w] coderange_of_iff [of "wd_api W w" v] encoding_of_iff [of "wd_api W w" v]
  unfolding string_at_def api_law_def by simp_all

lemma does_convert:
  assumes "vm_contract W st" and "string_at W (wk_world s) v g"
    and "\<And>u s'. wk_gen s' = wk_gen s \<Longrightarrow> leads W st held s s' \<Longrightarrow> wd_type W (wk_world s') u = Some T_STRING \<Longrightarrow>
      does W st held (k u) s' (q (ra_bytes (wd_api W (wk_world s')) u))"
  shows "does W st held (andthen (vw_convert W held v) k) s (ask (wk_gen s) (convert_invalid_encoding g) q)"
proof (rule doesI)
  assume fine: "statics_fine W st s"
  note tag = vm_contractD(4) [OF assms(1)] and hd = string_header [OF assms(1,2)]
  have idx: "enc_index_at W v s = Returned (str_enc_index (wd_api W (wk_world s)) v) s"
    using hd(5) tag by (simp add: enc_index_at_def read_as_type)
  have val: "valid W (wk_world s) v" using hd(5) valid_object [OF tag] by blast
  have call: "does W st held (andthen (call_encode_utf8 W held v) (\<lambda>r. andthen
      (case r of
         Inl exc \<Rightarrow> fails (GeneratorFrom exc)
       | Inr v \<Rightarrow> andthen (coderange_at W v) (\<lambda>cr. andthen (headers W) (\<lambda>api.
           if cr = CR_7BIT api \<or> cr = CR_VALID api then give v else fails malformed))) k)) s
      (ask (wk_gen s) (case gs_encoded g of
          Inr (cr, b) \<Rightarrow> if cr = Cr7Bit \<or> cr = CrValid then Inr b else Inl malformed
        | Inl e \<Rightarrow> Inl (GeneratorFrom e)) q)"
    unfolding call_encode_utf8_def
  proof (rule gets_does [OF gets_protect [OF assms(1) val order_refl, where Q = "\<lambda>r s'.
        r = protected_encode_utf8 (wd_api W (wk_world s)) v \<and>
        wk_world s' = wd_after W CallEncode v held (wk_world s)"] order_refl], simp, goal_cases)
    case (1 r s')
    show ?case
    proof (cases r)
      case (Inl e)
      with 1 have "protected_encode_utf8 (wd_api W (wk_world s)) v = Inl e" by simp
      with assms(2) have "gs_encoded g = Inl e" by (simp add: string_at_def)
      with Inl 1 does_fails [of W st held "GeneratorFrom e" s'] show ?thesis by simp
    next
      case (Inr u)
      let ?api = "wd_api W (wk_world s')"
      from Inr 1 have "protected_encode_utf8 (wd_api W (wk_world s)) v = Inr u" by simp
      with 1 assms(2) have u: "wd_type W (wk_world s') u = Some T_STRING" "header_law ?api u"
        and enc: "gs_encoded g = Inr (coderange_of ?api u, ra_bytes ?api u)"
        by (auto simp: string_at_def Let_def)
      have cr: "coderange_at W u s' = Returned (str_coderange ?api u) s'"
        using u(1) tag by (simp add: coderange_at_def read_as_type)
      have k: "does W st held (k u) s' (q (ra_bytes ?api u))" by (rule assms(3)) (use 1 u in simp_all)
      have cases_cr: "coderange_of ?api u = Cr7Bit \<longleftrightarrow> str_coderange ?api u = CR_7BIT ?api"
        "coderange_of ?api u = CrValid \<longleftrightarrow> str_coderange ?api u = CR_VALID ?api"
        using coderange_of_iff [OF _ u(2)] vm_contractD(1) [OF assms(1), of "wk_world s'"] by (simp_all add: api_law_def)
      have bad: "does W st held (fails malformed) s' (failing malformed (wk_gen s))"
        using does_fails [of W st held malformed s'] 1 by simp
      show ?thesis
        unfolding Inr sum.case enc prod.case andthen_assoc
        by (rule pure_does, rule cr, rule pure_does [where x = ?api], simp add: headers_def)
          (use k bad in \<open>auto simp: cases_cr\<close>)
    qed
  qed
  show ?thesis
    unfolding vw_convert_def andthen_assoc split_def
    by (rule pure_does, rule fine_encindexes [OF assms(1) fine], rule pure_does, rule idx)
      (use does_fails [of W st held malformed s] call in \<open>simp add: hd(3) andthen_assoc\<close>)
qed

lemma does_quoted:
  assumes "vm_contract W st" and "string_at W (wk_world s) v g"
  shows "does W st held (vw_quoted W held v) s (emit_rstring_quoted (we_emitter W) (we_cfg W) g (wk_gen s))"
proof (rule doesI)
  assume fine: "statics_fine W st s"
  note tag = vm_contractD(4) [OF assms(1)] and hd = string_header [OF assms]
  let ?api = "wd_api W (wk_world s)" and ?q = "\<lambda>b. [b_quote] @ em_escape (we_emitter W) (mode (we_cfg W)) b @ [b_quote]"
  let ?valid = "gs_cr g = Cr7Bit \<or> gs_cr g = CrValid \<and> (gs_enc g = EncUtf8 \<or> gs_enc g = EncUsAscii)"
  have cr: "coderange_at W v s = Returned (str_coderange ?api v) s"
    and idx: "enc_index_at W v s = Returned (str_enc_index ?api v) s"
    using hd(5) tag by (simp_all add: coderange_at_def enc_index_at_def read_as_type)
  have bytes: "does W st held (andthen (rstring_bytes W u) (\<lambda>b. push_bytes (?q b))) s'
      (Inr (put (?q (ra_bytes (wd_api W (wk_world s')) u)) (wk_gen s')))"
    if "wd_type W (wk_world s') u = Some T_STRING" for u s'
    by (rule pure_does [where x = "ra_bytes (wd_api W (wk_world s')) u"])
      (simp_all add: rstring_bytes_def read_as_type [OF that tag] does_push [simplified])
  have valid: "(if str_coderange ?api v = CR_7BIT ?api then give True
        else if str_coderange ?api v = CR_VALID ?api
        then andthen (enc_index_at W v) (\<lambda>idx. andthen (encindexes W) (\<lambda>(utf8, usascii). give (idx = utf8 \<or> idx = usascii)))
        else give False) s = Returned ?valid s"
    using fine_encindexes [OF assms(1) fine] hd(1-4) by (auto simp: andthen_def give_def idx)
  have rest: "does W st held (andthen (if ?valid then give v else vw_convert W held v) (\<lambda>u.
      andthen (rstring_bytes W u) (\<lambda>b. push_bytes (?q b)))) s
      (ask (wk_gen s) (if ?valid then Inr (gs_bytes g) else convert_invalid_encoding g) (\<lambda>b. Inr (put (?q b) (wk_gen s))))"
  proof (cases ?valid)
    case True
    with bytes [OF hd(5)] show ?thesis by (simp add: hd(6))
  next
    case False
    have "does W st held (andthen (vw_convert W held v) (\<lambda>u. andthen (rstring_bytes W u) (\<lambda>b. push_bytes (?q b)))) s
        (ask (wk_gen s) (convert_invalid_encoding g) (\<lambda>b. Inr (put (?q b) (wk_gen s))))"
    proof (rule does_convert [OF assms], goal_cases)
      case (1 u s')
      from bytes [OF 1(3)] 1(1) show ?case by simp
    qed
    then show ?thesis unfolding if_not_P [OF False] .
  qed
  have "emit_rstring_quoted (we_emitter W) (we_cfg W) g (wk_gen s) =
      ask (wk_gen s) (if ?valid then Inr (gs_bytes g) else convert_invalid_encoding g) (\<lambda>b. Inr (put (?q b) (wk_gen s)))"
    unfolding emit_rstring_quoted_def quoted_def Let_def
    by (cases "if ?valid then Inr (gs_bytes g) else convert_invalid_encoding g") simp_all
  with rest show ?thesis
    unfolding vw_quoted_def
    by (simp only:) (rule pure_does, rule cr, rule pure_does [where x = ?api], simp add: headers_def, rule pure_does, rule valid)
qed

lemma does_float:
  assumes "num2dbl W v s = Returned f s"
  shows "does W st held (vw_float W v) s (emit_float (we_emitter W) (we_cfg W) f (wk_gen s))"
  unfolding vw_float_def emit_float_def
  by (rule pure_does, rule assms, rule does_or_fail) (rule does_push)

section \<open>Keys\<close>

text \<open>A key of a Hash, as long as the Hash is held.\<close>

definition key_stays :: "'w walk_env \<Rightarrow> 'w \<Rightarrow> VALUE \<Rightarrow> VALUE \<Rightarrow> rkey \<Rightarrow> bool" where
  "key_stays W w hash k rk \<longleftrightarrow>
     (\<forall>w'. while_held W hash w w' \<longrightarrow> key_at W w' k rk \<and> inspected_key W w' k rk)"

lemma key_staysD:
  assumes "key_stays W w hash k rk"
  shows "key_at W w k rk" and "inspected_key W w k rk"
    and "while_held W hash w w' \<Longrightarrow> key_stays W w' hash k rk"
  using assms by (auto simp: key_stays_def intro: rtranclp_trans)

lemma key_kind_at:
  assumes "vm_contract W st" and "key_at W (wk_world s) k rk"
  shows "vw_key_kind W k s = Returned (kind_of_key rk) s"
proof -
  have tag: "tag_law W" by (rule vm_contractD(4) [OF assms(1)])
  show ?thesis
  proof (cases rk)
    case (KStr g)
    with assms(2) have "wd_type W (wk_world s) k = Some T_STRING" by (simp add: string_at_def)
    with KStr tag valid_object [OF tag this] show ?thesis
      by (simp add: vw_key_kind_def andthen_def type_of_type give_def)
  next
    case (KSymbol g)
    with assms(2) valid_object [OF tag, of "wk_world s" k] tag show ?thesis
      by (auto simp: symbol_at_def vw_key_kind_def andthen_def type_of_type give_def tag_law_def)
  next
    case (KOtherKey r)
    with assms(2) tag show ?thesis
      by (auto simp: vw_key_kind_def andthen_def type_of_type give_def valid_def split: value_type.split)
  qed
qed

lemma pure_sym2str: "symbol_at W (wk_world s) k g \<Longrightarrow> tag_law W \<Longrightarrow> sym2str W k s = Returned (wd_sym2str W (wk_world s) k) s"
  by (auto simp: symbol_at_def sym2str_def read_as_type)

text \<open>The String a key renders as, and what \<open>inspect\<close> says of it.\<close>

lemma gets_key_string:
  assumes "vm_contract W st" and "key_at W (wk_world s) k rk" and "inspected_key W (wk_world s) k rk"
  shows "gets W st held (vw_key_string W held k (kind_of_key rk)) s (\<lambda>r s'.
    case r of
      Inl e \<Rightarrow> key_string rk = Inl e
    | Inr str \<Rightarrow> \<exists>g. key_string rk = Inr g \<and> string_at W (wk_world s') str g \<and>
        inspects W (wk_world s') str (em_inspect (we_emitter W) g))"
proof (cases rk)
  case (KStr g)
  with assms show ?thesis by (auto simp: vw_key_string_def inspected_key_def intro!: gets_give)
next
  case (KSymbol g)
  have sym: "sym2str W k s = Returned (wd_sym2str W (wk_world s) k) s"
    by (rule pure_sym2str [OF _ vm_contractD(4) [OF assms(1)]]) (use KSymbol assms(2) in simp)
  show ?thesis
    unfolding KSymbol by (simp add: vw_key_string_def)
      (rule pure_gets, rule sym, use KSymbol assms in \<open>auto simp: inspected_key_def symbol_at_def intro!: gets_give\<close>)
next
  case (KOtherKey r)
  with assms(2) have v: "valid W (wk_world s) k" by simp
  show ?thesis
    unfolding KOtherKey kind_of_key.simps vw_key_string_def key_kind.case call_to_s_def
  proof (rule gets_protect [OF assms(1) v order_refl], goal_cases)
    case (1 s')
    with assms(2,3) show ?case
      by (cases "protected_to_s (wd_api W (wk_world s)) k")
        (auto simp: KOtherKey answers_string_def inspected_key_def)
  qed
qed

lemma pure_frozen: "string_at W (wk_world s) k g \<Longrightarrow> tag_law W \<Longrightarrow> frozen_at W k s = Returned (gs_frozen g) s"
  by (simp add: frozen_at_def andthen_def type_of_type string_at_def)

lemma pure_cached: "vw_cached k s = Returned (kc_get (gn_keys (wk_gen s)) (unat k)) s"
  by (simp add: vw_cached_def)

lemma does_same: "m s = m' s \<Longrightarrow> does W st held m' s p \<Longrightarrow> does W st held m s p"
  by (auto simp: does_def split: sum.splits)

lemma does_key_cached:
  assumes "vm_contract W st" and "key_stays W (wk_world s) hash k (KStr g)" and "hash \<in> set held"
  shows "does W st held (vw_key_cached W held k) s (emit_key_cached (we_emitter W) (we_cfg W) g (wk_gen s))"
proof -
  have tag: "tag_law W" by (rule vm_contractD(4) [OF assms(1)])
  have str: "string_at W (wk_world s) k g" using key_staysD(1) [OF assms(2)] by simp
  then have id: "gs_id g = unat k" by (simp add: string_at_def)
  let ?start = "length (gn_out (wk_gen s))"
  have store: "does W st held (vw_store_key W k start) s'
      (Inr ((wk_gen s')\<lparr>gn_keys := kc_store (gs_id g) (drop start (gn_out (wk_gen s'))) (gn_keys (wk_gen s'))\<rparr>))"
    if "leads W st (k # held) s s'" for s' start
  proof -
    have "string_at W (wk_world s') k g"
      using key_staysD(1) [OF key_staysD(3) [OF assms(2) leads_held [OF that]]] assms(3) by simp
    then have "wd_type W (wk_world s') k = Some T_STRING" by (simp add: string_at_def)
    then show ?thesis
      unfolding vw_store_key_def
      by (intro pure_does [where x = T_STRING] type_of_type tag)
        (auto simp: does_def leads_def statics_fine_def id)
  qed
  have miss: "does W st held (andthen (vw_quoted W (k # held) k) (\<lambda>_. vw_store_key W k ?start)) s
      (tryr (emit_rstring_quoted (we_emitter W) (we_cfg W) g (wk_gen s))
        (\<lambda>t. Inr (t\<lparr>gn_keys := kc_store (gs_id g) (drop ?start (gn_out t)) (gn_keys t)\<rparr>)))"
    by (rule does_then [OF does_quoted [OF assms(1) str]]) (auto intro: store)
  show ?thesis
    unfolding vw_key_cached_def emit_key_cached_def
  proof (rule pure_does, rule pure_frozen [OF str tag], cases "\<not> gs_frozen g \<or> \<not> mode_cacheable (mode (we_cfg W))", goal_cases)
    case 1
    with does_quoted [OF assms(1) str] show ?case by simp
  next
    case 2
    show ?case
      unfolding if_not_P [OF 2]
    proof (rule pure_does, rule pure_cached, cases "kc_get (gn_keys (wk_gen s)) (gs_id g)", goal_cases)
      case 1
      then show ?case
        using does_same [OF _ miss, of "\<lambda>s. let start = length (gn_out (wk_gen s)) in andthen (vw_quoted W (k # held) k) (\<lambda>_. vw_store_key W k start) s"]
        by (simp add: id map_ok_tryr Let_def)
    next
      case (2 b)
      with does_push [of W st held b s] show ?case by (simp add: id)
    qed
  qed
qed

lemma does_key:
  assumes "vm_contract W st" and "key_stays W (wk_world s) hash k rk" and "hash \<in> set held"
  shows "does W st held (vw_key W held k (kind_of_key rk)) s (emit_key (we_emitter W) (we_cfg W) rk (wk_gen s))"
proof (cases "kind_of_key rk = KindString")
  case True
  then obtain g where "rk = KStr g" by (cases rk) auto
  with does_key_cached [OF assms(1) _ assms(3)] assms(2) show ?thesis by (simp add: vw_key_def)
next
  case False
  have "does W st held (andthen (reraised (vw_key_string W held k (kind_of_key rk))) (vw_quoted W held)) s
      (ask (wk_gen s) (reraise (key_string rk)) (\<lambda>g. emit_rstring_quoted (we_emitter W) (we_cfg W) g (wk_gen s)))"
  proof (rule does_reraised [OF gets_key_string [OF assms(1) key_staysD(1,2) [OF assms(2)]] order_refl], goal_cases)
    case (2 v s')
    then obtain g where "key_string rk = Inr g" "string_at W (wk_world s') v g" by auto
    with does_quoted [OF assms(1) this(2), of held] 2 show ?case by auto
  qed simp
  with False show ?thesis by (cases rk) (simp_all add: vw_key_def)
qed

section \<open>Pairs\<close>

lemma pure_cached_key_bytes:
  assumes "vm_contract W st" and "key_at W (wk_world s) k rk"
  shows "vw_cached_key_bytes W k (kind_of_key rk) s = Returned (cached_key_bytes (we_cfg W) (gn_keys (wk_gen s)) rk) s"
proof (cases rk)
  case (KStr g)
  with assms(2) have str: "string_at W (wk_world s) k g" by simp
  then show ?thesis
    using pure_frozen [OF str vm_contractD(4) [OF assms(1)]]
    by (simp add: KStr vw_cached_key_bytes_def andthen_def vw_cached_def give_def) (simp add: string_at_def)
qed (simp_all add: vw_cached_key_bytes_def give_def)

lemma raw_store_fits:
  "length (gn_out (wk_gen s)) + length b \<le> limit \<Longrightarrow> raw_store limit b s = push_bytes b s"
  by (simp add: raw_store_def)

lemma does_raw_then:
  assumes "length (gn_out (wk_gen s)) + length b \<le> limit"
    and "\<And>s'. wk_world s' = wk_world s \<Longrightarrow> wk_statics s' = wk_statics s \<Longrightarrow> wk_gen s' = put b (wk_gen s) \<Longrightarrow>
      does W st held (k ()) s' p"
  shows "does W st held (andthen (raw_store limit b) k) s p"
proof (rule does_same)
  show "andthen (raw_store limit b) k s = andthen (push_bytes b) k s"
    using raw_store_fits [OF assms(1)] by (simp add: andthen_def)
  show "does W st held (andthen (push_bytes b) k) s p" by (rule does_push_then) (rule assms(2))
qed

lemma does_only_raw_then:
  assumes "c \<Longrightarrow> length (gn_out (wk_gen s)) + length b \<le> limit"
    and "\<And>s'. wk_world s' = wk_world s \<Longrightarrow> wk_statics s' = wk_statics s \<Longrightarrow>
      wk_gen s' = (if c then put b (wk_gen s) else wk_gen s) \<Longrightarrow> does W st held (k ()) s' p"
  shows "does W st held (andthen (only_if c (raw_store limit b)) k) s p"
  using assms(2) by (cases c) (auto simp: only_if_def intro!: does_raw_then assms)

lemma does_raw_store:
  "length (gn_out (wk_gen s)) + length b \<le> limit \<Longrightarrow> does W st held (raw_store limit b) s (Inr (put b (wk_gen s)))"
  by (rule does_same [OF raw_store_fits does_push])

lemma does_raw_number:
  "length (gn_out (wk_gen s)) + longest \<le> limit \<Longrightarrow> length t \<le> longest \<Longrightarrow>
     does W st held (raw_number limit longest t) s (Inr (put t (wk_gen s)))"
  by (rule does_same [OF _ does_push]) (simp add: raw_number_def)

lemma pure_reserve: "reserve n s = Returned (length (gn_out (wk_gen s)) + n) s"
  by (simp add: reserve_def)

text \<open>The fused prefix of a pair.\<close>

lemma does_pair_prefix:
  assumes "vm_contract W st" and "key_stays W (wk_world s) hash k rk" and "hash \<in> set held"
  shows "does W st held (vw_pair_prefix W held k (kind_of_key rk) comma) s
    (emit_pair_prefix_compact (we_emitter W) (we_cfg W) rk comma (wk_gen s))"
  unfolding vw_pair_prefix_def emit_pair_prefix_compact_def
proof (rule pure_does, rule pure_cached_key_bytes [OF assms(1) key_staysD(1) [OF assms(2)]],
    cases "cached_key_bytes (we_cfg W) (gn_keys (wk_gen s)) rk", goal_cases)
  case 1
  have key: "does W st held (andthen (vw_key W held k (kind_of_key rk)) (\<lambda>_. push_bytes [b_colon])) s'
      (map_ok (put [b_colon]) (emit_key (we_emitter W) (we_cfg W) rk (wk_gen s')))"
    if "wk_world s' = wk_world s" for s'
    unfolding map_ok_tryr
    by (rule does_then [OF does_key [OF assms(1) _ assms(3)] order_refl]) (use assms(2) that in \<open>auto intro: does_push\<close>)
  show ?case
    unfolding 1 option.case Let_def
  proof (rule does_only_push_then, goal_cases)
    case (1 s')
    from key [OF 1(1)] 1(3) show ?case by simp
  qed
next
  case (2 b)
  let ?t = "(if comma then [b_comma] else []) @ b @ [b_colon]"
  show ?case
    unfolding 2 option.case
  proof (rule pure_does, rule pure_reserve, rule does_only_raw_then, simp, goal_cases)
    case (1 s1)
    then show ?case
    proof (intro does_raw_then, simp split: if_splits, goal_cases)
      case (1 s2)
      then have "put [b_colon] (wk_gen s2) = put ?t (wk_gen s)"
        "length (gn_out (wk_gen s2)) + 1 \<le> length (gn_out (wk_gen s)) + (length b + 2)"
        by (auto split: if_splits)
      with does_raw_store [of s2 "[b_colon]" _ W st held] show ?case by (metis One_nat_def length_Cons list.size(3))
    qed
  qed
qed

lemma does_pair_int:
  assumes "vm_contract W st" and "key_stays W (wk_world s) hash k rk" and "hash \<in> set held" and "i64_range i"
  shows "does W st held (vw_pair_int W held k (kind_of_key rk) comma i) s
    (emit_pair_int_compact (we_emitter W) (we_cfg W) rk comma i (wk_gen s))"
  unfolding vw_pair_int_def emit_pair_int_compact_def
proof (rule pure_does, rule pure_cached_key_bytes [OF assms(1) key_staysD(1) [OF assms(2)]],
    cases "cached_key_bytes (we_cfg W) (gn_keys (wk_gen s)) rk", goal_cases)
  case 1
  show ?case
    unfolding 1 option.case map_ok_tryr
    by (rule does_then [OF does_pair_prefix [OF assms(1-3)] order_refl]) (rule does_push)
next
  case (2 b)
  let ?n = "em_i64 (we_emitter W) i"
  have short: "length ?n \<le> I64_MAX_LEN W"
    using vm_contractD(5) [OF assms(1)] assms(4) by (simp add: kernel_law_def)
  let ?t = "(if comma then [b_comma] else []) @ b @ [b_colon] @ ?n"
  show ?case
    unfolding 2 option.case
  proof (rule pure_does, rule pure_reserve, rule does_only_raw_then, simp, goal_cases)
    case (1 s1)
    then show ?case
    proof (intro does_raw_then, simp split: if_splits, simp split: if_splits, goal_cases)
      case (1 s2 s3)
      then have t: "put ?n (wk_gen s3) = put ?t (wk_gen s)"
        and room: "length (gn_out (wk_gen s3)) + I64_MAX_LEN W \<le> length (gn_out (wk_gen s)) + (length b + 2 + I64_MAX_LEN W)"
        by (auto split: if_splits)
      from does_raw_number [OF room short] show ?case unfolding t .
    qed
  qed
qed

section \<open>The duplicate-key check\<close>

text \<open>The Hash is visited the same as long as it is held.\<close>

definition hash_stays :: "'w walk_env \<Rightarrow> 'w \<Rightarrow> VALUE \<Rightarrow> (nat \<Rightarrow> (VALUE \<times> VALUE \<times> nat) option) \<Rightarrow> exc + bytes \<Rightarrow> bool" where
  "hash_stays W w hash next hash_inspect \<longleftrightarrow>
     (\<forall>w'. while_held W hash w w' \<longrightarrow>
        wd_type W w' hash = Some T_HASH \<and> wd_next W w' hash = next \<and> inspects W w' hash hash_inspect)"

lemma hash_staysD:
  assumes "hash_stays W w hash next hi"
  shows "wd_type W w hash = Some T_HASH" and "wd_next W w hash = next" and "inspects W w hash hi"
    and "while_held W hash w w' \<Longrightarrow> hash_stays W w' hash next hi"
  using assms by (auto simp: hash_stays_def intro: rtranclp_trans)

lemma pure_next:
  assumes "hash_stays W (wk_world s) hash next hi" and "tag_law W"
  shows "read_as W T_HASH hash (\<lambda>w. wd_next W w hash pos) s = Returned (next pos) s"
  using read_as_type [OF hash_staysD(1) [OF assms(1)] assms(2), where f = "\<lambda>w. wd_next W w hash pos"] hash_staysD(2) [OF assms(1)] by simp

lemma gets_dup_walk:
  assumes "vm_contract W st" and "hash \<in> set held"
  shows "hash_stays W (wk_world s) hash next hi \<Longrightarrow> visits next pos ps \<Longrightarrow> length ps < fuel \<Longrightarrow>
    list_all2 (\<lambda>p rk. key_stays W (wk_world s) hash (fst p) rk) ps ks \<Longrightarrow>
    gets W st held (vw_foreach W fuel hash pos (vw_seen_key W held) (seen, Inr None)) s (\<lambda>(_, outcome) s'.
      case dup_walk seen ks of
        Inl e \<Rightarrow> outcome = Inl e
      | Inr None \<Rightarrow> outcome = Inr None
      | Inr (Some g) \<Rightarrow> \<exists>str. outcome = Inr (Some str) \<and> string_at W (wk_world s') str g \<and>
          inspects W (wk_world s') str (em_inspect (we_emitter W) g))"
proof (induction ps arbitrary: ks seen pos fuel s)
  case Nil
  then obtain n where "fuel = Suc n" "ks = []" by (cases fuel) auto
  with Nil show ?case
    by (simp, intro pure_gets [where x = None], simp add: pure_next [OF Nil(1) vm_contractD(4) [OF assms(1)]])
      (simp add: gets_give)
next
  case (Cons p ps)
  obtain k v where p: "p = (k, v)" by fastforce
  from Cons.prems obtain n rk ks' pos' where n: "fuel = Suc n" "length ps < n" and ks: "ks = rk # ks'"
    and key: "key_stays W (wk_world s) hash k rk"
    and rest: "list_all2 (\<lambda>p rk. key_stays W (wk_world s) hash (fst p) rk) ps ks'"
    and nx: "next pos = Some (k, v, pos')" "visits next pos' ps"
    by (cases fuel) (auto simp: p list_all2_Cons1)
  note tag = vm_contractD(4) [OF assms(1)] and at = key_staysD(1,2) [OF key]
  have read: "read_as W T_HASH hash (\<lambda>w. wd_next W w hash pos) s = Returned (Some (k, v, pos')) s"
    using pure_next [OF Cons.prems(1) tag, of pos] nx by simp
  show ?case
    unfolding n(1) vw_foreach.simps
  proof (rule pure_gets, rule read, simp only: option.case prod.case vw_seen_key_def andthen_assoc,
      rule pure_gets, rule key_kind_at [OF assms(1) at(1)],
      rule gets_then [OF gets_key_string [OF assms(1) at] order_refl], goal_cases)
    case (1 r s')
    show ?case
    proof (cases r)
      case (Inl e)
      with 1 show ?thesis by (simp add: ks gets_give)
    next
      case (Inr str)
      with 1 obtain g where g: "key_string rk = Inr g" "string_at W (wk_world s') str g"
        "inspects W (wk_world s') str (em_inspect (we_emitter W) g)" by auto
      then have bytes: "rstring_bytes W str s' = Returned (gs_bytes g) s'"
        by (simp add: rstring_bytes_def read_as_type [OF _ tag] string_at_def)
      note later = leads_held [OF 1(3) assms(2)]
      have rest': "list_all2 (\<lambda>p rk. key_stays W (wk_world s') hash (fst p) rk) ps ks'"
        using rest by (rule list_all2_mono) (rule key_staysD(3) [OF _ later])
      show ?thesis
      proof (simp only: Inr sum.case andthen_assoc, rule pure_gets, rule bytes, cases "gs_bytes g \<in> seen", goal_cases)
        case 1
        with g show ?case by (auto simp: ks intro!: gets_give)
      next
        case 2
        with g Cons.IH [OF hash_staysD(4) [OF Cons.prems(1) later] nx(2) n(2) rest'] show ?case
          by (simp add: ks vw_seen_key_def)
      qed
    qed
  qed
qed

lemma gets_inspect:
  assumes "vm_contract W st" and "valid W (wk_world s) v" and "inspects W (wk_world s) v r"
  shows "gets W st held (call_inspect W held v) s (\<lambda>a s'. case a of
      Inl e \<Rightarrow> r = Inl e
    | Inr str \<Rightarrow> \<exists>b. r = Inr b \<and>
        (\<forall>w'. while_held W str (wk_world s') w' \<longrightarrow> wd_type W w' str = Some T_STRING \<and> ra_bytes (wd_api W w') str = b))"
  unfolding call_inspect_def
proof (rule gets_protect [OF assms(1,2) order_refl], goal_cases)
  case (1 s')
  with assms(3) show ?case
    by (cases "protected_inspect (wd_api W (wk_world s)) v") (auto simp: inspects_def)
qed

lemma string_valid: "string_at W w v g \<Longrightarrow> valid W w v"
  by (simp add: string_at_def valid_def)

lemma does_check_duplicate_keys:
  assumes "vm_contract W st" and "hash_stays W (wk_world s) hash next hi" and "visits next 0 ps" and "length ps < fuel"
    and "list_all2 (\<lambda>p rk. key_stays W (wk_world s) hash (fst p) rk) ps ks"
  shows "does W st (hash # held) (vw_check_duplicate_keys W fuel held hash) s
    (ask (wk_gen s) (check_duplicate_keys (we_emitter W) hi ks) (\<lambda>_. Inr (wk_gen s)))"
proof -
  note tag = vm_contractD(4) [OF assms(1)]
  let ?H = "hash # held"
  have walk: "gets W st ?H (vw_foreach W fuel hash 0 (vw_seen_key W ?H) ({}, Inr None)) s (\<lambda>(_, outcome) s'.
      case dup_walk {} ks of
        Inl e \<Rightarrow> outcome = Inl e
      | Inr None \<Rightarrow> outcome = Inr None
      | Inr (Some g) \<Rightarrow> \<exists>str. outcome = Inr (Some str) \<and> string_at W (wk_world s') str g \<and>
          inspects W (wk_world s') str (em_inspect (we_emitter W) g))"
    by (rule gets_dup_walk [OF assms(1) _ assms(2-5)]) simp
  show ?thesis
    unfolding vw_check_duplicate_keys_def
  proof (rule gets_does [OF walk order_refl], unfold split_def, goal_cases)
    case (1 a s1)
    show ?case
    proof (cases "dup_walk {} ks")
      case (Inl e)
      with 1 does_fails [of W st ?H "Reraise e" s1] show ?thesis by (simp add: check_duplicate_keys_def reraise_def)
    next
      case (Inr hit)
      show ?thesis
      proof (cases hit)
        case None
        with Inr 1 does_give [of W st ?H s1] show ?thesis by (simp add: check_duplicate_keys_def reraise_def)
      next
        case (Some g)
        with Inr 1 obtain str where out: "snd a = Inr (Some str)" and str: "string_at W (wk_world s1) str g"
          "inspects W (wk_world s1) str (em_inspect (we_emitter W) g)" by auto
        let ?m = "\<lambda>ki hi. FailGenerator (Fmt ''detected duplicate key {} in {}'' 
           [ABytes (from_utf8_lossy ki), ABytes (from_utf8_lossy hi)])"
        have hash1: "hash_stays W (wk_world s1) hash next hi"
          by (rule hash_staysD(4) [OF assms(2) leads_held [OF 1(3)]]) simp
        have "does W st ?H (andthen (reraised (call_inspect W ?H str)) (\<lambda>key_inspect.
            andthen (reraised (call_inspect W (key_inspect # ?H) hash)) (\<lambda>hash_inspect.
            andthen (rstring_bytes W key_inspect) (\<lambda>ki. andthen (rstring_bytes W hash_inspect) (\<lambda>hi. fails (?m ki hi)))))) s1
          (ask (wk_gen s1) (reraise (em_inspect (we_emitter W) g)) (\<lambda>ki.
            ask (wk_gen s1) (reraise hi) (\<lambda>hi. failing (?m ki hi) (wk_gen s1))))"
        proof (rule does_reraised [OF gets_inspect [OF assms(1) string_valid [OF str(1)] str(2)] order_refl], simp, goal_cases)
          case (1 ki s2)
          then obtain kb where kb: "em_inspect (we_emitter W) g = Inr kb"
            "\<And>w'. while_held W ki (wk_world s2) w' \<Longrightarrow> wd_type W w' ki = Some T_STRING \<and> ra_bytes (wd_api W w') ki = kb" by auto
          have hash2: "hash_stays W (wk_world s2) hash next hi"
            by (rule hash_staysD(4) [OF hash1 leads_held [OF 1(3)]]) simp
          have v: "valid W (wk_world s2) hash" using hash_staysD(1) [OF hash2] by (simp add: valid_def)
          have "does W st ?H (andthen (reraised (call_inspect W (ki # ?H) hash)) (\<lambda>hash_inspect.
              andthen (rstring_bytes W ki) (\<lambda>ki. andthen (rstring_bytes W hash_inspect) (\<lambda>hi. fails (?m ki hi))))) s2
            (ask (wk_gen s2) (reraise hi) (\<lambda>hi. failing (?m kb hi) (wk_gen s1)))"
          proof (rule does_reraised [OF gets_inspect [OF assms(1) v hash_staysD(3) [OF hash2]]], force, simp, goal_cases)
            case (1 str' s3)
            then obtain hb where hb: "hi = Inr hb" "wd_type W (wk_world s3) str' = Some T_STRING"
              "ra_bytes (wd_api W (wk_world s3)) str' = hb" by auto
            have k3: "wd_type W (wk_world s3) ki = Some T_STRING" "ra_bytes (wd_api W (wk_world s3)) ki = kb"
              using kb(2) [OF leads_held [OF 1(3)]] by simp_all
            have "does W st ?H (andthen (rstring_bytes W ki) (\<lambda>ki. andthen (rstring_bytes W str') (\<lambda>hi. fails (?m ki hi)))) s3
                (failing (?m kb hb) (wk_gen s3))"
              by (rule pure_does [where x = kb], simp add: rstring_bytes_def read_as_type [OF k3(1) tag] k3(2),
                  rule pure_does [where x = hb], simp add: rstring_bytes_def read_as_type [OF hb(2) tag] hb(3)) (rule does_fails)
            with hb(1) 1(2) \<open>wk_gen s2 = wk_gen s1\<close> show ?case by simp
          qed
          with kb(1) 1(2) show ?case by simp
        qed
        moreover have "ask (wk_gen s) (check_duplicate_keys (we_emitter W) hi ks) (\<lambda>_. Inr (wk_gen s)) =
            ask (wk_gen s1) (reraise (em_inspect (we_emitter W) g)) (\<lambda>ki.
              ask (wk_gen s1) (reraise hi) (\<lambda>hi. failing (?m ki hi) (wk_gen s1)))"
          using 1(2) Inr Some
          by (cases "em_inspect (we_emitter W) g"; cases hi) (simp_all add: check_duplicate_keys_def reraise_def)
        ultimately show ?thesis by (simp add: out reraise_def)
      qed
    qed
  qed
qed

end
