(* ===== verification/Value_Fallbacks.thy ===== *)
theory Value_Fallbacks
  imports Value_Steps
begin

text \<open>
  The part of the walk over VALUEs for objects without a builtin representation
  (\<open>emit_fallback\<close>, \<open>emit_rails_fallback\<close> and \<open>splice_to_json\<close> of src/ext/nosj/src/gen/walker.rs):
  the calls into Ruby it makes do what the walker over objects does with their answers.
\<close>

section \<open>Calls on such an object\<close>

lemma pure_headers: "headers W s = Returned (wd_api W (wk_world s)) s"
  by (simp add: headers_def)

lemma does_giveI: "wk_gen s = g \<Longrightarrow> does W st held (give ()) s (Inr g)"
  using does_give [of W st held s] by simp

definition other_stays :: "'w walk_env \<Rightarrow> gen_statics \<Rightarrow> 'w \<Rightarrow> VALUE \<Rightarrow> other_info \<Rightarrow> bool" where
  "other_stays W st w v info \<longleftrightarrow> (\<forall>w'. while_held W v w w' \<longrightarrow> other_at W st w' v info)"

lemma other_staysD:
  assumes "other_stays W st w v info"
  shows "other_at W st w v info" and "while_held W v w w' \<Longrightarrow> other_stays W st w' v info"
  using assms by (auto simp: other_stays_def intro: rtranclp_trans)

lemma other_valid: "other_at W st w v info \<Longrightarrow> valid W w v"
  by (auto simp: other_at_def valid_def split: if_splits)

lemma fine_json_ids:
  assumes "statics_fine W st s"
  shows "fst (to_json_id api (wk_statics s)) = fst (to_json_id api st)"
    and "protected_to_json api (wk_statics s) v = protected_to_json api st v"
    and "protected_as_json api (wk_statics s) v = protected_as_json api st v"
proof -
  obtain f where "wk_statics s = st\<lparr>FRAGMENT := f\<rparr>" using assms by (auto simp: statics_fine_def)
  then show "fst (to_json_id api (wk_statics s)) = fst (to_json_id api st)"
    "protected_to_json api (wk_statics s) v = protected_to_json api st v"
    "protected_as_json api (wk_statics s) v = protected_as_json api st v"
    by (simp_all add: to_json_id_def as_json_id_def protected_to_json_def protected_as_json_def Let_def)
qed

lemma gets_kind_of_fragment:
  assumes "other_at W st (wk_world s) v info" and "FRAGMENT (wk_statics s) \<noteq> 0"
  shows "gets W st held (kind_of_fragment W v) s (\<lambda>r s'. r = oi_is_fragment info)"
proof (rule getsI)
  assume "statics_fine W st s"
  with assms(2) have "resolve_json_fragment (wd_api W (wk_world s)) = Inr (FRAGMENT (wk_statics s))"
    by (simp add: statics_fine_def)
  with assms have "Inr (ra_is_kind_of (wd_api W (wk_world s)) v (FRAGMENT (wk_statics s)) \<noteq> QFALSE (wd_api W (wk_world s))) = oi_is_fragment info"
    by (auto simp: other_at_def fragment_now_def)
  with other_valid [OF assms(1)] show "gets W st held (kind_of_fragment W v) s (\<lambda>r s'. r = oi_is_fragment info)"
    by (intro gets_pure) (simp_all add: kind_of_fragment_def Let_def)
qed

lemma gets_is_fragment:
  assumes "vm_contract W st" and "other_stays W st (wk_world s) v info"
  shows "gets W st held (call_is_json_fragment W held v) s (\<lambda>r s'. r = oi_is_fragment info)"
proof (cases "FRAGMENT (wk_statics s) = 0")
  case False
  with gets_kind_of_fragment [OF other_staysD(1) [OF assms(2)] False] show ?thesis
    by (simp add: gets_def call_is_json_fragment_def)
next
  case True
  note at = other_staysD(1) [OF assms(2)]
  have "gets W st held (andthen (protect W CallConstants v (v # held) (\<lambda>api _. resolve_json_fragment api)) (\<lambda>r.
      case r of
        Inl e \<Rightarrow> give (Inl e)
      | Inr cls \<Rightarrow>
          if cls = 0 then give (Inr False)
          else (\<lambda>s. kind_of_fragment W v (s\<lparr>wk_statics := (wk_statics s)\<lparr>FRAGMENT := cls\<rparr>\<rparr>)))) s (\<lambda>r s'. r = oi_is_fragment info)"
  proof (rule gets_then [OF gets_protect [OF assms(1) other_valid [OF at] order_refl, where Q = "\<lambda>r s'.
        r = resolve_json_fragment (wd_api W (wk_world s)) \<and> wk_world s' = wd_after W CallConstants v (v # held) (wk_world s)"]],
      simp, force, goal_cases)
    case (1 r s')
    have now: "fragment_now (wd_api W (wk_world s)) v = oi_is_fragment info" using at by (simp add: other_at_def)
    show ?case
    proof (cases r)
      case (Inl e)
      with 1 have "resolve_json_fragment (wd_api W (wk_world s)) = Inl e" by simp
      with now have "oi_is_fragment info = Inl e" by (simp add: fragment_now_def)
      then show ?thesis unfolding Inl sum.case by (simp add: gets_give)
    next
      case (Inr cls)
      show ?thesis
      proof (cases "cls = 0")
        case True
        with 1 Inr have "resolve_json_fragment (wd_api W (wk_world s)) = Inr 0" by simp
        with now have "oi_is_fragment info = Inr False" by (simp add: fragment_now_def)
        with True show ?thesis unfolding Inr sum.case by (simp add: gets_give)
      next
        case False
        let ?s = "s'\<lparr>wk_statics := (wk_statics s')\<lparr>FRAGMENT := cls\<rparr>\<rparr>"
        have "resolve_json_fragment (wd_api W (wk_world s)) = Inr cls" using Inr 1 by simp
        from vm_contractD(3) [OF assms(1) this False] 1
        have res: "resolve_json_fragment (wd_api W (wk_world s')) = Inr cls" by simp
        have "other_at W st (wk_world ?s) v info"
          using other_staysD(1) [OF other_staysD(2) [OF assms(2) leads_held [OF 1(3)]]] by simp
        from gets_kind_of_fragment [OF this] False
        have "gets W st held (kind_of_fragment W v) ?s (\<lambda>r s'. r = oi_is_fragment info)" by simp
        moreover have "statics_fine W st ?s" if "statics_fine W st s'"
          using that res by (auto simp: statics_fine_def)
        moreover have "leads W st held ?s s'' \<Longrightarrow> leads W st held s' s''" for s'' by (simp add: leads_def)
        ultimately have "gets W st held (\<lambda>s. kind_of_fragment W v (s\<lparr>wk_statics := (wk_statics s)\<lparr>FRAGMENT := cls\<rparr>\<rparr>)) s' (\<lambda>r s'. r = oi_is_fragment info)"
          by (fastforce simp: gets_def)
        with Inr False show ?thesis by simp
      qed
    qed
  qed
  with True show ?thesis by (simp add: gets_def call_is_json_fragment_def)
qed

text \<open>What \<open>to_json\<close> answered, in the state it left.\<close>

definition json_answer :: "'w walk_env \<Rightarrow> exc + bytes option \<Rightarrow> exc + VALUE \<Rightarrow> 'w vm_state \<Rightarrow> bool" where
  "json_answer W answer r s \<longleftrightarrow>
     (case r of
        Inl e \<Rightarrow> answer = Inl e
      | Inr json \<Rightarrow> valid W (wk_world s) json \<and> json \<noteq> QUNDEF (wd_api W (wk_world s)) \<and>
          answer = Inr (string_of W (wk_world s) json))"

lemma gets_to_json:
  assumes "vm_contract W st" and "valid W (wk_world s) v" and "answers_json W st (wk_world s) v answer"
  shows "gets W st held (call_to_json W held v) s (json_answer W answer)"
proof (rule getsI)
  assume fine: "statics_fine W st s"
  show "gets W st held (call_to_json W held v) s (json_answer W answer)"
    unfolding call_to_json_def
  proof (rule gets_protect [OF assms(1,2) order_refl], goal_cases)
    case (1 s')
    with assms(3) show ?case
      by (cases "protected_to_json (wd_api W (wk_world s)) st v")
        (auto simp: json_answer_def answers_json_def fine_json_ids(2) [OF fine] Let_def)
  qed
qed

lemma does_append_string:
  assumes "vm_contract W st" and "valid W (wk_world s) json" and "does W st held (k ()) s p"
  shows "does W st held (andthen (vw_append_string W json) (\<lambda>done. if done then give () else k ())) s
    (case string_of W (wk_world s) json of Some b \<Rightarrow> Inr (put b (wk_gen s)) | None \<Rightarrow> p)"
proof (cases "SPECIAL_CONST_P W json")
  case True
  with assms(3) show ?thesis by (simp add: vw_append_string_def string_of_def)
next
  case False
  then obtain t where t: "wd_type W (wk_world s) json = Some t" using assms(2) by (auto simp: valid_def)
  note tag = vm_contractD(4) [OF assms(1)]
  have ty: "type_of W json s = Returned t s" by (rule type_of_type [OF t tag])
  show ?thesis
  proof (cases "t = T_STRING")
    case True
    let ?b = "ra_bytes (wd_api W (wk_world s)) json"
    have "does W st held (andthen (push_bytes ?b) (\<lambda>_. give ())) s (Inr (put ?b (wk_gen s)))"
      by (rule does_push_then) (rule does_giveI)
    then show ?thesis
      using False t True
      by (simp add: vw_append_string_def string_of_def andthen_assoc)
        (rule pure_does, rule ty, simp add: andthen_assoc, rule pure_does [where x = ?b],
          simp add: rstring_bytes_def read_as_type [OF _ tag], simp)
  next
    case False
    then show ?thesis
      using assms(3) t \<open>\<not> SPECIAL_CONST_P W json\<close>
      by (simp add: vw_append_string_def string_of_def andthen_assoc) (rule pure_does, rule ty, simp)
  qed
qed

lemma does_splice:
  assumes "vm_contract W st" and "other_at W st (wk_world s) v info"
  shows "does W st held (vw_splice W held v) s (splice_to_json info (wk_gen s))"
proof -
  note valid = other_valid [OF assms(2)]
  have ans: "answers_json W st (wk_world s) v (oi_to_json info)" using assms(2) by (simp add: other_at_def)
  let ?m = "FailGenerator (msg ''JSON::Fragment#to_json did not return a String'')"
  have "does W st held (andthen (reraised (call_to_json W held v)) (\<lambda>json.
      andthen (vw_append_string W json) (\<lambda>done. if done then give () else fails ?m))) s
    (ask (wk_gen s) (reraise (oi_to_json info)) (\<lambda>json. case json of
       Some b \<Rightarrow> Inr (put b (wk_gen s)) | None \<Rightarrow> failing ?m (wk_gen s)))"
  proof (rule does_reraised [OF gets_to_json [OF assms(1) valid ans] order_refl], simp add: json_answer_def, goal_cases)
    case (1 json s')
    have "does W st held (andthen (vw_append_string W json) (\<lambda>done. if done then give () else fails ?m)) s'
        (case string_of W (wk_world s') json of Some b \<Rightarrow> Inr (put b (wk_gen s')) | None \<Rightarrow> failing ?m (wk_gen s'))"
      by (rule does_append_string [OF assms(1) _ does_fails]) (use 1 in \<open>simp add: json_answer_def\<close>)
    from this [unfolded 1(2)] 1(1) show ?case by (simp add: json_answer_def)
  qed
  then show ?thesis by (simp add: vw_splice_def splice_to_json_def)
qed

text \<open>\<open>respond_to?\<close> and \<open>to_json\<close>.\<close>

definition optional_answer :: "'w walk_env \<Rightarrow> exc + bytes option \<Rightarrow> exc + VALUE option \<Rightarrow> 'w vm_state \<Rightarrow> bool" where
  "optional_answer W answer r s \<longleftrightarrow>
     (case r of
        Inl e \<Rightarrow> answer = Inl e
      | Inr None \<Rightarrow> answer = Inr None
      | Inr (Some json) \<Rightarrow> valid W (wk_world s) json \<and> answer = Inr (string_of W (wk_world s) json))"

lemma gets_if_responds:
  assumes "vm_contract W st" and "other_stays W st (wk_world s) v info"
  shows "gets W st held (call_to_json_if_responds W held v) s (optional_answer W (oi_to_json_if_responds info))"
proof (rule getsI)
  assume fine: "statics_fine W st s"
  note at = other_staysD(1) [OF assms(2)]
  let ?resp = "ra_respond_to (wd_api W (wk_world s)) v (fst (to_json_id (wd_api W (wk_world s)) st))"
  have ans: "answers_if_responds W st (wk_world s) v (oi_to_json_if_responds info)"
    using at by (simp add: other_at_def)
  show "gets W st held (call_to_json_if_responds W held v) s (optional_answer W (oi_to_json_if_responds info))"
    unfolding call_to_json_if_responds_def
  proof (rule gets_then [OF gets_protect [OF assms(1) other_valid [OF at] order_refl, where Q = "\<lambda>r s'.
        r = ?resp \<and> wk_world s' = wd_after W CallRespondTo v (v # held) (wk_world s)"]],
      use fine_json_ids(1) [OF fine] in simp, force, goal_cases)
    case (1 r s')
    note later = other_staysD(1) [OF other_staysD(2) [OF assms(2) leads_held [OF 1(3)]]]
    show ?case
    proof (cases r)
      case (Inl e)
      with 1 have "?resp = Inl e" by simp
      with ans show ?thesis unfolding Inl sum.case
        by (intro gets_give) (simp add: optional_answer_def answers_if_responds_def)
    next
      case (Inr responds)
      with 1 have resp: "?resp = Inr responds" by simp
      show ?thesis
      proof (cases "responds = 0")
        case True
        with ans resp have "oi_to_json_if_responds info = Inr None" by (simp add: answers_if_responds_def)
        with True show ?thesis
          unfolding Inr sum.case
          by (simp add: andthen_assoc) (rule pure_gets [OF pure_headers], rule pure_gets [OF pure_headers],
            rule gets_give, simp add: optional_answer_def)
      next
        case False
        with ans resp 1 have "answers_json W st (wk_world s') v (oi_to_json_if_responds info)"
          by (simp add: answers_if_responds_def)
        from gets_to_json [OF assms(1) _ this, of held] later 1
        have call: "gets W st held (call_to_json W held v) s' (json_answer W (oi_to_json_if_responds info))"
          by (simp add: other_valid)
        have "gets W st held (andthen (call_to_json W held v) (\<lambda>json. andthen (headers W) (\<lambda>api.
            give (map_ok (\<lambda>json. if json \<noteq> QUNDEF api then Some json else None) json)))) s'
            (optional_answer W (oi_to_json_if_responds info))"
        proof (rule gets_then [OF call order_refl], goal_cases)
          case (1 json s'')
          show ?case
            by (rule pure_gets [OF pure_headers], rule gets_give)
              (use 1 in \<open>cases json; simp add: json_answer_def optional_answer_def\<close>)
        qed
        with False Inr show ?thesis by simp
      qed
    qed
  qed
qed


lemma does_to_s:
  assumes "vm_contract W st" and "other_at W st (wk_world s) v info"
  shows "does W st held (andthen (reraised (call_to_s W held v)) (vw_quoted W held)) s
    (ask (wk_gen s) (reraise (oi_to_s info)) (\<lambda>str. emit_rstring_quoted (we_emitter W) (we_cfg W) str (wk_gen s)))"
proof -
  have ans: "answers_string W CallToS (wk_world s) v (protected_to_s (wd_api W (wk_world s)) v) (oi_to_s info)"
    using assms(2) by (simp add: other_at_def)
  have "gets W st held (call_to_s W held v) s (\<lambda>r s'. case r of
      Inl e \<Rightarrow> oi_to_s info = Inl e
    | Inr str \<Rightarrow> \<exists>g. oi_to_s info = Inr g \<and> string_at W (wk_world s') str g)"
    unfolding call_to_s_def
  proof (rule gets_protect [OF assms(1) other_valid [OF assms(2)] order_refl], goal_cases)
    case (1 s')
    with ans show ?case
      by (cases "protected_to_s (wd_api W (wk_world s)) v") (auto simp: answers_string_def)
  qed
  then show ?thesis
  proof (rule does_reraised [OF _ order_refl], simp, goal_cases)
    case (1 str s')
    then obtain g where g: "oi_to_s info = Inr g" "string_at W (wk_world s') str g" by auto
    with does_quoted [OF assms(1) g(2), of held] 1(2) show ?case by auto
  qed
qed

text \<open>\<open>emit_fallback\<close> outside Rails mode, and \<open>emit_rails_fallback\<close>.\<close>

lemma does_fallback_plain:
  assumes "vm_contract W st" and "other_stays W st (wk_world s) v info" and "\<not> rails (we_cfg W)"
  shows "does W st held (vw_fallback W rec held v depth) s (emit_fallback_plain (we_emitter W) (we_cfg W) info (wk_gen s))"
proof (cases "strict (we_cfg W)")
  case True
  let ?m = "\<lambda>name. FailGenerator (Fmt ''{} not allowed in JSON'' [AText name])"
  have "does W st held (andthen (reraised (call_is_json_fragment W (v # held) v)) (\<lambda>fragment.
      if fragment then vw_splice W held v else andthen (obj_classname W v) (\<lambda>name. fails (?m name)))) s
    (ask (wk_gen s) (reraise (oi_is_fragment info)) (\<lambda>fragment.
      if fragment then splice_to_json info (wk_gen s) else failing (?m (oi_class info)) (wk_gen s)))"
  proof (rule does_reraised [OF gets_is_fragment [OF assms(1,2)]], force, simp, goal_cases)
    case (1 fragment s')
    have at: "other_at W st (wk_world s') v info"
      by (rule other_staysD(1) [OF other_staysD(2) [OF assms(2) leads_held [OF 1(3)]]]) simp
    have "does W st held (andthen (obj_classname W v) (\<lambda>name. fails (?m name))) s' (failing (?m (oi_class info)) (wk_gen s'))"
      by (rule pure_does [where x = "oi_class info"])
        (use at other_valid [OF at] in \<open>simp_all add: obj_classname_def other_at_def does_fails\<close>)
    with does_splice [OF assms(1) at, of held] 1(1) show ?case
      by (intro exI [of _ fragment]) (simp add: 1(2))
  qed
  with True assms(3) show ?thesis by (simp add: vw_fallback_def emit_fallback_plain_def)
next
  case False
  let ?to_s = "andthen (reraised (call_to_s W held v)) (vw_quoted W held)"
  let ?text = "\<lambda>s. ask s (reraise (oi_to_s info)) (\<lambda>str. emit_rstring_quoted (we_emitter W) (we_cfg W) str s)"
  have "does W st held (andthen (reraised (call_to_json_if_responds W (v # held) v)) (\<lambda>json.
      andthen (case json of Some json \<Rightarrow> vw_append_string W json | None \<Rightarrow> give False) (\<lambda>done. if done then give () else ?to_s))) s
    (ask (wk_gen s) (reraise (oi_to_json_if_responds info)) (\<lambda>json.
      case json of Some b \<Rightarrow> Inr (put b (wk_gen s)) | None \<Rightarrow> ?text (wk_gen s)))"
  proof (rule does_reraised [OF gets_if_responds [OF assms(1,2)]], force, simp add: optional_answer_def, goal_cases)
    case (1 json s')
    have "other_at W st (wk_world s') v info"
      by (rule other_staysD(1) [OF other_staysD(2) [OF assms(2) leads_held [OF 1(3)]]]) simp
    note to_s = does_to_s [OF assms(1) this, of held]
    show ?case
    proof (cases json)
      case None
      with 1 to_s show ?thesis by (simp add: optional_answer_def)
    next
      case (Some j)
      with 1(1) have j: "valid W (wk_world s') j" "oi_to_json_if_responds info = Inr (string_of W (wk_world s') j)"
        by (simp_all add: optional_answer_def)
      from does_append_string [OF assms(1) j(1) to_s, unfolded 1(2)] j(2) Some show ?thesis by simp
    qed
  qed
  with False assms(3) show ?thesis by (simp add: vw_fallback_def emit_fallback_plain_def)
qed

lemma as_json_answer:
  assumes "denotes W st w v (OOther info asj)" and "while_held W v w w'"
  shows "protected_as_json (wd_api W w') st v = Inl e \<Longrightarrow> asj = AsRaise e"
    and "protected_as_json (wd_api W w') st v = Inr v \<Longrightarrow> asj = AsSelf"
    and "protected_as_json (wd_api W w') st v = Inr json \<Longrightarrow> json \<noteq> v \<Longrightarrow>
      \<exists>obj. asj = AsValue obj \<and> denotes W st (wd_after W CallAsJson v held w') json obj"
  using assms by (auto elim!: denotesE)

lemma does_rails_fallback:
  assumes "vm_contract W st" and "denotes W st (wk_world s) v (OOther info asj)"
    and "\<And>json obj s'. asj = AsValue obj \<Longrightarrow> denotes W st (wk_world s') json obj \<Longrightarrow> wk_gen s' = wk_gen s \<Longrightarrow>
      does W st held (rec held json depth) s' (walk obj)"
  shows "does W st held (vw_rails_fallback W rec held v depth) s (emit_rails_fallback info asj walk (wk_gen s))"
proof -
  from assms(2) have stays: "other_stays W st (wk_world s) v info"
    by (auto simp: other_stays_def elim: denotesE)
  let ?m = "\<lambda>name. FailGenerator (Fmt ''{}#as_json returned the receiver'' [AText name])"
  have as_json: "does W st held (andthen (reraised (call_as_json W (v # held) v)) (\<lambda>json.
      if json = v then andthen (obj_classname W v) (\<lambda>name. fails (?m name)) else rec held json depth)) s1
    (case asj of
       AsRaise e \<Rightarrow> failing (Reraise e) (wk_gen s1)
     | AsSelf \<Rightarrow> failing (?m (oi_class info)) (wk_gen s1)
     | AsValue obj \<Rightarrow> walk obj)"
    if held: "while_held W v (wk_world s) (wk_world s1)" and gen: "wk_gen s1 = wk_gen s" for s1
  proof (rule doesI)
    assume fine: "statics_fine W st s1"
    let ?as = "protected_as_json (wd_api W (wk_world s1)) st v"
    note at = other_staysD(1) [OF other_staysD(2) [OF stays held]] and asj = as_json_answer [OF assms(2) held]
    let ?k = "\<lambda>json. if json = v then andthen (obj_classname W v) (\<lambda>name. fails (?m name)) else rec held json depth"
    let ?p = "case asj of
         AsRaise e \<Rightarrow> failing (Reraise e) (wk_gen s1)
       | AsSelf \<Rightarrow> failing (?m (oi_class info)) (wk_gen s1)
       | AsValue obj \<Rightarrow> walk obj"
    show "does W st held (andthen (reraised (call_as_json W (v # held) v)) ?k) s1 ?p"
      unfolding reraised_def andthen_assoc call_as_json_def
    proof (rule gets_does [OF gets_protect [OF assms(1) other_valid [OF at] order_refl, where Q = "\<lambda>r s'.
          r = ?as \<and> wk_world s' = wd_after W CallAsJson v (v # held) (wk_world s1)"]],
        use fine_json_ids(3) [OF fine] in simp, force, goal_cases)
      case (1 r s')
      show ?case
      proof (cases ?as)
        case (Inl e)
        with 1 asj(1) does_fails [of W st held "Reraise e" s'] show ?thesis by (simp add: reraise_def)
      next
        case (Inr json)
        show ?thesis
        proof (cases "json = v")
          case True
          have at': "other_at W st (wk_world s') v info"
            by (rule other_staysD(1) [OF other_staysD(2) [OF other_staysD(2) [OF stays held] leads_held [OF 1(3)]]]) simp
          have "does W st held (andthen (obj_classname W v) (\<lambda>name. fails (?m name))) s' (failing (?m (oi_class info)) (wk_gen s'))"
            by (rule pure_does [where x = "oi_class info"])
              (use at' other_valid [OF at'] in \<open>simp_all add: obj_classname_def other_at_def does_fails\<close>)
          with True Inr 1 asj(2) show ?thesis by (simp add: reraise_def)
        next
          case False
          from asj(3) [OF Inr False, of "v # held"] obtain obj where "asj = AsValue obj" "denotes W st (wk_world s') json obj"
            using 1(1) by auto
          with assms(3) [OF this] gen False Inr 1 show ?thesis by (simp add: reraise_def)
        qed
      qed
    qed
  qed
  show ?thesis
    unfolding vw_rails_fallback_def emit_rails_fallback_def
  proof (rule does_reraised [OF gets_is_fragment [OF assms(1) stays]], force, simp, goal_cases)
    case (1 fragment s')
    have held: "while_held W v (wk_world s) (wk_world s')" by (rule leads_held [OF 1(3)]) simp
    from does_splice [OF assms(1) other_staysD(1) [OF other_staysD(2) [OF stays held]], of held]
      as_json [OF held 1(2), unfolded 1(2)] 1(1,2)
    show ?case by (intro exI [of _ fragment]) simp
  qed
qed

end
