(* ===== verification/Value_Arrays.thy ===== *)
theory Value_Arrays
  imports Value_Fallbacks
begin

text \<open>
  The loop of \<open>emit_array\<close> over VALUEs does what \<open>emit_elems\<close> does: the numeric runs, which write
  through a raw cursor, and the elements one by one, each read again from the array.
\<close>

section \<open>What a VALUE is now\<close>

lemma denotes_now:
  "denotes W st w v (OHeapFloat f) \<Longrightarrow> wd_type W w v = Some T_FLOAT \<and> wd_num2dbl W w v = f"
  "denotes W st w v (OBig b) \<Longrightarrow> wd_type W w v = Some T_BIGNUM"
  "denotes W st w v (OStr g) \<Longrightarrow> string_at W w v g"
  "denotes W st w v (OSym g) \<Longrightarrow> symbol_at W w v g"
  "denotes W st w v (OArr vs) \<Longrightarrow> wd_type W w v = Some T_ARRAY"
  "denotes W st w v (OHsh hi kvs) \<Longrightarrow> wd_type W w v = Some T_HASH"
  "denotes W st w v (OOther info asj) \<Longrightarrow> other_stays W st w v info"
  by (auto simp: other_stays_def elim!: denotesE)

lemma denotes_flags:
  assumes "vm_contract W st" and "denotes W st w v obj"
  shows "FLONUM_P W v \<longleftrightarrow> (\<exists>f. obj = OFlonum f)" and "FIXNUM_P W v \<longleftrightarrow> (\<exists>i. obj = OFix i)"
proof -
  note tag = vm_contractD(4) [OF assms(1)]
  have heap: "wd_type W w v = Some t \<Longrightarrow> \<not> FLONUM_P W v \<and> \<not> FIXNUM_P W v" for t
    using tag by (auto simp: tag_law_def)
  have "FLONUM_P W v = (\<exists>f. obj = OFlonum f) \<and> FIXNUM_P W v = (\<exists>i. obj = OFix i)"
  proof (cases obj)
    case (OSym g)
    with assms(1) denotes_now(4) [of W st w v g] assms(2) heap show ?thesis
      by (auto simp: symbol_at_def vm_contract_def)
  next
    case (OOther info asj)
    with assms(2) have "denotes W st w v (OOther info asj)" by simp
    from other_staysD(1) [OF denotes_now(7) [OF this]] have "other_at W st w v info" .
    with heap OOther show ?thesis by (auto simp: other_at_def split: if_splits)
  next
    case (OStr g)
    with assms(2) denotes_now(3) [of W st w v g] heap show ?thesis by (auto simp: string_at_def)
  qed (use assms heap denotes_now(1,2,5,6) in \<open>auto simp: vm_contract_def elim!: denotesE\<close>)
  then show "FLONUM_P W v \<longleftrightarrow> (\<exists>f. obj = OFlonum f)" and "FIXNUM_P W v \<longleftrightarrow> (\<exists>i. obj = OFix i)" by simp_all
qed

lemma denotes_heap:
  assumes "vm_contract W st" and "denotes W st w v obj" and "\<not> SPECIAL_CONST_P W v"
  shows "case obj of
      OHeapFloat f \<Rightarrow> wd_type W w v = Some T_FLOAT
    | OBig b \<Rightarrow> wd_type W w v = Some T_BIGNUM
    | OStr g \<Rightarrow> wd_type W w v = Some T_STRING
    | OSym g \<Rightarrow> wd_type W w v = Some T_SYMBOL
    | OArr vs \<Rightarrow> wd_type W w v = Some T_ARRAY
    | OHsh hi kvs \<Rightarrow> wd_type W w v = Some T_HASH
    | OOther info asj \<Rightarrow> wd_type W w v = Some T_OTHER
    | _ \<Rightarrow> False"
proof (cases obj)
  case (OSym g)
  with assms denotes_now(4) [of W st w v g] show ?thesis by (auto simp: symbol_at_def vm_contract_def tag_law_def)
next
  case (OOther info asj)
  with assms(2) have "denotes W st w v (OOther info asj)" by simp
  from other_staysD(1) [OF denotes_now(7) [OF this]] OOther assms(3) show ?thesis by (simp add: other_at_def)
next
  case (OStr g)
  with assms(2) denotes_now(3) [of W st w v g] show ?thesis by (simp add: string_at_def)
qed (use assms denotes_now(1,2,5,6) in \<open>auto simp: vm_contract_def tag_law_def elim!: denotesE\<close>)

lemma pure_num2dbl:
  assumes "vm_contract W st" and "denotes W st (wk_world s) v obj" and "obj = OFlonum f \<or> obj = OHeapFloat f"
  shows "num2dbl W v s = Returned f s"
  using assms(3)
proof
  assume obj: "obj = OFlonum f"
  with denotes_flags(1) [OF assms(1,2)] assms(2) show ?thesis by (auto simp: num2dbl_def elim: denotesE)
next
  assume obj: "obj = OHeapFloat f"
  with denotes_now(1) [of W st "wk_world s" v f] assms(2)
  have "wd_type W (wk_world s) v = Some T_FLOAT" "wd_num2dbl W (wk_world s) v = f" by simp_all
  with denotes_flags(1) [OF assms(1,2)] obj show ?thesis
    by (simp add: num2dbl_def read_as_type [OF _ vm_contractD(4) [OF assms(1)]])
qed

section \<open>Arrays\<close>

lemma num_run_grows: "\<exists>t. snd (num_run E n first es out) = out @ t"
proof (induction E n first es out rule: num_run.induct)
  case (1 E n first e es out)
  then show ?case by (auto split: option.split prod.split simp: Let_def)
qed simp_all

lemma num_run_none: "fst (num_run E n first es out) = 0 \<Longrightarrow> snd (num_run E n first es out) = out"
  by (induction E n first es out rule: num_run.induct) (auto split: option.splits prod.splits simp: Let_def)

lemma num_run_short: "fst (num_run E n first es out) \<le> length es"
proof (induction E n first es out rule: num_run.induct)
  case (1 E n first e es out)
  then show ?case by (auto split: option.split prod.split simp: Let_def)
qed simp_all

text \<open>The run through the raw cursor stays within what was reserved, and writes what \<open>num_run\<close> writes.\<close>

lemma run_stores:
  assumes "length t \<le> longest" and "longest \<le> F64_MAX_LEN W"
    and "length (gn_out (wk_gen s)) + (F64_MAX_LEN W + 1) \<le> limit"
  shows "andthen (only_if (\<not> first) (raw_store limit [b_comma])) (\<lambda>_. andthen (raw_number limit longest t) k) s =
    k () (s\<lparr>wk_gen := (wk_gen s)\<lparr>gn_out := (if first then gn_out (wk_gen s) else gn_out (wk_gen s) @ [b_comma]) @ t\<rparr>\<rparr>)"
  using assms
  by (cases first) (simp_all add: andthen_def only_if_def raw_store_def raw_number_def push_bytes_def put_def give_def)

lemma vw_run_does:
  assumes "vm_contract W st"
  shows "list_all2 (denotes W st w) (drop i xs) es \<Longrightarrow> n \<le> length es \<Longrightarrow>
    length (gn_out (wk_gen s)) + n * (F64_MAX_LEN W + 1) \<le> limit \<Longrightarrow>
    vw_run W xs limit n i first s =
      (case num_run (we_emitter W) n first es (gn_out (wk_gen s)) of
         (m, out) \<Rightarrow> Returned (i + m) (s\<lparr>wk_gen := (wk_gen s)\<lparr>gn_out := out\<rparr>\<rparr>))"
proof (induction n arbitrary: i es s first)
  case 0
  then show ?case by (cases es) (simp_all add: give_def)
next
  case (Suc n)
  then obtain x ys e es' where xs: "drop i xs = x # ys" "es = e # es'" "denotes W st w x e"
    "list_all2 (denotes W st w) ys es'" by (cases es) (auto simp: list_all2_Cons2)
  then have i: "i < length xs" "xs ! i = x" "drop (i + 1) xs = ys"
    by (metis drop_eq_Nil2 list.distinct(1) not_le, metis hd_drop_conv_nth drop_eq_Nil2 list.distinct(1) list.sel(1) not_le,
        metis Suc_eq_plus1 drop_Suc list.sel(3) tl_drop)
  note flags = denotes_flags [OF assms xs(3)] and kernels = vm_contractD(5) [OF assms, unfolded kernel_law_def]
  let ?out = "gn_out (wk_gen s)"
  have go: "vw_run W xs limit n (i + 1) False (s\<lparr>wk_gen := (wk_gen s)\<lparr>gn_out := (if first then ?out else ?out @ [b_comma]) @ t\<rparr>\<rparr>) =
      (case num_run (we_emitter W) n False es' ((if first then ?out else ?out @ [b_comma]) @ t) of
         (m, out) \<Rightarrow> Returned (i + Suc m) (s\<lparr>wk_gen := (wk_gen s)\<lparr>gn_out := out\<rparr>\<rparr>))"
    if "length t \<le> F64_MAX_LEN W" for t
  proof -
    have "length ((if first then ?out else ?out @ [b_comma]) @ t) + n * (F64_MAX_LEN W + 1) \<le> limit"
      using Suc.prems(3) that by auto
    with Suc.IH [of "i + 1" es'] xs(2,4) i(3) Suc.prems(2) show ?thesis by (simp split: prod.split)
  qed
  have finish: "vw_run W xs limit (Suc n) i first s =
      (case num_run (we_emitter W) (Suc n) first es ?out of
         (m, out) \<Rightarrow> Returned (i + m) (s\<lparr>wk_gen := (wk_gen s)\<lparr>gn_out := out\<rparr>\<rparr>))"
    if "run_text (we_emitter W) e = Some t" and "length t \<le> longest" and "longest \<le> F64_MAX_LEN W"
      and step: "vw_run W xs limit (Suc n) i first s =
        andthen (only_if (\<not> first) (raw_store limit [b_comma])) (\<lambda>_.
        andthen (raw_number limit longest t) (\<lambda>_. vw_run W xs limit n (i + 1) False)) s" for t longest
  proof -
    have room: "length ?out + (F64_MAX_LEN W + 1) \<le> limit" using Suc.prems(3) by simp
    show ?thesis
      unfolding step run_stores [OF that(2,3) room] go [OF order_trans [OF that(2,3)]]
      by (simp only: xs(2) num_run.simps that(1) option.case Let_def split_def fst_conv snd_conv)
  qed
  have slot: "slot xs i s = Returned x s" using i by (simp add: slot_def)
  show ?case
  proof (cases "is_number e")
    case False
    with flags have "\<not> FLONUM_P W x" "\<not> FIXNUM_P W x" "run_text (we_emitter W) e = None"
      by (auto simp: run_text_def split: robj.split)
    with xs(2) slot show ?thesis by (simp add: andthen_def give_def)
  next
    case True
    then consider f where "e = OFlonum f" | j where "e = OFix j" by (cases e) auto
    then show ?thesis
    proof cases
      case (1 f)
      have num: "wd_num2dbl W (wk_world s) x = f" using xs(3) 1 by (auto elim: denotesE)
      show ?thesis
      proof (cases "f64_is_finite f")
        case False
        with 1 xs(2) slot flags num show ?thesis by (simp add: andthen_def give_def num2dbl_def run_text_def)
      next
        case fin: True
        with kernels have t: "length (em_f64 (we_emitter W) f) \<le> F64_MAX_LEN W" by blast
        have "vw_run W xs limit (Suc n) i first s =
            andthen (only_if (\<not> first) (raw_store limit [b_comma])) (\<lambda>_.
            andthen (raw_number limit (F64_MAX_LEN W) (em_f64 (we_emitter W) f)) (\<lambda>_. vw_run W xs limit n (i + 1) False)) s"
          using fin 1 slot flags num by (subst vw_run.simps, subst andthen_def) (simp add: num2dbl_def andthen_def)
        from finish [OF _ t order_refl this] show ?thesis using 1 fin by (simp add: run_text_def)
      qed
    next
      case (2 j)
      have num: "FIX2LONG W x = j" "FIXNUM_P W x" using xs(3) 2 by (auto elim: denotesE)
      with kernels vm_contractD(4) [OF assms]
      have t: "length (em_i64 (we_emitter W) j) \<le> I64_MAX_LEN W" "I64_MAX_LEN W \<le> F64_MAX_LEN W" by (auto simp: tag_law_def)
      have "vw_run W xs limit (Suc n) i first s =
          andthen (only_if (\<not> first) (raw_store limit [b_comma])) (\<lambda>_.
          andthen (raw_number limit (I64_MAX_LEN W) (em_i64 (we_emitter W) j)) (\<lambda>_. vw_run W xs limit n (i + 1) False)) s"
        using 2 slot flags num by (subst vw_run.simps, subst andthen_def) simp
      from finish [OF _ t this] show ?thesis using 2 by (simp add: run_text_def)
    qed
  qed
qed


definition array_stays :: "'w walk_env \<Rightarrow> gen_statics \<Rightarrow> 'w \<Rightarrow> VALUE \<Rightarrow> VALUE list \<Rightarrow> robj list \<Rightarrow> bool" where
  "array_stays W st w ary xs vs \<longleftrightarrow>
     (\<forall>w'. while_held W ary w w' \<longrightarrow>
        wd_type W w' ary = Some T_ARRAY \<and> wd_array W w' ary = xs \<and> list_all2 (denotes W st w') xs vs)"

lemma array_staysD:
  assumes "array_stays W st w ary xs vs"
  shows "wd_type W w ary = Some T_ARRAY" and "wd_array W w ary = xs" and "list_all2 (denotes W st w) xs vs"
    and "while_held W ary w w' \<Longrightarrow> array_stays W st w' ary xs vs"
  using assms by (auto simp: array_stays_def intro: rtranclp_trans)

lemma pure_array:
  assumes "vm_contract W st" and "array_stays W st (wk_world s) ary xs vs"
  shows "array_len W ary s = Returned (length xs) s" and "array_ptr W ary s = Returned xs s"
  using array_staysD(1,2) [OF assms(2)] vm_contractD(4) [OF assms(1)]
  by (simp_all add: array_len_def array_ptr_def read_as_type)

lemma vw_run_from_does:
  assumes "vm_contract W st" and "array_stays W st (wk_world s) ary xs vs" and "es = drop i vs"
  shows "vw_run_from W ary (length xs) i s =
    (case num_run (we_emitter W) (min (length es) RUN_CHUNK) True es (gn_out (wk_gen s)) of
       (m, out) \<Rightarrow> Returned (i + m) (s\<lparr>wk_gen := (wk_gen s)\<lparr>gn_out := out\<rparr>\<rparr>))"
proof -
  note elems = array_staysD(3) [OF assms(2)]
  have "list_all2 (denotes W st (wk_world s)) (drop i xs) es" using elems assms(3) by simp
  moreover have "min (length xs - i) RUN_CHUNK = min (length es) RUN_CHUNK"
    using list_all2_lengthD [OF elems] assms(3) by simp
  ultimately show ?thesis
    using vw_run_does [OF assms(1), of "wk_world s" i xs es "min (length es) RUN_CHUNK" s
        "length (gn_out (wk_gen s)) + min (length es) RUN_CHUNK * (F64_MAX_LEN W + 1)" True]
    by (simp add: vw_run_from_def Let_def andthen_def reserve_def pure_array [OF assms(1,2)])
qed

text \<open>A step that changes only the fields of \<open>Gen\<close>.\<close>

lemma does_moved:
  assumes "m s = Returned x s'" and "wk_world s' = wk_world s" and "wk_statics s' = wk_statics s"
    and "gn_out (wk_gen s) \<noteq> [] \<Longrightarrow> gn_out (wk_gen s') \<noteq> []" and "does W st held (k x) s' p"
  shows "does W st held (andthen m k) s p"
proof (rule doesI)
  assume "statics_fine W st s"
  with assms(2,3) have fine: "statics_fine W st s'" by (simp add: statics_fine_def)
  moreover have "leads W st held s' s'' \<Longrightarrow> leads W st held s s''" for s''
    using assms(2,4) by (auto simp: leads_def)
  ultimately show ?thesis using assms(1,5) by (fastforce simp: does_def andthen_def split: sum.splits)
qed

text \<open>The recursive call does what it should on the VALUEs that denote one of some objects.\<close>

definition walks :: "'w walk_env \<Rightarrow> gen_statics \<Rightarrow> bool \<Rightarrow> VALUE list \<Rightarrow> 'w walk_rec \<Rightarrow> nat \<Rightarrow> robj list \<Rightarrow> bool" where
  "walks W st pty held rec inner objs \<longleftrightarrow>
     (\<forall>s e v. v \<in> set objs \<longrightarrow> denotes W st (wk_world s) e v \<longrightarrow>
        does W st held (rec held e inner) s (emit_value (we_emitter W) (we_cfg W) pty v inner (wk_gen s)))"

lemma walksD:
  "walks W st pty held rec inner objs \<Longrightarrow> v \<in> set objs \<Longrightarrow> denotes W st (wk_world s) e v \<Longrightarrow>
     does W st held (rec held e inner) s (emit_value (we_emitter W) (we_cfg W) pty v inner (wk_gen s))"
  by (simp add: walks_def)

text \<open>The loop of \<open>emit_array\<close>, given that the recursive call does what it should on the elements.\<close>

lemma does_elem:
  assumes "vm_contract W st" and "denotes W st (wk_world s) e v"
    and "does W st held (r) s (emit_value (we_emitter W) (we_cfg W) pty v inner (wk_gen s))"
  shows "does W st held
    (if FLONUM_P W e then vw_float W e
     else if \<not> SPECIAL_CONST_P W e
     then andthen (type_of W e) (\<lambda>t. if t = T_FLOAT then vw_float W e else r)
     else r) s
    (case v of
       OFlonum f \<Rightarrow> emit_float (we_emitter W) (we_cfg W) f (wk_gen s)
     | OHeapFloat f \<Rightarrow> emit_float (we_emitter W) (we_cfg W) f (wk_gen s)
     | _ \<Rightarrow> emit_value (we_emitter W) (we_cfg W) pty v inner (wk_gen s))"
proof (cases "\<exists>f. v = OFlonum f \<or> v = OHeapFloat f")
  case True
  then obtain f where f: "v = OFlonum f \<or> v = OHeapFloat f" by blast
  note float = does_float [OF pure_num2dbl [OF assms(1,2) f]]
  show ?thesis
  proof (cases "FLONUM_P W e")
    case True
    with float f show ?thesis by auto
  next
    case False
    with f denotes_flags(1) [OF assms(1,2)] have v: "v = OHeapFloat f" by auto
    with assms(2) denotes_now(1) [of W st "wk_world s" e f] have ty: "wd_type W (wk_world s) e = Some T_FLOAT" by simp
    note tag = vm_contractD(4) [OF assms(1)]
    from ty tag have "\<not> SPECIAL_CONST_P W e" by (auto simp: tag_law_def)
    with False v float show ?thesis
      by simp (rule pure_does, rule type_of_type [OF ty tag], simp)
  qed
next
  case False
  with denotes_flags(1) [OF assms(1,2)] have not_flonum: "\<not> FLONUM_P W e" by blast
  have case_v: "(case v of
       OFlonum f \<Rightarrow> emit_float (we_emitter W) (we_cfg W) f (wk_gen s)
     | OHeapFloat f \<Rightarrow> emit_float (we_emitter W) (we_cfg W) f (wk_gen s)
     | _ \<Rightarrow> emit_value (we_emitter W) (we_cfg W) pty v inner (wk_gen s)) =
     emit_value (we_emitter W) (we_cfg W) pty v inner (wk_gen s)"
    using False by (simp split: robj.split)
  show ?thesis
  proof (cases "SPECIAL_CONST_P W e")
    case True
    with not_flonum assms(3) show ?thesis unfolding case_v by simp
  next
    case heap: False
    obtain t where t: "wd_type W (wk_world s) e = Some t" "t \<noteq> T_FLOAT"
      using denotes_heap [OF assms(1,2) heap] False by (cases v) auto
    show ?thesis
      unfolding case_v
      by (simp add: not_flonum heap)
        (rule pure_does, rule type_of_type [OF t(1) vm_contractD(4) [OF assms(1)]], simp add: t(2) assms(3))
  qed
qed


lemma does_run_or_elem:
  fixes s :: "'w vm_state"
  assumes "vm_contract W st" and stays: "array_stays W st (wk_world s) ary xs vs" and es: "drop i vs = v # es"
    and i: "i < length xs" and one: "does W st held m s p"
    and run: "\<And>n s'. 0 < n \<Longrightarrow> i + n \<le> length vs \<Longrightarrow> wk_world s' = wk_world s \<Longrightarrow>
      does W st held (k (i + n)) s' (emit_elems (we_emitter W) (we_cfg W) pty True (drop n (v # es)) inner (wk_gen s'))"
  shows "does W st held
    (andthen (if \<not> pty \<and> (FLONUM_P W (xs ! i) \<or> FIXNUM_P W (xs ! i)) then vw_run_from W ary (length xs) i else give i)
      (\<lambda>j. if i < j then k j else m)) s
    (let (n, out) = (if \<not> pty \<and> is_number v
                     then num_run (we_emitter W) (min (length (v # es)) RUN_CHUNK) True (v # es) (gn_out (wk_gen s))
                     else (0, gn_out (wk_gen s)))
     in if 0 < n then emit_elems (we_emitter W) (we_cfg W) pty True (drop n (v # es)) inner ((wk_gen s)\<lparr>gn_out := out\<rparr>)
        else p)"
proof -
  have "denotes W st (wk_world s) (xs ! i) v"
    using array_staysD(3) [OF stays] i es list_all2_lengthD [OF array_staysD(3) [OF stays]]
    by (metis list_all2_nthD nth_via_drop)
  then have num: "FLONUM_P W (xs ! i) \<or> FIXNUM_P W (xs ! i) \<longleftrightarrow> is_number v"
    using denotes_flags [OF assms(1)] by (cases v) auto
  show ?thesis
  proof (cases "\<not> pty \<and> is_number v")
    case False
    with one num show ?thesis by auto
  next
    case True
    let ?run = "num_run (we_emitter W) (min (length (v # es)) RUN_CHUNK) True (v # es) (gn_out (wk_gen s))"
    obtain n out where n: "?run = (n, out)" by fastforce
    let ?s = "s\<lparr>wk_gen := (wk_gen s)\<lparr>gn_out := out\<rparr>\<rparr>"
    have ran: "vw_run_from W ary (length xs) i s = Returned (i + n) ?s"
      using vw_run_from_does [OF assms(1) stays es [symmetric]] n by simp
    have grows: "gn_out (wk_gen s) \<noteq> [] \<Longrightarrow> out \<noteq> []"
      using num_run_grows [of "we_emitter W" _ True "v # es" "gn_out (wk_gen s)"] n by (metis snd_conv Nil_is_append_conv)
    have "does W st held ((\<lambda>j. if i < j then k j else m) (i + n)) ?s
        (if 0 < n then emit_elems (we_emitter W) (we_cfg W) pty True (drop n (v # es)) inner ((wk_gen s)\<lparr>gn_out := out\<rparr>) else p)"
    proof (cases "n = 0")
      case True
      with n num_run_none [of "we_emitter W" _ True "v # es" "gn_out (wk_gen s)"] have "?s = s" by (metis fst_conv snd_conv gen_state.surjective gen_state.update_convs(1) vm_state.surjective vm_state.update_convs(1))
      with one True show ?thesis by simp
    next
      case False
      have "i + n \<le> length vs"
        using num_run_short [of "we_emitter W" _ True "v # es" "gn_out (wk_gen s)"] n es
        by (metis fst_conv le_diff_conv2 add.commute length_drop i list_all2_lengthD [OF array_staysD(3) [OF stays]] less_imp_le)
      from run [OF _ this, of ?s] False show ?thesis by simp
    qed
    then have "does W st held (andthen (vw_run_from W ary (length xs) i) (\<lambda>j. if i < j then k j else m)) s
        (if 0 < n then emit_elems (we_emitter W) (we_cfg W) pty True (drop n (v # es)) inner ((wk_gen s)\<lparr>gn_out := out\<rparr>) else p)"
      by (intro does_moved [where m = "vw_run_from W ary (length xs) i", OF ran]) (simp_all add: grows)
    with True show ?thesis by (simp only: num n simp_thms if_True Let_def prod.case)
  qed
qed

lemma does_elems:
  assumes "vm_contract W st" and rec: "walks W st pty (ary # held) rec inner vs"
  shows "array_stays W st (wk_world s) ary xs vs \<Longrightarrow> i \<le> length vs \<Longrightarrow> length vs - i < fuel \<Longrightarrow>
    does W st (ary # held) (vw_elems W pty rec held ary inner fuel i) s
      (emit_elems (we_emitter W) (we_cfg W) pty (0 < i) (drop i vs) inner (wk_gen s))"
proof (induction fuel arbitrary: i s)
  case 0
  then show ?case by simp
next
  case (Suc fuel)
  have len: "length xs = length vs" by (rule list_all2_lengthD [OF array_staysD(3) [OF Suc.prems(1)]])
  have rest: "does W st (ary # held) (vw_elems W pty rec held ary inner fuel (i + n)) s'
      (emit_elems (we_emitter W) (we_cfg W) pty True (drop (i + n) vs) inner (wk_gen s'))"
    if "0 < n" "i + n \<le> length vs" "array_stays W st (wk_world s') ary xs vs" for n s'
    using Suc.IH [of s' "i + n"] that Suc.prems(3) by simp
  show ?case
  proof (cases "i = length vs")
    case True
    show ?thesis
      by (simp add: True) (rule pure_does, rule pure_array [OF assms(1) Suc.prems(1)], simp add: len does_give)
  next
    case False
    with Suc.prems(2) obtain v es where es: "drop i vs = v # es" "v \<in> set vs" and i: "i < length xs"
      using len by (metis Cons_nth_drop_Suc le_neq_implies_less nth_mem)
    have drops: "drop (i + n) vs = drop n (v # es)" for n by (simp add: es(1) [symmetric] add.commute)
    have slot: "andthen (array_ptr W ary) (\<lambda>ptr. slot ptr i) s = Returned (xs ! i) s"
      using pure_array(2) [OF assms(1) Suc.prems(1)] i by (simp add: andthen_def slot_def)
    show ?thesis
      unfolding vw_elems.simps es(1)
    proof (rule pure_does, rule pure_array [OF assms(1) Suc.prems(1)], unfold if_not_P [OF i [unfolded not_le [symmetric]]],
        rule pure_does, rule slot, rule does_only_push_then, rule does_only_push_then, goal_cases)
      case (1 s1 s2)
      have stays: "array_stays W st (wk_world s2) ary xs vs" using Suc.prems(1) 1(1,4) by simp
      have e: "denotes W st (wk_world s2) (xs ! i) v"
        using array_staysD(3) [OF stays] i es(1) len by (metis list_all2_nthD nth_via_drop)
      show ?case
        unfolding emit_elems.simps(2) Let_def 1(3) [symmetric] 1(6) [symmetric]
      proof (rule does_run_or_elem [OF assms(1) stays es(1) i, unfolded Let_def], goal_cases)
        case 1
        show ?case
        proof (rule does_then [OF does_elem [OF assms(1) e walksD [OF rec es(2) e]] order_refl], goal_cases)
          case (1 s3)
          have "array_stays W st (wk_world s3) ary xs vs" by (rule array_staysD(4) [OF stays leads_held [OF 1(1)]]) simp
          from rest [OF _ _ this, of 1] i len drops [of 1] show ?case by simp
        qed
      next
        case (2 n s')
        from rest [OF 2(1,2)] stays 2(3) show ?case by (simp add: drops)
      qed
    qed
  qed
qed

lemma denotes_array: "denotes W st w ary (OArr vs) \<Longrightarrow> \<exists>xs. array_stays W st w ary xs vs"
  by (auto simp: array_stays_def elim!: denotesE)

lemma does_array:
  assumes "vm_contract W st" and "denotes W st (wk_world s) ary (OArr vs)" and "length vs < fuel"
    and rec: "walks W st pty (ary # held) rec (depth + 1) vs"
  shows "does W st held (vw_array W pty rec fuel held ary depth) s
    (emit_value (we_emitter W) (we_cfg W) pty (OArr vs) depth (wk_gen s))"
proof -
  obtain xs where stays: "array_stays W st (wk_world s) ary xs vs" using denotes_array [OF assms(2)] by blast
  have none: "xs = [] \<longleftrightarrow> vs = []" using list_all2_lengthD [OF array_staysD(3) [OF stays]] by auto
  show ?thesis
    unfolding vw_array_def Let_def emit_value.simps(1)
  proof (rule does_or_fail, rule does_push_then, goal_cases)
    case (1 u s1)
    note at = stays [folded 1(2)]
    show ?case
    proof (rule pure_does, rule pure_array [OF assms(1) at], cases "vs = []", goal_cases)
      case 1
      with none does_push [of W st held "[b_rbracket]" s1] \<open>wk_gen s1 = _\<close> show ?case by simp
    next
      case 2
      have elems: "does W st (ary # held) (vw_elems W pty rec held ary (depth + 1) fuel 0) s1
          (emit_elems (we_emitter W) (we_cfg W) pty False vs (depth + 1) (wk_gen s1))"
        using does_elems [OF assms(1) rec at, of 0 fuel] assms(3) by simp
      have "does W st held (andthen (vw_elems W pty rec held ary (depth + 1) fuel 0) (\<lambda>_.
          andthen (only_if (pty \<and> array_nl (we_cfg W) \<noteq> []) (push_bytes (array_nl (we_cfg W) @ indents (we_cfg W) depth))) (\<lambda>_.
          push_bytes [b_rbracket]))) s1
        (tryr (emit_elems (we_emitter W) (we_cfg W) pty False vs (depth + 1) (wk_gen s1)) (\<lambda>g.
          Inr (put [b_rbracket] (if pty \<and> array_nl (we_cfg W) \<noteq> []
            then put (array_nl (we_cfg W) @ indents (we_cfg W) depth) g else g))))"
      proof (rule does_then [OF elems], force, rule does_only_push_then, goal_cases)
        case (1 s2 s3)
        from does_push [of W st held "[b_rbracket]" s3] 1(5) show ?case by simp
      qed
      with 2 none \<open>wk_gen s1 = _\<close> show ?case by simp
    qed
  qed
qed

end
