(* ===== verification/Value_Walk_Refines.thy ===== *)
theory Value_Walk_Refines
  imports Value_Arrays
begin

text \<open>
  The walk over VALUEs refines the walker over objects: on a VALUE that denotes an object, with
  fuel for its size, it ends and leaves the fields of \<open>Gen\<close> as \<open>emit_value\<close> leaves them.
\<close>

section \<open>One pair\<close>

text \<open>The callback of \<open>emit_object\<close> over objects, without the pairs after it.\<close>

definition pair_value :: "emitter \<Rightarrow> gen_config \<Rightarrow> robj \<Rightarrow> nat \<Rightarrow> gen_state \<Rightarrow> walk" where
  "pair_value E cfg v inner s =
     (case v of
        OStr str \<Rightarrow> emit_rstring_quoted E cfg str s
      | ONilV \<Rightarrow> Inr (put (asc ''null'') s)
      | OTrueV \<Rightarrow> Inr (put (asc ''true'') s)
      | OFalseV \<Rightarrow> Inr (put (asc ''false'') s)
      | OFlonum f \<Rightarrow> emit_float E cfg f s
      | _ \<Rightarrow> emit_value E cfg False v inner s)"

definition whole_compact_pair :: "emitter \<Rightarrow> gen_config \<Rightarrow> rkey \<Rightarrow> robj \<Rightarrow> nat \<Rightarrow> gen_state \<Rightarrow> walk" where
  "whole_compact_pair E cfg k v inner s =
     (let comma = (last (gn_out s) \<noteq> b_lbrace)
      in case v of
           OFix i \<Rightarrow> emit_pair_int_compact E cfg k comma i s
         | _ \<Rightarrow> tryr (emit_pair_prefix_compact E cfg k comma s) (pair_value E cfg v inner))"

definition whole_pretty_pair :: "emitter \<Rightarrow> gen_config \<Rightarrow> bool \<Rightarrow> rkey \<Rightarrow> robj \<Rightarrow> nat \<Rightarrow> gen_state \<Rightarrow> walk" where
  "whole_pretty_pair E cfg first k v inner s =
     tryr (emit_key E cfg k (put (object_nl cfg @ indents cfg inner) (if first then s else put [b_comma] s))) (\<lambda>s.
       emit_value E cfg True v inner (put (space_before cfg @ [b_colon] @ space cfg) s))"

lemma emit_pairs_step:
  "emit_pairs E cfg pty hi ks m first ((k, v) # kvs) inner s =
     tryr
       (ask s (if fst (needs_check (kind_of_key k) m) then check_duplicate_keys E hi ks else Inr ()) (\<lambda>_.
          if pty then whole_pretty_pair E cfg first k v inner s else whole_compact_pair E cfg k v inner s))
       (emit_pairs E cfg pty hi ks (snd (needs_check (kind_of_key k) m)) False kvs inner)"
  unfolding emit_pairs.simps(2) Let_def split_def whole_pretty_pair_def whole_compact_pair_def pair_value_def [abs_def]
  by (cases pty; cases "if fst (needs_check (kind_of_key k) m) then check_duplicate_keys E hi ks else Inr ()")
    (simp_all only: ask.simps failing_def tryr.simps if_True if_False)

lemma emit_pairs_compact: "emit_pairs E cfg False hi ks m first kvs inner s = emit_pairs E cfg False hi ks m first' kvs inner s"
  by (cases kvs) (simp_all only: emit_pairs_step emit_pairs.simps(1) split_paired_all if_False)


section \<open>A Hash\<close>

definition pairs_stay ::
  "'w walk_env \<Rightarrow> gen_statics \<Rightarrow> 'w \<Rightarrow> VALUE \<Rightarrow> (nat \<Rightarrow> (VALUE \<times> VALUE \<times> nat) option) \<Rightarrow> exc + bytes \<Rightarrow>
     (VALUE \<times> VALUE) list \<Rightarrow> (rkey \<times> robj) list \<Rightarrow> bool" where
  "pairs_stay W st w hash next hi ps kvs \<longleftrightarrow>
     (\<forall>w'. while_held W hash w w' \<longrightarrow>
        wd_type W w' hash = Some T_HASH \<and> wd_hash_size W w' hash = length ps \<and> wd_next W w' hash = next \<and>
        inspects W w' hash hi \<and>
        list_all2 (\<lambda>p kv. key_at W w' (fst p) (fst kv) \<and> inspected_key W w' (fst p) (fst kv) \<and>
          denotes W st w' (snd p) (snd kv)) ps kvs)"

lemma denotes_hash:
  "denotes W st w hash (OHsh hi kvs) \<Longrightarrow> \<exists>next ps. visits next 0 ps \<and> pairs_stay W st w hash next hi ps kvs"
  unfolding pairs_stay_def by (erule denotesE) blast

lemma pairs_stayD:
  assumes "pairs_stay W st w hash next hi ps kvs"
  shows "while_held W hash w w' \<Longrightarrow> pairs_stay W st w' hash next hi ps kvs"
    and "hash_stays W w hash next hi" and "wd_type W w hash = Some T_HASH" and "wd_hash_size W w hash = length ps"
    and "length ps = length kvs" and "i < length ps \<Longrightarrow> key_stays W w hash (fst (ps ! i)) (fst (kvs ! i))"
    and "i < length ps \<Longrightarrow> denotes W st w (snd (ps ! i)) (snd (kvs ! i))"
    and "list_all2 (\<lambda>p rk. key_stays W w hash (fst p) rk) ps (map fst kvs)"
proof -
  note all = assms [unfolded pairs_stay_def, rule_format]
  show "while_held W hash w w' \<Longrightarrow> pairs_stay W st w' hash next hi ps kvs"
    unfolding pairs_stay_def using all rtranclp_trans [of _ w w'] by blast
  show "hash_stays W w hash next hi" unfolding hash_stays_def using all by blast
  show "wd_type W w hash = Some T_HASH" "wd_hash_size W w hash = length ps" using all by auto
  have now: "list_all2 (\<lambda>p kv. key_at W w (fst p) (fst kv) \<and> inspected_key W w (fst p) (fst kv) \<and>
      denotes W st w (snd p) (snd kv)) ps kvs" using all by blast
  show len: "length ps = length kvs" by (rule list_all2_lengthD [OF now])
  show key: "key_stays W w hash (fst (ps ! i)) (fst (kvs ! i))" if "i < length ps" for i
    unfolding key_stays_def using all list_all2_nthD that by fastforce
  show "i < length ps \<Longrightarrow> denotes W st w (snd (ps ! i)) (snd (kvs ! i))" using list_all2_nthD [OF now] by blast
  show "list_all2 (\<lambda>p rk. key_stays W w hash (fst p) rk) ps (map fst kvs)"
    using key len by (simp add: list_all2_conv_all_nth)
qed

text \<open>A value in a compact pair, with the arms for scalars.\<close>

lemma denotes_consts:
  assumes "vm_contract W st" and "denotes W st w v obj"
  shows "v = wd_QNIL W \<longleftrightarrow> obj = ONilV" and "v = wd_QTRUE W \<longleftrightarrow> obj = OTrueV" and "v = wd_QFALSE W \<longleftrightarrow> obj = OFalseV"
proof -
  note tag = vm_contractD(4) [OF assms(1)]
  have imm: "{wd_QNIL W, wd_QTRUE W, wd_QFALSE W} \<subseteq> {v. SPECIAL_CONST_P W v \<and> \<not> FIXNUM_P W v \<and> \<not> FLONUM_P W v}"
    "distinct [wd_QNIL W, wd_QTRUE W, wd_QFALSE W]"
    "STATIC_SYM_P W v \<Longrightarrow> v \<notin> {wd_QNIL W, wd_QTRUE W, wd_QFALSE W}"
    using assms(1) by (simp_all add: vm_contract_def)
  have heap: "wd_type W w v = Some t \<Longrightarrow> v \<notin> {wd_QNIL W, wd_QTRUE W, wd_QFALSE W}" for t
    using tag imm(1) by (auto simp: tag_law_def)
  have "(v = wd_QNIL W \<longleftrightarrow> obj = ONilV) \<and> (v = wd_QTRUE W \<longleftrightarrow> obj = OTrueV) \<and> (v = wd_QFALSE W \<longleftrightarrow> obj = OFalseV)"
  proof (cases obj)
    case (OSym g)
    with assms(2) denotes_now(4) [of W st w v g] have "symbol_at W w v g" by simp
    with OSym imm(3) heap show ?thesis by (auto simp: symbol_at_def)
  next
    case (OOther info asj)
    with assms(2) have "denotes W st w v (OOther info asj)" by simp
    from other_staysD(1) [OF denotes_now(7) [OF this]] have "other_at W st w v info" .
    with heap OOther show ?thesis by (auto simp: other_at_def split: if_splits)
  next
    case (OStr g)
    with assms(2) denotes_now(3) [of W st w v g] have "wd_type W w v = Some T_STRING" by (simp add: string_at_def)
    with OStr heap show ?thesis by auto
  next
    case (OFix i)
    with assms imm(1) denotes_flags(2) [OF assms] show ?thesis by auto
  next
    case (OFlonum f)
    with assms imm(1) denotes_flags(1) [OF assms] show ?thesis by auto
  next
    case (OHeapFloat f)
    with assms(2) denotes_now(1) [of W st w v f] heap show ?thesis by auto
  next
    case (OBig b)
    with assms(2) denotes_now(2) [of W st w v b] heap show ?thesis by auto
  next
    case (OArr vs)
    with assms(2) denotes_now(5) [of W st w v vs] heap show ?thesis by auto
  next
    case (OHsh hi kvs)
    with assms(2) denotes_now(6) [of W st w v hi kvs] heap show ?thesis by auto
  qed (use assms(2) imm(2) in \<open>auto elim!: denotesE\<close>)
  then show "v = wd_QNIL W \<longleftrightarrow> obj = ONilV" and "v = wd_QTRUE W \<longleftrightarrow> obj = OTrueV" and "v = wd_QFALSE W \<longleftrightarrow> obj = OFalseV"
    by blast+
qed

lemma does_pair_value:
  assumes "vm_contract W st" and "denotes W st (wk_world s) v obj" and "\<nexists>i. obj = OFix i"
    and "does W st held r s (emit_value (we_emitter W) (we_cfg W) False obj inner (wk_gen s))"
  shows "does W st held
    (if \<not> SPECIAL_CONST_P W v
     then andthen (type_of W v) (\<lambda>t. if t = T_STRING then vw_quoted W held v else r)
     else if v = wd_QNIL W then push_bytes (asc ''null'')
     else if v = wd_QTRUE W then push_bytes (asc ''true'')
     else if v = wd_QFALSE W then push_bytes (asc ''false'')
     else if FLONUM_P W v then vw_float W v
     else r) s (pair_value (we_emitter W) (we_cfg W) obj inner (wk_gen s))"
proof (cases "SPECIAL_CONST_P W v")
  case False
  obtain t where t: "wd_type W (wk_world s) v = Some t" "t = T_STRING \<longleftrightarrow> (\<exists>g. obj = OStr g)"
    "\<not> (obj \<in> {ONilV, OTrueV, OFalseV} \<or> (\<exists>f. obj = OFlonum f))"
    using denotes_heap [OF assms(1,2) False] assms(3) by (cases obj) auto
  have "does W st held (if t = T_STRING then vw_quoted W held v else r) s
      (pair_value (we_emitter W) (we_cfg W) obj inner (wk_gen s))"
    using t assms(3,4) does_quoted [OF assms(1) denotes_now(3)] assms(2)
    by (cases obj) (auto simp: pair_value_def simp del: emit_value.simps)
  then show ?thesis
    by (simp add: False) (rule pure_does, rule type_of_type [OF t(1) vm_contractD(4) [OF assms(1)]])
next
  case True
  have "\<nexists>g. obj = OStr g"
  proof
    assume "\<exists>g. obj = OStr g"
    then obtain g where "denotes W st (wk_world s) v (OStr g)" using assms(2) by blast
    from denotes_now(3) [OF this] have "wd_type W (wk_world s) v = Some T_STRING" by (simp add: string_at_def)
    with True vm_contractD(4) [OF assms(1)] show False by (auto simp: tag_law_def)
  qed
  then show ?thesis
    using True assms(3,4) denotes_consts [OF assms(1,2)] denotes_flags [OF assms(1,2)]
      does_push [of W st held _ s] does_float [OF pure_num2dbl [OF assms(1,2)]]
    by (cases obj) (auto simp: pair_value_def simp del: emit_value.simps)
qed


text \<open>What follows the check of a compact pair.\<close>

lemma does_key_value:
  assumes "vm_contract W st" and "key_stays W (wk_world s) hash k rk" and "denotes W st (wk_world s) v obj"
    and rec: "walks W st False (hash # held) rec inner [obj]"
    and later: "\<And>w'. while_held W hash (wk_world s) w' \<Longrightarrow> denotes W st w' v obj"
    and comma: "comma \<longleftrightarrow> last (gn_out (wk_gen s)) \<noteq> b_lbrace"
  shows "does W st (hash # held) (vw_key_value W rec held hash inner k (kind_of_key rk) v comma) s
    (whole_compact_pair (we_emitter W) (we_cfg W) rk obj inner (wk_gen s))"
proof (cases "FIXNUM_P W v")
  case True
  with denotes_flags(2) [OF assms(1,3)] obtain i where i: "obj = OFix i" by blast
  with assms(3) have "FIX2LONG W v = i" by (auto elim: denotesE)
  moreover have "i64_range (FIX2LONG W v)" using True vm_contractD(4) [OF assms(1)] by (simp add: tag_law_def)
  ultimately show ?thesis
    using does_pair_int [OF assms(1,2), of "hash # held" "FIX2LONG W v" comma] True i comma
    by (simp add: vw_key_value_def whole_compact_pair_def)
next
  case False
  with denotes_flags(2) [OF assms(1,3)] have no_int: "\<nexists>i. obj = OFix i" by blast
  have pair: "whole_compact_pair (we_emitter W) (we_cfg W) rk obj inner (wk_gen s) =
      tryr (emit_pair_prefix_compact (we_emitter W) (we_cfg W) rk comma (wk_gen s)) (pair_value (we_emitter W) (we_cfg W) obj inner)"
    using no_int comma by (cases obj) (simp_all add: whole_compact_pair_def Let_def)
  show ?thesis
    unfolding pair vw_key_value_def if_not_P [OF False]
  proof (rule does_then [OF does_pair_prefix [OF assms(1,2)]], simp, force, goal_cases)
    case (1 s')
    have obj: "denotes W st (wk_world s') v obj" by (rule later, rule leads_held [OF 1(1)]) simp
    show ?case
      by (rule does_pair_value [OF assms(1) obj no_int]) (rule walksD [OF rec _ obj], simp)
  qed
qed


section \<open>The callbacks\<close>

text \<open>A callback that stops when the walk fails, and otherwise goes on with \<open>b\<close>.\<close>

definition steps ::
  "'w walk_env \<Rightarrow> gen_statics \<Rightarrow> VALUE list \<Rightarrow> ('w vm_state, iter_step \<times> 'a) action \<Rightarrow> 'w vm_state \<Rightarrow> 'a \<Rightarrow> walk \<Rightarrow> bool" where
  "steps W st held m s b p \<longleftrightarrow> (statics_fine W st s \<longrightarrow>
     (case p of
        Inl g \<Rightarrow> \<exists>a s'. m s = Returned (Stop, a) s' \<and> wk_gen s' = g \<and> leads W st held s s'
      | Inr g \<Rightarrow> \<exists>s'. m s = Returned (Continue, b) s' \<and> wk_gen s' = g \<and> leads W st held s s'))"

lemma steps_or_stop: "does W st held m s p \<Longrightarrow> steps W st held (or_stop_at (andthen m (\<lambda>_. give b)) a) s b p"
  by (fastforce simp: does_def steps_def or_stop_at_def andthen_def give_def split: sum.splits)

lemma pure_steps: "m s = Returned x s \<Longrightarrow> steps W st held (k x) s b p \<Longrightarrow> steps W st held (andthen m k) s b p"
  by (simp add: steps_def andthen_def split: sum.splits)

lemma tryr_ask: "tryr (ask g r (\<lambda>_. Inr g)) q = ask g r (\<lambda>_. q g)"
  by (cases r) (simp_all add: failing_def)

lemma does_check:
  assumes "vm_contract W st" and "pairs_stay W st (wk_world s) hash next hi ps kvs" and "visits next 0 ps" and "length ps < fuel"
  shows "does W st (hash # held) (only_if c (vw_check_duplicate_keys W fuel (k # v # held) hash)) s
    (ask (wk_gen s) (if c then check_duplicate_keys (we_emitter W) hi (map fst kvs) else Inr ()) (\<lambda>_. Inr (wk_gen s)))"
proof (cases c)
  case True
  have "does W st (hash # k # v # held) (vw_check_duplicate_keys W fuel (k # v # held) hash) s
      (ask (wk_gen s) (check_duplicate_keys (we_emitter W) hi (map fst kvs)) (\<lambda>_. Inr (wk_gen s)))"
    by (rule does_check_duplicate_keys [OF assms(1) pairs_stayD(2) [OF assms(2)] assms(3,4) pairs_stayD(8) [OF assms(2)]])
  from does_fewer [OF this, of "hash # held"] True show ?thesis by (auto simp: only_if_def)
qed (simp add: only_if_def does_give)

lemma steps_compact:
  assumes "vm_contract W st" and "pairs_stay W st (wk_world s) hash next hi ps kvs" and "visits next 0 ps" and "length ps < fuel"
    and rec: "walks W st False (hash # held) rec inner (map snd kvs)"
    and i: "i < length ps" "ps ! i = (k, v)" "kvs ! i = (rk, obj)" and out: "gn_out (wk_gen s) \<noteq> []"
  shows "steps W st (hash # held) (vw_compact_pair W rec fuel held hash inner m k v) s (snd (needs_check (kind_of_key rk) m))
    (ask (wk_gen s) (if fst (needs_check (kind_of_key rk) m) then check_duplicate_keys (we_emitter W) hi (map fst kvs) else Inr ())
      (\<lambda>_. whole_compact_pair (we_emitter W) (we_cfg W) rk obj inner (wk_gen s)))"
proof -
  note at = pairs_stayD [OF assms(2)]
  obtain c m' where c: "needs_check (kind_of_key rk) m = (c, m')" by fastforce
  let ?check = "only_if c (vw_check_duplicate_keys W fuel (k # v # held) hash)"
  let ?rest = "andthen last_byte (\<lambda>b. vw_key_value W rec held hash inner k (kind_of_key rk) v (b \<noteq> b_lbrace))"
  have obj: "obj \<in> set (map snd kvs)" using at(5) i by (metis nth_mem length_map nth_map snd_conv)
  have one: "walks W st False (hash # held) rec inner [obj]" using rec obj by (auto simp: walks_def)
  have "does W st (hash # held) (andthen ?check (\<lambda>_. ?rest)) s
      (tryr (ask (wk_gen s) (if c then check_duplicate_keys (we_emitter W) hi (map fst kvs) else Inr ()) (\<lambda>_. Inr (wk_gen s)))
        (whole_compact_pair (we_emitter W) (we_cfg W) rk obj inner))"
  proof (rule does_then [OF does_check [OF assms(1-4)] order_refl], goal_cases)
    case (1 s')
    have world: "while_held W hash (wk_world s) (wk_world s')" by (rule leads_held [OF 1(1)]) simp
    note at' = pairs_stayD [OF at(1) [OF world]]
    have last: "last_byte s' = Returned (last (gn_out (wk_gen s'))) s'"
      using 1(1) out by (simp add: last_byte_def leads_def)
    show ?case
    proof (rule pure_does, rule last, rule does_key_value [OF assms(1) _ _ one], goal_cases)
      case 1
      then show ?case using at'(6) [OF i(1)] i by simp
    next
      case 2
      then show ?case using at'(7) [OF i(1)] i by simp
    next
      case (3 w')
      then show ?case using pairs_stayD(7) [OF at'(1) [OF 3] i(1)] i by simp
    qed simp
  qed
  then have "steps W st (hash # held) (or_stop_at (andthen (andthen ?check (\<lambda>_. ?rest)) (\<lambda>_. give m')) m') s m'
      (ask (wk_gen s) (if c then check_duplicate_keys (we_emitter W) hi (map fst kvs) else Inr ())
        (\<lambda>_. whole_compact_pair (we_emitter W) (we_cfg W) rk obj inner (wk_gen s)))"
    unfolding tryr_ask by (rule steps_or_stop)
  moreover have "vw_key_kind W k s = Returned (kind_of_key rk) s"
    using key_kind_at [OF assms(1) key_staysD(1) [OF at(6) [OF i(1)]]] i by simp
  ultimately show ?thesis
    unfolding vw_compact_pair_def c prod.case fst_conv snd_conv by - (rule pure_steps, assumption, simp only: c prod.case andthen_assoc)
qed

lemma steps_pretty:
  assumes "vm_contract W st" and "pairs_stay W st (wk_world s) hash next hi ps kvs" and "visits next 0 ps" and "length ps < fuel"
    and rec: "walks W st True (hash # held) rec inner (map snd kvs)"
    and i: "i < length ps" "ps ! i = (k, v)" "kvs ! i = (rk, obj)"
  shows "steps W st (hash # held) (vw_pretty_pair W rec fuel held hash inner (m, first) k v) s
    (snd (needs_check (kind_of_key rk) m), False)
    (ask (wk_gen s) (if fst (needs_check (kind_of_key rk) m) then check_duplicate_keys (we_emitter W) hi (map fst kvs) else Inr ())
      (\<lambda>_. whole_pretty_pair (we_emitter W) (we_cfg W) first rk obj inner (wk_gen s)))"
proof -
  note at = pairs_stayD [OF assms(2)]
  obtain c m' where c: "needs_check (kind_of_key rk) m = (c, m')" by fastforce
  let ?check = "only_if c (vw_check_duplicate_keys W fuel (k # v # held) hash)"
  let ?rest = "andthen (only_if (\<not> first) (push_bytes [b_comma])) (\<lambda>_.
      andthen (push_bytes (object_nl (we_cfg W) @ indents (we_cfg W) inner)) (\<lambda>_.
      andthen (vw_key W (v # hash # held) k (kind_of_key rk)) (\<lambda>_.
      andthen (push_bytes (space_before (we_cfg W) @ [b_colon] @ space (we_cfg W))) (\<lambda>_. rec (hash # held) v inner))))"
  have obj: "obj \<in> set (map snd kvs)" using at(5) i by (metis nth_mem length_map nth_map snd_conv)
  have "does W st (hash # held) (andthen ?check (\<lambda>_. ?rest)) s
      (tryr (ask (wk_gen s) (if c then check_duplicate_keys (we_emitter W) hi (map fst kvs) else Inr ()) (\<lambda>_. Inr (wk_gen s)))
        (whole_pretty_pair (we_emitter W) (we_cfg W) first rk obj inner))"
  proof (rule does_then [OF does_check [OF assms(1-4)] order_refl], goal_cases)
    case (1 s')
    have world: "while_held W hash (wk_world s) (wk_world s')" by (rule leads_held [OF 1(1)]) simp
    note stays = at(1) [OF world]
    show ?case
    proof (rule does_only_push_then, rule does_push_then, goal_cases)
      case (1 s1 s2)
      then have w2: "wk_world s2 = wk_world s'" by simp
      have key: "key_stays W (wk_world s2) hash k rk" using pairs_stayD(6) [OF stays i(1)] i w2 by simp
      have gen: "wk_gen s2 = put (object_nl (we_cfg W) @ indents (we_cfg W) inner) (if first then wk_gen s' else put [b_comma] (wk_gen s'))"
        using 1(3,6) by simp
      show ?case
        unfolding whole_pretty_pair_def gen [symmetric]
      proof (rule does_then [OF does_key [OF assms(1) key]], simp, force, rule does_push_then, goal_cases)
        case (1 s3 s4)
        have "while_held W hash (wk_world s2) (wk_world s3)" by (rule leads_held [OF 1(1)]) simp
        then have "denotes W st (wk_world s4) v obj" using pairs_stayD(7) [OF pairs_stayD(1) [OF stays] i(1)] i w2 1(3) by simp
        from walksD [OF rec obj this] 1(5) show ?case by simp
      qed
    qed
  qed
  then have "steps W st (hash # held) (or_stop_at (andthen (andthen ?check (\<lambda>_. ?rest)) (\<lambda>_. give (m', False))) (m', first)) s (m', False)
      (ask (wk_gen s) (if c then check_duplicate_keys (we_emitter W) hi (map fst kvs) else Inr ())
        (\<lambda>_. whole_pretty_pair (we_emitter W) (we_cfg W) first rk obj inner (wk_gen s)))"
    unfolding tryr_ask by (rule steps_or_stop)
  moreover have "vw_key_kind W k s = Returned (kind_of_key rk) s"
    using key_kind_at [OF assms(1) key_staysD(1) [OF at(6) [OF i(1)]]] i by simp
  ultimately show ?thesis
    unfolding vw_pretty_pair_def c prod.case fst_conv snd_conv by - (rule pure_steps, assumption, simp only: c prod.case andthen_assoc)
qed


section \<open>The iteration\<close>

text \<open>The iteration returns, whether a callback stopped it or not.\<close>

definition ends :: "'w walk_env \<Rightarrow> gen_statics \<Rightarrow> VALUE list \<Rightarrow> ('w vm_state, 'a) action \<Rightarrow> 'w vm_state \<Rightarrow> gen_state \<Rightarrow> bool" where
  "ends W st held m s g \<longleftrightarrow> (statics_fine W st s \<longrightarrow>
     (\<exists>x s'. m s = Returned x s' \<and> wk_gen s' = g \<and> leads W st held s s'))"

lemma ends_does:
  assumes "ends W st held' m s g" and "set held \<subseteq> set held'"
    and "\<And>x s'. wk_gen s' = g \<Longrightarrow> leads W st held' s s' \<Longrightarrow> does W st held (k x) s' p"
  shows "does W st held (andthen m k) s p"
proof (rule doesI)
  assume "statics_fine W st s"
  with assms(1) obtain x s' where s': "m s = Returned x s'" "wk_gen s' = g" "leads W st held' s s'"
    by (auto simp: ends_def)
  from assms(3) [OF s'(2,3)] leads_fine [OF s'(3)] leads_trans [OF leads_fewer [OF s'(3) assms(2)]] s'(1)
  show "does W st held (andthen m k) s p"
    by (fastforce simp: does_def andthen_def split: sum.splits)
qed

lemma ends_steps:
  assumes "steps W st held m s b p"
    and "\<And>g s'. p = Inr g \<Longrightarrow> wk_gen s' = g \<Longrightarrow> leads W st held s s' \<Longrightarrow> ends W st held (k b) s' (walk_state (q g))"
  shows "ends W st held (andthen m (\<lambda>(step, a). case step of Continue \<Rightarrow> k a | Stop \<Rightarrow> give a)) s (walk_state (tryr p q))"
proof (cases p)
  case (Inl g)
  with assms(1) show ?thesis by (fastforce simp: steps_def ends_def andthen_def give_def)
next
  case (Inr g)
  show ?thesis
    unfolding ends_def
  proof
    assume "statics_fine W st s"
    with assms(1) Inr obtain s' where s': "m s = Returned (Continue, b) s'" "wk_gen s' = g" "leads W st held s s'"
      by (auto simp: steps_def)
    from assms(2) [OF Inr s'(2,3)] leads_fine [OF s'(3)] leads_trans [OF s'(3)] s'(1) Inr
    show "\<exists>x s'. andthen m (\<lambda>(step, a). case step of Continue \<Rightarrow> k a | Stop \<Rightarrow> give a) s = Returned x s' \<and>
        wk_gen s' = walk_state (tryr p q) \<and> leads W st held s s'"
      by (fastforce simp: ends_def andthen_def)
  qed
qed

lemma foreach_pairs:
  assumes "vm_contract W st" and "hash \<in> set held"
    and step: "\<And>s a i k v rk obj. i < length ps \<Longrightarrow> ps ! i = (k, v) \<Longrightarrow> kvs ! i = (rk, obj) \<Longrightarrow>
      pairs_stay W st (wk_world s) hash next hi ps kvs \<Longrightarrow> gn_out (wk_gen s) \<noteq> [] \<Longrightarrow>
      \<exists>b. steps W st held (f a k v) s b
          (ask (wk_gen s) (if fst (needs_check (kind_of_key rk) (mk a)) then check_duplicate_keys (we_emitter W) hi (map fst kvs) else Inr ())
            (\<lambda>_. if pty then whole_pretty_pair (we_emitter W) (we_cfg W) (fs a) rk obj inner (wk_gen s)
                 else whole_compact_pair (we_emitter W) (we_cfg W) rk obj inner (wk_gen s))) \<and>
        mk b = snd (needs_check (kind_of_key rk) (mk a)) \<and> \<not> fs b"
  shows "pairs_stay W st (wk_world s) hash next hi ps kvs \<Longrightarrow> visits next pos (drop i ps) \<Longrightarrow> i \<le> length ps \<Longrightarrow>
    length ps - i < fuel \<Longrightarrow> gn_out (wk_gen s) \<noteq> [] \<Longrightarrow>
    ends W st held (vw_foreach W fuel hash pos f a) s
      (walk_state (emit_pairs (we_emitter W) (we_cfg W) pty hi (map fst kvs) (mk a) (fs a) (drop i kvs) inner (wk_gen s)))"
proof (induction fuel arbitrary: i pos a s)
  case 0
  then show ?case by simp
next
  case (Suc fuel)
  note at = pairs_stayD [OF Suc.prems(1)]
  have read: "read_as W T_HASH hash (\<lambda>w. wd_next W w hash pos) s = Returned (next pos) s"
    by (rule pure_next [OF at(2) vm_contractD(4) [OF assms(1)]])
  show ?case
  proof (cases "i = length ps")
    case True
    with Suc.prems(2) have "next pos = None" by simp
    with True at(5) read show ?thesis
      by (auto simp: ends_def andthen_def give_def intro: leads_refl)
  next
    case False
    with Suc.prems(3) have i: "i < length ps" by simp
    obtain k v rk obj where kv: "ps ! i = (k, v)" "kvs ! i = (rk, obj)" by fastforce
    have drops: "drop i ps = (k, v) # drop (i + 1) ps" "drop i kvs = (rk, obj) # drop (i + 1) kvs"
      using i kv at(5) by (metis Cons_nth_drop_Suc Suc_eq_plus1)+
    with Suc.prems(2) obtain pos' where pos': "next pos = Some (k, v, pos')" "visits next pos' (drop (i + 1) ps)" by auto
    obtain b where b: "steps W st held (f a k v) s b
          (ask (wk_gen s) (if fst (needs_check (kind_of_key rk) (mk a)) then check_duplicate_keys (we_emitter W) hi (map fst kvs) else Inr ())
            (\<lambda>_. if pty then whole_pretty_pair (we_emitter W) (we_cfg W) (fs a) rk obj inner (wk_gen s)
                 else whole_compact_pair (we_emitter W) (we_cfg W) rk obj inner (wk_gen s)))"
        "mk b = snd (needs_check (kind_of_key rk) (mk a))" "\<not> fs b"
      using step [OF i kv Suc.prems(1,5)] by blast
    have "ends W st held (andthen (f a k v) (\<lambda>(step, a). case step of Continue \<Rightarrow> vw_foreach W fuel hash pos' f a | Stop \<Rightarrow> give a)) s
        (walk_state (emit_pairs (we_emitter W) (we_cfg W) pty hi (map fst kvs) (mk a) (fs a) (drop i kvs) inner (wk_gen s)))"
      unfolding drops emit_pairs_step
    proof (rule ends_steps [OF b(1)], goal_cases)
      case (1 g s')
      have "pairs_stay W st (wk_world s') hash next hi ps kvs" by (rule at(1) [OF leads_held [OF 1(3) assms(2)]])
      from Suc.IH [OF this pos'(2), of b] 1 Suc.prems(4,5) i b(2,3) show ?case by (auto simp: leads_def)
    qed
    moreover have "vw_foreach W (Suc fuel) hash pos f a s =
        andthen (f a k v) (\<lambda>(step, a). case step of Continue \<Rightarrow> vw_foreach W fuel hash pos' f a | Stop \<Rightarrow> give a) s"
      using read pos'(1) by (simp add: andthen_def)
    ultimately show ?thesis by (simp add: ends_def)
  qed
qed


section \<open>Objects\<close>

lemma ends_forget: "ends W st held m s g \<Longrightarrow> ends W st held (andthen m (\<lambda>_. give ())) s g"
  by (fastforce simp: ends_def andthen_def give_def)

lemma ends_pairs:
  assumes "vm_contract W st" and stays: "pairs_stay W st (wk_world s) hash next hi ps kvs" and vis: "visits next 0 ps" and fuel: "length ps < fuel"
    and rec: "walks W st pty (hash # held) rec inner (map snd kvs)" and out: "gn_out (wk_gen s) \<noteq> []"
  shows "ends W st (hash # held)
    (if pty then andthen (vw_foreach W fuel hash 0 (vw_pretty_pair W rec fuel held hash inner) (m, True)) (\<lambda>_. give ())
     else andthen (vw_foreach W fuel hash 0 (vw_compact_pair W rec fuel held hash inner) m) (\<lambda>_. give ())) s
    (walk_state (emit_pairs (we_emitter W) (we_cfg W) pty hi (map fst kvs) m True kvs inner (wk_gen s)))"
proof (cases pty)
  case True
  have "ends W st (hash # held) (vw_foreach W fuel hash 0 (vw_pretty_pair W rec fuel held hash inner) (m, True)) s
      (walk_state (emit_pairs (we_emitter W) (we_cfg W) True hi (map fst kvs) (fst (m, True)) (snd (m, True)) (drop 0 kvs) inner (wk_gen s)))"
  proof (rule foreach_pairs [OF assms(1) _ _ stays], goal_cases)
    case (2 s a i k v rk obj)
    with steps_pretty [OF assms(1) 2(4) vis fuel _ 2(1-3), where held = held and rec = rec and inner = inner and m = "fst a" and first = "snd a"] rec True
    show ?case by (intro exI [of _ "(snd (needs_check (kind_of_key rk) (fst a)), False)"]) simp
  qed (use vis fuel out in simp_all)
  from ends_forget [OF this] True show ?thesis by simp
next
  case False
  have "ends W st (hash # held) (vw_foreach W fuel hash 0 (vw_compact_pair W rec fuel held hash inner) m) s
      (walk_state (emit_pairs (we_emitter W) (we_cfg W) False hi (map fst kvs) (id m) ((\<lambda>_. False) m) (drop 0 kvs) inner (wk_gen s)))"
  proof (rule foreach_pairs [OF assms(1) _ _ stays], goal_cases)
    case (2 s a i k v rk obj)
    with steps_compact [OF assms(1) 2(4) vis fuel _ 2(1-3,5), where held = held and rec = rec and inner = inner and m = a] rec False
    show ?case by (intro exI [of _ "snd (needs_check (kind_of_key rk) a)"]) simp
  qed (use vis fuel out in simp_all)
  from ends_forget [OF this] False
  show ?thesis by (simp add: emit_pairs_compact [where first = True and first' = False])
qed

lemma pure_hash_size:
  "vm_contract W st \<Longrightarrow> pairs_stay W st (wk_world s) hash next hi ps kvs \<Longrightarrow> hash_size W hash s = Returned (length kvs) s"
  using read_as_type [OF pairs_stayD(3) vm_contractD(4), of W st s hash "next" hi ps kvs st "\<lambda>w. wd_hash_size W w hash"]
    pairs_stayD(4,5) [of W st "wk_world s" hash "next" hi ps kvs]
  by (simp add: hash_size_def)

lemma does_unless_failed:
  assumes "gn_fail (wk_gen s) = None \<Longrightarrow> does W st held (k ()) s p"
  shows "does W st held (andthen (\<lambda>s. if gn_fail (wk_gen s) \<noteq> None then Failed s else Returned () s) k) s
    (if gn_fail (wk_gen s) \<noteq> None then Inl (wk_gen s) else p)"
proof (cases "gn_fail (wk_gen s) = None")
  case True
  with assms show ?thesis by (simp only: True simp_thms if_False) (rule pure_does, simp add: True, assumption)
qed (auto simp: does_def andthen_def intro: leads_refl)

lemma does_object:
  assumes "vm_contract W st" and "denotes W st (wk_world s) hash (OHsh hi kvs)" and "length kvs < fuel"
    and rec: "walks W st pty (hash # held) rec (depth + 1) (map snd kvs)"
  shows "does W st held (vw_object W pty rec fuel held hash depth) s
    (emit_value (we_emitter W) (we_cfg W) pty (OHsh hi kvs) depth (wk_gen s))"
proof -
  obtain "next" ps where vis: "visits next 0 ps" and stays: "pairs_stay W st (wk_world s) hash next hi ps kvs"
    using denotes_hash [OF assms(2)] by blast
  have fuel: "length ps < fuel" using pairs_stayD(5) [OF stays] assms(3) by simp
  let ?m = "mixed_keys_new (gc_allow_duplicate_key (we_cfg W))"
  let ?close = "\<lambda>g. Inr (put [b_rbrace] (if pty \<and> object_nl (we_cfg W) \<noteq> []
      then put (object_nl (we_cfg W) @ indents (we_cfg W) depth) g else g))"
  show ?thesis
    unfolding vw_object_def Let_def emit_value.simps(2)
  proof (rule does_or_fail, rule does_push_then, goal_cases)
    case (1 u s1)
    note at = stays [folded 1(2)] and gen1 = 1(4)
    let ?walk = "\<lambda>g. walk_state (emit_pairs (we_emitter W) (we_cfg W) pty hi (map fst kvs) ?m True kvs (depth + 1) g)"
    show ?case
    proof (rule pure_does, rule pure_hash_size [OF assms(1) at], cases "kvs = []", goal_cases)
      case 1
      with does_push [of W st held "[b_rbrace]" s1] gen1 show ?case by simp
    next
      case 2
      have out: "gn_out (wk_gen s1) \<noteq> []" by (simp add: gen1 put_def)
      have "does W st held (andthen
          (if pty then andthen (vw_foreach W fuel hash 0 (vw_pretty_pair W rec fuel held hash (depth + 1)) (?m, True)) (\<lambda>_. give ())
           else andthen (vw_foreach W fuel hash 0 (vw_compact_pair W rec fuel held hash (depth + 1)) ?m) (\<lambda>_. give ())) (\<lambda>_.
          andthen (\<lambda>s. if gn_fail (wk_gen s) \<noteq> None then Failed s else Returned () s) (\<lambda>_.
          andthen (only_if (pty \<and> object_nl (we_cfg W) \<noteq> [])
                     (push_bytes (object_nl (we_cfg W) @ indents (we_cfg W) depth))) (\<lambda>_.
          push_bytes [b_rbrace])))) s1
        (if gn_fail (?walk (wk_gen s1)) \<noteq> None then Inl (?walk (wk_gen s1)) else ?close (?walk (wk_gen s1)))"
      proof (rule ends_does [OF ends_pairs [OF assms(1) at vis fuel rec out]], force, goal_cases)
        case (1 x s2)
        show ?case
          unfolding 1(1) [symmetric]
        proof (rule does_unless_failed, rule does_only_push_then, goal_cases)
          case (1 s3)
          with does_push [of W st held "[b_rbrace]" s3] show ?case by simp
        qed
      qed
      with 2 gen1 show ?case by (simp only: list.size if_False length_0_conv)
    qed
  qed
qed

section \<open>Values\<close>

lemma weight_elem: "v \<in> set vs \<Longrightarrow> weight v + 2 \<le> weight (OArr vs)"
  by (induction vs) auto

lemma weight_length: "length vs < weight (OArr vs)"
  by (induction vs) auto

lemma weight_pairs: "weight (OHsh hi kvs) = weight (OArr (map snd kvs))"
  by (simp add: o_def)


lemma denotes_big:
  "denotes W st w v (OBig digits) \<Longrightarrow>
     wd_type W w v = Some T_BIGNUM \<and>
     (let w' = wd_after W CallBig2str v held w
      in wd_type W w' (wd_big2str W w v) = Some T_STRING \<and> ra_bytes (wd_api W w') (wd_big2str W w v) = digits)"
  by (erule denotesE) blast

lemma does_big:
  assumes "vm_contract W st" and "denotes W st (wk_world s) v (OBig digits)"
  shows "does W st held (andthen (big2str W held v) (\<lambda>u. andthen (rstring_bytes W u) push_bytes)) s (Inr (put digits (wk_gen s)))"
proof -
  note tag = vm_contractD(4) [OF assms(1)] and big = denotes_big [OF assms(2), of held]
  let ?str = "wd_big2str W (wk_world s) v"
  from big have ty: "wd_type W (wk_world s) v = Some T_BIGNUM" by simp
  have read: "read_as W T_BIGNUM v (\<lambda>w. wd_big2str W w v) s = Returned ?str s" by (rule read_as_type [OF ty tag])
  have "does W st held (andthen (protect W CallBig2str v held (\<lambda>_ _. ?str)) (\<lambda>u. andthen (rstring_bytes W u) push_bytes)) s
      (Inr (put digits (wk_gen s)))"
  proof (rule gets_does [OF gets_protect [OF assms(1) _ order_refl, where Q = "\<lambda>r s'.
        r = ?str \<and> wk_world s' = wd_after W CallBig2str v held (wk_world s)"] order_refl], goal_cases)
    case 1
    with ty show ?case by (simp add: valid_def)
  next
    case (3 r s')
    with big have str: "wd_type W (wk_world s') r = Some T_STRING" "ra_bytes (wd_api W (wk_world s')) r = digits"
      by (auto simp: Let_def)
    have "rstring_bytes W r s' = Returned digits s'" using str by (simp add: rstring_bytes_def read_as_type [OF _ tag])
    from pure_does [where m = "rstring_bytes W r" and k = push_bytes, OF this does_push] 3(2) show ?case by simp
  qed simp
  then show ?thesis
    unfolding big2str_def andthen_assoc by - (rule pure_does, rule read)
qed

text \<open>The dispatch, given the recursive calls.\<close>

lemma does_symbol:
  assumes "vm_contract W st" and "symbol_at W (wk_world s) v g"
  shows "does W st held (andthen (sym2str W v) (vw_quoted W held)) s (emit_rstring_quoted (we_emitter W) (we_cfg W) g (wk_gen s))"
  by (rule pure_does, rule pure_sym2str [OF assms(2) vm_contractD(4) [OF assms(1)]], rule does_quoted [OF assms(1)])
    (use assms(2) in \<open>simp add: symbol_at_def\<close>)

lemma does_fallback:
  assumes "vm_contract W st" and "denotes W st (wk_world s) v (OOther info asj)"
    and rec: "\<And>obj. asj = AsValue obj \<Longrightarrow> walks W st pty held rec depth [obj]"
  shows "does W st held (vw_fallback W rec held v depth) s (emit_value (we_emitter W) (we_cfg W) pty (OOther info asj) depth (wk_gen s))"
proof (cases "rails (we_cfg W)")
  case True
  have "does W st held (vw_rails_fallback W rec held v depth) s
      (emit_rails_fallback info asj (\<lambda>obj. emit_value (we_emitter W) (we_cfg W) pty obj depth (wk_gen s)) (wk_gen s))"
  proof (rule does_rails_fallback [OF assms(1,2)], goal_cases)
    case (1 json obj s')
    from walksD [OF rec [OF 1(1)] _ 1(2)] 1(3) show ?case by simp
  qed
  with True show ?thesis by (simp add: vw_fallback_def)
next
  case False
  from does_fallback_plain [OF assms(1) denotes_now(7) [OF assms(2)] False] False show ?thesis by simp
qed

lemma denotes_special:
  assumes "vm_contract W st" and "denotes W st w v obj" and "SPECIAL_CONST_P W v"
  shows "case obj of
      OSym g \<Rightarrow> STATIC_SYM_P W v
    | OOther info asj \<Rightarrow> \<not> STATIC_SYM_P W v
    | OHeapFloat f \<Rightarrow> False | OBig b \<Rightarrow> False | OStr g \<Rightarrow> False | OArr vs \<Rightarrow> False | OHsh hi kvs \<Rightarrow> False
    | _ \<Rightarrow> True"
proof -
  from vm_contractD(4) [OF assms(1)] assms(3) have none: "wd_type W w v = None" by (simp add: tag_law_def)
  show ?thesis
  proof (cases obj)
    case (OSym g)
    with assms(2) denotes_now(4) [of W st w v g] none show ?thesis by (simp add: symbol_at_def)
  next
    case (OStr g)
    with assms(2) denotes_now(3) [of W st w v g] none show ?thesis by (simp add: string_at_def)
  next
    case (OOther info asj)
    with assms(2) have "denotes W st w v (OOther info asj)" by simp
    from other_staysD(1) [OF denotes_now(7) [OF this]] OOther assms(3) show ?thesis by (simp add: other_at_def)
  next
    case (OHeapFloat f)
    with assms(2) denotes_now(1) [of W st w v f] none show ?thesis by simp
  next
    case (OBig b)
    with assms(2) denotes_now(2) [of W st w v b] none show ?thesis by simp
  next
    case (OArr vs)
    with assms(2) denotes_now(5) [of W st w v vs] none show ?thesis by simp
  next
    case (OHsh hi kvs)
    with assms(2) denotes_now(6) [of W st w v hi kvs] none show ?thesis by simp
  qed simp_all
qed


lemma does_dispatch:
  assumes "vm_contract W st" and obj: "denotes W st (wk_world s) v obj" and fuel: "weight obj < fuel"
    and rec: "\<And>objs held depth. (\<forall>o' \<in> set objs. weight o' + 1 \<le> weight obj) \<Longrightarrow> walks W st pty held rec depth objs"
  shows "does W st held (vw_dispatch W pty rec fuel held v depth) s (emit_value (we_emitter W) (we_cfg W) pty obj depth (wk_gen s))"
proof -
  note tag = vm_contractD(4) [OF assms(1)] and flags = denotes_flags [OF assms(1) obj] and immediates = denotes_consts [OF assms(1) obj]
  have arrays: "does W st held (vw_array W pty rec fuel held v depth) s (emit_value (we_emitter W) (we_cfg W) pty obj depth (wk_gen s))"
    if "obj = OArr vs" for vs
    unfolding that
  proof (rule does_array [OF assms(1) obj [unfolded that]])
    show "length vs < fuel" by (rule less_trans [OF weight_length fuel [unfolded that]])
    show "walks W st pty (v # held) rec (depth + 1) vs" by (rule rec) (use weight_elem that in fastforce)
  qed
  have hashes: "does W st held (vw_object W pty rec fuel held v depth) s (emit_value (we_emitter W) (we_cfg W) pty obj depth (wk_gen s))"
    if "obj = OHsh hi kvs" for hi kvs
    unfolding that
  proof (rule does_object [OF assms(1) obj [unfolded that]])
    show "length kvs < fuel" using weight_length [of "map snd kvs"] weight_pairs [of hi kvs] fuel that by simp
    have "\<forall>o' \<in> set (map snd kvs). weight o' + 1 \<le> weight obj"
      using weight_elem [of _ "map snd kvs"] weight_pairs [of hi kvs] that by fastforce
    then show "walks W st pty (v # held) rec (depth + 1) (map snd kvs)" by (rule rec)
  qed
  have others: "does W st held (vw_fallback W rec held v depth) s (emit_value (we_emitter W) (we_cfg W) pty obj depth (wk_gen s))"
    if "obj = OOther info asj" for info asj
    unfolding that by (rule does_fallback [OF assms(1) obj [unfolded that]], rule rec) (simp add: that)
  have symbols: "does W st held (andthen (sym2str W v) (vw_quoted W held)) s (emit_value (we_emitter W) (we_cfg W) pty obj depth (wk_gen s))"
    if "obj = OSym g" for g
    using does_symbol [OF assms(1) denotes_now(4) [OF obj [unfolded that]], of held] that by simp
  have floats: "does W st held (vw_float W v) s (emit_value (we_emitter W) (we_cfg W) pty obj depth (wk_gen s))"
    if "obj = OFlonum f \<or> obj = OHeapFloat f" for f
    using does_float [OF pure_num2dbl [OF assms(1) obj that], of st held] that by auto
  show ?thesis
  proof (cases "SPECIAL_CONST_P W v")
    case True
    note special = denotes_special [OF assms(1) obj True]
    show ?thesis
    proof (cases obj)
      case (OFix i)
      with obj have "FIX2LONG W v = i" by (auto elim: denotesE)
      with OFix True flags does_push [of W st held "em_i64 (we_emitter W) i" s] show ?thesis by (simp add: vw_dispatch_def)
    qed (use True special flags immediates symbols others floats does_push [of W st held _ s] in
        \<open>auto simp: vw_dispatch_def simp del: emit_value.simps(1-3)\<close>)
  next
    case False
    note heap = denotes_heap [OF assms(1) obj False]
    then obtain t where t: "wd_type W (wk_world s) v = Some t" by (cases obj) auto
    have "does W st held
        (case t of
             T_STRING \<Rightarrow> vw_quoted W held v
           | T_HASH \<Rightarrow> vw_object W pty rec fuel held v depth
           | T_ARRAY \<Rightarrow> vw_array W pty rec fuel held v depth
           | T_FLOAT \<Rightarrow> vw_float W v
           | T_BIGNUM \<Rightarrow> andthen (big2str W held v) (\<lambda>s. andthen (rstring_bytes W s) push_bytes)
           | T_SYMBOL \<Rightarrow> andthen (sym2str W v) (vw_quoted W held)
           | T_OTHER \<Rightarrow> vw_fallback W rec held v depth) s
        (emit_value (we_emitter W) (we_cfg W) pty obj depth (wk_gen s))"
    proof (cases obj)
      case (OBig digits)
      with does_big [OF assms(1) obj [unfolded OBig], of held] heap t show ?thesis by simp
    next
      case (OStr g)
      with does_quoted [OF assms(1) denotes_now(3) [OF obj [unfolded OStr]], of held] heap t show ?thesis by simp
    qed (use heap t symbols others floats arrays hashes in \<open>auto simp del: emit_value.simps\<close>)
    then show ?thesis
      unfolding vw_dispatch_def if_P [OF False] by - (rule pure_does, rule type_of_type [OF t tag])
  qed
qed

lemma does_value:
  "vm_contract W st \<Longrightarrow> denotes W st (wk_world s) v obj \<Longrightarrow> weight obj + 2 \<le> n \<Longrightarrow>
     does W st held (vw_value W pty n held v depth) s (emit_value (we_emitter W) (we_cfg W) pty obj depth (wk_gen s))"
proof (induction n arbitrary: held v obj depth s)
  case 0
  then show ?case by simp
next
  case (Suc n)
  have "walks W st pty held (vw_value W pty n) depth objs" if "\<forall>o' \<in> set objs. weight o' + 1 \<le> weight obj" for held depth objs
    using Suc.IH [OF Suc.prems(1)] Suc.prems(3) that by (fastforce simp: walks_def)
  with does_dispatch [OF Suc.prems(1,2), of n pty "vw_value W pty n" held depth] Suc.prems(3) show ?case
    by simp
qed


text \<open>
  C4.  On a VALUE that denotes an object (callbacks may do what they like to everything else), the
  walk over raw VALUEs ends within fuel for the object's size, and writes exactly the text the
  reference printer gives, or stops with exactly the failure it gives.
\<close>

theorem value_walk_refines:
  assumes "vm_contract W st" and "statics_fine W st s" and "denotes W st (wk_world s) v obj" and "weight obj + 2 \<le> n"
    and "emitter_ok (we_emitter W)" and "config_ok (we_cfg W)" and "sound_obj strs obj"
    and "gn_fail (wk_gen s) = None"
    and "kc_good (heap_rendering (we_emitter W) strs (cache_mode (we_cfg W))) (gn_keys (wk_gen s))"
  shows "case printed (we_emitter W) (we_cfg W) obj depth of
      Inr b \<Rightarrow> \<exists>s'. vw_value W (pretty (we_cfg W)) n held v depth s = Returned () s' \<and>
        gn_out (wk_gen s') = gn_out (wk_gen s) @ b
    | Inl f \<Rightarrow> \<exists>s'. vw_value W (pretty (we_cfg W)) n held v depth s = Failed s' \<and> gn_fail (wk_gen s') = Some f"
proof -
  let ?R = "heap_rendering (we_emitter W) strs (cache_mode (we_cfg W))"
  have "pretty (we_cfg W) \<or> compact (we_cfg W)" using assms(6) by (auto simp: config_ok_def)
  moreover have "ready ?R (wk_gen s)" using assms(8,9) by (simp add: ready_def)
  ultimately have "refines ?R (emit_value (we_emitter W) (we_cfg W) (pretty (we_cfg W)) obj depth (wk_gen s)) (wk_gen s)
      (printed (we_emitter W) (we_cfg W) obj depth)"
    by (rule walker_refines_below(1) [OF _ assms(5) lessI sound_walkable(1) [OF assms(7)]])
  with does_value [OF assms(1,3,4), of held "pretty (we_cfg W)" depth] assms(2) show ?thesis
    by (auto simp: does_def refines_def split: sum.splits)
qed

text \<open>
  A Hash with the Array of an object and two Integers; a String that nothing holds is gone once
  the object's \<open>to_json\<close> has run.
\<close>

definition calm_world :: "bool walk_env" where
  "calm_world = popping_world\<lparr>
     wd_type := (\<lambda>w v. if v = 8 then Some T_ARRAY else if v = 16 then Some T_OTHER else if v = 24 then Some T_STRING
       else if v = 40 then Some T_HASH else if v = 48 \<and> \<not> w then Some T_STRING else None),
     wd_array := (\<lambda>w v. [16, 3, 3]), wd_hash_size := (\<lambda>w v. 1),
     wd_next := (\<lambda>w v pos. if pos = 0 then Some (24, 8, 1) else None),
     we_emitter := sample_emitter\<lparr>em_inspect := (\<lambda>s. Inr (asc ''a''))\<rparr>\<rparr>"

definition calm_str :: gstr where
  "calm_str = \<lparr>gs_id = 24, gs_frozen = False, gs_cr = CrValid, gs_enc = EncUtf8, gs_bytes = asc ''a'',
     gs_encoded = Inr (CrValid, asc ''a'')\<rparr>"

definition calm_other :: robj where
  "calm_other = OOther \<lparr>oi_class = ''Popper'', oi_is_fragment = Inr False, oi_to_json_if_responds = Inr (Some (asc ''a'')),
     oi_to_json = Inr (Some (asc ''a'')), oi_to_s = Inr calm_str\<rparr> (AsValue (OStr calm_str))"

abbreviation calm_statics :: gen_statics where
  "calm_statics \<equiv> warm_up popping_api statics_new"

lemmas calm_simps = calm_world_def popping_world_def popping_api_def sample_api_def

lemma calm_string: "string_at calm_world w 24 calm_str"
  by (simp add: string_at_def calm_simps calm_str_def header_law_def inline_index_def key_frozen_def coderange_of_def
      encoding_of_def protected_encode_utf8_def asc_def Let_def)

lemma calm_contract: "vm_contract calm_world calm_statics"
  by (auto simp: vm_contract_def api_law_def utf8_encindexes_def warm_up_def statics_new_def to_json_id_def as_json_id_def
      resolve_json_fragment_def Let_def tag_law_def kernel_law_def i64_range_def calm_simps sample_emitter_def asc_def)


lemma calm_other_at: "other_stays calm_world calm_statics w 16
    \<lparr>oi_class = ''Popper'', oi_is_fragment = Inr False, oi_to_json_if_responds = Inr (Some (asc ''a'')),
     oi_to_json = Inr (Some (asc ''a'')), oi_to_s = Inr calm_str\<rparr>"
  using calm_string
  by (auto simp: other_stays_def other_at_def fragment_now_def resolve_json_fragment_def answers_json_def answers_if_responds_def
      answers_string_def protected_to_json_def protected_to_s_def valid_def string_of_def Let_def asc_def calm_simps)

lemma calm_as_json: "protected_as_json (wd_api calm_world w) calm_statics v = Inr 24"
  by (simp add: protected_as_json_def calm_simps)

lemma calm_other_denotes: "denotes calm_world calm_statics w 16 calm_other"
  unfolding calm_other_def
proof (rule denotes.Other, goal_cases)
  case (1 w')
  with other_staysD(1) [OF other_staysD(2) [OF calm_other_at]] show ?case by blast
qed (auto simp: calm_as_json intro: denotes.String calm_string)

lemma calm_array_denotes: "denotes calm_world calm_statics w 8 (OArr [calm_other, OFix 1, OFix 1])"
proof (rule denotes.Array [where xs = "[16, 3, 3]"], intro conjI)
  fix w'
  have "FIXNUM_P calm_world 3" "FIX2LONG calm_world 3 = 1" by (simp_all add: calm_simps)
  with denotes.Fixnum [of calm_world 3 calm_statics w'] show "list_all2 (denotes calm_world calm_statics w') [16, 3, 3] [calm_other, OFix 1, OFix 1]"
    by (simp add: calm_other_denotes)
qed (simp_all add: calm_simps)

lemma calm_hash_denotes:
  "denotes calm_world calm_statics w 40 (OHsh (Inr (asc ''a'')) [(KStr calm_str, OArr [calm_other, OFix 1, OFix 1])])"
proof (rule denotes.Hash [of "\<lambda>pos. if pos = 0 then Some (24, 8, 1) else None" "[(24, 8)]"])
  fix w'
  have "inspects calm_world w' 40 (Inr (asc ''a''))" "inspects calm_world w' 24 (Inr (asc ''a''))"
    by (simp_all add: inspects_def protected_inspect_def calm_simps asc_def)
  moreover have "wd_type calm_world w' 40 = Some T_HASH" "wd_hash_size calm_world w' 40 = 1"
    "wd_next calm_world w' 40 = (\<lambda>pos. if pos = 0 then Some (24, 8, 1) else None)"
    "em_inspect (we_emitter calm_world) calm_str = Inr (asc ''a'')"
    by (simp_all add: calm_simps)
  ultimately show "wd_type calm_world w' 40 = Some T_HASH \<and> wd_hash_size calm_world w' 40 = length [(24::VALUE, 8::VALUE)] \<and>
      wd_next calm_world w' 40 = (\<lambda>pos. if pos = 0 then Some (24, 8, 1) else None) \<and> inspects calm_world w' 40 (Inr (asc ''a'')) \<and>
      list_all2 (\<lambda>p kv. key_at calm_world w' (fst p) (fst kv) \<and> inspected_key calm_world w' (fst p) (fst kv) \<and>
        denotes calm_world calm_statics w' (snd p) (snd kv)) [(24, 8)] [(KStr calm_str, OArr [calm_other, OFix 1, OFix 1])]"
    using calm_string calm_array_denotes by (simp add: inspected_key_def)
qed simp

definition calm_start :: "bool vm_state" where
  "calm_start = \<lparr>wk_gen = \<lparr>gn_out = [], gn_keys = kc_empty, gn_fail = None\<rparr>, wk_statics = calm_statics, wk_world = False\<rparr>"

theorem value_walk_refines_witness:
  "\<exists>s'. vw_value calm_world False 11 [] 40 0 calm_start = Returned () s' \<and>
     gn_out (wk_gen s') = [b_lbrace, b_quote, 0x61, b_quote, b_colon] @ asc ''[a,1,1]'' @ [b_rbrace]"
proof -
  let ?obj = "OHsh (Inr (asc ''a'')) [(KStr calm_str, OArr [calm_other, OFix 1, OFix 1])]"
  have "statics_fine calm_world calm_statics calm_start"
    by (simp add: statics_fine_def calm_start_def warm_up_def statics_new_def as_json_id_def to_json_id_def utf8_encindexes_def Let_def)
  moreover have "emitter_ok (we_emitter calm_world)" "config_ok (we_cfg calm_world)"
    by (simp_all add: calm_simps emitter_ok_def sample_emitter_def closed_text_def asc_def)
  moreover have "sound_obj (\<lambda>_. None) ?obj"
    by (simp add: calm_str_def calm_other_def splice_ok_def closed_text_def asc_def)
  moreover have "\<not> strict DEFAULT_CONFIG" by (simp add: DEFAULT_CONFIG_def gen_defaults_def)
  then have "printed (we_emitter calm_world) (we_cfg calm_world) ?obj 0 =
      Inr ([b_lbrace, b_quote, 0x61, b_quote, b_colon] @ asc ''[a,1,1]'' @ [b_rbrace])"
    by (simp add: calm_simps calm_str_def calm_other_def fallback_text_def spliced_def sample_print)
  moreover have "pretty (we_cfg calm_world) = False" by (simp add: calm_simps DEFAULT_CONFIG_def gen_defaults_def)
  moreover have "weight ?obj + 2 \<le> 11" by (simp add: calm_other_def)
  ultimately show ?thesis
    using value_walk_refines [OF calm_contract _ calm_hash_denotes, where s = calm_start and n = 11 and strs = "\<lambda>_. None" and depth = 0 and held = "[]"] kc_good_empty
    by (simp add: calm_start_def)
qed

end
