(* ===== verification/Reformat_Round_Trip.thy ===== *)
theory Reformat_Round_Trip
  imports Reformat Round_Trip
begin

text \<open>
  Reformatting and parsing together.  Of the crate's Writer only this is used: for the calls of a
  document it writes a JSON text of that document, in its kernels' spelling, with white space
  where the layout has it; and of its parser that it reads such a text as the document.
\<close>

text \<open>The law of the Writer and of the parser for one document.\<close>

definition writes_text :: "renderer \<Rightarrow> emitter \<Rightarrow> write_opts \<Rightarrow> doc \<Rightarrow> bool" where
  "writes_text render E w d \<longleftrightarrow>
     (ws (w_indent w @ w_space w @ w_space_before w @ w_object_nl w @ w_array_nl w) \<longrightarrow> json_text E d (render w (calls d)))"

definition reads_text :: "scanner \<Rightarrow> emitter \<Rightarrow> popts \<Rightarrow> doc \<Rightarrow> bytes \<Rightarrow> bool" where
  "reads_text prs E gr d t \<longleftrightarrow> (json_text E d t \<longrightarrow> scans_as prs t gr d)"

lemma parses_reads: "parses_texts prs E gr d \<Longrightarrow> reads_text prs E gr d t"
  by (simp add: parses_texts_def reads_text_def)

section \<open>Reformat, then parse, then reformat again\<close>

text \<open>What \<open>reformat\<close> returns is a text of the document, which the parser reads.\<close>

lemma reformat_reads_back:
  assumes "pool_ok (env_vm env) st" and "reformat_opts_decode opts = Inr ro" and "utf8_input data = Inr input"
    and "scans_as (env_scan env) input (popts (ro_parse ro)) d" and "reader_law env input (popts (ro_parse ro))"
    and "ws_config (reformat_config ro)" and "writes_text render E (write_options (reformat_config ro)) d"
    and "reads_text (env_scan env) E (popts (ro_parse ro)) d out" and "writes_utf8 E"
    and "reformat_native env render st data opts = Inr out"
  shows "scans_as (env_scan env) out (popts (ro_parse ro)) d"
    and "utf8_input \<lparr>str_encoding = Utf8, str_bytes = out\<rparr> = Inr out"
proof -
  have out: "out = render (write_options (reformat_config ro)) (calls d)"
    using reformat_result [OF assms(1-5)] assms(10) by blast
  have json: "json_text E d out"
    using assms(6,7) by (simp add: out writes_text_def write_options_def ws_config_def)
  with assms(8) show "scans_as (env_scan env) out (popts (ro_parse ro)) d" by (simp add: reads_text_def)
  show "utf8_input \<lparr>str_encoding = Utf8, str_bytes = out\<rparr> = Inr out"
    using json_text_valid(1) [OF assms(9) json] by (simp add: utf8_input_def)
qed

lemma parse_by_document:
  assumes "vm_law (env_vm env)" and "pool_ok (env_vm env) st" and "parse_native_opts opts = Inr po"
    and "utf8_input data = Inr input" and "scans_as (env_scan env) input (popts po) d"
  shows "if parse_accepts po d
    then map_ok fst (parse_native env st data opts) = Inr (value_of (env_vm env) (symbolize po) (freeze po) d)
    else \<not> is_ok (parse_native env st data opts)"
proof -
  have scan: "scans_as (env_scan env) (sub input 0 (length input)) (popts po) d" using assms(5) by (simp add: sub_def)
  have "parse_native env st data opts = materialize_at env st input 0 (length input) po"
    using assms(3,4) by (simp add: parse_native_def materialize_def)
  with materialize_accepted [OF assms(1,2) scan] materialize_refused [OF assms(1,2) scan] show ?thesis by auto
qed

text \<open>
  C13.  Reformatting keeps the document: where \<open>reformat\<close> (or \<open>minify\<close>) succeeds with a layout of
  white space, \<open>parse\<close> accepts its output exactly when it accepts the input and builds the same
  value from both, repeated keys included, whatever the pooled state; and reformatting the
  output again returns it unchanged.
\<close>

theorem reformat_roundtrip:
  assumes "vm_law (env_vm env)" and "pool_ok (env_vm env) st" and "pool_ok (env_vm env) st'"
    and "reformat_opts_decode opts = Inr ro" and "utf8_input data = Inr input"
    and "scans_as (env_scan env) input (popts (ro_parse ro)) d"
    and "reader_law env input (popts (ro_parse ro))" and "reader_law env out (popts (ro_parse ro))"
    and "ws_config (reformat_config ro)" and "writes_text render E (write_options (reformat_config ro)) d"
    and "reads_text (env_scan env) E (popts (ro_parse ro)) d out" and "writes_utf8 E"
    and "reformat_native env render st data opts = Inr out"
    and "parse_native_opts popts' = Inr po" and "popts po = popts (ro_parse ro)"
  shows "(let again = \<lparr>str_encoding = Utf8, str_bytes = out\<rparr> in
    is_ok (parse_native env st' again popts') = is_ok (parse_native env st data popts') \<and>
    (is_ok (parse_native env st data popts') \<longrightarrow>
       map_ok fst (parse_native env st' again popts') = map_ok fst (parse_native env st data popts')) \<and>
    reformat_native env render st' again opts = Inr out)"
proof -
  note kept = reformat_reads_back [OF assms(2,4-7,9-13)]
  have res: "out = render (write_options (reformat_config ro)) (calls d)"
    "pipe_base (ro_parse ro) (gc_allow_nan (reformat_config ro)) d"
    "allow_duplicate_key (ro_parse ro) \<or> doc_all (keys_all distinct) d"
    using reformat_result [OF assms(2,4-7)] assms(13) by blast+
  have "reformat_native env render st' \<lparr>str_encoding = Utf8, str_bytes = out\<rparr> opts = Inr out"
    using reformat_result [OF assms(3,4) kept(2,1) assms(8)] res by blast
  moreover have scans: "scans_as (env_scan env) input (popts po) d" "scans_as (env_scan env) out (popts po) d"
    using kept(1) assms(6,15) by simp_all
  from parse_by_document [OF assms(1,2,14,5) scans(1)] parse_by_document [OF assms(1,3,14) kept(2) scans(2)]
  have "is_ok (parse_native env st' \<lparr>str_encoding = Utf8, str_bytes = out\<rparr> popts') = is_ok (parse_native env st data popts') \<and>
    (is_ok (parse_native env st data popts') \<longrightarrow>
       map_ok fst (parse_native env st' \<lparr>str_encoding = Utf8, str_bytes = out\<rparr> popts') = map_ok fst (parse_native env st data popts'))"
    by (cases "parse_accepts po d") (auto simp: is_ok_iff map_ok_tryr tryr_Inr_iff)
  ultimately show ?thesis by (simp add: Let_def)
qed


text \<open>\<open>[ {"a":1, "a":2}]\<close>, with its repeated key, minified by a parser that ignores white space.\<close>

definition spaced_env :: "(term_value, nat) env" where
  "spaced_env = sample_env\<lparr>env_scan := \<lambda>input gr.
     if squeeze input = Samples.sample_text then (events (strip sample_pdoc), None)
     else ([], Some \<lparr>pe_offset = 0, pe_kind = OtherKind ''unexpected byte''\<rparr>)\<rparr>"

definition spaced_text :: bytes where
  "spaced_text = asc ''[ {'' @ [b_quote, 0x61, b_quote] @ asc '':1, '' @ [b_quote, 0x61, b_quote] @ asc '':2}]''"

lemma spaced_scans: "squeeze input = Samples.sample_text \<Longrightarrow> scans_as (env_scan spaced_env) input gr (strip sample_pdoc)"
  by (simp add: scans_as_def spaced_env_def)

lemma spaced_reads: "reader_law spaced_env input gr"
proof -
  have "scans_as (env_scan spaced_env) input gr d \<Longrightarrow> d = strip sample_pdoc" for d
    using scans_as_unique [of "env_scan spaced_env" input gr d "strip sample_pdoc"] spaced_scans [of input gr]
    by (auto simp: scans_as_def spaced_env_def split: if_splits)
  then show ?thesis using sample_reads by (auto simp: reader_law_def spaced_env_def)
qed

lemma minified_json: "json_text sample_emitter (strip sample_pdoc) Samples.sample_text"
proof -
  let ?E = sample_emitter and ?k = "DKey [0x61]"
  note rules = json_text_elems_text_members_text.intros
  have a: "valid_utf8 [0x61]" by (rule ascii_valid_text) simp
  have int: "json_text ?E (DInt 1) (asc ''1'')" "json_text ?E (DInt 2) (asc ''2'')"
    using rules(4) [of 1 ?E] rules(4) [of 2 ?E] by (simp_all add: i64_range_def sample_emitter_def)
  note last = rules(14) [of "[]" "[]" "[]" "[]", OF _ _ _ _ a int(2), of Standard]
  have "members_text ?E [(?k, DInt 1), (?k, DInt 2)]
      ([b_quote, 0x61, b_quote] @ asc '':1,'' @ [b_quote, 0x61, b_quote] @ asc '':2'')"
    using rules(15) [of "[]" "[]" "[]" "[]", OF _ _ _ _ a int(1) last, of Standard]
    by (simp add: sample_emitter_def asc_def)
  from rules(9) [OF rules(12) [of "[]" "[]", OF _ _ rules(11) [OF this]]] show ?thesis
    by (simp add: sample_strip Samples.sample_text_def asc_def)
qed

theorem reformat_roundtrip_witness:
  "let opts = OHash [(KSym ''allow_duplicate_key'', RTrue)];
       again = \<lparr>str_encoding = Utf8, str_bytes = Samples.sample_text\<rparr>;
       parsed = Inr (TArray [THash [TInterned (asc ''a''), TInt 1, TInterned (asc ''a''), TInt 2]])
   in map_ok fst (parse_native spaced_env fresh_pull_state again opts) = parsed \<and>
      reformat_native spaced_env (\<lambda>_ _. Samples.sample_text) fresh_pull_state again opts = Inr Samples.sample_text"
proof -
  let ?po = "parse_opts_default\<lparr>allow_duplicate_key := True\<rparr>"
  let ?cfg = "DEFAULT_CONFIG\<lparr>gc_allow_duplicate_key := True\<rparr>"
  let ?ro = "\<lparr>ro_parse = ?po, ro_generate = Some ?cfg\<rparr>" and ?d = "strip sample_pdoc"
  let ?opts = "OHash [(KSym ''allow_duplicate_key'', RTrue)]" and ?render = "\<lambda>_ _. Samples.sample_text"
  let ?data = "\<lparr>str_encoding = UsAscii, str_bytes = spaced_text\<rparr>"
  have law: "vm_law (env_vm spaced_env)" "pool_ok (env_vm spaced_env) fresh_pull_state"
    by (simp_all add: spaced_env_def term_vm_law fresh_pool_ok)
  have inp: "utf8_input ?data = Inr spaced_text"
    by (simp add: utf8_input_def spaced_text_def asc_def)
  have sq: "squeeze spaced_text = Samples.sample_text" "squeeze Samples.sample_text = Samples.sample_text"
    by (simp_all add: spaced_text_def Samples.sample_text_def squeeze_simps asc_def)
  have scan: "scans_as (env_scan spaced_env) spaced_text (popts (ro_parse ?ro)) ?d" by (rule spaced_scans [OF sq(1)])
  have cfg: "reformat_config ?ro = ?cfg" by (simp add: reformat_config_def)
  have ws: "ws_config (reformat_config ?ro)"
    unfolding cfg by (simp add: ws_config_def DEFAULT_CONFIG_def gen_defaults_def)
  have writes: "writes_text ?render sample_emitter (write_options (reformat_config ?ro)) ?d"
    by (simp add: writes_text_def minified_json)
  have reads: "reads_text (env_scan spaced_env) sample_emitter (popts (ro_parse ?ro)) ?d Samples.sample_text"
    using spaced_scans [OF sq(2)] by (simp add: reads_text_def)
  have base: "pipe_base ?po (gc_allow_nan ?cfg) ?d"
    by (simp add: pipe_base_def sample_strip clean_def parse_opts_default_def)
  then have out: "reformat_native spaced_env ?render fresh_pull_state ?data ?opts = Inr Samples.sample_text"
    using reformat_result [OF law(2) reformat_opts_allow_duplicates inp scan spaced_reads] by (simp add: cfg)
  have acc: "parse_accepts ?po ?d" by (simp add: parse_accepts_def sample_strip parse_opts_default_def)
  have val: "value_of (env_vm spaced_env) (symbolize ?po) (freeze ?po) ?d =
      TArray [THash [TInterned (asc ''a''), TInt 1, TInterned (asc ''a''), TInt 2]]"
    by (simp add: sample_strip parse_opts_default_def spaced_env_def frozen_def key_value_def, simp add: term_vm_def)
  have same: "popts ?po = popts (ro_parse ?ro)" by simp
  have first: "map_ok fst (parse_native spaced_env fresh_pull_state ?data ?opts) =
      Inr (TArray [THash [TInterned (asc ''a''), TInt 1, TInterned (asc ''a''), TInt 2]])"
    using parse_by_document [OF law parse_opts_allow_duplicates inp spaced_scans [OF sq(1)]] acc val by simp
  then have ok: "is_ok (parse_native spaced_env fresh_pull_state ?data ?opts)"
    by (cases "parse_native spaced_env fresh_pull_state ?data ?opts") simp_all
  note trip = reformat_roundtrip [OF law law(2) reformat_opts_allow_duplicates inp scan spaced_reads spaced_reads ws
    writes reads sample_utf8_emitter out parse_opts_allow_duplicates same, unfolded Let_def]
  from conjunct1 [OF conjunct2 [OF trip], rule_format, OF ok] conjunct2 [OF conjunct2 [OF trip]] first
  show ?thesis unfolding Let_def by (simp only: simp_thms)
qed

end
