(* ===== verification/Line_Errors.thy ===== *)
theory Line_Errors
  imports Lines
begin

text \<open>
  What \<open>each_line\<close> raises on a bad line (src/ext/nosj/src/lines.rs): the exception \<open>parse\<close> raises
  on that line alone, whatever it is, with its position moved to the whole source.  On the way:
  what a parse gives or raises does not depend on the caches it finds, and every offset it
  reports lies within the bytes it was given, if those of the crate do.
\<close>

section \<open>A parse does not depend on the caches it finds\<close>

text \<open>Two sinks that differ at most in the caches, both good.\<close>

definition agree :: "'v vm \<Rightarrow> 'v ruby_sink \<Rightarrow> 'v ruby_sink \<Rightarrow> bool" where
  "agree vm s t \<longleftrightarrow> cache_ok vm s \<and> cache_ok vm t \<and> rs_stack s = rs_stack t \<and> rs_depth s = rs_depth t \<and>
     rs_symbolize s = rs_symbolize t \<and> rs_freeze s = rs_freeze t \<and> rs_max_nesting s = rs_max_nesting t \<and>
     rs_allow_duplicate_key s = rs_allow_duplicate_key t"

text \<open>Two outcomes: the same abort, or states that agree.\<close>

fun alike :: "('s \<Rightarrow> 's \<Rightarrow> bool) \<Rightarrow> 'e + 's \<Rightarrow> 'e + 's \<Rightarrow> bool" where
  "alike P (Inl a) (Inl b) = (a = b)"
| "alike P (Inr s) (Inr t) = P s t"
| "alike P _ _ = False"

abbreviation agree_marks :: "'v vm \<Rightarrow> 'v ruby_sink \<times> nat list \<Rightarrow> 'v ruby_sink \<times> nat list \<Rightarrow> bool" where
  "agree_marks vm sm tm \<equiv> agree vm (fst sm) (fst tm) \<and> snd sm = snd tm"

lemma alike_map:
  "alike P r q \<Longrightarrow> (\<And>s t. P s t \<Longrightarrow> Q (f s) (g t)) \<Longrightarrow> alike Q (map_ok f r) (map_ok g q)"
  by (cases r; cases q) simp_all

lemma alike_tryr:
  "alike P r q \<Longrightarrow> (\<And>s t. P s t \<Longrightarrow> alike Q (f s) (g t)) \<Longrightarrow> alike Q (tryr r f) (tryr q g)"
  by (cases r; cases q) simp_all

lemma push_alike: "agree vm s t \<Longrightarrow> alike (agree vm) (push_raw v s) (push_raw v t)"
  by (simp add: push_raw_def agree_def)

lemma agree_stack: "agree vm s t \<Longrightarrow> agree vm (s\<lparr>rs_depth := d, rs_stack := st\<rparr>) (t\<lparr>rs_depth := d, rs_stack := st\<rparr>)"
  by (simp add: agree_def)

lemma agree_depth: "agree vm s t \<Longrightarrow> agree vm (s\<lparr>rs_depth := d\<rparr>) (t\<lparr>rs_depth := d\<rparr>)"
  by (simp add: agree_def)

lemma enter_alike: "agree vm s t \<Longrightarrow> alike (agree vm) (enter_container s) (enter_container t)"
  using agree_depth [of vm s t "rs_depth s + 1"] by (simp add: enter_container_def Let_def) (simp add: agree_def)

lemma key_alike:
  assumes "agree vm s t"
  shows "alike (agree vm) (ruby_key vm key s) (ruby_key vm key t)"
proof -
  have ok: "cache_ok vm s" "cache_ok vm t" and sy: "rs_symbolize s = rs_symbolize t"
    using assms by (simp_all add: agree_def)
  from ruby_key_push [OF ok(1), of key] obtain m sh where s: "ruby_key vm key s =
      push_raw (key_value vm (rs_symbolize s) key) (s\<lparr>rs_keys := m, rs_key_shadow := sh\<rparr>)"
    "cache_ok vm (s\<lparr>rs_keys := m, rs_key_shadow := sh\<rparr>)" by blast
  from ruby_key_push [OF ok(2), of key] obtain m' sh' where t: "ruby_key vm key t =
      push_raw (key_value vm (rs_symbolize t) key) (t\<lparr>rs_keys := m', rs_key_shadow := sh'\<rparr>)"
    "cache_ok vm (t\<lparr>rs_keys := m', rs_key_shadow := sh'\<rparr>)" by blast
  have "agree vm (s\<lparr>rs_keys := m, rs_key_shadow := sh\<rparr>) (t\<lparr>rs_keys := m', rs_key_shadow := sh'\<rparr>)"
    using assms s(2) t(2) by (simp add: agree_def)
  from push_alike [OF this] show ?thesis unfolding s(1) t(1) sy .
qed

lemma end_array_alike: "agree vm s t \<Longrightarrow> alike (agree vm) (ruby_end_array vm m n s) (ruby_end_array vm m n t)"
  using push_alike [OF agree_stack [of vm s t "take m (rs_stack s)" "rs_depth s - 1"]]
  by (simp add: ruby_end_array_def Let_def) (simp add: agree_def)

lemma end_object_alike: "agree vm s t \<Longrightarrow> alike (agree vm) (ruby_end_object vm m n s) (ruby_end_object vm m n t)"
  using push_alike [OF agree_stack [of vm s t "take m (rs_stack s)" "rs_depth s - 1"]]
  by (simp add: ruby_end_object_def Let_def) (simp add: agree_def)

lemma feed_alike:
  assumes "agree vm s t"
  shows "alike (agree_marks vm) (feed (RubyValueSink vm) e (s, ms)) (feed (RubyValueSink vm) e (t, ms))"
proof -
  have fields: "rs_freeze s = rs_freeze t" "rs_stack s = rs_stack t" using assms by (simp_all add: agree_def)
  note steps = push_alike [OF assms] enter_alike [OF assms] key_alike [OF assms] end_array_alike [OF assms]
    end_object_alike [OF assms]
  have marked: "alike (agree_marks vm) (map_ok (\<lambda>s. (s, ks)) r) (map_ok (\<lambda>s. (s, ks)) q)"
    if "alike (agree vm) r q" for ks r q
    using that by (rule alike_map) simp
  have entered: "alike (agree_marks vm) (map_ok (\<lambda>s. (s, length (rs_stack s) # ks)) r) (map_ok (\<lambda>s. (s, length (rs_stack s) # ks)) q)"
    if "alike (agree vm) r q" for ks r q
    using that by (rule alike_map) (simp add: agree_def)
  show ?thesis
    by (cases e; cases ms)
      (auto simp: RubyValueSink_def ruby_big_int_def ruby_str_def fields assms intro!: marked entered steps)
qed

lemma run_alike:
  "agree_marks vm sm tm \<Longrightarrow> alike (agree_marks vm) (run (RubyValueSink vm) es sm) (run (RubyValueSink vm) es tm)"
proof (induction es arbitrary: sm tm)
  case (Cons e es)
  obtain s ms t where sm: "sm = (s, ms)" "tm = (t, ms)" "agree vm s t" using Cons.prems by (cases sm; cases tm) auto
  show ?case
    unfolding sm run.simps by (rule alike_tryr [OF feed_alike [OF sm(3)]]) (rule Cons.IH)
qed simp

lemma drive_alike:
  assumes "agree vm s t"
  shows "alike (agree vm) (drive sc (RubyValueSink vm) input gr s) (drive sc (RubyValueSink vm) input gr t)"
proof -
  obtain evs ending where scan: "sc input gr = (evs, ending)" by fastforce
  have "alike (agree_marks vm) (map_err SinkErr (run (RubyValueSink vm) evs (s, [])))
      (map_err SinkErr (run (RubyValueSink vm) evs (t, [])))"
    using run_alike [of vm "(s, [])" "(t, [])" evs] assms
    by (cases "run (RubyValueSink vm) evs (s, [])"; cases "run (RubyValueSink vm) evs (t, [])") simp_all
  then show ?thesis
    unfolding drive_def scan prod.case by (rule alike_tryr) (auto split: option.split)
qed

text \<open>What a parse returns or raises is the same from all good pools, also on malformed bytes.\<close>

lemma materialize_pool:
  assumes "pool_ok (env_vm env) st" and "pool_ok (env_vm env) st'"
  shows "map_ok fst (materialize_at env st source s e po) = map_ok fst (materialize_at env st' source s e po)"
proof -
  have "agree (env_vm env) (ruby_sink_for st po) (ruby_sink_for st' po)"
    using pool_cache_ok [OF assms(1)] pool_cache_ok [OF assms(2)] by (simp add: agree_def) (simp add: ruby_sink_for_def)
  from drive_alike [OF this, of "env_scan env" "sub source s e" "popts po"] show ?thesis
    by (cases "drive (env_scan env) (RubyValueSink (env_vm env)) (sub source s e) (popts po) (ruby_sink_for st po)";
        cases "drive (env_scan env) (RubyValueSink (env_vm env)) (sub source s e) (popts po) (ruby_sink_for st' po)")
      (simp_all add: materialize_at_def finish_drive_def agree_def Let_def)
qed

section \<open>The offsets a parse reports\<close>

text \<open>
  The offsets the crate reports lie within the bytes it was given: those of the parser's error,
  and those of the Reader's errors and slices, from every cursor it can reach.
\<close>

definition answers :: "('r \<Rightarrow> bool) \<Rightarrow> nat \<Rightarrow> parse_error + 'a \<times> 'r \<Rightarrow> bool" where
  "answers I n res \<longleftrightarrow> (case res of Inl e \<Rightarrow> pe_offset e \<le> n | Inr (_, r) \<Rightarrow> I r)"

definition keeps_inside :: "('r \<Rightarrow> bool) \<Rightarrow> nat \<Rightarrow> 'r reader \<Rightarrow> bool" where
  "keeps_inside I n R \<longleftrightarrow> (\<forall>r. I r \<longrightarrow>
     answers I n (rd_next_node R r) \<and> answers I n (rd_object_first_key R r) \<and>
     answers I n (rd_object_next_key R r) \<and> answers I n (rd_array_first R r) \<and>
     answers I n (rd_array_next R r) \<and> answers I n (rd_skip_value R r) \<and>
     (\<forall>sl r'. rd_skip_value R r = Inr (sl, r') \<longrightarrow> fst sl + snd sl \<le> n))"

definition offsets_inside :: "('v, 'r) env \<Rightarrow> bytes \<Rightarrow> popts \<Rightarrow> bool" where
  "offsets_inside env input gr \<longleftrightarrow>
     (\<forall>evs e. env_scan env input gr = (evs, Some e) \<longrightarrow> pe_offset e \<le> length input) \<and>
     (\<exists>I. I (rd_open (env_reader env) input gr) \<and> keeps_inside I (length input) (env_reader env))"

lemma keeps_insideD:
  assumes "keeps_inside I n R" and "I r"
  shows "answers I n (rd_next_node R r)" and "answers I n (rd_object_first_key R r)"
    and "answers I n (rd_object_next_key R r)" and "answers I n (rd_array_first R r)"
    and "answers I n (rd_array_next R r)" and "answers I n (rd_skip_value R r)"
    and "rd_skip_value R r = Inr (sl, r') \<Longrightarrow> fst sl + snd sl \<le> n"
  using assms unfolding keeps_inside_def by blast+

lemma answers_simps [simp]:
  "answers I n (Inl e) \<longleftrightarrow> pe_offset e \<le> n" "answers I n (Inr (x, r)) \<longleftrightarrow> I r"
  by (simp_all add: answers_def)

lemma answers_tryr:
  "answers I n q \<Longrightarrow> (\<And>x r. q = Inr (x, r) \<Longrightarrow> I r \<Longrightarrow> answers I n (f (x, r))) \<Longrightarrow> answers I n (tryr q f)"
  by (cases q) auto

lemma answers_map: "answers I n q \<Longrightarrow> answers I n (map_ok (\<lambda>(x, r). (g x, r)) q)"
  by (cases q) auto

lemma open_node_inside:
  assumes "keeps_inside I n R" and "I r"
  shows "answers I n (open_node R fr r)"
  unfolding open_node_def
  by (rule answers_tryr [OF keeps_insideD(1) [OF assms]])
    (auto split: node.split intro!: answers_map keeps_insideD [OF assms(1)])

lemma advance_inside:
  assumes "keeps_inside I n R" and "I r"
  shows "answers I n (advance R fr inner r)"
  using keeps_insideD [OF assms] by (auto simp: advance_def Let_def intro!: answers_map)

lemma scan_loop_inside:
  "scan_loop R fr c r stack = Some y \<Longrightarrow> keeps_inside I n R \<Longrightarrow> I r \<Longrightarrow> y = Inl e \<Longrightarrow> pe_offset e \<le> n"
proof (induction rule: scan_loop.raw_induct [rotated, consumes 1, case_names step])
  case (step loop R fr c r stack y)
  show ?case
  proof (cases c)
    case AtValue
    with step open_node_inside [OF step(3,4), of fr] show ?thesis
      by (auto split: sum.splits option.splits)
  next
    case Complete
    show ?thesis
    proof (cases stack)
      case Nil
      with step(2,5) Complete show ?thesis by simp
    next
      case (Cons inner rest)
      with Complete step advance_inside [OF step(3,4), of fr inner] show ?thesis
        by (auto split: sum.splits option.splits)
    qed
  qed
qed

lemma walk_error_inside:
  assumes "offsets_inside env input gr" and "first_walk_error (env_reader env) input gr = Some (Some e)"
  shows "pe_offset e \<le> length input"
proof -
  from assms(1) obtain I where I: "I (rd_open (env_reader env) input gr)" "keeps_inside I (length input) (env_reader env)"
    by (auto simp: offsets_inside_def)
  from assms(2) obtain y where y: "scan (env_reader env) input gr False = Some y" "(case y of Inl e \<Rightarrow> Some e | Inr _ \<Rightarrow> None) = Some e"
    by (auto simp: first_walk_error_def)
  then have "y = Inl e" by (cases y) simp_all
  with scan_loop_inside [OF y(1) [unfolded scan_def] I(2,1)] show ?thesis by blast
qed

lemma skip_siblings_inside:
  "keeps_inside I n R \<Longrightarrow> I r \<Longrightarrow> skip_siblings R object k r = Inr r' \<Longrightarrow> I r'"
proof (induction k arbitrary: r)
  case (Suc k)
  from Suc.prems(3) obtain sl r1 r2 where skip: "rd_skip_value R r = Inr (sl, r1)"
    and more: "(if object then map_ok snd (rd_object_next_key R r1) else map_ok snd (rd_array_next R r1)) = Inr r2"
    and rest: "skip_siblings R object k r2 = Inr r'" by (auto simp: tryr_Inr_iff)
  have "I r1" using keeps_insideD(6) [OF Suc.prems(1,2)] skip by simp
  then have "I r2"
    using more keeps_insideD(3,5) [OF Suc.prems(1), of r1] by (auto simp: map_ok_tryr tryr_Inr_iff split: if_splits)
  with Suc.IH [OF Suc.prems(1) _ rest] show ?case by blast
qed simp

lemma descend_inside: "keeps_inside I n R \<Longrightarrow> I r \<Longrightarrow> descend R path r = Inr r' \<Longrightarrow> I r'"
proof (induction path arbitrary: r)
  case (Cons index path)
  from Cons.prems(3) obtain nd r1 r2 r3 where n: "rd_next_node R r = Inr (nd, r1)"
    and first: "(if nd = ObjectStart then map_ok snd (rd_object_first_key R r1) else map_ok snd (rd_array_first R r1)) = Inr r2"
    and skip: "skip_siblings R (nd = ObjectStart) index r2 = Inr r3" and rest: "descend R path r3 = Inr r'"
    by (auto simp: tryr_Inr_iff Let_def)
  have "I r1" using keeps_insideD(1) [OF Cons.prems(1,2)] n by simp
  then have "I r2"
    using first keeps_insideD(2,4) [OF Cons.prems(1), of r1] by (auto simp: map_ok_tryr tryr_Inr_iff split: if_splits)
  from skip_siblings_inside [OF Cons.prems(1) this skip] Cons.IH [OF Cons.prems(1) _ rest] show ?case by blast
qed simp

lemma duplicate_key_inside:
  assumes "offsets_inside env input gr" and "duplicate_key (env_reader env) input gr = Some (Found at key)"
  shows "at \<le> length input"
proof -
  from assms(1) obtain I where I: "I (rd_open (env_reader env) input gr)" "keeps_inside I (length input) (env_reader env)"
    by (auto simp: offsets_inside_def)
  from assms(2) obtain y where y: "scan (env_reader env) input gr True = Some y"
    "(case y of Inr None \<Rightarrow> Absent
      | Inr (Some (path, key)) \<Rightarrow>
          (case container_offset (env_reader env) input path gr of Inr at \<Rightarrow> Found at key | Inl _ \<Rightarrow> Undecided)
      | Inl _ \<Rightarrow> Undecided) = Found at key"
    by (auto simp: duplicate_key_def)
  from y(2) obtain path where "container_offset (env_reader env) input path gr = Inr at"
    by (auto split: sum.splits option.splits)
  then obtain r len r' where r: "descend (env_reader env) path (rd_open (env_reader env) input gr) = Inr r"
    "rd_skip_value (env_reader env) r = Inr ((at, len), r')"
    by (auto simp: container_offset_def tryr_Inr_iff map_ok_tryr)
  from keeps_insideD(7) [OF I(2) descend_inside [OF I(2,1) r(1)] r(2)] show ?thesis by simp
qed

section \<open>The exception of a line\<close>

text \<open>
  What an exception raised on the part of \<open>source\<close> that starts at \<open>start\<close> is when it is raised
  on \<open>source\<close>: the same class and message, its position moved.
\<close>

definition in_source :: "bytes \<Rightarrow> nat \<Rightarrow> ruby_error \<Rightarrow> ruby_error" where
  "in_source source start err =
     (case err of
        ParserError m (Some pos) \<Rightarrow> raised_at source (start + at_byte_offset pos) m
      | _ \<Rightarrow> err)"

lemma in_source_raised: "off \<le> length l \<Longrightarrow> in_source source start (raised_at l off m) = raised_at source (start + off) m"
  by (simp add: in_source_def raised_at_def parser_error_at_def Let_def)

lemma in_source_other [simp]:
  "in_source source start (parser_error m) = parser_error m" "in_source source start (NestingError x) = NestingError x"
  "in_source source start (GeneratorError x) = GeneratorError x" "in_source source start Hang = Hang"
  by (simp_all add: in_source_def parser_error_def)

lemma drive_error_in_source:
  assumes "offsets_inside env l (popts po)" and "sub source at (at + length l) = l"
    and "\<And>e. failure = ParseErr e \<Longrightarrow> pe_offset e \<le> length l"
  shows "drive_error env failure po source (at, at + length l) =
    in_source source at (drive_error env failure po l (0, length l))"
proof -
  have whole: "sub l 0 (length l) = l" by (simp add: sub_def)
  note inside = duplicate_key_inside [OF assms(1)] walk_error_inside [OF assms(1)]
  show ?thesis
  proof (cases failure)
    case (SinkErr a)
    show ?thesis
      by (cases a) (simp_all add: SinkErr drive_error_def assms(2) whole Let_def in_source_raised inside
          split: option.split repeat.split)
  qed (use assms(3) in \<open>simp add: drive_error_def Let_def in_source_raised\<close>)
qed

lemma drive_parse_error:
  "drive sc k input gr s = Inl (ParseErr e) \<Longrightarrow> \<exists>evs. sc input gr = (evs, Some e)"
  by (cases "sc input gr"; cases "run k (fst (sc input gr)) (s, [])")
    (auto simp: drive_def split: option.splits)

lemma materialize_in_source:
  assumes "offsets_inside env l (popts po)" and "sub source at (at + length l) = l"
    and "materialize env st l po = Inl err"
  shows "materialize_at env st source at (at + length l) po = Inl (in_source source at err)"
proof -
  let ?drive = "drive (env_scan env) (RubyValueSink (env_vm env)) l (popts po) (ruby_sink_for st po)"
  have whole: "sub l 0 (length l) = l" by (simp add: sub_def)
  from assms(3) obtain failure where f: "?drive = Inl failure" "err = drive_error env failure po l (0, length l)"
    by (cases ?drive) (simp_all add: materialize_def materialize_at_def finish_drive_def whole Let_def)
  have "pe_offset e \<le> length l" if "failure = ParseErr e" for e
    using drive_parse_error [OF f(1) [unfolded that]] assms(1) unfolding offsets_inside_def by blast
  from drive_error_in_source [OF assms(1,2) this] f show ?thesis
    by (simp add: materialize_at_def finish_drive_def assms(2) Let_def)
qed

lemma position_inside:
  assumes "materialize env st l po = Inl (ParserError m (Some pos))"
  shows "at_byte_offset pos \<le> length l"
proof -
  from assms obtain failure where "drive_error env failure po l (0, length l) = ParserError m (Some pos)"
    by (cases "drive (env_scan env) (RubyValueSink (env_vm env)) (sub l 0 (length l)) (popts po) (ruby_sink_for st po)")
      (auto simp: materialize_def materialize_at_def finish_drive_def Let_def)
  then show ?thesis
    by (cases failure; cases "case failure of SinkErr a \<Rightarrow> a | _ \<Rightarrow> Overflow")
      (auto simp: drive_error_def raised_at_def parser_error_at_def parser_error_def Let_def
        split: option.splits repeat.splits)
qed

text \<open>
  C35.  The first line \<open>parse\<close> refuses ends the walk, whatever is wrong with it: the block was
  handed the values of the lines before it, and the exception is the one \<open>parse\<close> raises on the
  bytes of that line alone (malformed or cut short, a second value on the line, too deep, a
  repeated key, a lone surrogate, a bad bignum).  A position it carries is the one in the whole source: the absolute
  byte offset and the physical line number, blank lines counted.
\<close>

theorem each_line_error:
  assumes "vm_law (env_vm env)" and "pool_ok (env_vm env) st" and "parse_native_opts opts = Inr po"
    and "utf8_input data = Inr input" and "lines_from 0 input = pre @ (at, l) # rest"
    and "\<forall>(at, l) \<in> set (filled pre). line_parses env po doc_of l" and "\<forall>hs v. blk hs v = Inr ()"
    and "\<not> blank l" and "offsets_inside env l (popts po)" and "materialize env st l po = Inl err"
  shows "each_line_native env blk st data opts =
      (map (line_value env po doc_of) (filled pre), Inl (in_source input at err)) \<and>
    (\<forall>m pos. err = ParserError m (Some pos) \<longrightarrow>
       (\<exists>pos'. in_source input at err = ParserError m (Some pos') \<and>
          at_byte_offset pos' = at + at_byte_offset pos \<and> at_line pos' = length pre + 1))"
proof (intro conjI allI impI)
  have sl: "sub input at (at + length l) = l" using line_slice [of at l input] assms(5) by simp
  have "\<forall>(at, l) \<in> set pre. sub input at (at + length l) = l \<and> (blank l \<or> line_parses env po doc_of l)"
    using assms(5,6) line_slice [of _ _ input] by (force simp: filled_def)
  from each_line_prefix [OF assms(1,2) this assms(7), of "(at, l) # rest" "[]"] obtain st' where
    walk: "pool_ok (env_vm env) st'" "each_line_native env blk st data opts =
      each_line env blk input po ((at, l) # rest) (map (line_value env po doc_of) (filled pre)) st'"
    unfolding walk_whole [OF assms(3,4)] assms(5) by auto
  have "materialize env st' l po = Inl err"
    using materialize_pool [OF assms(2) walk(1), of l 0 "length l" po] assms(10)
    by (cases "materialize env st' l po") (simp_all add: materialize_def)
  from materialize_in_source [OF assms(9) sl this] walk(2) assms(8)
  show "each_line_native env blk st data opts =
      (map (line_value env po doc_of) (filled pre), Inl (in_source input at err))" by simp
  fix m pos assume err: "err = ParserError m (Some pos)"
  have "0 < length l" using assms(8) by (cases l) (simp_all add: blank_def)
  moreover have "length l \<le> length input - at"
    using arg_cong [OF sl, of length] by (simp add: sub_def min_def split: if_splits)
  ultimately have fits: "at + length l \<le> length input" by linarith
  have off: "at_byte_offset pos \<le> length l" by (rule position_inside [OF assms(10) [unfolded err]])
  show "\<exists>pos'. in_source input at err = ParserError m (Some pos') \<and>
      at_byte_offset pos' = at + at_byte_offset pos \<and> at_line pos' = length pre + 1"
    using line_number [OF assms(5) off] off fits
    by (simp add: err in_source_def raised_at_def parser_error_at_def locate_def Let_def)
qed

text \<open>
  A parser that delivers the first value of \<open>1 2\<close> before it finds the second, and a Reader that
  refuses everything.
\<close>

abbreviation refused :: parse_error where
  "refused \<equiv> \<lparr>pe_offset = 0, pe_kind = OtherKind ''refused''\<rparr>"

definition blind_reader :: "unit reader" where
  "blind_reader =
     \<lparr>rd_open = (\<lambda>_ _. ()), rd_next_node = (\<lambda>_. Inl refused), rd_object_first_key = (\<lambda>_. Inl refused),
      rd_object_next_key = (\<lambda>_. Inl refused), rd_array_first = (\<lambda>_. Inl refused),
      rd_array_next = (\<lambda>_. Inl refused), rd_skip_value = (\<lambda>_. Inl refused)\<rparr>"

definition trailing_env :: "(term_value, unit) env" where
  "trailing_env =
     \<lparr>env_scan = (\<lambda>input gr. if input = asc ''1 2''
         then ([EvInt 1], Some \<lparr>pe_offset = 2, pe_kind = OtherKind ''trailing''\<rparr>) else sample_scan input gr),
      env_reader = blind_reader, env_vm = term_vm, env_fingerprint = (\<lambda>_. 0), env_show = (\<lambda>e. msg ''trailing characters'')\<rparr>"

lemma trailing_inside: "offsets_inside trailing_env (asc ''1 2'') gr"
  by (auto simp: offsets_inside_def trailing_env_def keeps_inside_def blind_reader_def asc_def Let_def
      intro: exI [of _ "\<lambda>_. True"])

theorem each_line_error_witness:
  "\<exists>pos. each_line_native trailing_env (\<lambda>_ _. Inr ()) fresh_pull_state
      (ascii_string (sample_text @ [b_nl] @ asc ''1 2'')) (OHash [(KSym ''allow_duplicate_key'', RTrue)]) =
    ([TArray [THash [TInterned (asc ''a''), TInt 1, TInterned (asc ''a''), TInt 2]]],
     Inl (ParserError (msg ''trailing characters'') (Some pos))) \<and>
    at_byte_offset pos = 18 \<and> at_line pos = 2"
proof -
  let ?in = "sample_text @ [b_nl] @ asc ''1 2''" and ?po = "parse_opts_default\<lparr>allow_duplicate_key := True\<rparr>"
  let ?err = "raised_at (asc ''1 2'') 2 (msg ''trailing characters'')"
  have u: "utf8_input (ascii_string ?in) = Inr ?in" by (simp add: utf8_input_def sample_text_def asc_def)
  have ls: "lines_from 0 ?in = [(0, sample_text)] @ (16, asc ''1 2'') # []" by (simp add: sample_text_def asc_def)
  have f: "filled [(0, sample_text)] = [(0, sample_text)]" by (simp add: filled_def sample_text_def asc_def blank_def)
  have law: "vm_law (env_vm trailing_env)" "pool_ok (env_vm trailing_env) fresh_pull_state"
    by (simp_all add: trailing_env_def term_vm_law fresh_pool_ok)
  have "line_parses trailing_env ?po (\<lambda>_. strip sample_pdoc) sample_text"
    using sample_line by (simp add: line_parses_def trailing_env_def scans_as_def) (simp add: sample_text_def asc_def)
  then have good: "\<forall>(at, l) \<in> set (filled [(0, sample_text)]). line_parses trailing_env ?po (\<lambda>_. strip sample_pdoc) l"
    unfolding f by simp
  have handed: "line_value trailing_env ?po (\<lambda>_. strip sample_pdoc) (0, sample_text) =
      TArray [THash [TInterned (asc ''a''), TInt 1, TInterned (asc ''a''), TInt 2]]"
    using sample_line_value [of "(0, sample_text)"] by (simp add: line_value_def trailing_env_def)
  have nb: "\<not> blank (asc ''1 2'')" by (simp add: blank_def asc_def)
  have bad: "materialize trailing_env fresh_pull_state (asc ''1 2'') ?po = Inl ?err"
    by (simp add: materialize_def materialize_at_def finish_drive_def drive_def drive_error_def trailing_env_def
        RubyValueSink_def push_raw_def sub_def asc_def Let_def)
  from each_line_error [OF law parse_opts_allow_duplicates u ls good _ nb trailing_inside bad, of "\<lambda>_ _. Inr ()"]
  show ?thesis
    unfolding f by (auto simp: handed raised_at_def parser_error_at_def asc_def Let_def)
qed

end
