(* ===== verification/Spec2Isabelle.thy ===== *)
theory Spec2Isabelle
  imports Files Patch_Ops Walks_End Exceptions Evictions Extension_Init Lines_Round_Trip
    Value_Walk_Refines Reformat_Round_Trip Line_Errors
begin

text \<open>
  A verification development of the native extension of the nosj gem (JSON for Ruby, in Rust):
  the crate under src/ext/nosj/src.

  \<^bold>\<open>The program.\<close>  A Ruby method of the gem calls a \<open>*_native\<close> function of the
  extension.  It decodes the options hash (opt_reader.rs, the option decoders of parse.rs,
  gen/opts.rs, stats.rs, reformat.rs), gates the encoding of its input (\<open>utf8_input\<close>), and
  hands the bytes to the external nosj crate, which pushes parse events into a sink of the
  extension (sink.rs, stats.rs, reformat.rs), resolves JSON Pointers to byte spans, or walks
  containers with a pull Reader.  In the other direction the walker of gen/ goes over Ruby
  objects and writes text with the crate's emission kernels.  Both keep per-thread state from
  call to call (state.rs): key caches whose VALUEs a shadow keeps alive for the GC.  Failures
  become Ruby exceptions with a position computed by errors.rs; the cold paths of locate.rs read
  the document again to find the place.

  \<^bold>\<open>What is a parameter.\<close>  Code outside the repository is never defined here.  The crate's
  parser is a \<open>scanner\<close> (the events of an input and an error, if any), its pull Reader a record
  \<open>reader\<close> of its methods, its pointer resolvers a record \<open>resolver\<close>, its Writer a \<open>renderer\<close>,
  its emission kernels an \<open>emitter\<close>.  The Ruby VM is the records \<open>vm\<close> (building values), \<open>ruby_api\<close>
  (what gen/ruby.rs calls, with the constants of the headers), \<open>vm_world\<close> (a memory of objects that
  calls change and a collector thins out) and \<open>exception_api\<close>; in the walker over objects, what Ruby
  code does during generation is part of the object (\<open>robj\<close>); the fingerprint hash, the
  equality of the patch operation \<open>test\<close>, the block of \<open>each_line\<close>, \<open>rb_hash_foreach\<close> and the
  operating system (\<open>os\<close>, Unix or Windows) are functions.  What the code relies on of these is
  stated by name: \<open>scans_as\<close> (the events of a document), \<open>reads\<close> (the Reader walks a document),
  \<open>parser_law\<close>, \<open>reader_law\<close>, \<open>reader_progress\<close> (its cursor moves forward), \<open>resolver_slices\<close>,
  \<open>reader_slices\<close> and \<open>offsets_inside\<close> (what it reports lies in the bytes it was given),
  \<open>foreach_law\<close> (pair by pair while the callback says so), \<open>file_is\<close> (one content, however it is read),
  \<open>vm_law\<close> (Integers and the size of a Hash), \<open>emitter_ok\<close>, \<open>flat_emitter\<close>, \<open>writes_utf8\<close>,
  \<open>writes_numbers\<close> and \<open>parses_texts\<close> and \<open>reads_text\<close> (the parser reads the texts of a document), \<open>writes_text\<close> (the
  Writer writes a text of it), \<open>api_law\<close> and
  \<open>header_law\<close> (the flags of a String's header), \<open>string_law\<close>, \<open>world_law\<close> (what is held stays, what a
  live container holds is alive, a kernel writes at most its longest text) and \<open>vm_contract\<close>
  (encoding indexes, immediates and a found class are constants).
\<close>

text \<open>
  \<^bold>\<open>Theories and sources.\<close>
  \<^item> Nosj_Prelude: bytes, results with \<open>tryr\<close> for the operator \<open>?\<close>, slices, iterators, floats by
    their bits.  Rust_Str: UTF-8 strings and character boundaries.  Lossy: \<open>from_utf8_lossy\<close>.
  \<^item> Error_Positions (errors.rs): \<open>locate\<close> and \<open>build_snippet\<close>; line, column and caret are exact
    and no slice is out of range.  Exceptions: the exception objects that carry them.
  \<^item> Opt_Reader (opt_reader.rs): the reader of an options hash with its bit sets; unknown keys are
    found exactly.  Option_Decoders: the decoders built on it.
  \<^item> Sink_Drive: events, sinks and \<open>drive\<close>.  Dup_Keys (\<open>DupKeys\<close>, \<open>SeenTable\<close> of sink.rs): the
    fingerprint table with its wrapping epoch; exact from every usable table.  Hashless_Sinks
    (\<open>NullSink\<close>) and Ruby_Sink (\<open>RubyValueSink\<close> with the key caches).
  \<^item> Pull_Reader and Locate (locate.rs): the Reader interface, the duplicate-key and surrogate
    walks.  Parse (parse.rs, \<open>PullState\<close> of state.rs): \<open>parse\<close> and \<open>valid?\<close>.
  \<^item> Pooled (state.rs): \<open>with_taken\<close> and \<open>with_pull_state\<close>, calls nested in calls or lost to a
    longjmp, and the shadows the GC marks.  Parse_Sessions and Gen_Sessions: any history of a
    thread's calls, failed ones included, and of collections that free what no shadow marks;
    Evictions: what the caches let go.
  \<^item> Stats (stats.rs), Reformat (reformat.rs): the counting sink and the pipe.
  \<^item> Pointer (pointer.rs, the pointer syntax of patch.rs): dig paths, escaping, batch lookups.
  \<^item> Gen_Values, Gen_Walker (gen/walker.rs, gen/keys.rs, gen/errors.rs, over the outcomes of the
    calls on each object), Gen_Printer (the reference printer and the refinement), Gen_Entries
    (gen/mod.rs), Gen_Results.  Hash_Iter (gen/hash_iter.rs): the object walk as closures the VM
    calls, and that they write the printer's text.  Gen_Ruby (gen/ruby.rs): the protected calls, statics and header flags behind the
    outcomes.  Round_Trip: generation and parsing together; Reformat_Round_Trip: reformatting
    and parsing together.
  \<^item> Vm_Memory and Value_Walk: gen/walker.rs once more, over raw VALUEs: tag bits, builtin types,
    slots read again after every callback, raw cursors within a reservation.  Every read of an
    object is guarded by its being alive, a protected call may change or free whatever the frames
    below do not hold (the list \<open>held\<close>: what the C stack keeps alive for the collector), and a
    read or write that is not allowed is the outcome \<open>Undefined\<close>.  Value_Walk_Safe: it never is.
    Value_Objects (which object a VALUE denotes), Value_Steps, Value_Fallbacks, Value_Arrays,
    Value_Walk_Refines: on a VALUE that denotes an object the walk does what Gen_Walker says.
  \<^item> File_Access and Files (files.rs and the file entries of stats.rs and reformat.rs).
  \<^item> Lines (lines.rs), Line_Errors (what a bad line raises), Lines_Framing (JSON Lines generation in
    gen/mod.rs), Lines_Round_Trip.
  \<^item> Extension_Init (lib.rs): the load of the extension.
  \<^item> Children: the walk over a container's children shared by patch.rs and lazy.rs.  Patch
    (patch.rs), Patch_Edits and Patch_Results (\<open>add\<close>, \<open>remove\<close>), Splice, Patch_Ops (\<open>move\<close>, \<open>test\<close>).
  \<^item> Lazy (lazy.rs), Lazy_Results; Walks_End: every walk with the Reader ends.
  \<^item> Samples, and the definitions named \<open>sample_\<dots>\<close>: concrete instances of the parameters, at
    which the theorems named \<open>\<dots>_witness\<close> apply the properties.

  A Rust struct is a record with its fields prefixed, an enum a datatype, \<open>Result\<close> the sum type
  with the error on the left; a thread-local or pooled value is an argument and part of the
  result; a loop is a recursive function, or a partial function where its end depends on the
  Reader, and then its end is proved (Walks_End).  The probe loop of the fingerprint table has
  as fuel the number of its slots, which is enough since the load factor keeps a slot free.
  The fuel of the walk over VALUEs bounds its depth and each loop; \<open>weight obj + 2\<close> is enough for an
  object, and a graph that callbacks keep growing may use up any fuel (\<open>Unfinished\<close>).
  \<open>Hang\<close> and \<open>Diverged\<close> stand for not returning, \<open>Panic\<close> for a panic; none is an exception of
  the code.
\<close>

text \<open>
  \<^bold>\<open>What the lemmas show.\<close>  For parsing: the value built for a document, when it is refused and
  with which position, and that \<open>valid?\<close> and \<open>parse\<close> agree, with the one ceiling at which they
  do not; the interfaces \<open>depth_sink\<close>, \<open>dup_detector\<close> and \<open>hashless_sink\<close> carry what the sinks
  share and are interpreted on each.  For generation: the walker, with its caches and fused fast
  paths, refines a printer of a few equations; \<open>key_cache_spec\<close> is the contract of the key
  cache; the walk over VALUEs refines that walker, and has no undefined behaviour even on
  arrays and hashes that their own callbacks change.  For pooled state: \<open>pooled\<close> carries an invariant through any history of calls and is
  interpreted on both pools, \<open>epoch_cache\<close> says what a cache cleared as a whole keeps alive and is
  interpreted on both key caches; so no result depends on what a thread did before.  Together:
  \<open>parse\<close> and \<open>each_line\<close> read back what \<open>generate\<close> and \<open>generate_lines\<close> wrote, and \<open>parse\<close> reads
  from the output of \<open>reformat\<close> the value of its input, which a second \<open>reformat\<close> leaves as it is.
  For pointers, lines, files and lazy documents: agreement with the plain entry points, errors and
  empty files included.
  For patches: each edit of the bytes is the edit of the list of entries that RFC 6902 describes,
  and nothing outside the container changes.

  \<^bold>\<open>Not modelled.\<close>  What the text is when callbacks change the arrays and hashes being walked
  (that the walk is safe then is shown); the generation scratch after a patch or splice that failed in a later step, and the
  read and output buffers that are cleared before each use (FILE_BUF, PIPE_BUF); the exact wording
  \<open>Debug\<close> gives a path; the cost and capacity of buffers; how a handle is wrapped and registered
  with the VM, the mark of a lazy node, write barriers, compaction, and threads that move between
  native threads; the debug banner of lib.rs, the fuzz harness and the Ruby files under src/lib.
  They are VM or runtime machinery, or have no logic of their own.
\<close>

end
